(* ===== verification/Prelude.thy ===== *)
theory Prelude
  imports Main "HOL-Library.Word"
begin

text \<open>
  Shared vocabulary of the development.

  \<^item> Machine types: \<open>u8\<close>, \<open>u16\<close>, \<open>u32\<close>, \<open>u64\<close> are words of the C width; \<open>+\<close> and \<open>-\<close> wrap.
  \<^item> A C array of fixed size is a function from the index (\<open>'a arr\<close>); the size is the bound of
    the loops that walk it and of the guards that index it.
  \<^item> A \<open>const char *\<close> is a \<open>cstr\<close>: \<open>None\<close> is the null pointer, \<open>Some p\<close> the characters before the
    terminating NUL.
  \<^item> A \<open>uint8_t\<close> flag that the code only ever sets to 0 or 1 and only compares with 0 is a \<open>bool\<close>.
  \<^item> A C \<open>int\<close> status is an \<open>int\<close> (0, -1, 1 or a length); a search that returns an index or -1
    returns a \<open>nat option\<close>.

  The theory holds the loop idioms the kernel repeats in every component (first matching slot,
  number of used slots, table of keyed slots, ring of slots, decimal digits) with their lemmas,
  and the two interfaces several components promise: a bounded registry of keys
  (\<open>bounded_registry\<close>) and a bounded first-in first-out queue (\<open>bounded_fifo\<close>).
\<close>

unbundle bit_operations_syntax

named_theorems slot_simps \<open>facts about tables of slots after one slot is written\<close>
named_theorems inv_defs \<open>the invariants of the components, for unfolding\<close>

type_synonym u8 = "8 word"
type_synonym u16 = "16 word"
type_synonym u32 = "32 word"
type_synonym u64 = "64 word"
type_synonym 'a arr = "nat \<Rightarrow> 'a"
type_synonym cstr = "string option"

section \<open>Definitions\<close>

subsection \<open>The first matching slot\<close>

text \<open>
  \<^verbatim>\<open>while (i < n) { if (P(i)) return (int)i; i++; } return -1;\<close>
\<close>

function scan :: "(nat \<Rightarrow> bool) \<Rightarrow> nat \<Rightarrow> nat \<Rightarrow> nat option" where
  "scan P i n = (if i < n then if P i then Some i else scan P (Suc i) n else None)"
  by pat_completeness auto
termination
  by (relation "measure (\<lambda>(P, i, n). n - i)") auto

declare scan.simps [simp del]

text \<open>
  \<^verbatim>\<open>for (i = 0; i < n; i++) { if (P(i)) count++; } return count;\<close>
\<close>

fun slot_count :: "(nat \<Rightarrow> bool) \<Rightarrow> nat \<Rightarrow> nat" where
  "slot_count P 0 = 0"
| "slot_count P (Suc n) = (if P n then Suc (slot_count P n) else slot_count P n)"

subsection \<open>Tables of slots\<close>

text \<open>
  A table is an array \<open>g\<close> of \<open>n\<close> slots with a test \<open>U\<close> for a used slot and a key \<open>K\<close>.
  \<open>find_key\<close> is the loop of \<open>find_path\<close>, \<open>find_name\<close>, \<open>find_pid\<close>, \<open>vmm_find\<close> and their kin,
  \<open>find_free\<close> that of \<open>free_slot\<close> and its kin.
\<close>

definition find_key :: "nat \<Rightarrow> ('r \<Rightarrow> bool) \<Rightarrow> ('r \<Rightarrow> 'k) \<Rightarrow> 'r arr \<Rightarrow> 'k \<Rightarrow> nat option" where
  "find_key n U K g k = scan (\<lambda>i. U (g i) \<and> K (g i) = k) 0 n"

definition find_free :: "nat \<Rightarrow> ('r \<Rightarrow> bool) \<Rightarrow> 'r arr \<Rightarrow> nat option" where
  "find_free n U g = scan (\<lambda>i. \<not> U (g i)) 0 n"

definition live :: "nat \<Rightarrow> ('r \<Rightarrow> bool) \<Rightarrow> 'r arr \<Rightarrow> nat set" where
  "live n U g = {i. i < n \<and> U (g i)}"

definition keys :: "nat \<Rightarrow> ('r \<Rightarrow> bool) \<Rightarrow> ('r \<Rightarrow> 'k) \<Rightarrow> 'r arr \<Rightarrow> 'k set" where
  "keys n U K g = (\<lambda>i. K (g i)) ` live n U g"

definition uniq_keys :: "nat \<Rightarrow> ('r \<Rightarrow> bool) \<Rightarrow> ('r \<Rightarrow> 'k) \<Rightarrow> 'r arr \<Rightarrow> bool" where
  "uniq_keys n U K g \<longleftrightarrow> inj_on (\<lambda>i. K (g i)) (live n U g)"

text \<open>A table as a finite map from its keys to what \<open>V\<close> reads from the slot.\<close>

definition tbl_map :: "nat \<Rightarrow> ('r \<Rightarrow> bool) \<Rightarrow> ('r \<Rightarrow> 'k) \<Rightarrow> ('r \<Rightarrow> 'v) \<Rightarrow> 'r arr \<Rightarrow> 'k \<rightharpoonup> 'v" where
  "tbl_map n U K V g k = map_option (\<lambda>i. V (g i)) (find_key n U K g k)"

text \<open>The invariant of a table with a counter \<open>c\<close> of its used slots.\<close>

definition tbl_inv :: "nat \<Rightarrow> ('r \<Rightarrow> bool) \<Rightarrow> ('r \<Rightarrow> 'k) \<Rightarrow> 'r arr \<Rightarrow> u32 \<Rightarrow> bool" where
  "tbl_inv n U K g c \<longleftrightarrow> uniq_keys n U K g \<and> unat c = card (live n U g)"

subsection \<open>Rings\<close>

text \<open>
  The contents of a ring buffer of \<open>n\<close> cells, oldest first: \<open>c\<close> cells from index \<open>h\<close> on,
  modulo \<open>n\<close>.
\<close>

definition ring_list :: "nat \<Rightarrow> 'a arr \<Rightarrow> nat \<Rightarrow> nat \<Rightarrow> 'a list" where
  "ring_list n b h c = map (\<lambda>i. b ((h + i) mod n)) [0..<c]"

subsection \<open>Abstract bounded set and bounded queue\<close>

text \<open>
  What a registry of keys promises: a set of at most \<open>cap\<close> keys, 0 for an accepted operation and
  -1 for a rejected one, which changes nothing.
\<close>

datatype 'k reg_op = Create 'k | Remove 'k

fun bset_step :: "nat \<Rightarrow> ('k \<Rightarrow> bool) \<Rightarrow> 'k reg_op \<Rightarrow> 'k set \<Rightarrow> int \<times> 'k set" where
  "bset_step cap valid (Create k) S =
     (if valid k \<and> k \<notin> S \<and> card S < cap then (0, insert k S) else (-1, S))"
| "bset_step cap valid (Remove k) S = (if k \<in> S then (0, S - {k}) else (-1, S))"

fun run_ops :: "('o \<Rightarrow> 's \<Rightarrow> 'r \<times> 's) \<Rightarrow> 'o list \<Rightarrow> 's \<Rightarrow> 'r list \<times> 's" where
  "run_ops step [] s = ([], s)"
| "run_ops step (x # xs) s =
     (let (r, s') = step x s; (rs, s'') = run_ops step xs s' in (r # rs, s''))"

fun reg_step :: "('k \<Rightarrow> 's \<Rightarrow> int \<times> 's) \<Rightarrow> ('k \<Rightarrow> 's \<Rightarrow> int \<times> 's) \<Rightarrow> 'k reg_op \<Rightarrow> 's \<Rightarrow> int \<times> 's" where
  "reg_step create remove (Create k) s = create k s"
| "reg_step create remove (Remove k) s = remove k s"

text \<open>What a queue promises: a list of at most \<open>cap\<close> elements, in first from the right.\<close>

datatype 'a fifo_op = Push 'a | Pop

fun blist_step :: "nat \<Rightarrow> ('a \<Rightarrow> bool) \<Rightarrow> 'a fifo_op \<Rightarrow> 'a list \<Rightarrow> (int \<times> 'a option) \<times> 'a list" where
  "blist_step cap ok (Push x) xs =
     (if ok x \<and> length xs < cap then ((0, None), xs @ [x]) else ((-1, None), xs))"
| "blist_step cap ok Pop xs = (case xs of [] \<Rightarrow> ((-1, None), []) | y # ys \<Rightarrow> ((0, Some y), ys))"

fun fifo_step :: "('a \<Rightarrow> 'q \<Rightarrow> int \<times> 'q) \<Rightarrow> ('q \<Rightarrow> 'a option \<times> 'q) \<Rightarrow> 'a fifo_op \<Rightarrow> 'q \<Rightarrow>
    (int \<times> 'a option) \<times> 'q" where
  "fifo_step push pop (Push x) q = (let (r, q') = push x q in ((r, None), q'))"
| "fifo_step push pop Pop q =
     (let (r, q') = pop q in ((if r = None then -1 else 0, r), q'))"

subsection \<open>Decimal digits\<close>

text \<open>
  The loop \<^verbatim>\<open>while (value != 0 && n < sizeof(tmp)) { tmp[n++] = '0' + value % 10; value /= 10; }\<close>
  shared by the two \<open>write_u32_ascii\<close> and by \<open>render_append_u32\<close>; the first argument is what is
  left of \<open>sizeof(tmp)\<close>. The digits come least significant first.
\<close>

definition digit_char :: "u32 \<Rightarrow> char" where
  "digit_char d = char_of (48 + unat d)"

fun dec_tmp :: "nat \<Rightarrow> u32 \<Rightarrow> string" where
  "dec_tmp 0 v = []"
| "dec_tmp (Suc k) v = (if v = 0 then [] else digit_char (v mod 10) # dec_tmp k (v div 10))"

text \<open>The digits of a number as the code prints them, most significant first.\<close>

definition dec_string :: "u32 \<Rightarrow> string" where
  "dec_string v = (if v = 0 then ''0'' else rev (dec_tmp 16 v))"

text \<open>
  \<open>write_u32_ascii(out, cap, value)\<close> for a non-null \<open>out\<close>: the number of digits it reports and the
  characters it stores from \<open>out[0]\<close> on (it keeps the last byte of \<open>cap\<close> free).
\<close>

definition write_u32_ascii :: "nat \<Rightarrow> u32 \<Rightarrow> nat \<times> string" where
  "write_u32_ascii cap v =
     (if cap = 0 then (0, [])
      else if v = 0 then (1, if cap > 1 then ''0'' else [])
      else let tmp = dec_tmp 16 v in (length tmp, take (cap - 1) (rev tmp)))"

text \<open>Reading digits back, \<^verbatim>\<open>pid = pid * 10 + (ch - '0')\<close>, from the left.\<close>

fun dec_read :: "u32 \<Rightarrow> string \<Rightarrow> u32" where
  "dec_read a [] = a"
| "dec_read a (c # cs) = dec_read (a * 10 + word_of_nat (of_char c - 48)) cs"

definition is_dec_digit :: "char \<Rightarrow> bool" where
  "is_dec_digit c \<longleftrightarrow> 48 \<le> (of_char c :: nat) \<and> (of_char c :: nat) \<le> 57"

section \<open>Scanning\<close>

lemma scan_Some_iff:
  "scan P i n = Some k \<longleftrightarrow> i \<le> k \<and> k < n \<and> P k \<and> (\<forall>j. i \<le> j \<and> j < k \<longrightarrow> \<not> P j)"
proof (induction P i n rule: scan.induct)
  case (1 P i n)
  show ?case
  proof (cases "i < n \<and> \<not> P i")
    case True
    have "(Suc i \<le> k \<and> k < n \<and> P k \<and> (\<forall>j. Suc i \<le> j \<and> j < k \<longrightarrow> \<not> P j)) \<longleftrightarrow>
        (i \<le> k \<and> k < n \<and> P k \<and> (\<forall>j. i \<le> j \<and> j < k \<longrightarrow> \<not> P j))"
      using True by (metis Suc_le_eq le_neq_implies_less less_imp_le_nat)
    with True 1 show ?thesis by (simp add: scan.simps [of P i n])
  next
    case False
    then show ?thesis by (auto simp: scan.simps [of P i n])
  qed
qed

lemma scan_None_iff: "scan P i n = None \<longleftrightarrow> (\<forall>j. i \<le> j \<and> j < n \<longrightarrow> \<not> P j)"
proof (induction P i n rule: scan.induct)
  case (1 P i n)
  show ?case
  proof (cases "i < n \<and> \<not> P i")
    case True
    have "(\<forall>j. Suc i \<le> j \<and> j < n \<longrightarrow> \<not> P j) \<longleftrightarrow> (\<forall>j. i \<le> j \<and> j < n \<longrightarrow> \<not> P j)"
      using True by (metis Suc_le_eq le_neq_implies_less less_imp_le_nat)
    with True 1 show ?thesis by (simp add: scan.simps [of P i n])
  next
    case False
    then show ?thesis by (auto simp: scan.simps [of P i n])
  qed
qed

lemma scan_SomeD: "scan P 0 n = Some k \<Longrightarrow> k < n \<and> P k"
  by (simp add: scan_Some_iff)

text \<open>Evaluation of a scan on concrete data, one slot at a time.\<close>

lemma scan_hit: "i < n \<Longrightarrow> P i \<Longrightarrow> scan P i n = Some i"
  by (simp add: scan.simps)

lemma scan_skip: "i < n \<Longrightarrow> \<not> P i \<Longrightarrow> scan P i n = scan P (Suc i) n"
  by (simp add: scan.simps [of P i n])

lemma scan_end: "\<not> i < n \<Longrightarrow> scan P i n = None"
  by (simp add: scan.simps)

lemmas scan_eval = scan_hit scan_skip scan_end

lemma scan_cong: "(\<And>i. i < n \<Longrightarrow> P i = Q i) \<Longrightarrow> scan P k n = scan Q k n"
proof (induction "n - k" arbitrary: k)
  case 0
  then show ?case by (simp add: scan_end)
next
  case (Suc d)
  then have "scan P (Suc k) n = scan Q (Suc k) n" "k < n" by auto
  with Suc.prems show ?case by (simp add: scan.simps [of _ k])
qed

lemma find_map_scan: "find Q (map f [0..<n]) = map_option f (scan (\<lambda>i. Q (f i)) 0 n)"
proof (cases "scan (\<lambda>i. Q (f i)) 0 n")
  case None
  then have "find Q (map f [0..<n]) = None" by (auto simp: scan_None_iff find_None_iff)
  with None show ?thesis by simp
next
  case (Some i)
  then have "find Q (map f [0..<n]) = Some (f i)"
    by (auto simp: scan_Some_iff find_Some_iff intro!: exI [of _ i])
  with Some show ?thesis by simp
qed

lemma find_filter: "find P xs = (case filter P xs of [] \<Rightarrow> None | y # _ \<Rightarrow> Some y)"
  by (induction xs) auto

lemma scan_filter: "scan P 0 n = (case filter P [0..<n] of [] \<Rightarrow> None | i # _ \<Rightarrow> Some i)"
  using find_map_scan [of P "\<lambda>i. i" n] by (simp add: find_filter option.map_ident)

lemma filter_drop_first:
  assumes "filter P xs = y # ys" "distinct xs"
  shows "filter (\<lambda>x. P x \<and> x \<noteq> y) xs = ys"
proof -
  have "filter (\<lambda>x. P x \<and> x \<noteq> y) xs = filter (\<lambda>x. x \<noteq> y) (filter P xs)" by (simp add: conj_commute)
  also have "distinct (y # ys)" using assms by (metis distinct_filter)
  then have "filter (\<lambda>x. x \<noteq> y) (filter P xs) = ys" using assms(1) by (auto simp: filter_id_conv)
  finally show ?thesis .
qed

lemma slot_count_card: "slot_count P n = card {i. i < n \<and> P i}"
proof (induction n)
  case 0
  then show ?case by simp
next
  case (Suc n)
  have "{i. i < Suc n \<and> P i} = (if P n then insert n {i. i < n \<and> P i} else {i. i < n \<and> P i})"
    by (auto simp: less_Suc_eq)
  with Suc show ?case by simp
qed

lemma slot_count_le: "slot_count P n \<le> n"
  by (induction n) auto

section \<open>Tables\<close>

lemma finite_live [simp]: "finite (live n U g)"
  by (simp add: live_def)

lemma finite_keys [simp]: "finite (keys n U K g)"
  by (simp add: keys_def)

lemma mem_live [simp]: "i \<in> live n U g \<longleftrightarrow> i < n \<and> U (g i)"
  by (simp add: live_def)

lemma slot_count_live: "slot_count (\<lambda>i. U (g i)) n = card (live n U g)"
  by (simp add: slot_count_card live_def)

lemma card_live_le: "card (live n U g) \<le> n"
  using slot_count_le [of "\<lambda>i. U (g i)" n] by (simp add: slot_count_live)

lemma card_live_full: "card (live n U g) = n \<longleftrightarrow> (\<forall>i<n. U (g i))"
proof
  assume "card (live n U g) = n"
  then have "card (live n U g) = card {..<n}" by simp
  then have "live n U g = {..<n}"
    by (intro card_subset_eq) (auto simp: live_def)
  then show "\<forall>i<n. U (g i)" by (auto simp: live_def)
next
  assume "\<forall>i<n. U (g i)"
  then have "live n U g = {..<n}" by (auto simp: live_def)
  then show "card (live n U g) = n" by simp
qed

lemma find_key_Some: "find_key n U K g k = Some i \<Longrightarrow> i < n \<and> U (g i) \<and> K (g i) = k"
  by (simp add: find_key_def scan_Some_iff)

lemma find_key_None: "find_key n U K g k = None \<longleftrightarrow> k \<notin> keys n U K g"
  by (auto simp: find_key_def scan_None_iff keys_def)

lemma find_key_mem: "k \<in> keys n U K g \<longleftrightarrow> (\<exists>i. find_key n U K g k = Some i)"
  using find_key_None [of n U K g k] by auto

lemma find_free_Some: "find_free n U g = Some i \<Longrightarrow> i < n \<and> \<not> U (g i)"
  by (simp add: find_free_def scan_Some_iff)

lemma find_free_None: "find_free n U g = None \<longleftrightarrow> card (live n U g) = n"
  by (simp add: find_free_def scan_None_iff card_live_full)

lemma find_free_room: "card (live n U g) < n \<Longrightarrow> \<exists>i. find_free n U g = Some i"
  using find_free_None [of n U g] by auto

lemma find_key_uniq:
  assumes "uniq_keys n U K g" "i < n" "U (g i)"
  shows "find_key n U K g (K (g i)) = Some i"
proof -
  have "K (g i) \<in> keys n U K g" using assms by (auto simp: keys_def)
  then obtain j where j: "find_key n U K g (K (g i)) = Some j"
    by (auto simp: find_key_mem)
  then have "j = i"
    using find_key_Some [OF j] assms by (auto simp: uniq_keys_def inj_on_def)
  with j show ?thesis by simp
qed

lemma find_key_eqI:
  assumes "uniq_keys n U K g" "i < n" "U (g i)" "K (g i) = k"
  shows "find_key n U K g k = Some i"
  using find_key_uniq [OF assms(1-3)] assms(4) by simp

lemma card_keys: "uniq_keys n U K g \<Longrightarrow> card (keys n U K g) = card (live n U g)"
  by (simp add: keys_def uniq_keys_def card_image)

lemma live_insert [slot_simps]:
  "i < n \<Longrightarrow> U r \<Longrightarrow> live n U (g(i := r)) = insert i (live n U g)"
  by (auto simp: live_def)

lemma live_remove [slot_simps]: "\<not> U r \<Longrightarrow> live n U (g(i := r)) = live n U g - {i}"
  by (auto simp: live_def)

lemma card_live_insert [slot_simps]:
  "i < n \<Longrightarrow> \<not> U (g i) \<Longrightarrow> U r \<Longrightarrow> card (live n U (g(i := r))) = Suc (card (live n U g))"
  by (simp add: live_insert)

lemma card_live_remove [slot_simps]:
  "i < n \<Longrightarrow> U (g i) \<Longrightarrow> \<not> U r \<Longrightarrow> Suc (card (live n U (g(i := r)))) = card (live n U g)"
  by (simp add: live_remove card_Suc_Diff1 del: card_Diff_insert)

lemma live_replace [slot_simps]: "U (g i) = U r \<Longrightarrow> live n U (g(i := r)) = live n U g"
  by (auto simp: live_def)

lemma keys_insert [slot_simps]:
  "i < n \<Longrightarrow> \<not> U (g i) \<Longrightarrow> U r \<Longrightarrow> keys n U K (g(i := r)) = insert (K r) (keys n U K g)"
  unfolding keys_def by (subst live_insert) (auto simp: image_def)

lemma keys_remove [slot_simps]:
  assumes "uniq_keys n U K g" "i < n" "U (g i)" "\<not> U r"
  shows "keys n U K (g(i := r)) = keys n U K g - {K (g i)}"
proof -
  have "(\<lambda>j. K ((g(i := r)) j)) ` (live n U g - {i}) = (\<lambda>j. K (g j)) ` (live n U g - {i})"
    by (rule image_cong) auto
  also have "\<dots> = (\<lambda>j. K (g j)) ` live n U g - {K (g i)}"
    using assms(1-3) by (auto simp: uniq_keys_def inj_on_def)
  finally show ?thesis using assms(4) by (simp add: keys_def live_remove)
qed

lemma keys_replace [slot_simps]:
  "U (g i) \<Longrightarrow> U r \<Longrightarrow> K r = K (g i) \<Longrightarrow> keys n U K (g(i := r)) = keys n U K g"
  unfolding keys_def by (subst live_replace) (auto intro!: image_cong)

lemma uniq_keys_insert [slot_simps]:
  assumes "uniq_keys n U K g" "i < n" "\<not> U (g i)" "U r" "K r \<notin> keys n U K g"
  shows "uniq_keys n U K (g(i := r))"
proof -
  let ?f = "\<lambda>j. K ((g(i := r)) j)"
  have notin: "i \<notin> live n U g" using assms(3) by simp
  then have "inj_on ?f (live n U g) = inj_on (\<lambda>j. K (g j)) (live n U g)"
    by (intro inj_on_cong) auto
  then have "inj_on ?f (live n U g)" using assms(1) by (simp add: uniq_keys_def)
  moreover have "?f i \<notin> ?f ` (live n U g - {i})"
  proof
    assume "?f i \<in> ?f ` (live n U g - {i})"
    then obtain j where j: "j \<in> live n U g" "j \<noteq> i" "?f i = ?f j" by blast
    then have "K r = K (g j)" by simp
    with j(1) have "K r \<in> keys n U K g" unfolding keys_def by blast
    with assms(5) show False ..
  qed
  ultimately have "inj_on ?f (insert i (live n U g))" by (simp only: inj_on_insert simp_thms)
  moreover have "live n U (g(i := r)) = insert i (live n U g)"
    by (simp add: live_insert assms(2,4))
  ultimately show ?thesis by (simp only: uniq_keys_def)
qed

lemma uniq_keys_remove [slot_simps]:
  assumes "uniq_keys n U K g" "\<not> U r"
  shows "uniq_keys n U K (g(i := r))"
proof -
  have "inj_on (\<lambda>j. K (g j)) (live n U g - {i})"
    using assms(1) unfolding uniq_keys_def by (rule inj_on_subset) auto
  then have "inj_on (\<lambda>j. K ((g(i := r)) j)) (live n U g - {i})"
    by (rule inj_on_cong [THEN iffD1, rotated]) auto
  moreover have "live n U (g(i := r)) = live n U g - {i}" by (simp add: live_remove assms(2))
  ultimately show ?thesis by (simp only: uniq_keys_def)
qed

lemma uniq_keys_replace [slot_simps]:
  assumes "uniq_keys n U K g" "U (g i)" "U r" "K r = K (g i)"
  shows "uniq_keys n U K (g(i := r))"
proof -
  have "(\<lambda>j. K ((g(i := r)) j)) = (\<lambda>j. K (g j))" using assms(4) by auto
  moreover have "live n U (g(i := r)) = live n U g" using assms by (simp add: live_replace)
  ultimately show ?thesis using assms(1) by (simp add: uniq_keys_def)
qed

lemma find_key_insert:
  assumes "uniq_keys n U K g" "i < n" "\<not> U (g i)" "U r" "K r \<notin> keys n U K g"
  shows "find_key n U K (g(i := r)) k = (if k = K r then Some i else find_key n U K g k)"
proof (cases "find_key n U K g k")
  case None
  show ?thesis
  proof (cases "k = K r")
    case True
    then show ?thesis
      using assms find_key_eqI [OF uniq_keys_insert [OF assms] assms(2), of k] by simp
  next
    case False
    with None assms have "k \<notin> keys n U K (g(i := r))"
      by (simp add: keys_insert find_key_None)
    then have "find_key n U K (g(i := r)) k = None" by (simp only: find_key_None not_False_eq_True)
    with None False show ?thesis by simp
  qed
next
  case (Some j)
  then have "k \<in> keys n U K g" unfolding find_key_mem by blast
  with assms(5) have "K r \<noteq> k" by blast
  moreover have "j \<noteq> i" using find_key_Some [OF Some] assms(3) by blast
  ultimately have "find_key n U K (g(i := r)) k = Some j"
    using find_key_Some [OF Some]
    by (intro find_key_eqI [OF uniq_keys_insert [OF assms]]) simp_all
  with Some \<open>K r \<noteq> k\<close> show ?thesis by simp
qed

lemma find_key_remove:
  assumes "uniq_keys n U K g" "i < n" "U (g i)" "\<not> U r"
  shows "find_key n U K (g(i := r)) k = (if k = K (g i) then None else find_key n U K g k)"
proof (cases "find_key n U K g k")
  case None
  then have "k \<notin> keys n U K (g(i := r))"
    unfolding keys_remove [OF assms] find_key_None by blast
  then have "find_key n U K (g(i := r)) k = None" by (simp only: find_key_None not_False_eq_True)
  with None show ?thesis by simp
next
  case (Some j)
  show ?thesis
  proof (cases "k = K (g i)")
    case True
    then have "k \<notin> keys n U K (g(i := r))" unfolding keys_remove [OF assms] by blast
    then have "find_key n U K (g(i := r)) k = None" by (simp only: find_key_None not_False_eq_True)
    with True show ?thesis by simp
  next
    case False
    with find_key_Some [OF Some] have "j \<noteq> i" by blast
    then have "find_key n U K (g(i := r)) k = Some j"
      using find_key_Some [OF Some]
      by (intro find_key_eqI [OF uniq_keys_remove [OF assms(1,4)]]) simp_all
    with Some False show ?thesis by simp
  qed
qed

lemma find_key_replace:
  assumes "U (g i)" "U r" "K r = K (g i)"
  shows "find_key n U K (g(i := r)) k = find_key n U K g k"
proof -
  have "(\<lambda>j. U ((g(i := r)) j) \<and> K ((g(i := r)) j) = k) = (\<lambda>j. U (g j) \<and> K (g j) = k)"
    using assms by auto
  then show ?thesis by (simp add: find_key_def)
qed

lemma dom_tbl_map: "dom (tbl_map n U K V g) = keys n U K g"
  using find_key_None [of n U K g] by (auto simp: tbl_map_def dom_def)

lemma tbl_map_Some: "find_key n U K g k = Some i \<Longrightarrow> tbl_map n U K V g k = Some (V (g i))"
  by (simp add: tbl_map_def)

lemma tbl_map_None: "tbl_map n U K V g k = None \<longleftrightarrow> find_key n U K g k = None"
  by (simp add: tbl_map_def)

lemma tbl_map_insert:
  assumes "uniq_keys n U K g" "i < n" "\<not> U (g i)" "U r" "K r \<notin> keys n U K g"
  shows "tbl_map n U K V (g(i := r)) = (tbl_map n U K V g)(K r \<mapsto> V r)"
proof
  fix k
  have "find_key n U K g k \<noteq> Some i" using assms(3) by (auto dest: find_key_Some)
  then show "tbl_map n U K V (g(i := r)) k = ((tbl_map n U K V g)(K r \<mapsto> V r)) k"
    by (cases "find_key n U K g k") (auto simp: tbl_map_def find_key_insert [OF assms])
qed

lemma tbl_map_remove:
  assumes "uniq_keys n U K g" "i < n" "U (g i)" "\<not> U r"
  shows "tbl_map n U K V (g(i := r)) = (tbl_map n U K V g)(K (g i) := None)"
proof
  fix k
  have "find_key n U K g k = Some i \<Longrightarrow> k = K (g i)" by (auto dest: find_key_Some)
  then show "tbl_map n U K V (g(i := r)) k = ((tbl_map n U K V g)(K (g i) := None)) k"
    by (cases "find_key n U K g k") (auto simp: tbl_map_def find_key_remove [OF assms])
qed

lemma tbl_map_replace:
  assumes "uniq_keys n U K g" "i < n" "U (g i)" "U r" "K r = K (g i)"
  shows "tbl_map n U K V (g(i := r)) = (tbl_map n U K V g)(K r \<mapsto> V r)"
proof
  fix k
  have f: "find_key n U K (g(i := r)) k = find_key n U K g k"
    by (rule find_key_replace [where U = U]) (use assms in simp_all)
  have "find_key n U K g k = Some i \<longleftrightarrow> k = K r"
    using find_key_uniq [OF assms(1-3)] assms(5) by (auto dest: find_key_Some)
  then show "tbl_map n U K V (g(i := r)) k = ((tbl_map n U K V g)(K r \<mapsto> V r)) k"
    by (cases "find_key n U K g k") (auto simp: tbl_map_def f)
qed

lemma live_empty [simp]: "(\<And>i. \<not> U (g i)) \<Longrightarrow> live n U g = {}"
  by (simp add: live_def)

lemma keys_empty [simp]: "(\<And>i. \<not> U (g i)) \<Longrightarrow> keys n U K g = {}"
  by (simp add: keys_def)

lemma uniq_keys_empty [simp]: "(\<And>i. \<not> U (g i)) \<Longrightarrow> uniq_keys n U K g"
  by (simp add: uniq_keys_def)

text \<open>The counters the code keeps beside a table.\<close>

lemma unat_Suc_count: "unat (c :: u32) = m \<Longrightarrow> m < n \<Longrightarrow> n \<le> 2 ^ 31 \<Longrightarrow> unat (c + 1) = Suc m"
  by (simp add: unat_word_ariths)

lemma unat_pred_count: "unat (c :: u32) = Suc m \<Longrightarrow> unat (c - 1) = m"
  by (subst unat_minus_one) auto

lemma tbl_insert [slot_simps]:
  assumes "tbl_inv n U K g c" "i < n" "\<not> U (g i)" "U r" "K r \<notin> keys n U K g" "n \<le> 2 ^ 31"
  shows "tbl_inv n U K (g(i := r)) (c + 1)"
proof -
  have "card (live n U g) \<noteq> n" using assms(2,3) by (auto simp: card_live_full)
  with card_live_le [of n U g] have "card (live n U g) < n" by simp
  with assms show ?thesis
    unfolding tbl_inv_def by (simp add: card_live_insert uniq_keys_insert unat_Suc_count [OF _ _ assms(6)])
qed

lemma tbl_remove [slot_simps]:
  assumes "tbl_inv n U K g c" "i < n" "U (g i)" "\<not> U r"
  shows "tbl_inv n U K (g(i := r)) (c - 1)"
proof -
  have "Suc (card (live n U (g(i := r)))) = card (live n U g)"
    using assms by (simp add: card_live_remove)
  with assms show ?thesis
    unfolding tbl_inv_def by (simp add: uniq_keys_remove unat_pred_count)
qed

lemma tbl_replace [slot_simps]:
  "tbl_inv n U K g c \<Longrightarrow> U (g i) \<Longrightarrow> U r \<Longrightarrow> K r = K (g i) \<Longrightarrow> tbl_inv n U K (g(i := r)) c"
  by (simp add: tbl_inv_def uniq_keys_replace live_replace)

lemma tbl_card: "tbl_inv n U K g c \<Longrightarrow> card (keys n U K g) = unat c"
  by (simp add: tbl_inv_def card_keys)

lemma tbl_bound: "tbl_inv n U K g c \<Longrightarrow> unat c \<le> n"
  using card_live_le by (simp add: tbl_inv_def)

lemma tbl_full: "tbl_inv n U K g c \<Longrightarrow> find_free n U g = None \<longleftrightarrow> unat c = n"
  by (simp add: tbl_inv_def find_free_None)

lemma tbl_uniq: "tbl_inv n U K g c \<Longrightarrow> uniq_keys n U K g"
  by (simp add: tbl_inv_def)

section \<open>Rings\<close>

lemma length_ring_list [simp]: "length (ring_list n b h c) = c"
  by (simp add: ring_list_def)

lemma ring_list_0 [simp]: "ring_list n b h 0 = []"
  by (simp add: ring_list_def)

lemma ring_list_push:
  assumes "c < n" "t = (h + c) mod n"
  shows "ring_list n (b(t := x)) h (Suc c) = ring_list n b h c @ [x]"
proof -
  have "(h + i) mod n \<noteq> t" if "i < c" for i
  proof
    assume "(h + i) mod n = t"
    then have "(h + i) mod n = (h + c) mod n" using assms(2) by simp
    then have "i mod n = c mod n" by (simp add: nat_mod_eq_iff)
    with that assms(1) show False by simp
  qed
  with assms(2) show ?thesis by (simp add: ring_list_def)
qed

lemma ring_list_pop:
  assumes "0 < n" "h < n"
  shows "ring_list n b h (Suc c) = b h # ring_list n b ((h + 1) mod n) c"
proof -
  have "map (\<lambda>i. b ((h + i) mod n)) [0..<Suc c] =
      b (h mod n) # map (\<lambda>i. b ((h + Suc i) mod n)) [0..<c]"
    by (simp add: upt_conv_Cons map_Suc_upt [symmetric] del: upt_Suc)
  also have "map (\<lambda>i. b ((h + Suc i) mod n)) [0..<c] = ring_list n b ((h + 1) mod n) c"
    by (simp add: ring_list_def mod_simps)
  finally show ?thesis using assms by (simp add: ring_list_def)
qed

lemma ring_list_cong:
  "(\<And>i. i < c \<Longrightarrow> b ((h + i) mod n) = b' ((h + i) mod n)) \<Longrightarrow> ring_list n b h c = ring_list n b' h c"
  by (simp add: ring_list_def)

section \<open>Decimal digits\<close>

lemma of_char_digit_char: "d < 10 \<Longrightarrow> (of_char (digit_char d) :: nat) = 48 + unat d"
proof -
  assume "d < 10"
  then have "unat d < 10" by (simp add: word_less_nat_alt)
  then show ?thesis by (simp add: digit_char_def of_char_of)
qed

lemma mod_10_less: "(v :: u32) mod 10 < 10"
  by (simp add: word_mod_less_divisor)

lemma dec_tmp_digits: "c \<in> set (dec_tmp k v) \<Longrightarrow> is_dec_digit c"
proof (induction k arbitrary: v)
  case 0
  then show ?case by simp
next
  case (Suc k)
  have "unat (v mod 10) < 10"
    using mod_10_less [of v] by (simp add: word_less_nat_alt)
  with Suc show ?case
    by (auto simp: is_dec_digit_def of_char_digit_char mod_10_less split: if_splits)
qed

lemma dec_read_append: "dec_read a (xs @ ys) = dec_read (dec_read a xs) ys"
  by (induction xs arbitrary: a) auto

lemma dec_read_rev_tmp: "unat v < 10 ^ k \<Longrightarrow> dec_read 0 (rev (dec_tmp k v)) = v"
proof (induction k arbitrary: v)
  case 0
  then show ?case by (simp add: unsigned_eq_0_iff)
next
  case (Suc k)
  show ?case
  proof (cases "v = 0")
    case True
    then show ?thesis by simp
  next
    case False
    have "unat (v div 10) < 10 ^ k"
      using Suc.prems by (simp add: unat_div less_mult_imp_div_less mult.commute)
    then have "dec_read 0 (rev (dec_tmp k (v div 10))) = v div 10" by (rule Suc.IH)
    moreover have "v div 10 * 10 + v mod 10 = v"
      by (rule div_mult_mod_eq)
    ultimately show ?thesis
      using False by (simp add: dec_read_append of_char_digit_char mod_10_less)
  qed
qed

lemma unat_u32_lt: "unat (v :: u32) < 4294967296"
  using unsigned_less [of v] by simp

lemma unat_u64_lt: "unat (v :: u64) < 18446744073709551616"
  using unsigned_less [of v] by simp

lemma unat_u64_of_nat: "n < 18446744073709551616 \<Longrightarrow> unat (word_of_nat n :: u64) = n"
  by (simp add: unat_of_nat)

lemma unat_u32_of_nat: "n < 4294967296 \<Longrightarrow> unat (word_of_nat n :: u32) = n"
  by (simp add: unat_of_nat)

lemma unat_ucast_u64: "unat (ucast (v :: u32) :: u64) = unat v"
  using unat_u32_lt [of v] by (simp add: unsigned_ucast_eq take_bit_eq_mod)

lemma ex_u32_less: "(\<exists>k < unat (n :: u32). P k) \<longleftrightarrow> (\<exists>k < n. P (unat k))"
proof
  assume "\<exists>k < unat n. P k"
  then obtain k where k: "k < unat n" "P k" by blast
  have "unat (word_of_nat k :: u32) = k"
    using k(1) unat_u32_lt [of n] by (intro unat_u32_of_nat) simp
  with k show "\<exists>k < n. P (unat k)"
    by (intro exI [of _ "word_of_nat k"]) (simp add: word_less_nat_alt)
qed (auto simp: word_less_nat_alt)

lemma dec_read_dec_string: "dec_read 0 (dec_string v) = v"
proof (cases "v = 0")
  case True
  then show ?thesis by (simp add: dec_string_def)
next
  case False
  have "unat v < 10 ^ 16" using unat_u32_lt [of v] by simp
  with False show ?thesis by (simp add: dec_string_def dec_read_rev_tmp)
qed

lemma dec_string_digits: "c \<in> set (dec_string v) \<Longrightarrow> is_dec_digit c"
  by (auto simp: dec_string_def is_dec_digit_def dest: dec_tmp_digits split: if_splits)

lemma length_dec_tmp: "unat v < 10 ^ k \<Longrightarrow> length (dec_tmp m v) \<le> k"
proof (induction k arbitrary: v m)
  case 0
  then have "v = 0" by (simp add: unsigned_eq_0_iff)
  then show ?case by (cases m) auto
next
  case (Suc k)
  have "unat (v div 10) < 10 ^ k"
    using Suc.prems by (simp add: unat_div less_mult_imp_div_less mult.commute)
  then have "length (dec_tmp (m - 1) (v div 10)) \<le> k" by (rule Suc.IH)
  then show ?case by (cases m) auto
qed

lemma length_dec_string: "length (dec_string v) \<le> 10" "dec_string v \<noteq> []"
proof -
  have "unat v < 10 ^ 10" using unat_u32_lt [of v] by simp
  then have "length (dec_tmp 16 v) \<le> 10" by (rule length_dec_tmp)
  then show "length (dec_string v) \<le> 10" by (simp add: dec_string_def)
  show "dec_string v \<noteq> []" by (simp add: dec_string_def numeral_eq_Suc)
qed

lemma write_u32_ascii_room: "10 < cap \<Longrightarrow> write_u32_ascii cap v = (length (dec_string v), dec_string v)"
  using length_dec_string(1) [of v]
  by (auto simp: write_u32_ascii_def dec_string_def Let_def)

section \<open>Simulation\<close>

text \<open>
  A component whose operations, given as a step function, implement the steps of an abstract
  state through an abstraction function and an invariant implements every run of them: the same
  results in the same order, and the abstraction of the final state is the abstract final state.
\<close>

locale simulation =
  fixes cstep :: "'o \<Rightarrow> 's \<Rightarrow> 'r \<times> 's"
    and astep :: "'o \<Rightarrow> 'a \<Rightarrow> 'r \<times> 'a"
    and abs :: "'s \<Rightarrow> 'a"
    and invar :: "'s \<Rightarrow> bool"
  assumes sim_step: "invar s \<Longrightarrow>
    \<exists>s'. cstep x s = (fst (astep x (abs s)), s') \<and> invar s' \<and> abs s' = snd (astep x (abs s))"
begin

lemma sim_run:
  assumes "invar s"
  shows "\<exists>s'. run_ops cstep xs s = (fst (run_ops astep xs (abs s)), s') \<and>
    invar s' \<and> abs s' = snd (run_ops astep xs (abs s))"
  using assms
proof (induction xs arbitrary: s)
  case Nil
  then show ?case by simp
next
  case (Cons x xs)
  obtain s' where s': "cstep x s = (fst (astep x (abs s)), s')" "invar s'"
    "abs s' = snd (astep x (abs s))"
    using sim_step [OF Cons.prems] by blast
  from Cons.IH [OF s'(2)] obtain s'' where
    "run_ops cstep xs s' = (fst (run_ops astep xs (abs s')), s'')"
    "invar s''" "abs s'' = snd (run_ops astep xs (abs s'))"
    by blast
  with s' show ?case by (simp add: Let_def split_beta)
qed

lemma sim_invar: "invar s \<Longrightarrow> invar (snd (run_ops cstep xs s))"
  using sim_run [of s xs] by auto

end

section \<open>A registry of keys\<close>

text \<open>
  The contract of \<open>qos_vfs_create\<close> / \<open>qos_vfs_remove\<close>, \<open>qos_proc_create\<close> / \<open>qos_proc_remove\<close>,
  \<open>qos_net_udp_bind\<close> / \<open>qos_net_udp_unbind\<close> and the other tables: a bounded set of keys.
\<close>

locale bounded_registry =
  fixes cap :: nat
    and valid :: "'k \<Rightarrow> bool"
    and create :: "'k \<Rightarrow> 's \<Rightarrow> int \<times> 's"
    and remove :: "'k \<Rightarrow> 's \<Rightarrow> int \<times> 's"
    and members :: "'s \<Rightarrow> 'k set"
    and invar :: "'s \<Rightarrow> bool"
  assumes create_accept:
      "invar s \<Longrightarrow> valid k \<Longrightarrow> k \<notin> members s \<Longrightarrow> card (members s) < cap \<Longrightarrow>
         \<exists>s'. create k s = (0, s') \<and> invar s' \<and> members s' = insert k (members s)"
    and create_reject:
      "invar s \<Longrightarrow> \<not> (valid k \<and> k \<notin> members s \<and> card (members s) < cap) \<Longrightarrow> create k s = (-1, s)"
    and remove_accept:
      "invar s \<Longrightarrow> k \<in> members s \<Longrightarrow>
         \<exists>s'. remove k s = (0, s') \<and> invar s' \<and> members s' = members s - {k}"
    and remove_reject: "invar s \<Longrightarrow> k \<notin> members s \<Longrightarrow> remove k s = (-1, s)"
    and members_bound: "invar s \<Longrightarrow> card (members s) \<le> cap \<and> finite (members s)"
begin

lemma step_refines:
  assumes "invar s"
  shows "\<exists>s'. reg_step create remove x s = (fst (bset_step cap valid x (members s)), s') \<and>
    invar s' \<and> members s' = snd (bset_step cap valid x (members s))"
proof (cases x)
  case (Create k)
  show ?thesis
  proof (cases "valid k \<and> k \<notin> members s \<and> card (members s) < cap")
    case True
    with Create create_accept [OF assms] show ?thesis by simp
  next
    case False
    with Create assms create_reject [OF assms] show ?thesis by simp
  qed
next
  case (Remove k)
  then show ?thesis
    using assms remove_accept [OF assms] remove_reject [OF assms] by (cases "k \<in> members s") auto
qed

lemma create_remove_restores:
  assumes "invar s" "create k s = (0, s')"
  shows "\<exists>s''. remove k s' = (0, s'') \<and> invar s'' \<and> members s'' = members s"
proof -
  have k: "valid k \<and> k \<notin> members s \<and> card (members s) < cap"
    using assms create_reject [of s k] by (metis fst_conv zero_neq_neg_one)
  with create_accept [OF assms(1), of k] assms(2)
  have "invar s'" "members s' = insert k (members s)" by auto
  then show ?thesis using remove_accept [of s' k] k by auto
qed

end

sublocale bounded_registry \<subseteq> reg_sim: simulation "reg_step create remove" "bset_step cap valid" members invar
  by unfold_locales (rule step_refines)

section \<open>A bounded queue\<close>

text \<open>
  The contract of the packet queue of the network stack, of the slot queue of the work queue and
  of the pending-connection queue of a listening socket.
\<close>

locale bounded_fifo =
  fixes cap :: nat
    and ok :: "'a \<Rightarrow> bool"
    and push :: "'a \<Rightarrow> 'q \<Rightarrow> int \<times> 'q"
    and pop :: "'q \<Rightarrow> 'a option \<times> 'q"
    and contents :: "'q \<Rightarrow> 'a list"
    and invar :: "'q \<Rightarrow> bool"
  assumes push_accept:
      "invar q \<Longrightarrow> ok x \<Longrightarrow> length (contents q) < cap \<Longrightarrow>
         \<exists>q'. push x q = (0, q') \<and> invar q' \<and> contents q' = contents q @ [x]"
    and push_reject: "invar q \<Longrightarrow> \<not> (ok x \<and> length (contents q) < cap) \<Longrightarrow> push x q = (-1, q)"
    and pop_accept:
      "invar q \<Longrightarrow> contents q = x # xs \<Longrightarrow> \<exists>q'. pop q = (Some x, q') \<and> invar q' \<and> contents q' = xs"
    and pop_reject: "invar q \<Longrightarrow> contents q = [] \<Longrightarrow> pop q = (None, q)"
    and contents_bound: "invar q \<Longrightarrow> length (contents q) \<le> cap"
begin

lemma fifo_step_refines:
  assumes "invar q"
  shows "\<exists>q'. fifo_step push pop x q = (fst (blist_step cap ok x (contents q)), q') \<and>
    invar q' \<and> contents q' = snd (blist_step cap ok x (contents q))"
proof (cases x)
  case (Push a)
  show ?thesis
  proof (cases "ok a \<and> length (contents q) < cap")
    case True
    with Push push_accept [OF assms] show ?thesis by fastforce
  next
    case False
    with Push assms push_reject [OF assms] show ?thesis by auto
  qed
next
  case Pop
  show ?thesis
  proof (cases "contents q")
    case Nil
    with Pop assms pop_reject [OF assms] show ?thesis by simp
  next
    case (Cons a as)
    with Pop pop_accept [OF assms Cons] show ?thesis by auto
  qed
qed

end

sublocale bounded_fifo \<subseteq> fifo_sim: simulation "fifo_step push pop" "blist_step cap ok" contents invar
  by unfold_locales (rule fifo_step_refines)

end
