(* ===== verification/Proc.thy ===== *)
theory Proc
  imports Prelude
begin

text \<open>
  The process table of \<^verbatim>\<open>src/c-os/kernel/proc/proc.c\<close>: creation, fork, exit and wait, working
  directories and names, the executable image, and signals. The parallel arrays are one array of
  records. An \<open>int32_t\<close> that is only stored and copied is an integer; a pointer argument that may be
  null is an option, and the flag \<open>out\<close> says that an output pointer is not null.
\<close>

section \<open>State\<close>

abbreviation (input) QOS_PROC_MAX :: nat where "QOS_PROC_MAX \<equiv> 256"
abbreviation (input) QOS_SIGNAL_MAX :: nat where "QOS_SIGNAL_MAX \<equiv> 32"
abbreviation (input) QOS_PROC_CWD_MAX :: nat where "QOS_PROC_CWD_MAX \<equiv> 128"
abbreviation (input) QOS_PROC_NAME_MAX :: nat where "QOS_PROC_NAME_MAX \<equiv> 32"
abbreviation (input) QOS_SIG_DFL :: u64 where "QOS_SIG_DFL \<equiv> 0"
abbreviation (input) QOS_SIG_IGN :: u64 where "QOS_SIG_IGN \<equiv> 1"
abbreviation (input) QOS_SIGKILL :: nat where "QOS_SIGKILL \<equiv> 9"
abbreviation (input) QOS_SIGSTOP :: nat where "QOS_SIGSTOP \<equiv> 19"
abbreviation (input) QOS_SIG_TRAMPOLINE_VA :: u64 where "QOS_SIG_TRAMPOLINE_VA \<equiv> 0x00007FFF00000000"

record exec_image =
  im_entry :: u64
  im_phoff :: u64
  im_phentsize :: u16
  im_phnum :: u16
  im_load_count :: u16
  im_has_interp :: u8
  im_interp_off :: u64
  im_interp_len :: u64

record sigaltstack =
  ss_sp :: u64
  ss_size :: u64
  ss_flags :: u32

record sigframe =
  sf_pretcode :: u64
  sf_signum :: int
  sf_saved_mask :: u32
  sf_saved_handler :: u64

record proc_slot =
  p_used :: bool
  p_pid :: u32
  p_ppid :: u32
  p_exited :: bool
  p_stopped :: bool
  p_exit_code :: int
  p_cwd :: string
  p_cwd_len :: u8
  p_name :: string
  p_name_len :: u8
  p_handlers :: "u64 arr"
  p_pending :: u32
  p_blocked :: u32
  p_altstack :: sigaltstack
  p_image :: exec_image

record proc_state =
  g_procs :: "proc_slot arr"
  g_proc_count :: u32

section \<open>Model\<close>

definition signum_valid :: "u32 \<Rightarrow> bool" where
  "signum_valid signum \<longleftrightarrow> signum > 0 \<and> unat signum < QOS_SIGNAL_MAX"

definition signum_bit :: "nat \<Rightarrow> u32" where
  "signum_bit signum = push_bit signum 1"

definition unmaskable_bits :: u32 where
  "unmaskable_bits = signum_bit QOS_SIGKILL OR signum_bit QOS_SIGSTOP"

definition set_proc :: "nat \<Rightarrow> proc_slot \<Rightarrow> proc_state \<Rightarrow> proc_state" where
  "set_proc i p s = s\<lparr>g_procs := (g_procs s)(i := p)\<rparr>"

definition cwd_set_idx :: "nat \<Rightarrow> cstr \<Rightarrow> proc_state \<Rightarrow> int \<times> proc_state" where
  "cwd_set_idx idx path s =
     (case path of
        None \<Rightarrow> (-1, s)
      | Some p \<Rightarrow>
          if p = [] \<or> hd p \<noteq> CHR ''/'' then (-1, s)
          else if length p = 0 \<or> length p \<ge> QOS_PROC_CWD_MAX then (-1, s)
          else (0, set_proc idx ((g_procs s idx)\<lparr>p_cwd := p, p_cwd_len := word_of_nat (length p)\<rparr>) s))"

definition init_name_idx :: "nat \<Rightarrow> u32 \<Rightarrow> proc_state \<Rightarrow> proc_state" where
  "init_name_idx idx pid s =
     (let prefix = ''proc-'';
          off = length prefix;
          (n, digits) = write_u32_ascii (QOS_PROC_NAME_MAX - off) pid;
          off = off + n;
          off = (if off \<ge> QOS_PROC_NAME_MAX then QOS_PROC_NAME_MAX - 1 else off) in
      set_proc idx ((g_procs s idx)\<lparr>p_name := take off (prefix @ digits), p_name_len := word_of_nat off\<rparr>) s)"

definition init_signal_state :: "nat \<Rightarrow> proc_state \<Rightarrow> proc_state" where
  "init_signal_state idx s =
     set_proc idx ((g_procs s idx)\<lparr>p_handlers := (\<lambda>_. 0), p_pending := 0, p_blocked := 0,
       p_altstack := \<lparr>ss_sp = 0, ss_size = 0, ss_flags = 0\<rparr>\<rparr>) s"

definition image0 :: exec_image where
  "image0 = \<lparr>im_entry = 0, im_phoff = 0, im_phentsize = 0, im_phnum = 0, im_load_count = 0, im_has_interp = 0,
     im_interp_off = 0, im_interp_len = 0\<rparr>"

definition init_exec_image_state :: "nat \<Rightarrow> proc_state \<Rightarrow> proc_state" where
  "init_exec_image_state idx s = set_proc idx ((g_procs s idx)\<lparr>p_image := image0\<rparr>) s"

definition find_pid :: "u32 \<Rightarrow> proc_state \<Rightarrow> nat option" where
  "find_pid pid s = find_key QOS_PROC_MAX p_used p_pid (g_procs s) pid"

definition free_slot :: "proc_state \<Rightarrow> nat option" where
  "free_slot s = find_free QOS_PROC_MAX p_used (g_procs s)"

definition qos_proc_reset :: proc_state where
  "qos_proc_reset =
     \<lparr>g_procs = (\<lambda>_. \<lparr>p_used = False, p_pid = 0, p_ppid = 0, p_exited = False, p_stopped = False, p_exit_code = 0,
        p_cwd = [], p_cwd_len = 0, p_name = [], p_name_len = 0, p_handlers = (\<lambda>_. 0), p_pending = 0, p_blocked = 0,
        p_altstack = \<lparr>ss_sp = 0, ss_size = 0, ss_flags = 0\<rparr>, p_image = image0\<rparr>),
      g_proc_count = 0\<rparr>"

definition qos_proc_create :: "u32 \<Rightarrow> u32 \<Rightarrow> proc_state \<Rightarrow> int \<times> proc_state" where
  "qos_proc_create pid ppid s =
     (if pid = 0 then (-1, s)
      else if find_pid pid s \<noteq> None then (-1, s)
      else case free_slot s of
        None \<Rightarrow> (-1, s)
      | Some slot \<Rightarrow>
          let s1 = set_proc slot ((g_procs s slot)\<lparr>p_used := True, p_exited := False, p_stopped := False,
                     p_exit_code := 0, p_pid := pid, p_ppid := ppid\<rparr>) s;
              (r, s2) = cwd_set_idx slot (Some ''/'') s1 in
          if r \<noteq> 0 then (-1, s2)
          else let s3 = init_exec_image_state slot (init_signal_state slot (init_name_idx slot pid s2)) in
            (0, s3\<lparr>g_proc_count := g_proc_count s3 + 1\<rparr>))"

definition qos_proc_fork :: "u32 \<Rightarrow> u32 \<Rightarrow> proc_state \<Rightarrow> int \<times> proc_state" where
  "qos_proc_fork parent_pid child_pid s =
     (if child_pid = 0 \<or> find_pid child_pid s \<noteq> None then (-1, s)
      else case find_pid parent_pid s of
        None \<Rightarrow> (-1, s)
      | Some parent_idx \<Rightarrow>
          case free_slot s of
            None \<Rightarrow> (-1, s)
          | Some child_idx \<Rightarrow>
              let p = g_procs s parent_idx;
                  s1 = set_proc child_idx ((g_procs s child_idx)\<lparr>p_used := True, p_exited := False, p_stopped := False,
                         p_exit_code := 0, p_pid := child_pid, p_ppid := parent_pid, p_cwd := p_cwd p,
                         p_cwd_len := p_cwd_len p\<rparr>) s;
                  s2 = init_name_idx child_idx child_pid s1;
                  s3 = set_proc child_idx ((g_procs s2 child_idx)\<lparr>p_handlers := p_handlers p, p_blocked := p_blocked p,
                         p_pending := 0, p_altstack := p_altstack p, p_image := p_image p\<rparr>) s2 in
              (0, s3\<lparr>g_proc_count := g_proc_count s3 + 1\<rparr>))"

definition qos_proc_remove :: "u32 \<Rightarrow> proc_state \<Rightarrow> int \<times> proc_state" where
  "qos_proc_remove pid s =
     (case find_pid pid s of
        None \<Rightarrow> (-1, s)
      | Some idx \<Rightarrow>
          let s1 = set_proc idx ((g_procs s idx)\<lparr>p_used := False, p_exited := False, p_stopped := False, p_exit_code := 0,
                     p_pid := 0, p_ppid := 0, p_cwd := [], p_cwd_len := 0, p_name := [], p_name_len := 0\<rparr>) s;
              s2 = init_exec_image_state idx (init_signal_state idx s1) in
          (0, s2\<lparr>g_proc_count := g_proc_count s2 - 1\<rparr>))"

definition qos_proc_parent :: "u32 \<Rightarrow> proc_state \<Rightarrow> int" where
  "qos_proc_parent pid s = (case find_pid pid s of None \<Rightarrow> -1 | Some idx \<Rightarrow> sint (p_ppid (g_procs s idx)))"

definition qos_proc_alive :: "u32 \<Rightarrow> proc_state \<Rightarrow> bool" where
  "qos_proc_alive pid s = (case find_pid pid s of None \<Rightarrow> False | Some idx \<Rightarrow> \<not> p_exited (g_procs s idx))"

definition qos_proc_count :: "proc_state \<Rightarrow> u32" where
  "qos_proc_count s = g_proc_count s"

definition qos_proc_name_get :: "u32 \<Rightarrow> bool \<Rightarrow> u32 \<Rightarrow> proc_state \<Rightarrow> int \<times> string option" where
  "qos_proc_name_get pid out out_len s =
     (case find_pid pid s of
        None \<Rightarrow> (-1, None)
      | Some idx \<Rightarrow>
          if \<not> out \<or> out_len = 0 then (-1, None)
          else let len = ucast (p_name_len (g_procs s idx)) :: u32 in
            if len + 1 > out_len then (-1, None)
            else (int (unat len), Some (take (unat len) (p_name (g_procs s idx)))))"

definition qos_proc_exit :: "u32 \<Rightarrow> int \<Rightarrow> proc_state \<Rightarrow> int \<times> proc_state" where
  "qos_proc_exit pid code s =
     (case find_pid pid s of
        None \<Rightarrow> (-1, s)
      | Some idx \<Rightarrow>
          if p_exited (g_procs s idx) then (-1, s)
          else (0, set_proc idx ((g_procs s idx)\<lparr>p_exited := True, p_stopped := False, p_exit_code := code\<rparr>) s))"

text \<open>
  \<open>qos_proc_wait\<close>: the result, the status written through \<open>out_status\<close> (when it is not null), the state.
  The identifier asked for is an \<open>int32_t\<close>; \<open>QOS_WAIT_WNOHANG\<close> is bit 0 of the options.
\<close>

definition wait_match :: "u32 \<Rightarrow> int \<Rightarrow> u32 \<Rightarrow> proc_state \<Rightarrow> int + nat" where
  "wait_match parent_pid pid options s =
     (let nohang = (if options AND 1 \<noteq> 0 then 0 else -1) in
      if pid = -1 then
        (case scan (\<lambda>i. p_used (g_procs s i) \<and> p_ppid (g_procs s i) = parent_pid \<and> p_exited (g_procs s i)) 0 QOS_PROC_MAX of
           None \<Rightarrow> Inl nohang
         | Some i \<Rightarrow> Inr i)
      else
        (case find_pid (word_of_int pid) s of
           None \<Rightarrow> Inl nohang
         | Some i \<Rightarrow>
             if p_ppid (g_procs s i) \<noteq> parent_pid then Inl (-1)
             else if \<not> p_exited (g_procs s i) then Inl nohang
             else Inr i))"

definition qos_proc_wait :: "u32 \<Rightarrow> int \<Rightarrow> u32 \<Rightarrow> proc_state \<Rightarrow> int \<times> int option \<times> proc_state" where
  "qos_proc_wait parent_pid pid options s =
     (if find_pid parent_pid s = None then (-1, None, s)
      else case wait_match parent_pid pid options s of
        Inl r \<Rightarrow> (r, None, s)
      | Inr i \<Rightarrow>
          let p = p_pid (g_procs s i) in
          (sint p, Some (p_exit_code (g_procs s i)), snd (qos_proc_remove p s)))"

definition qos_proc_cwd_set :: "u32 \<Rightarrow> cstr \<Rightarrow> proc_state \<Rightarrow> int \<times> proc_state" where
  "qos_proc_cwd_set pid path s = (case find_pid pid s of None \<Rightarrow> (-1, s) | Some idx \<Rightarrow> cwd_set_idx idx path s)"

definition qos_proc_cwd_get :: "u32 \<Rightarrow> bool \<Rightarrow> u32 \<Rightarrow> proc_state \<Rightarrow> int \<times> string option" where
  "qos_proc_cwd_get pid out out_len s =
     (case find_pid pid s of
        None \<Rightarrow> (-1, None)
      | Some idx \<Rightarrow>
          if \<not> out \<or> out_len = 0 then (-1, None)
          else let len = ucast (p_cwd_len (g_procs s idx)) :: u32 in
            if len + 1 > out_len then (-1, None)
            else (int (unat len), Some (take (unat len) (p_cwd (g_procs s idx)))))"

definition qos_proc_exec_signal_reset :: "u32 \<Rightarrow> proc_state \<Rightarrow> int \<times> proc_state" where
  "qos_proc_exec_signal_reset pid s =
     (case find_pid pid s of
        None \<Rightarrow> (-1, s)
      | Some idx \<Rightarrow>
          let p = g_procs s idx in
          (0, set_proc idx (p\<lparr>p_handlers := (\<lambda>n. if 1 \<le> n \<and> n < QOS_SIGNAL_MAX \<and> p_handlers p n \<noteq> QOS_SIG_IGN
                 then QOS_SIG_DFL else p_handlers p n), p_pending := 0,
               p_blocked := p_blocked p AND NOT unmaskable_bits\<rparr>) s))"

definition qos_proc_exec_image_set :: "u32 \<Rightarrow> exec_image option \<Rightarrow> proc_state \<Rightarrow> int \<times> proc_state" where
  "qos_proc_exec_image_set pid img s =
     (case find_pid pid s of
        None \<Rightarrow> (-1, s)
      | Some idx \<Rightarrow>
          case img of None \<Rightarrow> (-1, s) | Some im \<Rightarrow> (0, set_proc idx ((g_procs s idx)\<lparr>p_image := im\<rparr>) s))"

definition qos_proc_exec_image_get :: "u32 \<Rightarrow> bool \<Rightarrow> proc_state \<Rightarrow> int \<times> exec_image option" where
  "qos_proc_exec_image_get pid out s =
     (case find_pid pid s of
        None \<Rightarrow> (-1, None)
      | Some idx \<Rightarrow> if \<not> out then (-1, None) else (0, Some (p_image (g_procs s idx))))"

definition qos_proc_signal_set_handler :: "u32 \<Rightarrow> u32 \<Rightarrow> u64 \<Rightarrow> proc_state \<Rightarrow> int \<times> proc_state" where
  "qos_proc_signal_set_handler pid signum handler s =
     (case find_pid pid s of
        None \<Rightarrow> (-1, s)
      | Some idx \<Rightarrow>
          if \<not> signum_valid signum then (-1, s)
          else if (unat signum = QOS_SIGKILL \<or> unat signum = QOS_SIGSTOP) \<and> handler \<noteq> QOS_SIG_DFL then (-1, s)
          else (0, set_proc idx ((g_procs s idx)\<lparr>p_handlers := (p_handlers (g_procs s idx))(unat signum := handler)\<rparr>) s))"

definition qos_proc_signal_get_handler :: "u32 \<Rightarrow> u32 \<Rightarrow> bool \<Rightarrow> proc_state \<Rightarrow> int \<times> u64 option" where
  "qos_proc_signal_get_handler pid signum out s =
     (case find_pid pid s of
        None \<Rightarrow> (-1, None)
      | Some idx \<Rightarrow>
          if \<not> signum_valid signum \<or> \<not> out then (-1, None)
          else (0, Some (p_handlers (g_procs s idx) (unat signum))))"

definition qos_proc_signal_set_mask :: "u32 \<Rightarrow> u32 \<Rightarrow> proc_state \<Rightarrow> int \<times> proc_state" where
  "qos_proc_signal_set_mask pid sigmask s =
     (case find_pid pid s of
        None \<Rightarrow> (-1, s)
      | Some idx \<Rightarrow> (0, set_proc idx ((g_procs s idx)\<lparr>p_blocked := sigmask AND NOT unmaskable_bits\<rparr>) s))"

definition qos_proc_signal_mask :: "u32 \<Rightarrow> bool \<Rightarrow> proc_state \<Rightarrow> int \<times> u32 option" where
  "qos_proc_signal_mask pid out s =
     (case find_pid pid s of
        None \<Rightarrow> (-1, None)
      | Some idx \<Rightarrow> if \<not> out then (-1, None) else (0, Some (p_blocked (g_procs s idx))))"

definition qos_proc_signal_pending :: "u32 \<Rightarrow> bool \<Rightarrow> proc_state \<Rightarrow> int \<times> u32 option" where
  "qos_proc_signal_pending pid out s =
     (case find_pid pid s of
        None \<Rightarrow> (-1, None)
      | Some idx \<Rightarrow> if \<not> out then (-1, None) else (0, Some (p_pending (g_procs s idx))))"

definition qos_proc_signal_send :: "u32 \<Rightarrow> u32 \<Rightarrow> proc_state \<Rightarrow> int \<times> proc_state" where
  "qos_proc_signal_send pid signum s =
     (case find_pid pid s of
        None \<Rightarrow> (-1, s)
      | Some idx \<Rightarrow>
          if \<not> signum_valid signum then (-1, s)
          else (0, set_proc idx ((g_procs s idx)\<lparr>p_pending := p_pending (g_procs s idx) OR signum_bit (unat signum)\<rparr>) s))"

definition qos_proc_signal_apply_default :: "u32 \<Rightarrow> u32 \<Rightarrow> proc_state \<Rightarrow> int \<times> proc_state" where
  "qos_proc_signal_apply_default pid signum s =
     (case find_pid pid s of
        None \<Rightarrow> (-1, s)
      | Some idx \<Rightarrow>
          let p = g_procs s idx in
          if \<not> signum_valid signum then (-1, s)
          else if signum = 17 then (0, s)
          else if signum = 18 then (0, set_proc idx (p\<lparr>p_stopped := False\<rparr>) s)
          else if unat signum = QOS_SIGSTOP \<or> signum = 20 \<or> signum = 21 \<or> signum = 22
            then (0, set_proc idx (p\<lparr>p_stopped := True\<rparr>) s)
          else (0, set_proc idx (p\<lparr>p_stopped := False, p_exited := True, p_exit_code := 128 + int (unat signum)\<rparr>) s))"

text \<open>The loop of \<open>qos_proc_signal_next\<close> from signal \<open>n\<close> on, with the deliverable signals found before it.\<close>

function signal_loop :: "u32 \<Rightarrow> nat \<Rightarrow> u32 \<Rightarrow> nat \<Rightarrow> proc_state \<Rightarrow> int \<times> proc_state" where
  "signal_loop pid idx deliverable n s =
     (if n < QOS_SIGNAL_MAX then
        if deliverable AND signum_bit n \<noteq> 0 then
          let handler = p_handlers (g_procs s idx) n;
              s1 = set_proc idx ((g_procs s idx)\<lparr>p_pending := p_pending (g_procs s idx) AND NOT (signum_bit n)\<rparr>) s in
          if handler = QOS_SIG_IGN then signal_loop pid idx deliverable (Suc n) s1
          else if handler = QOS_SIG_DFL then (int n, snd (qos_proc_signal_apply_default pid (word_of_nat n) s1))
          else (int n, s1)
        else signal_loop pid idx deliverable (Suc n) s
      else (0, s))"
  by pat_completeness auto
termination
  by (relation "measure (\<lambda>(pid, idx, d, n, s). QOS_SIGNAL_MAX - n)") auto

declare signal_loop.simps [simp del]

definition qos_proc_signal_next :: "u32 \<Rightarrow> proc_state \<Rightarrow> int \<times> proc_state" where
  "qos_proc_signal_next pid s =
     (case find_pid pid s of
        None \<Rightarrow> (-1, s)
      | Some idx \<Rightarrow>
          let pending = p_pending (g_procs s idx) in
          if pending = 0 then (0, s)
          else let deliverable = (pending AND NOT (p_blocked (g_procs s idx))) OR (pending AND unmaskable_bits) in
            if deliverable = 0 then (0, s) else signal_loop pid idx deliverable 1 s)"

definition qos_proc_signal_prepare_frame :: "u32 \<Rightarrow> u32 \<Rightarrow> bool \<Rightarrow> proc_state \<Rightarrow> int \<times> sigframe option" where
  "qos_proc_signal_prepare_frame pid signum out s =
     (case find_pid pid s of
        None \<Rightarrow> (-1, None)
      | Some idx \<Rightarrow>
          if \<not> signum_valid signum \<or> \<not> out then (-1, None)
          else let handler = p_handlers (g_procs s idx) (unat signum) in
            if handler = QOS_SIG_DFL \<or> handler = QOS_SIG_IGN then (-1, None)
            else (0, Some \<lparr>sf_pretcode = QOS_SIG_TRAMPOLINE_VA, sf_signum = int (unat signum),
                   sf_saved_mask = p_blocked (g_procs s idx), sf_saved_handler = handler\<rparr>))"

definition qos_proc_signal_sigreturn :: "u32 \<Rightarrow> sigframe option \<Rightarrow> proc_state \<Rightarrow> int \<times> proc_state" where
  "qos_proc_signal_sigreturn pid frame s =
     (case find_pid pid s of
        None \<Rightarrow> (-1, s)
      | Some idx \<Rightarrow>
          case frame of
            None \<Rightarrow> (-1, s)
          | Some f \<Rightarrow> (0, set_proc idx ((g_procs s idx)\<lparr>p_blocked := sf_saved_mask f AND NOT unmaskable_bits\<rparr>) s))"

definition qos_proc_signal_altstack_set :: "u32 \<Rightarrow> u64 \<Rightarrow> u64 \<Rightarrow> u32 \<Rightarrow> proc_state \<Rightarrow> int \<times> proc_state" where
  "qos_proc_signal_altstack_set pid sp sz flags s =
     (case find_pid pid s of
        None \<Rightarrow> (-1, s)
      | Some idx \<Rightarrow>
          (0, set_proc idx ((g_procs s idx)\<lparr>p_altstack := \<lparr>ss_sp = sp, ss_size = sz, ss_flags = flags\<rparr>\<rparr>) s))"

definition qos_proc_signal_altstack_get :: "u32 \<Rightarrow> bool \<Rightarrow> proc_state \<Rightarrow> int \<times> sigaltstack option" where
  "qos_proc_signal_altstack_get pid out s =
     (case find_pid pid s of
        None \<Rightarrow> (-1, None)
      | Some idx \<Rightarrow> if \<not> out then (-1, None) else (0, Some (p_altstack (g_procs s idx))))"

definition qos_proc_is_stopped :: "u32 \<Rightarrow> proc_state \<Rightarrow> bool" where
  "qos_proc_is_stopped pid s = (case find_pid pid s of None \<Rightarrow> False | Some idx \<Rightarrow> p_stopped (g_procs s idx))"

end
