(* ===== verification/Net.thy ===== *)
theory Net
  imports Prelude
begin

text \<open>
  The network stack of \<^verbatim>\<open>src/c-os/kernel/net/net.c\<close>: its state, the packet queue, the ARP cache, the
  route and the ICMP echo. UDP and TCP are in the theories \<open>Udp\<close> and \<open>Tcp\<close>.

  A buffer argument is the list of bytes behind the pointer, \<open>None\<close> for a null pointer; the length
  is a separate argument, as in C, and the buffer holds at least that many bytes. The flag \<open>out\<close> says that
  an output buffer is not null. A stored packet is an array of 1500 bytes of which the first \<open>len\<close> are
  the packet; what an earlier packet left behind them stays.
\<close>

section \<open>State\<close>

abbreviation (input) QOS_NET_MAX_QUEUE :: nat where "QOS_NET_MAX_QUEUE \<equiv> 32"
abbreviation (input) QOS_NET_MAX_PACKET :: nat where "QOS_NET_MAX_PACKET \<equiv> 1500"
abbreviation (input) QOS_NET_ARP_MAX :: nat where "QOS_NET_ARP_MAX \<equiv> 32"
abbreviation (input) QOS_NET_UDP_PORT_MAX :: nat where "QOS_NET_UDP_PORT_MAX \<equiv> 64"
abbreviation (input) QOS_NET_UDP_MAX_DATAGRAMS :: nat where "QOS_NET_UDP_MAX_DATAGRAMS \<equiv> 64"
abbreviation (input) QOS_NET_TCP_MAX_LISTENERS :: nat where "QOS_NET_TCP_MAX_LISTENERS \<equiv> 64"
abbreviation (input) QOS_NET_TCP_MAX_CONNS :: nat where "QOS_NET_TCP_MAX_CONNS \<equiv> 128"
abbreviation (input) QOS_NET_IPV4_LOCAL :: u32 where "QOS_NET_IPV4_LOCAL \<equiv> 0x0A00020F"
abbreviation (input) QOS_NET_IPV4_GATEWAY :: u32 where "QOS_NET_IPV4_GATEWAY \<equiv> 0x0A000202"
abbreviation (input) QOS_NET_IPV4_SUBNET_MASK :: u32 where "QOS_NET_IPV4_SUBNET_MASK \<equiv> 0xFFFFFF00"
abbreviation (input) QOS_NET_PORT_MIN_DYNAMIC :: u16 where "QOS_NET_PORT_MIN_DYNAMIC \<equiv> 1024"

type_synonym bytes = "u8 list"

record packet =
  k_data :: bytes
  k_len :: u16

record arp_entry =
  arp_used :: bool
  arp_ip :: u32
  arp_mac :: bytes
  arp_ttl :: u32

record udp_port =
  u_used :: bool
  u_port :: u16

record udp_datagram =
  dg_used :: bool
  dg_dst_port :: u16
  dg_src_port :: u16
  dg_src_ip :: u32
  dg_len :: u16
  dg_data :: bytes

datatype tcp_state = CLOSED | LISTEN | SYN_SENT | SYN_RECEIVED | ESTABLISHED | FIN_WAIT_1 | FIN_WAIT_2
  | CLOSE_WAIT | CLOSING | LAST_ACK | TIME_WAIT

record tcp_conn =
  c_used :: bool
  c_state :: tcp_state
  c_local_port :: u16
  c_remote_port :: u16
  c_remote_ip :: u32
  c_rto_ms :: u32
  c_retries :: u8

record tcp_listener =
  l_used :: bool
  l_port :: u16

record net =
  g_packets :: "packet arr"
  g_head :: u32
  g_tail :: u32
  g_pcount :: u32
  g_arp :: "arp_entry arr"
  g_udp_ports :: "udp_port arr"
  g_udp_datagrams :: "udp_datagram arr"
  g_udp_count :: u32
  g_tcp_listeners :: "tcp_listener arr"
  g_tcp_conns :: "tcp_conn arr"

section \<open>Model\<close>

definition same_subnet :: "u32 \<Rightarrow> u32 \<Rightarrow> bool" where
  "same_subnet a b \<longleftrightarrow> a AND QOS_NET_IPV4_SUBNET_MASK = b AND QOS_NET_IPV4_SUBNET_MASK"

text \<open>\<open>memcpy(dst, src, n)\<close> into an array.\<close>

definition memcpy_to :: "bytes \<Rightarrow> bytes \<Rightarrow> nat \<Rightarrow> bytes" where
  "memcpy_to dst src n = take n src @ drop n dst"

definition arp0 :: arp_entry where
  "arp0 = \<lparr>arp_used = False, arp_ip = 0, arp_mac = replicate 6 0, arp_ttl = 0\<rparr>"

definition datagram0 :: udp_datagram where
  "datagram0 = \<lparr>dg_used = False, dg_dst_port = 0, dg_src_port = 0, dg_src_ip = 0, dg_len = 0,
     dg_data = replicate QOS_NET_MAX_PACKET 0\<rparr>"

definition qos_net_reset :: net where
  "qos_net_reset =
     \<lparr>g_packets = (\<lambda>_. \<lparr>k_data = replicate QOS_NET_MAX_PACKET 0, k_len = 0\<rparr>), g_head = 0, g_tail = 0, g_pcount = 0,
      g_arp = (\<lambda>_. arp0), g_udp_ports = (\<lambda>_. \<lparr>u_used = False, u_port = 0\<rparr>), g_udp_datagrams = (\<lambda>_. datagram0),
      g_udp_count = 0, g_tcp_listeners = (\<lambda>_. \<lparr>l_used = False, l_port = 0\<rparr>),
      g_tcp_conns = (\<lambda>_. \<lparr>c_used = False, c_state = CLOSED, c_local_port = 0, c_remote_port = 0, c_remote_ip = 0,
        c_rto_ms = 0, c_retries = 0\<rparr>)\<rparr>"

definition qos_net_enqueue_packet :: "bytes option \<Rightarrow> u32 \<Rightarrow> net \<Rightarrow> int \<times> net" where
  "qos_net_enqueue_packet data len s =
     (case data of
        None \<Rightarrow> (-1, s)
      | Some d \<Rightarrow>
          if len = 0 \<or> unat len > QOS_NET_MAX_PACKET then (-1, s)
          else if unat (g_pcount s) \<ge> QOS_NET_MAX_QUEUE then (-1, s)
          else let t = unat (g_tail s) in
            (0, s\<lparr>g_packets := (g_packets s)(t := \<lparr>k_data = memcpy_to (k_data (g_packets s t)) d (unat len), k_len = ucast len\<rparr>),
                  g_tail := (g_tail s + 1) mod 32, g_pcount := g_pcount s + 1\<rparr>))"

text \<open>The option is what \<open>memcpy\<close> stores in \<open>out\<close>.\<close>

definition qos_net_dequeue_packet :: "bool \<Rightarrow> u32 \<Rightarrow> net \<Rightarrow> int \<times> bytes option \<times> net" where
  "qos_net_dequeue_packet out cap s =
     (if \<not> out \<or> cap = 0 then (-1, None, s)
      else if g_pcount s = 0 then (-1, None, s)
      else let h = unat (g_head s); len = k_len (g_packets s h) in
        if cap < ucast len then (-1, None, s)
        else (int (unat len), Some (take (unat len) (k_data (g_packets s h))),
              s\<lparr>g_packets := (g_packets s)(h := (g_packets s h)\<lparr>k_len := 0\<rparr>),
                g_head := (g_head s + 1) mod 32, g_pcount := g_pcount s - 1\<rparr>))"

definition qos_net_queue_len :: "net \<Rightarrow> u32" where
  "qos_net_queue_len s = g_pcount s"

text \<open>
  \<open>qos_net_arp_put\<close>: one loop looks for the address and notes the first free entry; the address wins.
\<close>

definition qos_net_arp_put :: "u32 \<Rightarrow> bytes option \<Rightarrow> u32 \<Rightarrow> net \<Rightarrow> int \<times> net" where
  "qos_net_arp_put ip mac ttl_secs s =
     (case mac of
        None \<Rightarrow> (-1, s)
      | Some m \<Rightarrow>
          if ip = 0 \<or> ttl_secs = 0 then (-1, s)
          else case find_key QOS_NET_ARP_MAX arp_used arp_ip (g_arp s) ip of
            Some i \<Rightarrow> (0, s\<lparr>g_arp := (g_arp s)(i := (g_arp s i)\<lparr>arp_mac := take 6 m, arp_ttl := ttl_secs\<rparr>)\<rparr>)
          | None \<Rightarrow>
              case find_free QOS_NET_ARP_MAX arp_used (g_arp s) of
                None \<Rightarrow> (-1, s)
              | Some i \<Rightarrow> (0, s\<lparr>g_arp := (g_arp s)(i := \<lparr>arp_used = True, arp_ip = ip, arp_mac = take 6 m,
                    arp_ttl = ttl_secs\<rparr>)\<rparr>))"

definition qos_net_arp_lookup :: "u32 \<Rightarrow> bool \<Rightarrow> net \<Rightarrow> int \<times> bytes option" where
  "qos_net_arp_lookup ip out s =
     (if ip = 0 \<or> \<not> out then (-1, None)
      else case scan (\<lambda>i. arp_used (g_arp s i) \<and> arp_ip (g_arp s i) = ip \<and> arp_ttl (g_arp s i) \<noteq> 0) 0 QOS_NET_ARP_MAX of
        None \<Rightarrow> (-1, None)
      | Some i \<Rightarrow> (0, Some (arp_mac (g_arp s i))))"

definition arp_age :: "u32 \<Rightarrow> arp_entry \<Rightarrow> arp_entry" where
  "arp_age elapsed_secs e =
     (if arp_used e then
        if arp_ttl e \<le> elapsed_secs then arp0 else e\<lparr>arp_ttl := arp_ttl e - elapsed_secs\<rparr>
      else e)"

definition qos_net_arp_tick :: "u32 \<Rightarrow> net \<Rightarrow> net" where
  "qos_net_arp_tick elapsed_secs s =
     (if elapsed_secs = 0 then s
      else s\<lparr>g_arp := (\<lambda>i. if i < QOS_NET_ARP_MAX then arp_age elapsed_secs (g_arp s i) else g_arp s i)\<rparr>)"

definition qos_net_arp_count :: "net \<Rightarrow> u32" where
  "qos_net_arp_count s = word_of_nat (slot_count (\<lambda>i. arp_used (g_arp s i)) QOS_NET_ARP_MAX)"

definition qos_net_ipv4_route :: "u32 \<Rightarrow> bool \<Rightarrow> int \<times> u32 option" where
  "qos_net_ipv4_route dst_ip out =
     (if dst_ip = 0 \<or> \<not> out then (-1, None)
      else if same_subnet dst_ip QOS_NET_IPV4_LOCAL then (0, Some dst_ip)
      else (0, Some QOS_NET_IPV4_GATEWAY))"

text \<open>The result, the reply stored in \<open>out_reply\<close> and the address stored in \<open>out_src_ip\<close> if that is not null.\<close>

definition qos_net_icmp_echo :: "u32 \<Rightarrow> bytes option \<Rightarrow> u32 \<Rightarrow> bool \<Rightarrow> u32 \<Rightarrow> int \<times> bytes option \<times> u32 option" where
  "qos_net_icmp_echo dst_ip payload len out cap =
     (case payload of
        None \<Rightarrow> (-1, None, None)
      | Some p \<Rightarrow>
          if dst_ip = 0 \<or> \<not> out \<or> len = 0 \<or> unat len > QOS_NET_MAX_PACKET \<or> cap < len then (-1, None, None)
          else if fst (qos_net_ipv4_route dst_ip True) \<noteq> 0 then (-1, None, None)
          else if dst_ip \<noteq> QOS_NET_IPV4_GATEWAY \<and> dst_ip \<noteq> QOS_NET_IPV4_LOCAL then (-1, None, None)
          else (int (unat len), Some (take (unat len) p), Some dst_ip))"

section \<open>Specification\<close>

text \<open>The packets in the queue, oldest first.\<close>

definition packet_bytes :: "packet \<Rightarrow> bytes" where
  "packet_bytes p = take (unat (k_len p)) (k_data p)"

definition packets :: "net \<Rightarrow> bytes list" where
  "packets s = map packet_bytes (ring_list QOS_NET_MAX_QUEUE (g_packets s) (unat (g_head s)) (unat (g_pcount s)))"

definition packets_inv :: "net \<Rightarrow> bool" where
  "packets_inv s \<longleftrightarrow> unat (g_head s) < QOS_NET_MAX_QUEUE \<and> unat (g_pcount s) \<le> QOS_NET_MAX_QUEUE \<and>
     unat (g_tail s) = (unat (g_head s) + unat (g_pcount s)) mod QOS_NET_MAX_QUEUE \<and>
     (\<forall>p \<in> set (ring_list QOS_NET_MAX_QUEUE (g_packets s) (unat (g_head s)) (unat (g_pcount s))).
        unat (k_len p) \<le> QOS_NET_MAX_PACKET \<and> unat (k_len p) \<le> length (k_data p))"

text \<open>A caller that passes a whole buffer, and one whose buffer holds every packet.\<close>

definition net_push :: "bytes \<Rightarrow> net \<Rightarrow> int \<times> net" where
  "net_push d s = qos_net_enqueue_packet (Some d) (if length d < 2 ^ 32 then word_of_nat (length d) else 0) s"

definition net_pop :: "net \<Rightarrow> bytes option \<times> net" where
  "net_pop s = (case qos_net_dequeue_packet True 1500 s of (_, d, s') \<Rightarrow> (d, s'))"

definition packet_ok :: "bytes \<Rightarrow> bool" where
  "packet_ok d \<longleftrightarrow> d \<noteq> [] \<and> length d \<le> QOS_NET_MAX_PACKET"

text \<open>The ARP cache as a map from addresses to hardware addresses with the seconds left.\<close>

definition arp_cache :: "net \<Rightarrow> u32 \<rightharpoonup> bytes \<times> u32" where
  "arp_cache s = tbl_map QOS_NET_ARP_MAX arp_used arp_ip (\<lambda>e. (arp_mac e, arp_ttl e)) (g_arp s)"

definition arp_inv :: "net \<Rightarrow> bool" where
  "arp_inv s \<longleftrightarrow> uniq_keys QOS_NET_ARP_MAX arp_used arp_ip (g_arp s) \<and>
     (\<forall>i < QOS_NET_ARP_MAX. arp_used (g_arp s i) \<longrightarrow> arp_ttl (g_arp s i) \<noteq> 0 \<and> arp_ip (g_arp s i) \<noteq> 0)"

datatype arp_op = ArpPut u32 bytes u32 | ArpTick u32

fun arp_step :: "arp_op \<Rightarrow> net \<Rightarrow> int \<times> net" where
  "arp_step (ArpPut ip mac ttl) s = qos_net_arp_put ip (Some mac) ttl s"
| "arp_step (ArpTick n) s = (0, qos_net_arp_tick n s)"

fun arp_spec :: "arp_op \<Rightarrow> (u32 \<rightharpoonup> bytes \<times> u32) \<Rightarrow> int \<times> (u32 \<rightharpoonup> bytes \<times> u32)" where
  "arp_spec (ArpPut ip mac ttl) m =
     (if ip = 0 \<or> ttl = 0 \<or> m ip = None \<and> card (dom m) = QOS_NET_ARP_MAX then (-1, m)
      else (0, m(ip \<mapsto> (take 6 mac, ttl))))"
| "arp_spec (ArpTick n) m =
     (0, \<lambda>ip. case m ip of None \<Rightarrow> None | Some (mac, ttl) \<Rightarrow> if ttl \<le> n then None else Some (mac, ttl - n))"

section \<open>The packet queue\<close>

lemma unat_inc_mod32: "unat t < 32 \<Longrightarrow> unat ((t + 1) mod 32 :: u32) = (unat t + 1) mod 32"
  by (simp add: unat_mod_distrib unat_word_ariths)

lemma unat_u16_u32: "unat (ucast (x :: u16) :: u32) = unat x"
proof -
  have "unat x < 2 ^ 16" by (rule order.strict_trans2 [OF unsigned_less]) simp
  then show ?thesis by (simp add: unsigned_ucast_eq take_bit_nat_eq_self)
qed

lemma mod_shift_other: "h < n \<Longrightarrow> 0 < d \<Longrightarrow> d < n \<Longrightarrow> (h + d) mod n \<noteq> (h :: nat)"
proof (cases "h + d < n")
  case False
  assume "h < n" "0 < d" "d < n"
  with False have "(h + d) mod n = h + d - n" by (simp add: mod_if)
  then show ?thesis using \<open>d < n\<close> False by linarith
qed simp

lemma memcpy_prefix: "n \<le> length src \<Longrightarrow> take n (memcpy_to dst src n) = take n src"
  by (simp add: memcpy_to_def)

lemma packets_push:
  assumes inv: "packets_inv s" and room: "unat (g_pcount s) < 32" and len: "len \<noteq> 0" "unat len \<le> 1500" "unat len \<le> length d"
  shows "\<exists>s'. qos_net_enqueue_packet (Some d) len s = (0, s') \<and> packets_inv s' \<and> packets s' = packets s @ [take (unat len) d] \<and>
    unat (g_pcount s') = Suc (unat (g_pcount s))"
proof -
  let ?t = "unat (g_tail s)" and ?h = "unat (g_head s)" and ?c = "unat (g_pcount s)"
  let ?p = "\<lparr>k_data = memcpy_to (k_data (g_packets s ?t)) d (unat len), k_len = ucast len\<rparr>"
  define s' where "s' = s\<lparr>g_packets := (g_packets s)(?t := ?p), g_tail := (g_tail s + 1) mod 32, g_pcount := g_pcount s + 1\<rparr>"
  have i: "?h < 32" "?t = (?h + ?c) mod 32" using inv by (auto simp: packets_inv_def)
  have c: "unat (g_pcount s + 1) = Suc ?c" using room by (simp add: unat_word_ariths)
  have t: "unat ((g_tail s + 1) mod 32) = (?h + Suc ?c) mod 32"
    using unat_inc_mod32 [of "g_tail s"] i by (simp add: mod_Suc_eq)
  have r: "ring_list 32 (g_packets s') (unat (g_head s')) (unat (g_pcount s')) = ring_list 32 (g_packets s) ?h ?c @ [?p]"
    using ring_list_push [OF room i(2), of "g_packets s" ?p] c by (simp add: s'_def)
  have l: "unat (ucast len :: u16) = unat len" using len(2) by (simp add: unsigned_ucast_eq take_bit_nat_eq_self)
  have "qos_net_enqueue_packet (Some d) len s = (0, s')"
    using len room by (simp add: qos_net_enqueue_packet_def s'_def Let_def)
  moreover have "packet_bytes ?p = take (unat len) d" using memcpy_prefix [OF len(3)] l by (simp add: packet_bytes_def)
  then have "packets s' = packets s @ [take (unat len) d]" unfolding packets_def r by simp
  moreover have "packets_inv s'"
    using inv t c room l len(2,3) unfolding packets_inv_def r by (auto simp: s'_def memcpy_to_def)
  ultimately show ?thesis using c by (auto simp: s'_def)
qed

lemma packets_pop:
  assumes inv: "packets_inv s" and xs: "packets s = x # xs" and cap: "cap \<noteq> 0"
  shows "\<exists>s'. qos_net_dequeue_packet True cap s =
      (if unat cap < length x then (-1, None, s) else (int (length x), Some x, s')) \<and> packets_inv s' \<and> packets s' = xs \<and>
    length x \<le> 1500 \<and> unat (g_pcount s) = Suc (unat (g_pcount s'))"
proof -
  let ?h = "unat (g_head s)" and ?c = "unat (g_pcount s)"
  let ?p = "g_packets s ?h"
  define s' where "s' = s\<lparr>g_packets := (g_packets s)(?h := ?p\<lparr>k_len := 0\<rparr>), g_head := (g_head s + 1) mod 32, g_pcount := g_pcount s - 1\<rparr>"
  have n: "?c = Suc (length xs)" using arg_cong [OF xs, of length] by (simp add: packets_def)
  have i: "?h < 32" "?c \<le> 32" using inv by (auto simp: packets_inv_def)
  have c: "unat (g_pcount s - 1) = length xs" using n by (simp add: unat_pred_count)
  have h: "unat ((g_head s + 1) mod 32) = (?h + 1) mod 32" by (rule unat_inc_mod32 [OF i(1)])
  have r: "ring_list 32 (g_packets s) ?h ?c = ?p # ring_list 32 (g_packets s) ((?h + 1) mod 32) (length xs)"
    unfolding n by (rule ring_list_pop) (use i in simp_all)
  have "((?h + 1) mod 32 + j) mod 32 \<noteq> ?h" if "j < length xs" for j
    using mod_shift_other [of ?h 32 "Suc j"] that i n by (simp add: mod_simps)
  then have r': "ring_list 32 (g_packets s') (unat (g_head s')) (unat (g_pcount s')) = ring_list 32 (g_packets s) ((?h + 1) mod 32) (length xs)"
    using h c by (simp add: s'_def) (rule ring_list_cong, simp)
  have x: "x = packet_bytes ?p" "xs = map packet_bytes (ring_list 32 (g_packets s) ((?h + 1) mod 32) (length xs))"
    using xs unfolding packets_def r by simp_all
  have l: "unat (k_len ?p) \<le> 1500" "length x = unat (k_len ?p)" using inv x(1) unfolding packets_inv_def r by (auto simp: packet_bytes_def)
  have "cap < ucast (k_len ?p) \<longleftrightarrow> unat cap < length x"
    unfolding l(2) by (simp add: word_less_nat_alt unat_u16_u32)
  then have "qos_net_dequeue_packet True cap s = (if unat cap < length x then (-1, None, s) else (int (length x), Some x, s'))"
    using cap n x(1) l(2) by (auto simp: qos_net_dequeue_packet_def s'_def Let_def packet_bytes_def)
  moreover have "packets_inv s'"
    using inv h c n unfolding packets_inv_def r' r by (auto simp: s'_def mod_simps)
  moreover have "packets s' = xs" unfolding packets_def r' using x(2) by simp
  ultimately show ?thesis using l n c by (auto simp: s'_def)
qed

lemma length_packets: "length (packets s) = unat (g_pcount s)"
  by (simp add: packets_def)

interpretation net_fifo: bounded_fifo QOS_NET_MAX_QUEUE packet_ok net_push net_pop packets packets_inv
proof (unfold_locales, goal_cases)
  case (1 s d)
  have l: "unat (word_of_nat (length d) :: u32) = length d" using 1(2) by (intro unat_u32_of_nat) (simp add: packet_ok_def)
  moreover have "word_of_nat (length d) \<noteq> (0 :: u32)" using l 1(2) by (auto simp: packet_ok_def)
  ultimately show ?case
    using packets_push [OF 1(1), of "word_of_nat (length d)" d] 1(2,3) by (auto simp: net_push_def packet_ok_def length_packets)
next
  case (2 s d)
  show ?case
  proof (cases "packet_ok d")
    case True
    with 2 show ?thesis by (simp add: net_push_def qos_net_enqueue_packet_def length_packets)
  next
    case False
    then have "d = [] \<or> 1500 < length d" by (auto simp: packet_ok_def)
    moreover have "unat (word_of_nat (length d) :: u32) = length d" if "length d < 2 ^ 32"
      using that by (intro unat_u32_of_nat) simp
    ultimately show ?thesis by (auto simp: net_push_def qos_net_enqueue_packet_def)
  qed
next
  case (3 s x xs)
  from packets_pop [OF 3, of 1500] show ?case by (auto simp: net_pop_def)
next
  case (4 s)
  then have "g_pcount s = 0" using length_packets [of s] by (simp add: unat_eq_0)
  then show ?case by (simp add: net_pop_def qos_net_dequeue_packet_def)
next
  case (5 s)
  then show ?case by (simp add: packets_inv_def length_packets)
qed

section \<open>The ARP cache\<close>

lemma arp_lookup_cache:
  assumes "arp_inv s" "ip \<noteq> 0"
  shows "qos_net_arp_lookup ip True s = (case arp_cache s ip of None \<Rightarrow> (-1, None) | Some (mac, ttl) \<Rightarrow> (0, Some mac))"
proof -
  have "scan (\<lambda>i. arp_used (g_arp s i) \<and> arp_ip (g_arp s i) = ip \<and> arp_ttl (g_arp s i) \<noteq> 0) 0 32 =
      scan (\<lambda>i. arp_used (g_arp s i) \<and> arp_ip (g_arp s i) = ip) 0 32"
    by (rule scan_cong) (use assms(1) in \<open>auto simp: arp_inv_def\<close>)
  then show ?thesis
    using assms(2) by (auto simp: qos_net_arp_lookup_def arp_cache_def tbl_map_def find_key_def split: option.splits)
qed

lemma arp_cache_full: "arp_inv s \<Longrightarrow> find_free QOS_NET_ARP_MAX arp_used (g_arp s) = None \<longleftrightarrow> card (dom (arp_cache s)) = QOS_NET_ARP_MAX"
  by (simp add: arp_cache_def dom_tbl_map arp_inv_def card_keys find_free_None)

lemma arp_put_refines:
  assumes inv: "arp_inv s"
  shows "\<exists>s'. arp_step (ArpPut ip mac ttl) s = (fst (arp_spec (ArpPut ip mac ttl) (arp_cache s)), s') \<and> arp_inv s' \<and>
    arp_cache s' = snd (arp_spec (ArpPut ip mac ttl) (arp_cache s))"
proof (cases "ip = 0 \<or> ttl = 0")
  case True
  then show ?thesis using inv by (auto simp: qos_net_arp_put_def)
next
  case ok: False
  have u: "uniq_keys 32 arp_used arp_ip (g_arp s)" using inv by (simp add: arp_inv_def)
  show ?thesis
  proof (cases "find_key 32 arp_used arp_ip (g_arp s) ip")
    case (Some i)
    let ?e = "(g_arp s i)\<lparr>arp_mac := take 6 mac, arp_ttl := ttl\<rparr>"
    note i = find_key_Some [OF Some]
    have st: "qos_net_arp_put ip (Some mac) ttl s = (0, s\<lparr>g_arp := (g_arp s)(i := ?e)\<rparr>)"
      using ok Some by (simp add: qos_net_arp_put_def)
    have m: "arp_cache s ip \<noteq> None" using Some by (simp add: arp_cache_def tbl_map_def)
    have "uniq_keys 32 arp_used arp_ip ((g_arp s)(i := ?e))" using u i by (auto intro: uniq_keys_replace)
    then have "arp_inv (s\<lparr>g_arp := (g_arp s)(i := ?e)\<rparr>)" using inv ok i by (auto simp: arp_inv_def)
    moreover have "arp_cache (s\<lparr>g_arp := (g_arp s)(i := ?e)\<rparr>) = (arp_cache s)(ip \<mapsto> (take 6 mac, ttl))"
      using tbl_map_replace [OF u, of i ?e "\<lambda>e. (arp_mac e, arp_ttl e)"] i by (simp add: arp_cache_def)
    ultimately show ?thesis using st ok m by auto
  next
    case None
    then have m: "arp_cache s ip = None" and k: "ip \<notin> keys 32 arp_used arp_ip (g_arp s)"
      by (simp_all add: arp_cache_def tbl_map_def find_key_None)
    show ?thesis
    proof (cases "find_free 32 arp_used (g_arp s)")
      case full: None
      then show ?thesis using None ok inv m arp_cache_full [OF inv] by (auto simp: qos_net_arp_put_def)
    next
      case free: (Some i)
      let ?e = "\<lparr>arp_used = True, arp_ip = ip, arp_mac = take 6 mac, arp_ttl = ttl\<rparr>"
      note i = find_free_Some [OF free]
      have st: "qos_net_arp_put ip (Some mac) ttl s = (0, s\<lparr>g_arp := (g_arp s)(i := ?e)\<rparr>)"
        using ok None free by (simp add: qos_net_arp_put_def)
      have "uniq_keys 32 arp_used arp_ip ((g_arp s)(i := ?e))" using u i k by (auto intro!: uniq_keys_insert)
      then have "arp_inv (s\<lparr>g_arp := (g_arp s)(i := ?e)\<rparr>)" using inv ok by (auto simp: arp_inv_def)
      moreover have "arp_cache (s\<lparr>g_arp := (g_arp s)(i := ?e)\<rparr>) = (arp_cache s)(ip \<mapsto> (take 6 mac, ttl))"
        using tbl_map_insert [OF u, of i ?e "\<lambda>e. (arp_mac e, arp_ttl e)"] i k by (simp add: arp_cache_def)
      moreover have "card (dom (arp_cache s)) \<noteq> 32" using free arp_cache_full [OF inv] by auto
      ultimately show ?thesis using st ok m by auto
    qed
  qed
qed

lemma arp_age_used: "arp_used (arp_age n e) \<longleftrightarrow> arp_used e \<and> n < arp_ttl e"
  "arp_used (arp_age n e) \<Longrightarrow> arp_age n e = e\<lparr>arp_ttl := arp_ttl e - n\<rparr>"
  by (auto simp: arp_age_def arp0_def not_le)

lemma arp_tick_refines:
  assumes inv: "arp_inv s"
  shows "arp_inv (qos_net_arp_tick n s)" "arp_cache (qos_net_arp_tick n s) = snd (arp_spec (ArpTick n) (arp_cache s))"
proof -
  define g' where "g' = (\<lambda>i. if i < 32 then arp_age n (g_arp s i) else g_arp s i)"
  have u: "uniq_keys 32 arp_used arp_ip (g_arp s)" and t: "\<And>i. i < 32 \<Longrightarrow> arp_used (g_arp s i) \<Longrightarrow> arp_ttl (g_arp s i) \<noteq> 0 \<and> arp_ip (g_arp s i) \<noteq> 0"
    using inv by (auto simp: arp_inv_def)
  have st: "qos_net_arp_tick n s = s\<lparr>g_arp := g'\<rparr>"
  proof (cases "n = 0")
    case True
    then have "g' = g_arp s" using t by (auto simp: g'_def arp_age_def fun_eq_iff)
    then show ?thesis using True by (simp add: qos_net_arp_tick_def)
  qed (simp add: qos_net_arp_tick_def g'_def)
  have used: "arp_used (g' i) \<longleftrightarrow> arp_used (g_arp s i) \<and> n < arp_ttl (g_arp s i)"
    "arp_used (g' i) \<Longrightarrow> arp_ip (g' i) = arp_ip (g_arp s i) \<and> arp_mac (g' i) = arp_mac (g_arp s i) \<and> arp_ttl (g' i) = arp_ttl (g_arp s i) - n"
    if "i < 32" for i
    using that arp_age_used [of n "g_arp s i"] by (auto simp: g'_def)
  have u': "uniq_keys 32 arp_used arp_ip g'"
    using u used unfolding uniq_keys_def by (auto simp: inj_on_def)
  have pos: "arp_ttl (g_arp s i) - n \<noteq> 0" if "n < arp_ttl (g_arp s i)" for i using that by auto
  show "arp_inv (qos_net_arp_tick n s)" unfolding st using u' used t pos by (auto simp: arp_inv_def)
  show "arp_cache (qos_net_arp_tick n s) = snd (arp_spec (ArpTick n) (arp_cache s))"
  proof
    fix ip
    show "arp_cache (qos_net_arp_tick n s) ip = snd (arp_spec (ArpTick n) (arp_cache s)) ip"
    proof (cases "find_key 32 arp_used arp_ip g' ip")
      case (Some i)
      note i = find_key_Some [OF Some]
      then have f: "find_key 32 arp_used arp_ip (g_arp s) ip = Some i"
        using find_key_uniq [OF u, of i] used [of i] by auto
      then show ?thesis using Some i used [of i] unfolding st by (auto simp: arp_cache_def tbl_map_def)
    next
      case None
      have "arp_ttl (g_arp s i) \<le> n" if "find_key 32 arp_used arp_ip (g_arp s) ip = Some i" for i
      proof (rule ccontr)
        note i = find_key_Some [OF that]
        assume "\<not> ?thesis"
        then have "arp_used (g' i)" "arp_ip (g' i) = ip" using i used [of i] by auto
        then show False using None i find_key_uniq [OF u', of i] by auto
      qed
      then show ?thesis using None unfolding st by (auto simp: arp_cache_def tbl_map_def split: option.splits)
    qed
  qed
qed

interpretation arp_sim: simulation arp_step arp_spec arp_cache arp_inv
proof
  fix s x assume inv: "arp_inv s"
  show "\<exists>s'. arp_step x s = (fst (arp_spec x (arp_cache s)), s') \<and> arp_inv s' \<and> arp_cache s' = snd (arp_spec x (arp_cache s))"
  proof (cases x)
    case (ArpPut ip mac ttl)
    then show ?thesis using arp_put_refines [OF inv] by simp
  next
    case (ArpTick n)
    then show ?thesis using arp_tick_refines [OF inv, of n] by simp
  qed
qed

lemma net_reset_inv: "packets_inv qos_net_reset" "arp_inv qos_net_reset" "packets qos_net_reset = []" "arp_cache qos_net_reset = Map.empty"
proof -
  show "packets_inv qos_net_reset" "packets qos_net_reset = []" by (simp_all add: packets_inv_def packets_def qos_net_reset_def)
  show "arp_inv qos_net_reset" by (simp add: arp_inv_def qos_net_reset_def arp0_def)
  have "dom (arp_cache qos_net_reset) = {}"
    unfolding arp_cache_def dom_tbl_map by (rule keys_empty) (simp add: qos_net_reset_def arp0_def)
  then show "arp_cache qos_net_reset = Map.empty" by auto
qed

section \<open>Properties\<close>

text \<open>
  C38. The packet queue is a bounded first-in first-out queue of byte strings. Any sequence of
  enqueuing whole buffers and dequeuing into large enough ones gives the results and the bytes of a list of
  at most 32 packets of 1 to 1500 bytes; the length reported is that of the list. A buffer that is too
  small for the oldest packet is refused and the queue keeps the packet.
\<close>

theorem net_packet_fifo:
  assumes inv: "packets_inv s"
  shows "\<exists>s'. run_ops (fifo_step net_push net_pop) xs s =
      (fst (run_ops (blist_step QOS_NET_MAX_QUEUE packet_ok) xs (packets s)), s') \<and> packets_inv s' \<and>
    packets s' = snd (run_ops (blist_step QOS_NET_MAX_QUEUE packet_ok) xs (packets s)) \<and>
    unat (qos_net_queue_len s') = length (packets s') \<and>
    (\<forall>d ds cap. packets s' = d # ds \<longrightarrow> unat cap < length d \<longrightarrow> qos_net_dequeue_packet True cap s' = (-1, None, s'))"
proof -
  obtain s' where s': "run_ops (fifo_step net_push net_pop) xs s =
      (fst (run_ops (blist_step QOS_NET_MAX_QUEUE packet_ok) xs (packets s)), s')" "packets_inv s'"
    "packets s' = snd (run_ops (blist_step QOS_NET_MAX_QUEUE packet_ok) xs (packets s))"
    using net_fifo.fifo_sim.sim_run [OF inv, of xs] by blast
  have "qos_net_dequeue_packet True cap s' = (-1, None, s')" if "packets s' = d # ds" "unat cap < length d" for d ds cap
  proof (cases "cap = 0")
    case True
    then show ?thesis by (simp add: qos_net_dequeue_packet_def)
  next
    case False
    from packets_pop [OF s'(2) that(1) False] that(2) show ?thesis by auto
  qed
  then show ?thesis using s' length_packets [of s'] by (auto simp: qos_net_queue_len_def)
qed

theorem net_packet_fifo_witness:
  "\<exists>s'. run_ops (fifo_step net_push net_pop) [Push [1, 2, 3], Push [], Push [4], Pop, Pop, Pop] qos_net_reset =
     ([(0, None), (-1, None), (0, None), (0, Some [1, 2, 3]), (0, Some [4]), (-1, None)], s') \<and> unat (qos_net_queue_len s') = 0"
  using net_packet_fifo [OF net_reset_inv(1), of "[Push [1, 2, 3], Push [], Push [4], Pop, Pop, Pop]"]
  unfolding net_reset_inv(3) by (auto simp: packet_ok_def)

text \<open>
  C37. The ARP cache refines a map with expiry. Any sequence of insertions and ticks from a well-formed
  cache gives the results and the contents of a map of at most 32 addresses in which an insertion
  replaces the entry of its address and a tick takes off the seconds and drops what has run out; a
  lookup returns exactly what the map holds, so never an expired address.
\<close>

theorem arp_refines_cache:
  assumes inv: "arp_inv s"
  shows "\<exists>s'. run_ops arp_step xs s = (fst (run_ops arp_spec xs (arp_cache s)), s') \<and> arp_inv s' \<and>
    arp_cache s' = snd (run_ops arp_spec xs (arp_cache s)) \<and>
    qos_net_arp_count s' = word_of_nat (card (dom (arp_cache s'))) \<and>
    (\<forall>ip. ip \<noteq> 0 \<longrightarrow> qos_net_arp_lookup ip True s' =
      (case arp_cache s' ip of None \<Rightarrow> (-1, None) | Some (mac, ttl) \<Rightarrow> (0, Some mac)))"
proof -
  obtain s' where s': "run_ops arp_step xs s = (fst (run_ops arp_spec xs (arp_cache s)), s')" "arp_inv s'"
    "arp_cache s' = snd (run_ops arp_spec xs (arp_cache s))"
    using arp_sim.sim_run [OF inv, of xs] by blast
  have "slot_count (\<lambda>i. arp_used (g_arp s' i)) 32 = card (dom (arp_cache s'))"
    using s'(2) by (simp add: slot_count_live arp_cache_def dom_tbl_map card_keys arp_inv_def)
  then show ?thesis using s' arp_lookup_cache [OF s'(2)] by (auto simp: qos_net_arp_count_def)
qed

theorem arp_refines_cache_witness:
  "\<exists>s'. run_ops arp_step [ArpPut 1 [1, 1, 1, 1, 1, 1] 10, ArpPut 2 [2, 2, 2, 2, 2, 2] 5, ArpTick 5, ArpPut 3 [] 0] qos_net_reset =
      ([0, 0, 0, -1], s') \<and> qos_net_arp_lookup 1 True s' = (0, Some [1, 1, 1, 1, 1, 1]) \<and> qos_net_arp_lookup 2 True s' = (-1, None)"
proof -
  let ?xs = "[ArpPut 1 [1, 1, 1, 1, 1, 1] 10, ArpPut 2 [2, 2, 2, 2, 2, 2] 5, ArpTick 5, ArpPut 3 [] 0]"
  obtain s' where s': "run_ops arp_step ?xs qos_net_reset = (fst (run_ops arp_spec ?xs Map.empty), s')"
    "arp_cache s' = snd (run_ops arp_spec ?xs Map.empty)"
    "\<forall>ip. ip \<noteq> 0 \<longrightarrow> qos_net_arp_lookup ip True s' =
      (case arp_cache s' ip of None \<Rightarrow> (-1, None) | Some (mac, ttl) \<Rightarrow> (0, Some mac))"
    using arp_refines_cache [OF net_reset_inv(2), of ?xs] unfolding net_reset_inv(4) by blast
  have r: "fst (run_ops arp_spec ?xs Map.empty) = [0, 0, 0, -1]" by simp
  have c: "arp_cache s' 1 = Some ([1, 1, 1, 1, 1, 1], 5)" "arp_cache s' 2 = None" unfolding s'(2) by simp_all
  show ?thesis using s'(1) s'(3) [rule_format, of 1] s'(3) [rule_format, of 2] c unfolding r by auto
qed

end
