(* ===== verification/Elf.thy ===== *)
theory Elf
  imports Proc Net "HOL-Library.Monad_Syntax"
begin

text \<open>
  The ELF reader of \<^verbatim>\<open>src/c-os/kernel/syscall/syscall.c\<close>: little-endian fields, the executable
  header with its program headers, and the check for a shared object.

  The bytes behind the pointer are a list; a read beyond its end is \<open>None\<close> of the outer option, so
  that a result \<open>Some _\<close> says that no byte outside was touched. The inner option is the code's result:
  \<open>None\<close> for \<open>-1\<close>, \<open>Some\<close> for 0 with what is stored through \<open>out_image\<close>.
\<close>

section \<open>Model\<close>

abbreviation (input) QOS_ELF_CLASS_64 :: u8 where "QOS_ELF_CLASS_64 \<equiv> 2"
abbreviation (input) QOS_ELF_DATA_LSB :: u8 where "QOS_ELF_DATA_LSB \<equiv> 1"
abbreviation (input) QOS_ELF_ET_EXEC :: u16 where "QOS_ELF_ET_EXEC \<equiv> 2"
abbreviation (input) QOS_ELF_ET_DYN :: u16 where "QOS_ELF_ET_DYN \<equiv> 3"
abbreviation (input) QOS_ELF_EM_X86_64 :: u16 where "QOS_ELF_EM_X86_64 \<equiv> 0x3E"
abbreviation (input) QOS_ELF_EM_AARCH64 :: u16 where "QOS_ELF_EM_AARCH64 \<equiv> 0xB7"
abbreviation (input) QOS_ELF_PT_LOAD :: u32 where "QOS_ELF_PT_LOAD \<equiv> 1"
abbreviation (input) QOS_ELF_PT_INTERP :: u32 where "QOS_ELF_PT_INTERP \<equiv> 3"
abbreviation (input) UINT64_MAX :: u64 where "UINT64_MAX \<equiv> 0xFFFFFFFFFFFFFFFF"

definition byte_at :: "bytes \<Rightarrow> nat \<Rightarrow> u8 option" where
  "byte_at img i = (if i < length img then Some (img ! i) else None)"

definition elf_u16 :: "bytes \<Rightarrow> nat \<Rightarrow> u16 option" where
  "elf_u16 img p =
     do { b0 \<leftarrow> byte_at img p; b1 \<leftarrow> byte_at img (p + 1);
          Some (ucast b0 OR push_bit 8 (ucast b1)) }"

definition elf_u32 :: "bytes \<Rightarrow> nat \<Rightarrow> u32 option" where
  "elf_u32 img p =
     do { b0 \<leftarrow> byte_at img p; b1 \<leftarrow> byte_at img (p + 1); b2 \<leftarrow> byte_at img (p + 2); b3 \<leftarrow> byte_at img (p + 3);
          Some (ucast b0 OR push_bit 8 (ucast b1) OR push_bit 16 (ucast b2) OR push_bit 24 (ucast b3)) }"

definition elf_u64 :: "bytes \<Rightarrow> nat \<Rightarrow> u64 option" where
  "elf_u64 img p =
     do { b0 \<leftarrow> byte_at img p; b1 \<leftarrow> byte_at img (p + 1); b2 \<leftarrow> byte_at img (p + 2); b3 \<leftarrow> byte_at img (p + 3);
          b4 \<leftarrow> byte_at img (p + 4); b5 \<leftarrow> byte_at img (p + 5); b6 \<leftarrow> byte_at img (p + 6); b7 \<leftarrow> byte_at img (p + 7);
          Some (ucast b0 OR push_bit 8 (ucast b1) OR push_bit 16 (ucast b2) OR push_bit 24 (ucast b3) OR
                push_bit 32 (ucast b4) OR push_bit 40 (ucast b5) OR push_bit 48 (ucast b6) OR push_bit 56 (ucast b7)) }"

text \<open>What the loop over the program headers carries: \<open>load_count\<close>, \<open>has_interp\<close>, \<open>interp_off\<close>, \<open>interp_len\<close>.\<close>

record ph_state =
  ph_loads :: u16
  ph_interp :: u8
  ph_off :: u64
  ph_len :: u64

text \<open>The body of the loop for the header at \<open>phoff\<close>.\<close>

definition elf_ph_step :: "bytes \<Rightarrow> u64 \<Rightarrow> u64 \<Rightarrow> ph_state \<Rightarrow> ph_state option option" where
  "elf_ph_step img image_len phoff st =
     do { p_type \<leftarrow> elf_u32 img (unat phoff);
          p_offset \<leftarrow> elf_u64 img (unat phoff + 8);
          p_vaddr \<leftarrow> elf_u64 img (unat phoff + 16);
          p_filesz \<leftarrow> elf_u64 img (unat phoff + 32);
          p_memsz \<leftarrow> elf_u64 img (unat phoff + 40);
          p_align \<leftarrow> elf_u64 img (unat phoff + 48);
          if p_type = QOS_ELF_PT_LOAD then
            if p_memsz < p_filesz then Some None
            else if p_filesz \<noteq> 0 \<and> (p_offset > image_len \<or> p_filesz > image_len - p_offset) then Some None
            else if p_align \<noteq> 0 \<and> p_vaddr mod p_align \<noteq> p_offset mod p_align then Some None
            else Some (Some (st\<lparr>ph_loads := ph_loads st + 1\<rparr>))
          else if p_type = QOS_ELF_PT_INTERP then
            if p_filesz = 0 \<or> p_offset > image_len \<or> p_filesz > image_len - p_offset then Some None
            else do { lastb \<leftarrow> byte_at img (unat (p_offset + p_filesz - 1));
                      if lastb \<noteq> 0 then Some None
                      else Some (Some (st\<lparr>ph_interp := 1, ph_off := p_offset, ph_len := p_filesz\<rparr>)) }
          else Some (Some st) }"

function elf_ph_loop :: "bytes \<Rightarrow> u64 \<Rightarrow> u64 \<Rightarrow> u16 \<Rightarrow> nat \<Rightarrow> nat \<Rightarrow> ph_state \<Rightarrow> ph_state option option" where
  "elf_ph_loop img image_len e_phoff e_phentsize e_phnum i st =
     (if i < e_phnum then
        case elf_ph_step img image_len (e_phoff + word_of_nat i * ucast e_phentsize) st of
          None \<Rightarrow> None
        | Some None \<Rightarrow> Some None
        | Some (Some st') \<Rightarrow> elf_ph_loop img image_len e_phoff e_phentsize e_phnum (Suc i) st'
      else Some (Some st))"
  by pat_completeness auto
termination
  by (relation "measure (\<lambda>(img, image_len, e_phoff, e_phentsize, e_phnum, i, st). e_phnum - i)") auto

declare elf_ph_loop.simps [simp del]

definition parse_exec_elf_image :: "bytes option \<Rightarrow> u64 \<Rightarrow> bool \<Rightarrow> exec_image option option" where
  "parse_exec_elf_image ptr image_len out =
     (case ptr of
        None \<Rightarrow> Some None
      | Some img \<Rightarrow>
          if \<not> out \<or> image_len < 64 then Some None
          else do { m0 \<leftarrow> byte_at img 0; m1 \<leftarrow> byte_at img 1; m2 \<leftarrow> byte_at img 2; m3 \<leftarrow> byte_at img 3;
            if m0 \<noteq> 0x7F \<or> m1 \<noteq> 0x45 \<or> m2 \<noteq> 0x4C \<or> m3 \<noteq> 0x46 then Some None
            else do { m4 \<leftarrow> byte_at img 4; m5 \<leftarrow> byte_at img 5; m6 \<leftarrow> byte_at img 6;
              if m4 \<noteq> QOS_ELF_CLASS_64 \<or> m5 \<noteq> QOS_ELF_DATA_LSB \<or> m6 \<noteq> 1 then Some None
              else do { e_type \<leftarrow> elf_u16 img 16; e_machine \<leftarrow> elf_u16 img 18; e_phoff \<leftarrow> elf_u64 img 32;
                e_phentsize \<leftarrow> elf_u16 img 54; e_phnum \<leftarrow> elf_u16 img 56;
                if (e_type \<noteq> QOS_ELF_ET_EXEC \<and> e_type \<noteq> QOS_ELF_ET_DYN) \<or>
                   (e_machine \<noteq> QOS_ELF_EM_X86_64 \<and> e_machine \<noteq> QOS_ELF_EM_AARCH64) then Some None
                else if e_phnum = 0 \<or> e_phentsize < 56 then Some None
                else if e_phoff > image_len then Some None
                else if ucast e_phnum > (UINT64_MAX - e_phoff) div ucast e_phentsize then Some None
                else if e_phoff + ucast e_phnum * ucast e_phentsize > image_len then Some None
                else case elf_ph_loop img image_len e_phoff e_phentsize (unat e_phnum) 0
                       \<lparr>ph_loads = 0, ph_interp = 0, ph_off = 0, ph_len = 0\<rparr> of
                    None \<Rightarrow> None
                  | Some None \<Rightarrow> Some None
                  | Some (Some st) \<Rightarrow>
                      if ph_loads st = 0 then Some None
                      else do { e_entry \<leftarrow> elf_u64 img 24;
                        Some (Some \<lparr>im_entry = e_entry, im_phoff = e_phoff, im_phentsize = e_phentsize,
                          im_phnum = e_phnum, im_load_count = ph_loads st, im_has_interp = ph_interp st,
                          im_interp_off = ph_off st, im_interp_len = ph_len st\<rparr>) } } } })"

definition parse_shared_elf_image :: "bytes option \<Rightarrow> u64 \<Rightarrow> exec_image option option" where
  "parse_shared_elf_image ptr image_len =
     (case ptr of
        None \<Rightarrow> Some None
      | Some img \<Rightarrow>
          if image_len < 64 then Some None
          else do { e_type \<leftarrow> elf_u16 img 16;
            if e_type \<noteq> QOS_ELF_ET_DYN then Some None else parse_exec_elf_image ptr image_len True })"

section \<open>Specification\<close>

text \<open>
  A little-endian field as a number, and what makes an image acceptable, all in the unbounded natural
  numbers.
\<close>

fun le_nat :: "bytes \<Rightarrow> nat" where
  "le_nat [] = 0"
| "le_nat (b # bs) = unat b + 256 * le_nat bs"

fun le_word :: "bytes \<Rightarrow> 'a :: len word" where
  "le_word [] = 0"
| "le_word (b # bs) = ucast b OR push_bit 8 (le_word bs)"

definition field :: "bytes \<Rightarrow> nat \<Rightarrow> nat \<Rightarrow> nat" where
  "field img n p = le_nat (take n (drop p img))"

definition in_image :: "nat \<Rightarrow> nat \<Rightarrow> nat \<Rightarrow> bool" where
  "in_image len off sz \<longleftrightarrow> off + sz \<le> len"

definition ph_base :: "bytes \<Rightarrow> nat \<Rightarrow> nat" where
  "ph_base img i = field img 8 32 + i * field img 2 54"

definition ph_load :: "bytes \<Rightarrow> nat \<Rightarrow> bool" where
  "ph_load img b \<longleftrightarrow> field img 4 b = 1"

definition ph_is_interp :: "bytes \<Rightarrow> nat \<Rightarrow> bool" where
  "ph_is_interp img b \<longleftrightarrow> field img 4 b = 3"

definition load_ok :: "bytes \<Rightarrow> nat \<Rightarrow> nat \<Rightarrow> bool" where
  "load_ok img len b \<longleftrightarrow>
     field img 8 (b + 32) \<le> field img 8 (b + 40) \<and>
     (field img 8 (b + 32) \<noteq> 0 \<longrightarrow> in_image len (field img 8 (b + 8)) (field img 8 (b + 32))) \<and>
     (field img 8 (b + 48) \<noteq> 0 \<longrightarrow>
        field img 8 (b + 16) mod field img 8 (b + 48) = field img 8 (b + 8) mod field img 8 (b + 48))"

definition interp_ok :: "bytes \<Rightarrow> nat \<Rightarrow> nat \<Rightarrow> bool" where
  "interp_ok img len b \<longleftrightarrow>
     field img 8 (b + 32) \<noteq> 0 \<and> in_image len (field img 8 (b + 8)) (field img 8 (b + 32)) \<and>
     img ! (field img 8 (b + 8) + field img 8 (b + 32) - 1) = 0"

definition ph_ok :: "bytes \<Rightarrow> nat \<Rightarrow> nat \<Rightarrow> bool" where
  "ph_ok img len b \<longleftrightarrow> (ph_load img b \<longrightarrow> load_ok img len b) \<and> (ph_is_interp img b \<longrightarrow> interp_ok img len b)"

definition elf_wf :: "bytes \<Rightarrow> nat \<Rightarrow> bool" where
  "elf_wf img len \<longleftrightarrow>
     64 \<le> len \<and> take 7 img = [0x7F, 0x45, 0x4C, 0x46, 2, 1, 1] \<and>
     field img 2 16 \<in> {2, 3} \<and> field img 2 18 \<in> {0x3E, 0xB7} \<and>
     56 \<le> field img 2 54 \<and> ph_base img (field img 2 56) \<le> len \<and>
     (\<forall>i < field img 2 56. ph_ok img len (ph_base img i)) \<and>
     (\<exists>i < field img 2 56. ph_load img (ph_base img i))"

definition elf_header_ok :: "bytes \<Rightarrow> bool" where
  "elf_header_ok img \<longleftrightarrow> take 7 img = [0x7F, 0x45, 0x4C, 0x46, 2, 1, 1] \<and> field img 2 16 \<in> {2, 3} \<and>
     field img 2 18 \<in> {0x3E, 0xB7} \<and> field img 2 56 \<noteq> 0 \<and> 56 \<le> field img 2 54"

text \<open>What is stored for an accepted image; of several interpreters the last counts.\<close>

definition interps :: "bytes \<Rightarrow> nat list" where
  "interps img = filter (ph_is_interp img) (map (ph_base img) [0..<field img 2 56])"

definition elf_image :: "bytes \<Rightarrow> exec_image" where
  "elf_image img =
     \<lparr>im_entry = word_of_nat (field img 8 24), im_phoff = word_of_nat (field img 8 32),
      im_phentsize = word_of_nat (field img 2 54), im_phnum = word_of_nat (field img 2 56),
      im_load_count = word_of_nat (length (filter (ph_load img) (map (ph_base img) [0..<field img 2 56]))),
      im_has_interp = (if interps img = [] then 0 else 1),
      im_interp_off = (if interps img = [] then 0 else word_of_nat (field img 8 (last (interps img) + 8))),
      im_interp_len = (if interps img = [] then 0 else word_of_nat (field img 8 (last (interps img) + 32)))\<rparr>"

text \<open>One program header, as a step on what the loop carries.\<close>

definition ph_next :: "bytes \<Rightarrow> nat \<Rightarrow> ph_state \<Rightarrow> ph_state" where
  "ph_next img b st =
     (if ph_load img b then st\<lparr>ph_loads := ph_loads st + 1\<rparr>
      else if ph_is_interp img b
        then st\<lparr>ph_interp := 1, ph_off := word_of_nat (field img 8 (b + 8)), ph_len := word_of_nat (field img 8 (b + 32))\<rparr>
      else st)"

section \<open>Fields\<close>

lemma or_push_bit_8:
  assumes "256 * unat w < 2 ^ LENGTH('a)" "8 \<le> LENGTH('a)"
  shows "unat (ucast (b :: u8) OR push_bit 8 (w :: 'a :: len word)) = unat b + 256 * unat w"
proof -
  have b: "unat b < 256" using unsigned_less [of b] by simp
  have "ucast b AND push_bit 8 w = (0 :: 'a word)"
    by (rule bit_word_eqI) (auto simp: bit_simps dest: bit_imp_le_length)
  then have "ucast b OR push_bit 8 w = ucast b + push_bit 8 w"
    by (simp add: disjunctive_add_eq_or)
  moreover have "unat (ucast b :: 'a word) = unat b"
    using b power_increasing [OF assms(2), of "2 :: nat"] by (simp add: unsigned_ucast_eq take_bit_nat_eq_self)
  moreover have "unat (push_bit 8 w) = 256 * unat w"
  proof -
    have "unat (push_bit 8 w) = take_bit LENGTH('a) (push_bit 8 (unat w))" by (rule unsigned_push_bit_eq)
    also have "push_bit 8 (unat w) = 256 * unat w" by (simp add: push_bit_eq_mult)
    finally show ?thesis using assms(1) by (simp add: take_bit_nat_eq_self)
  qed
  moreover have "unat b + 256 * unat w < 2 ^ LENGTH('a)"
  proof -
    obtain k where k: "2 ^ LENGTH('a) = 256 * (k :: nat)"
      using assms(2) le_imp_power_dvd [of 8 "LENGTH('a)" "2 :: nat"] by (auto elim: dvdE)
    with assms(1) have "unat w < k" by simp
    then have "256 * unat w + 256 \<le> 256 * k" by simp
    with b k show ?thesis by linarith
  qed
  ultimately show ?thesis by (simp add: unat_word_ariths)
qed

lemma le_nat_bound: "le_nat bs < 256 ^ length bs"
proof (induction bs)
  case (Cons b bs)
  have "unat b < 256" using unsigned_less [of b] by simp
  with Cons show ?case by simp
qed simp

lemma le_nat_zeros [simp]: "le_nat (replicate n 0) = 0"
  by (induction n) auto

lemma unat_le_word: "8 * length bs \<le> LENGTH('a) \<Longrightarrow> unat (le_word bs :: 'a :: len word) = le_nat bs"
proof (induction bs)
  case (Cons b bs)
  then have IH: "unat (le_word bs :: 'a word) = le_nat bs" by simp
  have "256 * le_nat bs < 256 * 256 ^ length bs" using le_nat_bound [of bs] by simp
  also have "\<dots> = (2 :: nat) ^ (8 * length (b # bs))" by (simp add: power_mult power_add)
  also have "\<dots> \<le> 2 ^ LENGTH('a)" by (rule power_increasing) (use Cons.prems in simp_all)
  finally show ?case using Cons.prems IH by (simp add: or_push_bit_8)
qed simp

lemma field_Suc: "p < length img \<Longrightarrow> field img (Suc n) p = unat (img ! p) + 256 * field img n (Suc p)"
  by (simp add: field_def Cons_nth_drop_Suc [symmetric])

lemma field_bound: "field img n p < 256 ^ n"
proof -
  have "field img n p < 256 ^ length (take n (drop p img))" unfolding field_def by (rule le_nat_bound)
  also have "\<dots> \<le> 256 ^ n" by (rule power_increasing) simp_all
  finally show ?thesis .
qed

lemma take_drop_Cons: "p < length img \<Longrightarrow> take (Suc n) (drop p img) = img ! p # take n (drop (Suc p) img)"
  by (simp add: Cons_nth_drop_Suc [symmetric])

lemma word_field:
  assumes "8 * n \<le> LENGTH('a)"
  shows "(le_word (take n (drop p img)) :: 'a :: len word) = word_of_nat (field img n p)"
proof -
  have "unat (le_word (take n (drop p img)) :: 'a word) = field img n p"
    unfolding field_def by (rule unat_le_word) (use assms in auto)
  then have "word_of_nat (field img n p) = (word_of_nat (unat (le_word (take n (drop p img)) :: 'a word)) :: 'a word)"
    by (simp only:)
  then show ?thesis by simp
qed

lemmas elf_or = push_bit_or push_bit_push_bit or.assoc

lemma elf_u16_eq: "elf_u16 img p = (if p + 2 \<le> length img then Some (word_of_nat (field img 2 p)) else None)"
  by (auto simp: elf_u16_def byte_at_def numeral_2_eq_2 take_drop_Cons word_field [symmetric] bind_eq_None_conv)

lemma elf_u32_eq: "elf_u32 img p = (if p + 4 \<le> length img then Some (word_of_nat (field img 4 p)) else None)"
proof (cases "p + 4 \<le> length img")
  case True
  then have "take 4 (drop p img) = [img ! p, img ! (p + 1), img ! (p + 2), img ! (p + 3)]"
    by (simp add: numeral_eq_Suc take_drop_Cons)
  with True show ?thesis by (simp add: elf_u32_def byte_at_def word_field [symmetric] elf_or)
qed (simp add: elf_u32_def byte_at_def bind_eq_None_conv)

lemma elf_u64_eq: "elf_u64 img p = (if p + 8 \<le> length img then Some (word_of_nat (field img 8 p)) else None)"
proof (cases "p + 8 \<le> length img")
  case True
  then have "take 8 (drop p img) = [img ! p, img ! (p + 1), img ! (p + 2), img ! (p + 3), img ! (p + 4), img ! (p + 5),
      img ! (p + 6), img ! (p + 7)]"
    by (simp add: numeral_eq_Suc take_drop_Cons)
  with True show ?thesis by (simp add: elf_u64_def byte_at_def word_field [symmetric] elf_or)
qed (simp add: elf_u64_def byte_at_def bind_eq_None_conv)

lemma unat_field:
  "unat (word_of_nat (field img 2 p) :: u16) = field img 2 p"
  "unat (word_of_nat (field img 4 p) :: u32) = field img 4 p"
  "unat (word_of_nat (field img 8 p) :: u64) = field img 8 p"
  using field_bound [of img 2 p] field_bound [of img 4 p] field_bound [of img 8 p]
  by (simp_all add: unat_of_nat)

lemma field_eq_word:
  "word_of_nat (field img 2 p) = w16 \<longleftrightarrow> field img 2 p = unat w16"
  "word_of_nat (field img 4 p) = w32 \<longleftrightarrow> field img 4 p = unat w32"
  "word_of_nat (field img 8 p) = w64 \<longleftrightarrow> field img 8 p = unat w64"
  for w16 :: u16 and w32 :: u32 and w64 :: u64
  by (metis unat_field(1) of_nat_unat ucast_id, metis unat_field(2) of_nat_unat ucast_id,
      metis unat_field(3) of_nat_unat ucast_id)

section \<open>Program headers\<close>

lemma range_in_image:
  fixes off sz len :: u64
  shows "\<not> (off > len \<or> sz > len - off) \<longleftrightarrow> in_image (unat len) (unat off) (unat sz)"
proof (cases "off \<le> len")
  case True
  then have "unat (len - off) = unat len - unat off" by (rule unat_sub)
  with True show ?thesis by (auto simp: in_image_def word_less_nat_alt word_le_nat_alt)
next
  case False
  then show ?thesis by (auto simp: in_image_def word_less_nat_alt word_le_nat_alt)
qed

lemma unat_last_byte:
  fixes off sz len :: u64
  assumes "in_image (unat len) (unat off) (unat sz)" "sz \<noteq> 0"
  shows "unat (off + sz - 1) = unat off + unat sz - 1"
proof -
  have "unat off + unat sz < 2 ^ 64"
    using assms(1) unat_u64_lt [of len] by (simp add: in_image_def)
  then have "unat (off + sz) = unat off + unat sz" by (simp add: unat_word_ariths)
  moreover from this have "off + sz \<noteq> 0" using assms(2) by (metis add_is_0 unat_eq_zero unsigned_0)
  ultimately show ?thesis by (simp add: unat_minus_one)
qed

lemma elf_ph_step_eq:
  fixes image_len phoff :: u64
  assumes len: "unat image_len \<le> length img" and b: "unat phoff + 56 \<le> unat image_len"
  shows "elf_ph_step img image_len phoff st =
    Some (if ph_ok img (unat image_len) (unat phoff) then Some (ph_next img (unat phoff) st) else None)"
proof -
  let ?b = "unat phoff"
  let ?off = "word_of_nat (field img 8 (?b + 8)) :: u64" and ?sz = "word_of_nat (field img 8 (?b + 32)) :: u64"
  have reads: "elf_u32 img ?b = Some (word_of_nat (field img 4 ?b))"
    "elf_u64 img (?b + 8) = Some ?off" "elf_u64 img (?b + 16) = Some (word_of_nat (field img 8 (?b + 16)))"
    "elf_u64 img (?b + 32) = Some ?sz" "elf_u64 img (?b + 40) = Some (word_of_nat (field img 8 (?b + 40)))"
    "elf_u64 img (?b + 48) = Some (word_of_nat (field img 8 (?b + 48)))"
    using len b by (auto simp: elf_u32_eq elf_u64_eq)
  have range: "\<not> (?off > image_len \<or> ?sz > image_len - ?off) \<longleftrightarrow>
      in_image (unat image_len) (field img 8 (?b + 8)) (field img 8 (?b + 32))"
    using range_in_image [of image_len ?off ?sz] by (simp only: unat_field)
  have last: "byte_at img (unat (?off + ?sz - 1)) = Some (img ! (field img 8 (?b + 8) + field img 8 (?b + 32) - 1))"
    if "in_image (unat image_len) (field img 8 (?b + 8)) (field img 8 (?b + 32))" "field img 8 (?b + 32) \<noteq> 0"
    using unat_last_byte [of image_len ?off ?sz] that len
    by (auto simp: unat_field field_eq_word byte_at_def in_image_def)
  have conv: "(word_of_nat (field img 4 ?b) = (1 :: u32)) = ph_load img ?b"
    "(word_of_nat (field img 4 ?b) = (3 :: u32)) = ph_is_interp img ?b"
    "((word_of_nat (field img 8 (?b + 40)) :: u64) < ?sz) = (\<not> field img 8 (?b + 32) \<le> field img 8 (?b + 40))"
    "(?sz = 0) = (field img 8 (?b + 32) = 0)"
    "((word_of_nat (field img 8 (?b + 48)) :: u64) = 0) = (field img 8 (?b + 48) = 0)"
    "((word_of_nat (field img 8 (?b + 16)) :: u64) mod word_of_nat (field img 8 (?b + 48)) =
       ?off mod word_of_nat (field img 8 (?b + 48))) =
     (field img 8 (?b + 16) mod field img 8 (?b + 48) = field img 8 (?b + 8) mod field img 8 (?b + 48))"
    by (simp_all add: field_eq_word ph_load_def ph_is_interp_def word_less_nat_alt unat_field not_le
        unat_mod_distrib word_unat_eq_iff)
  have distinct: "\<not> (ph_load img ?b \<and> ph_is_interp img ?b)" by (simp add: ph_load_def ph_is_interp_def)
  consider "ph_load img ?b" "\<not> ph_is_interp img ?b" | "ph_is_interp img ?b" "\<not> ph_load img ?b"
    | "\<not> ph_load img ?b" "\<not> ph_is_interp img ?b" using distinct by blast
  then show ?thesis
  proof cases
    case 1
    then show ?thesis
      unfolding elf_ph_step_def reads using range
      by (simp add: conv ph_ok_def ph_next_def load_ok_def) blast
  next
    case 2
    then show ?thesis
      unfolding elf_ph_step_def reads using range last
      by (auto simp: conv ph_ok_def ph_next_def interp_ok_def)
  next
    case 3
    then show ?thesis unfolding elf_ph_step_def reads by (simp add: conv ph_ok_def ph_next_def)
  qed
qed

lemma ucast_field: "(ucast (word_of_nat (field img 2 p) :: u16) :: u64) = word_of_nat (field img 2 p)"
proof -
  have "unat (ucast (word_of_nat (field img 2 p) :: u16) :: u64) = field img 2 p"
    using field_bound [of img 2 p] by (simp add: unsigned_ucast_eq unat_field take_bit_nat_eq_self)
  moreover have "unat (word_of_nat (field img 2 p) :: u64) = field img 2 p"
    using field_bound [of img 2 p] by (simp add: unat_of_nat)
  ultimately show ?thesis by (simp add: word_unat_eq_iff)
qed

lemma ph_base_word:
  "(word_of_nat (field img 8 32) + word_of_nat i * word_of_nat (field img 2 54) :: u64) = word_of_nat (ph_base img i)"
  by (simp add: ph_base_def)

lemma ph_base_mono: "i \<le> j \<Longrightarrow> ph_base img i \<le> ph_base img j"
  by (simp add: ph_base_def)

lemma ph_base_header:
  assumes "i < n" "56 \<le> field img 2 54" "ph_base img n \<le> L"
  shows "ph_base img i + 56 \<le> L"
  using ph_base_mono [of "Suc i" n img] assms by (simp add: ph_base_def)

lemma elf_ph_loop_eq:
  fixes image_len :: u64
  assumes "unat image_len \<le> length img" "56 \<le> field img 2 54" "ph_base img n \<le> unat image_len"
  shows "elf_ph_loop img image_len (word_of_nat (field img 8 32)) (word_of_nat (field img 2 54)) n i st =
    Some (if \<forall>j. i \<le> j \<and> j < n \<longrightarrow> ph_ok img (unat image_len) (ph_base img j)
          then Some (fold (ph_next img) (map (ph_base img) [i..<n]) st) else None)"
proof (induction "n - i" arbitrary: i st)
  case 0
  then show ?case by (simp add: elf_ph_loop.simps)
next
  case (Suc d)
  let ?off = "word_of_nat (ph_base img i) :: u64"
  have i: "i < n" using Suc.hyps by simp
  from ph_base_header [OF i assms(2,3)] have b: "ph_base img i + 56 \<le> unat image_len" .
  then have off: "unat ?off = ph_base img i" using unat_u64_lt [of image_len] by (simp add: unat_of_nat)
  have step: "elf_ph_step img image_len ?off st =
      Some (if ph_ok img (unat image_len) (ph_base img i) then Some (ph_next img (ph_base img i) st) else None)"
    using elf_ph_step_eq [OF assms(1), of ?off st] b by (simp only: off)
  have split: "(\<forall>j. i \<le> j \<and> j < n \<longrightarrow> P (ph_base img j)) \<longleftrightarrow>
      P (ph_base img i) \<and> (\<forall>j. Suc i \<le> j \<and> j < n \<longrightarrow> P (ph_base img j))" for P
    using i by (metis Suc_le_eq le_neq_implies_less less_imp_le_nat order_refl)
  have IH: "elf_ph_loop img image_len (word_of_nat (field img 8 32)) (word_of_nat (field img 2 54)) n (Suc i) st' =
    Some (if \<forall>j. Suc i \<le> j \<and> j < n \<longrightarrow> ph_ok img (unat image_len) (ph_base img j)
          then Some (fold (ph_next img) (map (ph_base img) [Suc i..<n]) st') else None)" for st'
    by (rule Suc.hyps) (use Suc.hyps in simp)
  show ?case
    using i unfolding split
    by (subst elf_ph_loop.simps) (simp add: ucast_field ph_base_word step IH upt_conv_Cons del: of_nat_add of_nat_mult)
qed

text \<open>What the loop has collected at its end.\<close>

lemma ph_loads_fold:
  "ph_loads (fold (ph_next img) bs st) = ph_loads st + word_of_nat (length (filter (ph_load img) bs))"
  by (induction bs arbitrary: st) (auto simp: ph_next_def)

lemma ph_interp_fold:
  assumes "bs' = filter (ph_is_interp img) bs"
  shows "ph_interp (fold (ph_next img) bs st) = (if bs' = [] then ph_interp st else 1) \<and>
    ph_off (fold (ph_next img) bs st) = (if bs' = [] then ph_off st else word_of_nat (field img 8 (last bs' + 8))) \<and>
    ph_len (fold (ph_next img) bs st) = (if bs' = [] then ph_len st else word_of_nat (field img 8 (last bs' + 32)))"
  using assms
proof (induction bs arbitrary: st bs')
  case (Cons b bs)
  have "\<not> (ph_load img b \<and> ph_is_interp img b)" by (simp add: ph_load_def ph_is_interp_def)
  with Cons.IH [OF refl, of "ph_next img b st"] Cons.prems show ?case by (auto simp: ph_next_def)
qed simp

lemma loads_zero:
  assumes "n < 2 ^ 16"
  shows "(word_of_nat (length (filter P (map f [0..<n]))) :: u16) = 0 \<longleftrightarrow> \<not> (\<exists>i < n. P (f i))"
proof -
  have "length (filter P (map f [0..<n])) \<le> n" by (metis diff_zero length_filter_le length_map length_upt)
  then have "(word_of_nat (length (filter P (map f [0..<n]))) :: u16) = 0 \<longleftrightarrow> filter P (map f [0..<n]) = []"
    using assms by (simp add: word_unat_eq_iff unat_of_nat filter_map)
  then show ?thesis by (auto simp: filter_empty_conv)
qed

section \<open>The whole parser\<close>

text \<open>The three comparisons of the table of program headers with the length, two of them guards against overflow.\<close>

lemma ph_table_guard:
  fixes image_len e_phoff num ent :: u64
  assumes "ent \<noteq> 0"
  shows "\<not> (e_phoff > image_len) \<and> \<not> (num > (UINT64_MAX - e_phoff) div ent) \<and> \<not> (e_phoff + num * ent > image_len) \<longleftrightarrow>
    unat e_phoff + unat num * unat ent \<le> unat image_len"
proof -
  have m: "unat (UINT64_MAX - e_phoff) = 2 ^ 64 - 1 - unat e_phoff"
    by (subst unat_sub) (auto simp: word_le_nat_alt less_Suc_eq_le [symmetric] unat_u64_lt)
  have e: "0 < unat ent" using assms by (simp add: unat_gt_0)
  have "num \<le> (UINT64_MAX - e_phoff) div ent \<longleftrightarrow> unat num * unat ent \<le> 2 ^ 64 - 1 - unat e_phoff"
    using e by (simp add: word_le_nat_alt unat_div m less_eq_div_iff_mult_less_eq)
  also have "\<dots> \<longleftrightarrow> unat e_phoff + unat num * unat ent < 2 ^ 64"
    using unat_u64_lt [of e_phoff] by auto
  finally have g: "num \<le> (UINT64_MAX - e_phoff) div ent \<longleftrightarrow> unat e_phoff + unat num * unat ent < 2 ^ 64" .
  have "unat (e_phoff + num * ent) = unat e_phoff + unat num * unat ent"
    if "unat e_phoff + unat num * unat ent < 2 ^ 64"
    using that by (simp add: unat_word_ariths)
  with g show ?thesis
    using unat_u64_lt [of image_len] by (auto simp: word_le_nat_alt not_less)
qed

lemma magic_take:
  "64 \<le> length img \<Longrightarrow> take 7 img = [0x7F, 0x45, 0x4C, 0x46, 2, 1, 1] \<longleftrightarrow>
     img ! 0 = 0x7F \<and> img ! 1 = 0x45 \<and> img ! 2 = 0x4C \<and> img ! 3 = 0x46 \<and> img ! 4 = 2 \<and> img ! 5 = 1 \<and> img ! 6 = 1"
proof -
  assume "64 \<le> length img"
  then have "take 7 img = [img ! 0, img ! 1, img ! 2, img ! 3, img ! 4, img ! 5, img ! 6]"
    by (intro nth_equalityI) (auto simp: less_Suc_eq numeral_eq_Suc)
  then show ?thesis by auto
qed

lemma elf_header_reads:
  assumes "64 \<le> length img"
  shows "byte_at img 0 = Some (img ! 0)" "byte_at img 1 = Some (img ! 1)" "byte_at img 2 = Some (img ! 2)"
    "byte_at img 3 = Some (img ! 3)" "byte_at img 4 = Some (img ! 4)" "byte_at img 5 = Some (img ! 5)"
    "byte_at img 6 = Some (img ! 6)" "elf_u16 img 16 = Some (word_of_nat (field img 2 16))"
    "elf_u16 img 18 = Some (word_of_nat (field img 2 18))" "elf_u64 img 32 = Some (word_of_nat (field img 8 32))"
    "elf_u16 img 54 = Some (word_of_nat (field img 2 54))" "elf_u16 img 56 = Some (word_of_nat (field img 2 56))"
    "elf_u64 img 24 = Some (word_of_nat (field img 8 24))"
  using assms by (auto simp: byte_at_def elf_u16_eq elf_u64_eq)

lemma ph_table_fields:
  fixes image_len :: u64
  assumes "56 \<le> field img 2 54"
  defines "off \<equiv> word_of_nat (field img 8 32) :: u64" and "num \<equiv> word_of_nat (field img 2 56) :: u64"
    and "ent \<equiv> word_of_nat (field img 2 54) :: u64"
  shows "\<not> (off > image_len) \<and> \<not> (num > (UINT64_MAX - off) div ent) \<and> \<not> (off + num * ent > image_len) \<longleftrightarrow>
    ph_base img (field img 2 56) \<le> unat image_len"
proof -
  have small: "unat num = field img 2 56" "unat ent = field img 2 54" "unat off = field img 8 32"
    using field_bound [of img 2 56] field_bound [of img 2 54] unat_field(3) [of img 32]
    by (simp_all add: unat_of_nat num_def ent_def off_def)
  then have "ent \<noteq> 0" using assms(1) by force
  from ph_table_guard [OF this, of image_len off num] show ?thesis by (simp only: small ph_base_def)
qed

lemma parse_exec_elf_shape:
  fixes image_len :: u64
  assumes "unat image_len \<le> length img" "64 \<le> unat image_len"
  shows "parse_exec_elf_image (Some img) image_len True =
    (if \<not> elf_header_ok img \<or> \<not> ph_base img (field img 2 56) \<le> unat image_len then Some None
     else case elf_ph_loop img image_len (word_of_nat (field img 8 32)) (word_of_nat (field img 2 54)) (field img 2 56) 0
              \<lparr>ph_loads = 0, ph_interp = 0, ph_off = 0, ph_len = 0\<rparr> of
        None \<Rightarrow> None
      | Some None \<Rightarrow> Some None
      | Some (Some st) \<Rightarrow>
          if ph_loads st = 0 then Some None
          else Some (Some \<lparr>im_entry = word_of_nat (field img 8 24), im_phoff = word_of_nat (field img 8 32),
            im_phentsize = word_of_nat (field img 2 54), im_phnum = word_of_nat (field img 2 56),
            im_load_count = ph_loads st, im_has_interp = ph_interp st, im_interp_off = ph_off st,
            im_interp_len = ph_len st\<rparr>))"
proof -
  have len64: "64 \<le> length img" using assms by simp
  have ge: "\<not> image_len < 64" using assms(2) by (simp add: word_less_nat_alt)
  note reads = elf_header_reads [OF len64] and magic = magic_take [OF len64]
  show ?thesis
  proof (cases "elf_header_ok img")
    case True
    have k: "((word_of_nat (field img 2 16) :: u16) \<noteq> 2 \<and> (word_of_nat (field img 2 16) :: u16) \<noteq> 3 \<or>
        (word_of_nat (field img 2 18) :: u16) \<noteq> 0x3E \<and> (word_of_nat (field img 2 18) :: u16) \<noteq> 0xB7) = False"
      "((word_of_nat (field img 2 56) :: u16) = 0 \<or> (word_of_nat (field img 2 54) :: u16) < 56) = False"
      using True by (auto simp: elf_header_ok_def field_eq_word word_less_nat_alt unat_field)
    have ent: "56 \<le> field img 2 54" using True by (simp add: elf_header_ok_def)
    have m: "img ! 0 = 0x7F \<and> img ! 1 = 0x45 \<and> img ! 2 = 0x4C \<and> img ! 3 = 0x46 \<and> img ! 4 = 2 \<and> img ! 5 = 1 \<and> img ! 6 = 1"
      using True magic by (simp add: elf_header_ok_def)
    show ?thesis
      unfolding parse_exec_elf_image_def reads option.case bind.bind_lunit ucast_field k
      using ph_table_fields [OF ent, of image_len] ge m True by (auto simp: unat_field)
  next
    case False
    then show ?thesis
      using magic ge
      unfolding parse_exec_elf_image_def reads option.case bind.bind_lunit elf_header_ok_def ucast_field
      by (auto simp: field_eq_word word_less_nat_alt unat_field)
  qed
qed

lemma parse_exec_elf_eq:
  fixes image_len :: u64
  assumes len: "unat image_len \<le> length img"
  shows "parse_exec_elf_image (Some img) image_len True =
    Some (if elf_wf img (unat image_len) then Some (elf_image img) else None)"
proof (cases "64 \<le> unat image_len")
  case False
  then show ?thesis by (simp add: parse_exec_elf_image_def elf_wf_def word_less_nat_alt)
next
  case ge: True
  let ?L = "unat image_len" and ?n = "field img 2 56"
  have n16: "?n < 2 ^ 16" using field_bound [of img 2 56] by simp
  note parse = parse_exec_elf_shape [OF len ge]
  show ?thesis
  proof (cases "elf_header_ok img \<and> ph_base img ?n \<le> ?L")
    case False
    then have "\<not> elf_wf img ?L" by (auto simp: elf_wf_def elf_header_ok_def)
    with False show ?thesis by (auto simp: parse)
  next
    case True
    then have wf: "elf_wf img ?L \<longleftrightarrow> (\<forall>j < ?n. ph_ok img ?L (ph_base img j)) \<and> (\<exists>j < ?n. ph_load img (ph_base img j))"
      using ge by (auto simp: elf_wf_def elf_header_ok_def)
    have "56 \<le> field img 2 54" using True by (simp add: elf_header_ok_def)
    from elf_ph_loop_eq [OF len this, of ?n 0] True loads_zero [OF n16, of "ph_load img" "ph_base img"] show ?thesis
      by (simp add: parse wf ph_loads_fold ph_interp_fold [OF refl] elf_image_def interps_def)
  qed
qed

lemma parse_shared_elf_eq:
  fixes image_len :: u64
  assumes "unat image_len \<le> length img"
  shows "parse_shared_elf_image (Some img) image_len =
    Some (if elf_wf img (unat image_len) \<and> field img 2 16 = 3 then Some (elf_image img) else None)"
proof (cases "64 \<le> unat image_len")
  case True
  then have "elf_u16 img 16 = Some (word_of_nat (field img 2 16))" using assms by (intro elf_header_reads) simp
  with True show ?thesis
    by (simp add: parse_shared_elf_image_def parse_exec_elf_eq [OF assms] word_less_nat_alt field_eq_word)
qed (simp add: parse_shared_elf_image_def elf_wf_def word_less_nat_alt)

section \<open>Property\<close>

text \<open>
  C3. The ELF reader is exact and memory safe. For a buffer of at least \<open>image_len\<close> bytes, whatever they
  are, \<open>parse_exec_elf_image\<close> reads no byte outside the buffer and accepts exactly the images that are
  well formed in unbounded arithmetic: right magic, class, type and machine; a table of program headers that
  lies inside the image; every loadable segment inside the image, no larger in the file than in memory and
  with file offset and address congruent modulo the alignment; every interpreter name inside the image and
  zero-terminated; at least one loadable segment. What it stores is the entry point, the geometry of the
  table, the number of loadable segments and the last interpreter. \<open>parse_shared_elf_image\<close> accepts those of
  type shared object.
\<close>

theorem elf_parser_exact:
  fixes image_len :: u64
  assumes "unat image_len \<le> length img"
  shows "parse_exec_elf_image (Some img) image_len True =
      Some (if elf_wf img (unat image_len) then Some (elf_image img) else None) \<and>
    parse_shared_elf_image (Some img) image_len =
      Some (if elf_wf img (unat image_len) \<and> field img 2 16 = 3 then Some (elf_image img) else None)"
  using parse_exec_elf_eq [OF assms] parse_shared_elf_eq [OF assms] by simp

theorem elf_parser_exact_witness:
  "let img = [0x7F, 0x45, 0x4C, 0x46, 2, 1, 1] @ replicate 9 0 @ [3, 0, 0x3E, 0] @ replicate 4 0 @
         [0, 0x10, 0, 0, 0, 0, 0, 0, 64, 0, 0, 0, 0, 0, 0, 0] @ replicate 14 0 @ [56, 0, 1, 0] @ replicate 6 0 @
         [1, 0, 0, 0] @ replicate 28 0 @ [8, 0, 0, 0, 0, 0, 0, 0, 16, 0, 0, 0, 0, 0, 0, 0] @ replicate 8 0 in
     unat (120 :: u64) \<le> length img \<and> elf_wf img 120 \<and> im_entry (elf_image img) = 0x1000 \<and> im_load_count (elf_image img) = 1 \<and>
     parse_exec_elf_image (Some img) 120 True = Some (Some (elf_image img)) \<and>
     parse_shared_elf_image (Some img) 120 = Some (Some (elf_image img))"
proof -
  define img where "img = [0x7F, 0x45, 0x4C, 0x46, 2, 1, 1] @ replicate 9 0 @ [3, 0, 0x3E, 0] @ replicate 4 0 @
         [0, 0x10, 0, 0, 0, 0, 0, 0, 64, 0, 0, 0, 0, 0, 0, 0] @ replicate 14 0 @ [56, 0, 1, 0] @ replicate 6 0 @
         [1, 0, 0, 0] @ replicate 28 0 @ [8, 0, 0, 0, 0, 0, 0, 0, 16, 0, 0, 0, 0, 0, 0, 0] @ replicate 8 (0 :: u8)"
  have len: "length img = 120" by (simp add: img_def)
  have hdr: "field img 2 16 = 3" "field img 2 18 = 0x3E" "field img 8 24 = 0x1000" "field img 8 32 = 64"
    "field img 2 54 = 56" "field img 2 56 = 1"
    by (simp_all add: img_def field_def take_append drop_append)
  have ph: "field img 4 64 = 1" "field img 8 72 = 0" "field img 8 80 = 0" "field img 8 96 = 8" "field img 8 104 = 16"
    "field img 8 112 = 0"
    by (simp_all add: img_def field_def take_append drop_append)
  have magic: "take 7 img = [0x7F, 0x45, 0x4C, 0x46, 2, 1, 1]" by (simp add: img_def)
  have "elf_wf img 120" "im_entry (elf_image img) = 0x1000" "im_load_count (elf_image img) = 1"
    by (simp_all add: elf_wf_def hdr magic ph_base_def ph_ok_def ph_load_def ph_is_interp_def load_ok_def ph in_image_def
        elf_image_def)
  with len hdr(1) show ?thesis using elf_parser_exact [of 120 img] unfolding Let_def img_def by simp
qed

end
