(* ===== verification/Udp.thy ===== *)
theory Udp
  imports Net
begin

text \<open>
  UDP in \<^verbatim>\<open>src/c-os/kernel/net/net.c\<close>: bound ports and the array of waiting datagrams. A datagram sent to
  a bound port is delivered to this host; one to any other port is taken as sent.
\<close>

section \<open>Model\<close>

definition udp_port_is_bound :: "u16 \<Rightarrow> net \<Rightarrow> bool" where
  "udp_port_is_bound port s \<longleftrightarrow>
     scan (\<lambda>i. u_used (g_udp_ports s i) \<and> u_port (g_udp_ports s i) = port) 0 QOS_NET_UDP_PORT_MAX \<noteq> None"

definition dg_match :: "u16 \<Rightarrow> udp_datagram \<Rightarrow> bool" where
  "dg_match port d \<longleftrightarrow> dg_used d \<and> dg_dst_port d = port"

text \<open>The two loops of \<open>udp_drop_port_datagrams\<close>; \<open>n\<close> is \<open>g_udp_count\<close>.\<close>

function udp_keep_loop :: "u16 \<Rightarrow> nat \<Rightarrow> nat \<Rightarrow> nat \<Rightarrow> udp_datagram arr \<Rightarrow> nat \<times> udp_datagram arr" where
  "udp_keep_loop port n src dst g =
     (if src < n then
        if dg_match port (g src) then udp_keep_loop port n (Suc src) dst g
        else udp_keep_loop port n (Suc src) (Suc dst) (if dst \<noteq> src then g(dst := g src) else g)
      else (dst, g))"
  by pat_completeness auto
termination
  by (relation "measure (\<lambda>(port, n, src, dst, g). n - src)") auto

function udp_clear_loop :: "nat \<Rightarrow> nat \<Rightarrow> udp_datagram arr \<Rightarrow> nat \<times> udp_datagram arr" where
  "udp_clear_loop n dst g = (if dst < n then udp_clear_loop n (Suc dst) (g(dst := datagram0)) else (dst, g))"
  by pat_completeness auto
termination
  by (relation "measure (\<lambda>(n, dst, g). n - dst)") auto

declare udp_keep_loop.simps [simp del] udp_clear_loop.simps [simp del]

definition udp_drop_port_datagrams :: "u16 \<Rightarrow> net \<Rightarrow> net" where
  "udp_drop_port_datagrams port s =
     (let n = unat (g_udp_count s);
          (dst, g1) = udp_keep_loop port n 0 0 (g_udp_datagrams s);
          (dst2, g2) = udp_clear_loop n dst g1 in
      s\<lparr>g_udp_datagrams := g2, g_udp_count := word_of_nat dst2\<rparr>)"

definition qos_net_udp_bind :: "u16 \<Rightarrow> net \<Rightarrow> int \<times> net" where
  "qos_net_udp_bind port s =
     (if port < QOS_NET_PORT_MIN_DYNAMIC \<or> udp_port_is_bound port s then (-1, s)
      else case find_free QOS_NET_UDP_PORT_MAX u_used (g_udp_ports s) of
        None \<Rightarrow> (-1, s)
      | Some i \<Rightarrow> (0, s\<lparr>g_udp_ports := (g_udp_ports s)(i := \<lparr>u_used = True, u_port = port\<rparr>)\<rparr>))"

definition qos_net_udp_unbind :: "u16 \<Rightarrow> net \<Rightarrow> int \<times> net" where
  "qos_net_udp_unbind port s =
     (case scan (\<lambda>i. u_used (g_udp_ports s i) \<and> u_port (g_udp_ports s i) = port) 0 QOS_NET_UDP_PORT_MAX of
        None \<Rightarrow> (-1, s)
      | Some i \<Rightarrow>
          (0, udp_drop_port_datagrams port (s\<lparr>g_udp_ports := (g_udp_ports s)(i := \<lparr>u_used = False, u_port = 0\<rparr>)\<rparr>)))"

definition qos_net_udp_send :: "u16 \<Rightarrow> u32 \<Rightarrow> u16 \<Rightarrow> bytes option \<Rightarrow> u32 \<Rightarrow> net \<Rightarrow> int \<times> net" where
  "qos_net_udp_send src_port src_ip dst_port data len s =
     (case data of
        None \<Rightarrow> (-1, s)
      | Some d \<Rightarrow>
          if src_port < QOS_NET_PORT_MIN_DYNAMIC \<or> src_ip = 0 \<or> dst_port = 0 \<or> len = 0 \<or> unat len > QOS_NET_MAX_PACKET
          then (-1, s)
          else if \<not> udp_port_is_bound dst_port s then (int (unat len), s)
          else if unat (g_udp_count s) \<ge> QOS_NET_UDP_MAX_DATAGRAMS then (-1, s)
          else let n = unat (g_udp_count s) in
            (int (unat len),
             s\<lparr>g_udp_datagrams := (g_udp_datagrams s)(n := \<lparr>dg_used = True, dg_dst_port = dst_port, dg_src_port = src_port,
                  dg_src_ip = src_ip, dg_len = ucast len,
                  dg_data = memcpy_to (dg_data (g_udp_datagrams s n)) d (unat len)\<rparr>),
               g_udp_count := g_udp_count s + 1\<rparr>))"

text \<open>
  The result, the received bytes with the sender's address and port, and the state. The inner loop
  moves the later datagrams down by one and clears the last.
\<close>

type_synonym udp_msg = "u32 \<times> u16 \<times> bytes"

definition qos_net_udp_recv :: "u16 \<Rightarrow> bool \<Rightarrow> u32 \<Rightarrow> net \<Rightarrow> (int \<times> udp_msg option) \<times> net" where
  "qos_net_udp_recv dst_port out cap s =
     (if dst_port = 0 \<or> \<not> out \<or> cap = 0 then ((-1, None), s)
      else let n = unat (g_udp_count s) in
        case scan (\<lambda>i. dg_match dst_port (g_udp_datagrams s i)) 0 n of
          None \<Rightarrow> ((-1, None), s)
        | Some i \<Rightarrow>
            let d = g_udp_datagrams s i; len = dg_len d in
            if cap < ucast len then ((-1, None), s)
            else ((int (unat len), Some (dg_src_ip d, dg_src_port d, take (unat len) (dg_data d))),
                  s\<lparr>g_udp_datagrams := (\<lambda>j. if j = n - 1 then datagram0
                       else if i \<le> j \<and> j + 1 < n then g_udp_datagrams s (j + 1) else g_udp_datagrams s j),
                    g_udp_count := g_udp_count s - 1\<rparr>))"

section \<open>Specification\<close>

text \<open>
  The bound ports, the messages waiting for each port in the order of their arrival, and the number of
  array cells taken.
\<close>

record udp_net =
  bound :: "u16 set"
  waiting :: "u16 \<Rightarrow> udp_msg list"
  cells :: nat

definition dg_msg :: "udp_datagram \<Rightarrow> udp_msg" where
  "dg_msg d = (dg_src_ip d, dg_src_port d, take (unat (dg_len d)) (dg_data d))"

definition dg_list :: "net \<Rightarrow> udp_datagram list" where
  "dg_list s = map (g_udp_datagrams s) [0..<unat (g_udp_count s)]"

definition udp_abs :: "net \<Rightarrow> udp_net" where
  "udp_abs s = \<lparr>bound = keys QOS_NET_UDP_PORT_MAX u_used u_port (g_udp_ports s),
     waiting = (\<lambda>port. map dg_msg (filter (dg_match port) (dg_list s))), cells = unat (g_udp_count s)\<rparr>"

definition udp_inv :: "net \<Rightarrow> bool" where
  "udp_inv s \<longleftrightarrow> uniq_keys QOS_NET_UDP_PORT_MAX u_used u_port (g_udp_ports s) \<and>
     (\<forall>i < QOS_NET_UDP_PORT_MAX. u_used (g_udp_ports s i) \<longrightarrow> QOS_NET_PORT_MIN_DYNAMIC \<le> u_port (g_udp_ports s i)) \<and>
     unat (g_udp_count s) \<le> QOS_NET_UDP_MAX_DATAGRAMS \<and>
     (\<forall>d \<in> set (dg_list s). dg_used d \<longrightarrow> unat (dg_len d) \<le> length (dg_data d))"

datatype udp_op = Bind u16 | Unbind u16 | Send u16 u32 u16 bytes | Recv u16 u32

text \<open>\<open>Send\<close> passes a whole buffer.\<close>

fun udp_step :: "udp_op \<Rightarrow> net \<Rightarrow> (int \<times> udp_msg option) \<times> net" where
  "udp_step (Bind port) s = (case qos_net_udp_bind port s of (r, s') \<Rightarrow> ((r, None), s'))"
| "udp_step (Unbind port) s = (case qos_net_udp_unbind port s of (r, s') \<Rightarrow> ((r, None), s'))"
| "udp_step (Send src_port src_ip dst_port d) s =
     (case qos_net_udp_send src_port src_ip dst_port (Some d) (if length d < 2 ^ 32 then word_of_nat (length d) else 0) s of
        (r, s') \<Rightarrow> ((r, None), s'))"
| "udp_step (Recv port cap) s = qos_net_udp_recv port True cap s"

fun udp_spec :: "udp_op \<Rightarrow> udp_net \<Rightarrow> (int \<times> udp_msg option) \<times> udp_net" where
  "udp_spec (Bind port) m =
     (if port < 1024 \<or> port \<in> bound m \<or> card (bound m) = QOS_NET_UDP_PORT_MAX then ((-1, None), m)
      else ((0, None), m\<lparr>bound := insert port (bound m)\<rparr>))"
| "udp_spec (Unbind port) m =
     (if port \<notin> bound m then ((-1, None), m)
      else ((0, None), m\<lparr>bound := bound m - {port}, waiting := (waiting m)(port := [])\<rparr>))"
| "udp_spec (Send src_port src_ip dst_port d) m =
     (if src_port < 1024 \<or> src_ip = 0 \<or> dst_port = 0 \<or> d = [] \<or> length d > QOS_NET_MAX_PACKET then ((-1, None), m)
      else if dst_port \<notin> bound m then ((int (length d), None), m)
      else if cells m = QOS_NET_UDP_MAX_DATAGRAMS then ((-1, None), m)
      else ((int (length d), None), m\<lparr>waiting := (waiting m)(dst_port := waiting m dst_port @ [(src_ip, src_port, d)]), cells := cells m + 1\<rparr>))"
| "udp_spec (Recv port cap) m =
     (if port = 0 \<or> cap = 0 then ((-1, None), m)
      else case waiting m port of
        [] \<Rightarrow> ((-1, None), m)
      | (ip, sp, d) # ds \<Rightarrow>
          if unat cap < length d then ((-1, None), m)
          else ((int (length d), Some (ip, sp, d)), m\<lparr>waiting := (waiting m)(port := ds), cells := cells m - 1\<rparr>))"

text \<open>One operation does what the specification says.\<close>

definition udp_refines :: "udp_op \<Rightarrow> net \<Rightarrow> bool" where
  "udp_refines x s \<longleftrightarrow> (\<exists>s'. udp_step x s = (fst (udp_spec x (udp_abs s)), s') \<and> udp_inv s' \<and>
     udp_abs s' = snd (udp_spec x (udp_abs s)))"

section \<open>Library\<close>

lemma udp_keep_loop_list:
  assumes "dst \<le> src" "src \<le> n"
  shows "\<exists>dst' g'. udp_keep_loop port n src dst g = (dst', g') \<and> dst' \<le> n \<and>
    map g' [0..<dst'] = map g [0..<dst] @ filter (\<lambda>d. \<not> dg_match port d) (map g [src..<n])"
  using assms
proof (induction "n - src" arbitrary: src dst g)
  case 0
  then show ?case by (subst udp_keep_loop.simps) simp
next
  case (Suc k)
  have n: "src < n" using Suc.hyps(2) by simp
  then have c: "[src..<n] = src # [Suc src..<n]" by (simp add: upt_conv_Cons)
  show ?case
  proof (cases "dg_match port (g src)")
    case True
    then have "udp_keep_loop port n src dst g = udp_keep_loop port n (Suc src) dst g"
      using n by (subst udp_keep_loop.simps) simp
    then show ?thesis using Suc.hyps(1) [of "Suc src" dst g] Suc.hyps(2) Suc.prems True unfolding c by simp
  next
    case False
    let ?g = "g(dst := g src)"
    have "(if dst \<noteq> src then ?g else g) = ?g" by auto
    then have "udp_keep_loop port n src dst g = udp_keep_loop port n (Suc src) (Suc dst) ?g"
      using n False by (subst udp_keep_loop.simps) simp
    moreover have "map ?g [0..<Suc dst] = map g [0..<dst] @ [g src]" by simp
    moreover have "map ?g [Suc src..<n] = map g [Suc src..<n]" using Suc.prems by simp
    ultimately show ?thesis
      using Suc.hyps(1) [of "Suc src" "Suc dst" ?g] Suc.hyps(2) Suc.prems False unfolding c by (simp del: fun_upd_apply upt_Suc)
  qed
qed

lemma udp_clear_loop_eq:
  "dst \<le> n \<Longrightarrow> udp_clear_loop n dst g = (n, \<lambda>i. if dst \<le> i \<and> i < n then datagram0 else g i)"
proof (induction "n - dst" arbitrary: dst g)
  case 0
  then have "dst = n" by simp
  then show ?case by (subst udp_clear_loop.simps) (auto simp: fun_eq_iff)
next
  case (Suc k)
  then have "dst < n" by simp
  then have "udp_clear_loop n dst g = udp_clear_loop n (Suc dst) (g(dst := datagram0))"
    by (subst udp_clear_loop.simps) simp
  also have "\<dots> = (n, \<lambda>i. if Suc dst \<le> i \<and> i < n then datagram0 else (g(dst := datagram0)) i)"
    using Suc.hyps(2) by (intro Suc.hyps(1)) simp_all
  also have "\<dots> = (n, \<lambda>i. if dst \<le> i \<and> i < n then datagram0 else g i)"
    using Suc.hyps(2) by (auto simp: fun_eq_iff)
  finally show ?case .
qed

text \<open>Dropping keeps the other datagrams in order and fills up with cleared cells: the count stays.\<close>

lemma udp_drop_list:
  "dg_list (udp_drop_port_datagrams port s) = filter (\<lambda>d. \<not> dg_match port d) (dg_list s) @
     replicate (length (filter (dg_match port) (dg_list s))) datagram0"
  "g_udp_count (udp_drop_port_datagrams port s) = g_udp_count s"
  "g_udp_ports (udp_drop_port_datagrams port s) = g_udp_ports s"
proof -
  let ?n = "unat (g_udp_count s)" and ?g = "g_udp_datagrams s"
  obtain dst g1 where k: "udp_keep_loop port ?n 0 0 ?g = (dst, g1)" "dst \<le> ?n"
    "map g1 [0..<dst] = filter (\<lambda>d. \<not> dg_match port d) (dg_list s)"
    using udp_keep_loop_list [of 0 0 ?n port ?g] by (auto simp: dg_list_def)
  let ?g2 = "\<lambda>i. if dst \<le> i \<and> i < ?n then datagram0 else g1 i"
  have st: "udp_drop_port_datagrams port s = s\<lparr>g_udp_datagrams := ?g2\<rparr>"
    using k(1) udp_clear_loop_eq [OF k(2), of g1] by (simp add: udp_drop_port_datagrams_def)
  have "[0..<?n] = [0..<dst] @ [dst..<?n]" using k(2) by (metis le0 le_Suc_ex upt_add_eq_append)
  moreover have "map ?g2 [0..<dst] = map g1 [0..<dst]" using k(2) by simp
  moreover have "map ?g2 [dst..<?n] = replicate (?n - dst) datagram0" by (rule nth_equalityI) simp_all
  ultimately have l: "dg_list (udp_drop_port_datagrams port s) = map g1 [0..<dst] @ replicate (?n - dst) datagram0"
    unfolding st by (simp add: dg_list_def)
  have "length (filter (\<lambda>d. \<not> dg_match port d) (dg_list s)) = dst" using k(3) by (metis length_map length_upt minus_nat.diff_0)
  moreover have "length (filter (dg_match port) (dg_list s)) + length (filter (\<lambda>d. \<not> dg_match port d) (dg_list s)) = ?n"
    unfolding sum_length_filter_compl by (simp add: dg_list_def)
  ultimately show "dg_list (udp_drop_port_datagrams port s) = filter (\<lambda>d. \<not> dg_match port d) (dg_list s) @
     replicate (length (filter (dg_match port) (dg_list s))) datagram0"
    using l k(3) by (metis diff_add_inverse2)
  show "g_udp_count (udp_drop_port_datagrams port s) = g_udp_count s"
    "g_udp_ports (udp_drop_port_datagrams port s) = g_udp_ports s" unfolding st by simp_all
qed

lemma datagram0_no_match: "\<not> dg_match port datagram0"
  by (simp add: dg_match_def datagram0_def)

lemma udp_drop_waiting:
  "filter (dg_match p) (dg_list (udp_drop_port_datagrams port s)) = (if p = port then [] else filter (dg_match p) (dg_list s))"
proof -
  have "filter (dg_match p) (filter (\<lambda>d. \<not> dg_match port d) xs) = (if p = port then [] else filter (dg_match p) xs)" for xs
  proof (cases "p = port")
    case False
    then have "\<not> dg_match port x \<and> dg_match p x \<longleftrightarrow> dg_match p x" for x by (auto simp: dg_match_def)
    then show ?thesis using False by simp
  qed (simp add: filter_empty_conv)
  then show ?thesis unfolding udp_drop_list by (auto simp: datagram0_no_match filter_empty_conv)
qed

lemma udp_bound: "udp_port_is_bound port s \<longleftrightarrow> port \<in> bound (udp_abs s)"
  by (simp add: udp_port_is_bound_def udp_abs_def find_key_def [symmetric] find_key_None)

lemma udp_bound_full:
  "udp_inv s \<Longrightarrow> find_free QOS_NET_UDP_PORT_MAX u_used (g_udp_ports s) = None \<longleftrightarrow> card (bound (udp_abs s)) = QOS_NET_UDP_PORT_MAX"
  by (simp add: udp_inv_def udp_abs_def card_keys find_free_None)

section \<open>The operations refine the specification\<close>

lemma udp_abs_sel [simp]:
  "bound (udp_abs s) = keys QOS_NET_UDP_PORT_MAX u_used u_port (g_udp_ports s)"
  "waiting (udp_abs s) port = map dg_msg (filter (dg_match port) (dg_list s))" "cells (udp_abs s) = unat (g_udp_count s)"
  by (simp_all add: udp_abs_def)

lemma udp_same: "udp_inv s \<Longrightarrow> udp_step x s = (r, s) \<Longrightarrow> udp_spec x (udp_abs s) = (r, udp_abs s) \<Longrightarrow> udp_refines x s"
  by (simp add: udp_refines_def)

lemma udp_refines_bind:
  assumes inv: "udp_inv s"
  shows "udp_refines (Bind port) s"
proof (cases "port < 1024 \<or> udp_port_is_bound port s \<or> find_free QOS_NET_UDP_PORT_MAX u_used (g_udp_ports s) = None")
  case True
  then have "qos_net_udp_bind port s = (-1, s)" by (auto simp: qos_net_udp_bind_def)
  then show ?thesis
    using True udp_bound [of port s] udp_bound_full [OF inv] by (intro udp_same [OF inv]) auto
next
  case False
  then obtain i where i: "find_free 64 u_used (g_udp_ports s) = Some i" by auto
  note f = find_free_Some [OF i]
  let ?g = "(g_udp_ports s)(i := \<lparr>u_used = True, u_port = port\<rparr>)"
  let ?s = "s\<lparr>g_udp_ports := ?g\<rparr>"
  have nb: "port \<notin> keys 64 u_used u_port (g_udp_ports s)" using False udp_bound [of port s] by simp
  have st: "qos_net_udp_bind port s = (0, ?s)" using False i by (simp add: qos_net_udp_bind_def)
  have k: "keys 64 u_used u_port ?g = insert port (keys 64 u_used u_port (g_udp_ports s))"
    using keys_insert [of i 64 u_used "g_udp_ports s" "\<lparr>u_used = True, u_port = port\<rparr>" u_port] f by simp
  have "uniq_keys 64 u_used u_port ?g" using inv f nb by (auto simp: udp_inv_def intro!: uniq_keys_insert)
  then have "udp_inv ?s" using inv False by (auto simp: udp_inv_def dg_list_def)
  moreover have "udp_abs ?s = (udp_abs s)\<lparr>bound := insert port (bound (udp_abs s))\<rparr>"
    by (simp add: udp_abs_def k dg_list_def)
  moreover have "card (keys 64 u_used u_port (g_udp_ports s)) \<noteq> 64" using udp_bound_full [OF inv] i by auto
  ultimately show ?thesis using st nb False by (simp add: udp_refines_def)
qed

lemma udp_refines_unbind:
  assumes inv: "udp_inv s"
  shows "udp_refines (Unbind port) s"
proof (cases "find_key 64 u_used u_port (g_udp_ports s) port")
  case None
  then have "qos_net_udp_unbind port s = (-1, s)" by (simp add: qos_net_udp_unbind_def find_key_def)
  then show ?thesis using None by (intro udp_same [OF inv]) (auto simp: find_key_None)
next
  case (Some i)
  note f = find_key_Some [OF Some]
  let ?g = "(g_udp_ports s)(i := \<lparr>u_used = False, u_port = 0\<rparr>)"
  let ?t = "s\<lparr>g_udp_ports := ?g\<rparr>"
  define s' where "s' = udp_drop_port_datagrams port ?t"
  have st: "qos_net_udp_unbind port s = (0, s')" using Some by (simp add: qos_net_udp_unbind_def find_key_def s'_def)
  have u: "uniq_keys 64 u_used u_port (g_udp_ports s)" using inv by (simp add: udp_inv_def)
  have k: "keys 64 u_used u_port ?g = keys 64 u_used u_port (g_udp_ports s) - {port}"
    using keys_remove [of 64 u_used u_port "g_udp_ports s" i "\<lparr>u_used = False, u_port = 0\<rparr>"] u f by simp
  have l: "dg_list ?t = dg_list s" by (simp add: dg_list_def)
  have f': "g_udp_ports s' = ?g" "g_udp_count s' = g_udp_count s" by (simp_all add: s'_def udp_drop_list(2,3))
  have l': "dg_list s' = filter (\<lambda>d. \<not> dg_match port d) (dg_list s) @ replicate (length (filter (dg_match port) (dg_list s))) datagram0"
    unfolding s'_def udp_drop_list(1) l ..
  have w: "filter (dg_match p) (dg_list s') = (if p = port then [] else filter (dg_match p) (dg_list s))" for p
    unfolding s'_def udp_drop_waiting l ..
  have "uniq_keys 64 u_used u_port ?g" using u by (auto intro!: uniq_keys_remove)
  then have "udp_inv s'"
    using inv unfolding udp_inv_def f' l' by (auto simp: datagram0_def split: if_splits)
  moreover have "udp_abs s' = (udp_abs s)\<lparr>bound := bound (udp_abs s) - {port}, waiting := (waiting (udp_abs s))(port := [])\<rparr>"
    unfolding udp_abs_def w f' k by (simp add: fun_eq_iff)
  moreover have "port \<in> keys 64 u_used u_port (g_udp_ports s)" using Some by (auto simp: find_key_mem)
  ultimately show ?thesis using st by (simp add: udp_refines_def)
qed

lemma udp_refines_send:
  assumes inv: "udp_inv s"
  shows "udp_refines (Send sp ip dp d) s"
proof -
  let ?len = "if length d < 2 ^ 32 then word_of_nat (length d) else 0 :: u32"
  define bad where "bad \<longleftrightarrow> sp < 1024 \<or> ip = 0 \<or> dp = 0 \<or> d = [] \<or> length d > 1500"
  have u: "unat (word_of_nat (length d) :: u32) = length d" if "length d < 2 ^ 32" using that by (intro unat_u32_of_nat) simp
  have b: "sp < 1024 \<or> ip = 0 \<or> dp = 0 \<or> ?len = 0 \<or> unat ?len > 1500 \<longleftrightarrow> bad"
    using u by (auto simp: bad_def unat_eq_0 [symmetric])
  have len: "unat ?len = length d" "d \<noteq> []" "length d \<le> 1500" if "\<not> bad" using that u by (auto simp: bad_def)
  have st: "qos_net_udp_send sp ip dp (Some d) ?len s = (if bad then (-1, s) else if \<not> udp_port_is_bound dp s then (int (unat ?len), s)
      else if unat (g_udp_count s) \<ge> 64 then (-1, s) else (int (unat ?len),
       s\<lparr>g_udp_datagrams := (g_udp_datagrams s)(unat (g_udp_count s) := \<lparr>dg_used = True, dg_dst_port = dp, dg_src_port = sp,
           dg_src_ip = ip, dg_len = ucast ?len, dg_data = memcpy_to (dg_data (g_udp_datagrams s (unat (g_udp_count s)))) d (unat ?len)\<rparr>),
         g_udp_count := g_udp_count s + 1\<rparr>))"
    unfolding qos_net_udp_send_def b [symmetric] by (simp add: Let_def)
  have full: "64 \<le> unat (g_udp_count s) \<longleftrightarrow> unat (g_udp_count s) = 64" using inv by (auto simp: udp_inv_def)
  show ?thesis
  proof (cases "bad \<or> \<not> udp_port_is_bound dp s \<or> 64 \<le> unat (g_udp_count s)")
    case True
    let ?r = "(if \<not> bad \<and> \<not> udp_port_is_bound dp s then int (length d) else -1, None)"
    have "udp_step (Send sp ip dp d) s = (?r, s)" using st len True by auto
    moreover have "udp_spec (Send sp ip dp d) (udp_abs s) = (?r, udp_abs s)"
      using True full unfolding udp_bound bad_def by auto
    ultimately show ?thesis by (rule udp_same [OF inv])
  next
    case ok: False
    let ?n = "unat (g_udp_count s)"
    let ?d = "\<lparr>dg_used = True, dg_dst_port = dp, dg_src_port = sp, dg_src_ip = ip, dg_len = ucast ?len,
        dg_data = memcpy_to (dg_data (g_udp_datagrams s ?n)) d (unat ?len)\<rparr>"
    define s' where "s' = s\<lparr>g_udp_datagrams := (g_udp_datagrams s)(?n := ?d), g_udp_count := g_udp_count s + 1\<rparr>"
    have c: "unat (g_udp_count s + 1) = Suc ?n" using ok by (simp add: unat_word_ariths)
    have l: "dg_list s' = dg_list s @ [?d]" unfolding dg_list_def s'_def by (simp add: c)
    have l16: "unat (ucast ?len :: u16) = length d" using len ok by (simp add: unsigned_ucast_eq take_bit_nat_eq_self)
    have "dg_msg ?d = (ip, sp, d)" using l16 len ok by (simp add: dg_msg_def memcpy_to_def)
    then have "udp_abs s' = (udp_abs s)\<lparr>waiting := (waiting (udp_abs s))(dp := waiting (udp_abs s) dp @ [(ip, sp, d)]),
        cells := cells (udp_abs s) + 1\<rparr>"
      unfolding udp_abs_def l by (auto simp: fun_eq_iff dg_match_def s'_def c)
    moreover have "udp_inv s'"
      using inv ok c l16 len unfolding udp_inv_def l by (auto simp: s'_def memcpy_to_def)
    moreover have e: "unat ?len = length d" using len(1) ok by blast
    have "qos_net_udp_send sp ip dp (Some d) ?len s = (int (length d), s')"
      using ok unfolding st s'_def e by simp
    ultimately show ?thesis
      using ok udp_bound [of dp s] full by (auto simp: udp_refines_def bad_def)
  qed
qed

lemma udp_recv_shift:
  assumes "i < n"
  shows "map (\<lambda>j. if j = n - 1 then z else if i \<le> j \<and> j + 1 < n then g (j + 1) else g j) [0..<n - 1] =
    take i (map g [0..<n]) @ drop (Suc i) (map g [0..<n])"
  using assms by (intro nth_equalityI) (auto simp: nth_append min_def)

lemma udp_refines_recv:
  assumes inv: "udp_inv s"
  shows "udp_refines (Recv port cap) s"
proof -
  let ?n = "unat (g_udp_count s)" and ?g = "g_udp_datagrams s"
  show ?thesis
  proof (cases "port = 0 \<or> cap = 0 \<or> scan (\<lambda>i. dg_match port (?g i)) 0 ?n = None")
    case True
    have "filter (dg_match port) (dg_list s) = []" if "scan (\<lambda>i. dg_match port (?g i)) 0 ?n = None"
      using that by (auto simp: dg_list_def filter_empty_conv scan_None_iff)
    then have "udp_spec (Recv port cap) (udp_abs s) = ((-1, None), udp_abs s)" using True by auto
    moreover have "udp_step (Recv port cap) s = ((-1, None), s)" using True by (auto simp: qos_net_udp_recv_def Let_def)
    ultimately show ?thesis by (intro udp_same [OF inv])
  next
    case False
    then obtain i where i: "scan (\<lambda>i. dg_match port (?g i)) 0 ?n = Some i" by auto
    then have f: "i < ?n" "dg_match port (?g i)" "\<And>j. j < i \<Longrightarrow> \<not> dg_match port (?g j)" by (auto simp: scan_Some_iff)
    have xs: "dg_list s = take i (dg_list s) @ ?g i # drop (Suc i) (dg_list s)"
      using f(1) id_take_nth_drop [of i "dg_list s"] by (simp add: dg_list_def)
    have pre: "filter (dg_match port) (take i (dg_list s)) = []"
      using f(1,3) by (auto simp: filter_empty_conv dg_list_def take_map)
    have q: "filter (dg_match p) (dg_list s) = filter (dg_match p) (take i (dg_list s)) @
        (if p = port then [?g i] else []) @ filter (dg_match p) (drop (Suc i) (dg_list s))" for p
      using f(2) by (subst xs) (auto simp: dg_match_def)
    have len: "unat (dg_len (?g i)) \<le> length (dg_data (?g i))"
      using inv f(1,2) by (auto simp: udp_inv_def dg_list_def dg_match_def)
    have msg: "dg_msg (?g i) = (dg_src_ip (?g i), dg_src_port (?g i), take (unat (dg_len (?g i))) (dg_data (?g i)))"
      by (simp add: dg_msg_def)
    have w: "waiting (udp_abs s) port = dg_msg (?g i) # map dg_msg (filter (dg_match port) (drop (Suc i) (dg_list s)))"
      using q [of port] pre by simp
    have cmp: "cap < ucast (dg_len (?g i)) \<longleftrightarrow> unat cap < unat (dg_len (?g i))" by (simp add: word_less_nat_alt unat_u16_u32)
    show ?thesis
    proof (cases "unat cap < unat (dg_len (?g i))")
      case True
      have "udp_step (Recv port cap) s = ((-1, None), s)" using True i False cmp by (simp add: qos_net_udp_recv_def Let_def)
      moreover have "udp_spec (Recv port cap) (udp_abs s) = ((-1, None), udp_abs s)"
        using True w msg len False by (simp add: min_def)
      ultimately show ?thesis by (rule udp_same [OF inv])
    next
      case room: False
      define s' where "s' = s\<lparr>g_udp_datagrams := (\<lambda>j. if j = ?n - 1 then datagram0
          else if i \<le> j \<and> j + 1 < ?n then ?g (j + 1) else ?g j), g_udp_count := g_udp_count s - 1\<rparr>"
      have c: "unat (g_udp_count s - 1) = ?n - 1" using f(1) by (intro unat_pred_count) simp
      have l: "dg_list s' = take i (dg_list s) @ drop (Suc i) (dg_list s)"
        using udp_recv_shift [OF f(1), of datagram0 ?g] by (simp add: dg_list_def s'_def c)
      have st: "udp_step (Recv port cap) s = ((int (unat (dg_len (?g i))), Some (dg_msg (?g i))), s')"
        using room i False cmp msg by (simp add: qos_net_udp_recv_def Let_def s'_def)
      have abs: "udp_abs s' = (udp_abs s)\<lparr>waiting := (waiting (udp_abs s))(port := map dg_msg (filter (dg_match port) (drop (Suc i) (dg_list s)))),
          cells := cells (udp_abs s) - 1\<rparr>"
        using pre q unfolding udp_abs_def l by (auto simp: s'_def c fun_eq_iff)
      have "set (dg_list s') \<subseteq> set (dg_list s)" unfolding l using set_take_subset set_drop_subset by fastforce
      then have "udp_inv s'" using inv c by (auto simp: udp_inv_def s'_def)
      then show ?thesis using st abs w msg len room False by (simp add: udp_refines_def)
    qed
  qed
qed

interpretation udp_sim: simulation udp_step udp_spec udp_abs udp_inv
proof
  fix s x assume "udp_inv s"
  then have "udp_refines x s"
    by (cases x) (simp_all only: udp_refines_bind udp_refines_unbind udp_refines_send udp_refines_recv)
  then show "\<exists>s'. udp_step x s = (fst (udp_spec x (udp_abs s)), s') \<and> udp_inv s' \<and> udp_abs s' = snd (udp_spec x (udp_abs s))"
    by (simp add: udp_refines_def)
qed

lemma udp_reset_inv: "udp_inv qos_net_reset" "udp_abs qos_net_reset = \<lparr>bound = {}, waiting = (\<lambda>_. []), cells = 0\<rparr>"
  by (simp_all add: udp_inv_def udp_abs_def qos_net_reset_def dg_list_def)

text \<open>When every cell is taken and nothing waits, no operation changes that.\<close>

lemma udp_spec_stuck:
  "cells m = 64 \<and> (\<forall>p. waiting m p = []) \<Longrightarrow> cells (snd (udp_spec x m)) = 64 \<and> (\<forall>p. waiting (snd (udp_spec x m)) p = [])"
  by (cases x) auto

lemma udp_spec_stuck_run:
  "cells m = 64 \<and> (\<forall>p. waiting m p = []) \<Longrightarrow>
     cells (snd (run_ops udp_spec xs m)) = 64 \<and> (\<forall>p. waiting (snd (run_ops udp_spec xs m)) p = [])"
proof (induction xs arbitrary: m)
  case (Cons x xs)
  from Cons.IH [OF udp_spec_stuck [OF Cons.prems, of x]] show ?case by (simp add: split_beta Let_def)
qed simp

lemma snd_run_ops_append: "snd (run_ops f (xs @ ys) s) = snd (run_ops f ys (snd (run_ops f xs s)))"
  by (induction xs arbitrary: s) (simp_all add: split_beta Let_def)

lemma udp_spec_sends:
  "\<lbrakk>dp \<in> bound m; 1024 \<le> sp; ip \<noteq> 0; dp \<noteq> 0; d \<noteq> []; length d \<le> 1500; cells m + n \<le> 64\<rbrakk> \<Longrightarrow>
     snd (run_ops udp_spec (replicate n (Send sp ip dp d)) m) =
     m\<lparr>waiting := (waiting m)(dp := waiting m dp @ replicate n (ip, sp, d)), cells := cells m + n\<rparr>"
proof (induction n arbitrary: m)
  case (Suc n)
  let ?m = "m\<lparr>waiting := (waiting m)(dp := waiting m dp @ [(ip, sp, d)]), cells := cells m + 1\<rparr>"
  have "udp_spec (Send sp ip dp d) m = ((int (length d), None), ?m)" using Suc.prems by simp
  then show ?case using Suc.IH [of ?m] Suc.prems by (simp add: split_beta Let_def fun_upd_same del: udp_spec.simps fun_upd_apply)
qed simp

section \<open>Properties\<close>

text \<open>
  C14. UDP delivers to each bound port, in order, the messages sent to it. Any sequence of bind, unbind,
  send and receive gives the results of the specification: a set of at most 64 bound ports from
  1024 up, a queue of messages per port, and a pool of 64 cells. A received message has the
  bytes, the address and the port its sender gave; a message that does not fit the buffer stays.
\<close>

theorem udp_refines_queues:
  assumes "udp_inv s"
  shows "\<exists>s'. run_ops udp_step xs s = (fst (run_ops udp_spec xs (udp_abs s)), s') \<and> udp_inv s' \<and>
    udp_abs s' = snd (run_ops udp_spec xs (udp_abs s)) \<and> (\<forall>port. udp_port_is_bound port s' \<longleftrightarrow> port \<in> bound (udp_abs s'))"
  using udp_sim.sim_run [OF assms, of xs] udp_bound by blast

theorem udp_refines_queues_witness:
  "\<exists>s'. run_ops udp_step [Bind 2000, Send 3000 7 2000 [1, 2], Send 3001 8 2000 [3], Recv 2000 1, Recv 2000 2, Recv 2000 2, Recv 2000 2] qos_net_reset =
     ([(0, None), (2, None), (1, None), (-1, None), (2, Some (7, 3000, [1, 2])), (1, Some (8, 3001, [3])), (-1, None)], s')"
proof -
  let ?xs = "[Bind 2000, Send 3000 7 2000 [1, 2], Send 3001 8 2000 [3], Recv 2000 1, Recv 2000 2, Recv 2000 2, Recv 2000 2]"
  have "fst (run_ops udp_spec ?xs \<lparr>bound = {}, waiting = (\<lambda>_. []), cells = 0\<rparr>) =
    [(0, None), (2, None), (1, None), (-1, None), (2, Some (7, 3000, [1, 2])), (1, Some (8, 3001, [3])), (-1, None)]" by simp
  with udp_refines_queues [OF udp_reset_inv(1), of ?xs] show ?thesis unfolding udp_reset_inv(2) by auto
qed

text \<open>
  C39. Unbinding a port drops its messages but not the cells they occupy. Once the 64 cells are
  taken this way and no message waits for any port, no sequence of operations frees a cell: no message
  can ever be received again and every send to a bound port fails.
\<close>

theorem udp_unbind_leaks_cells:
  assumes inv: "udp_inv s"
  shows "waiting (udp_abs (snd (qos_net_udp_unbind port s))) port = (if port \<in> bound (udp_abs s) then [] else waiting (udp_abs s) port) \<and>
    cells (udp_abs (snd (qos_net_udp_unbind port s))) = cells (udp_abs s) \<and>
    (cells (udp_abs s) = QOS_NET_UDP_MAX_DATAGRAMS \<and> (\<forall>p. waiting (udp_abs s) p = []) \<longrightarrow>
      (let s' = snd (run_ops udp_step xs s) in
       (\<forall>p. waiting (udp_abs s') p = []) \<and> (\<forall>p cap. qos_net_udp_recv p True cap s' = ((-1, None), s')) \<and>
       (\<forall>sp ip dp d. udp_port_is_bound dp s' \<longrightarrow> length d \<le> QOS_NET_MAX_PACKET \<longrightarrow> fst (fst (udp_step (Send sp ip dp d) s')) = -1)))"
proof (intro conjI impI)
  have "udp_refines (Unbind port) s" by (rule udp_refines_unbind [OF inv])
  then show "waiting (udp_abs (snd (qos_net_udp_unbind port s))) port = (if port \<in> bound (udp_abs s) then [] else waiting (udp_abs s) port)"
    "cells (udp_abs (snd (qos_net_udp_unbind port s))) = cells (udp_abs s)"
    by (auto simp: udp_refines_def simp del: udp_abs_sel split: prod.splits if_splits)
  assume full: "cells (udp_abs s) = 64 \<and> (\<forall>p. waiting (udp_abs s) p = [])"
  obtain s' where s': "snd (run_ops udp_step xs s) = s'" "udp_inv s'" "udp_abs s' = snd (run_ops udp_spec xs (udp_abs s))"
    using udp_sim.sim_run [OF inv, of xs] by auto
  have stuck: "cells (udp_abs s') = 64" "\<And>p. waiting (udp_abs s') p = []"
    using udp_spec_stuck_run [OF full, of xs] unfolding s'(3) by auto
  have "qos_net_udp_recv p True cap s' = ((-1, None), s')" for p cap
  proof -
    have "scan (\<lambda>i. dg_match p (g_udp_datagrams s' i)) 0 (unat (g_udp_count s')) = None"
      using stuck(2) [of p] by (auto simp: dg_list_def filter_empty_conv scan_None_iff)
    then show ?thesis by (simp add: qos_net_udp_recv_def Let_def)
  qed
  moreover have "fst (fst (udp_step (Send sp ip dp d) s')) = -1" if "udp_port_is_bound dp s'" for sp ip dp d
    using udp_refines_send [OF s'(2), of sp ip dp d] stuck(1) that unfolding udp_bound
    by (auto simp: udp_refines_def simp del: udp_step.simps udp_abs_sel)
  ultimately show "let s' = snd (run_ops udp_step xs s) in (\<forall>p. waiting (udp_abs s') p = []) \<and>
      (\<forall>p cap. qos_net_udp_recv p True cap s' = ((-1, None), s')) \<and>
      (\<forall>sp ip dp d. udp_port_is_bound dp s' \<longrightarrow> length d \<le> 1500 \<longrightarrow> fst (fst (udp_step (Send sp ip dp d) s')) = -1)"
    unfolding Let_def s'(1) using stuck(2) by blast
qed

text \<open>A port is bound, receives 64 messages and is unbound; then a send to another bound port fails.\<close>

theorem udp_unbind_leaks_cells_witness:
  "\<exists>s. udp_inv s \<and> cells (udp_abs s) = 64 \<and> (\<forall>p. waiting (udp_abs s) p = []) \<and>
     (let s' = snd (run_ops udp_step [Bind 2001] s) in
      udp_port_is_bound 2001 s' \<and> fst (fst (udp_step (Send 3000 7 2001 [1]) s')) = -1)"
proof -
  let ?xs = "[Bind 2000] @ replicate 64 (Send 3000 7 2000 [1]) @ [Unbind 2000]"
  define m where "m = snd (run_ops udp_spec ?xs \<lparr>bound = {}, waiting = (\<lambda>_. []), cells = 0\<rparr>)"
  have m: "m = \<lparr>bound = {}, waiting = (\<lambda>_. []), cells = 64\<rparr>"
    unfolding m_def snd_run_ops_append
    by (simp add: udp_spec_sends del: replicate.simps udp_spec.simps(3)) auto
  obtain s where s: "udp_inv s" "udp_abs s = m"
    using udp_sim.sim_run [OF udp_reset_inv(1), of ?xs] unfolding udp_reset_inv(2) m_def by blast
  have full: "cells (udp_abs s) = 64 \<and> (\<forall>p. waiting (udp_abs s) p = [])" unfolding s(2) m by simp
  let ?s' = "snd (run_ops udp_step [Bind 2001] s)"
  have "udp_abs ?s' = snd (run_ops udp_spec [Bind 2001] m)" using udp_sim.sim_run [OF s(1), of "[Bind 2001]"] s(2) by auto
  then have b: "udp_port_is_bound 2001 ?s'" unfolding udp_bound m by (simp del: udp_abs_sel)
  have "length [1 :: u8] \<le> 1500" by simp
  with udp_unbind_leaks_cells [OF s(1), of 0 "[Bind 2001]"] full b
  have "fst (fst (udp_step (Send 3000 7 2001 [1]) ?s')) = -1" unfolding Let_def by blast
  then show ?thesis using s(1) full b unfolding Let_def by blast
qed

end
