(* ===== verification/Tcp.thy ===== *)
theory Tcp
  imports Net
begin

text \<open>
  TCP in \<^verbatim>\<open>src/c-os/kernel/net/net.c\<close>: listening ports, connections and the connection state machine
  with its retransmission timeout.
\<close>

section \<open>Model\<close>

abbreviation (input) QOS_TCP_EVT_RX_SYN :: u32 where "QOS_TCP_EVT_RX_SYN \<equiv> 1"
abbreviation (input) QOS_TCP_EVT_RX_SYN_ACK :: u32 where "QOS_TCP_EVT_RX_SYN_ACK \<equiv> 2"
abbreviation (input) QOS_TCP_EVT_RX_ACK :: u32 where "QOS_TCP_EVT_RX_ACK \<equiv> 3"
abbreviation (input) QOS_TCP_EVT_APP_CLOSE :: u32 where "QOS_TCP_EVT_APP_CLOSE \<equiv> 4"
abbreviation (input) QOS_TCP_EVT_RX_FIN :: u32 where "QOS_TCP_EVT_RX_FIN \<equiv> 5"
abbreviation (input) QOS_TCP_EVT_TIMEOUT :: u32 where "QOS_TCP_EVT_TIMEOUT \<equiv> 6"

definition tcp_listener_exists :: "u16 \<Rightarrow> net \<Rightarrow> bool" where
  "tcp_listener_exists port s \<longleftrightarrow>
     scan (\<lambda>i. l_used (g_tcp_listeners s i) \<and> l_port (g_tcp_listeners s i) = port) 0 QOS_NET_TCP_MAX_LISTENERS \<noteq> None"

definition tcp_next_rto :: "u32 \<Rightarrow> u32" where
  "tcp_next_rto rto_ms = (if rto_ms \<ge> 60000 then 60000 else if rto_ms > 30000 then 60000 else rto_ms * 2)"

definition qos_net_tcp_listen :: "u16 \<Rightarrow> net \<Rightarrow> int \<times> net" where
  "qos_net_tcp_listen port s =
     (if port < QOS_NET_PORT_MIN_DYNAMIC \<or> tcp_listener_exists port s then (-1, s)
      else case find_free QOS_NET_TCP_MAX_LISTENERS l_used (g_tcp_listeners s) of
        None \<Rightarrow> (-1, s)
      | Some i \<Rightarrow> (int i, s\<lparr>g_tcp_listeners := (g_tcp_listeners s)(i := \<lparr>l_used = True, l_port = port\<rparr>)\<rparr>))"

definition qos_net_tcp_unlisten :: "u16 \<Rightarrow> net \<Rightarrow> int \<times> net" where
  "qos_net_tcp_unlisten port s =
     (case scan (\<lambda>i. l_used (g_tcp_listeners s i) \<and> l_port (g_tcp_listeners s i) = port) 0 QOS_NET_TCP_MAX_LISTENERS of
        None \<Rightarrow> (-1, s)
      | Some i \<Rightarrow> (0, s\<lparr>g_tcp_listeners := (g_tcp_listeners s)(i := \<lparr>l_used = False, l_port = 0\<rparr>)\<rparr>))"

definition qos_net_tcp_connect :: "u16 \<Rightarrow> u32 \<Rightarrow> u16 \<Rightarrow> net \<Rightarrow> int \<times> net" where
  "qos_net_tcp_connect local_port remote_ip remote_port s =
     (if local_port < QOS_NET_PORT_MIN_DYNAMIC \<or> remote_ip = 0 \<or> remote_port = 0 \<or> \<not> tcp_listener_exists remote_port s
      then (-1, s)
      else case find_free QOS_NET_TCP_MAX_CONNS c_used (g_tcp_conns s) of
        None \<Rightarrow> (-1, s)
      | Some i \<Rightarrow>
          (int i, s\<lparr>g_tcp_conns := (g_tcp_conns s)(i := \<lparr>c_used = True, c_state = SYN_SENT, c_local_port = local_port,
             c_remote_port = remote_port, c_remote_ip = remote_ip, c_rto_ms = 500, c_retries = 0\<rparr>)\<rparr>))"

text \<open>The switch of \<open>qos_net_tcp_step\<close>: the state it assigns before it returns 0.\<close>

fun tcp_switch :: "tcp_state \<Rightarrow> u32 \<Rightarrow> tcp_state option" where
  "tcp_switch LISTEN e = (if e = QOS_TCP_EVT_RX_SYN then Some SYN_RECEIVED else None)"
| "tcp_switch SYN_SENT e = (if e = QOS_TCP_EVT_RX_SYN_ACK then Some ESTABLISHED else None)"
| "tcp_switch SYN_RECEIVED e = (if e = QOS_TCP_EVT_RX_ACK then Some ESTABLISHED else None)"
| "tcp_switch ESTABLISHED e =
     (if e = QOS_TCP_EVT_APP_CLOSE then Some FIN_WAIT_1 else if e = QOS_TCP_EVT_RX_FIN then Some CLOSE_WAIT else None)"
| "tcp_switch FIN_WAIT_1 e =
     (if e = QOS_TCP_EVT_RX_ACK then Some FIN_WAIT_2 else if e = QOS_TCP_EVT_RX_FIN then Some CLOSING else None)"
| "tcp_switch FIN_WAIT_2 e = (if e = QOS_TCP_EVT_RX_FIN then Some TIME_WAIT else None)"
| "tcp_switch CLOSE_WAIT e = (if e = QOS_TCP_EVT_APP_CLOSE then Some LAST_ACK else None)"
| "tcp_switch CLOSING e = (if e = QOS_TCP_EVT_RX_ACK then Some TIME_WAIT else None)"
| "tcp_switch LAST_ACK e = (if e = QOS_TCP_EVT_RX_ACK then Some CLOSED else None)"
| "tcp_switch _ e = None"

definition conn_valid :: "int \<Rightarrow> net \<Rightarrow> bool" where
  "conn_valid conn_id s \<longleftrightarrow> \<not> (conn_id < 0 \<or> conn_id \<ge> int QOS_NET_TCP_MAX_CONNS \<or> \<not> c_used (g_tcp_conns s (nat conn_id)))"

definition set_conn :: "int \<Rightarrow> tcp_conn \<Rightarrow> net \<Rightarrow> net" where
  "set_conn conn_id c s = s\<lparr>g_tcp_conns := (g_tcp_conns s)(nat conn_id := c)\<rparr>"

definition qos_net_tcp_step :: "int \<Rightarrow> u32 \<Rightarrow> net \<Rightarrow> int \<times> net" where
  "qos_net_tcp_step conn_id event s =
     (if \<not> conn_valid conn_id s then (-1, s)
      else let c = g_tcp_conns s (nat conn_id) in
        if event = QOS_TCP_EVT_TIMEOUT \<and> c_state c = TIME_WAIT then (0, set_conn conn_id (c\<lparr>c_state := CLOSED\<rparr>) s)
        else if event = QOS_TCP_EVT_TIMEOUT \<and> c_state c = SYN_SENT then
          (0, set_conn conn_id (if c_retries c \<ge> 5 then c\<lparr>c_state := CLOSED\<rparr>
              else c\<lparr>c_retries := c_retries c + 1, c_rto_ms := tcp_next_rto (c_rto_ms c)\<rparr>) s)
        else case tcp_switch (c_state c) event of
          Some st \<Rightarrow> (0, set_conn conn_id (c\<lparr>c_state := st\<rparr>) s)
        | None \<Rightarrow> (-1, s))"

fun tcp_state_num :: "tcp_state \<Rightarrow> int" where
  "tcp_state_num CLOSED = 0"
| "tcp_state_num LISTEN = 1"
| "tcp_state_num SYN_SENT = 2"
| "tcp_state_num SYN_RECEIVED = 3"
| "tcp_state_num ESTABLISHED = 4"
| "tcp_state_num FIN_WAIT_1 = 5"
| "tcp_state_num FIN_WAIT_2 = 6"
| "tcp_state_num CLOSE_WAIT = 7"
| "tcp_state_num CLOSING = 8"
| "tcp_state_num LAST_ACK = 9"
| "tcp_state_num TIME_WAIT = 10"

definition qos_net_tcp_state :: "int \<Rightarrow> net \<Rightarrow> int" where
  "qos_net_tcp_state conn_id s =
     (if \<not> conn_valid conn_id s then -1 else tcp_state_num (c_state (g_tcp_conns s (nat conn_id))))"

definition qos_net_tcp_rto :: "int \<Rightarrow> net \<Rightarrow> int" where
  "qos_net_tcp_rto conn_id s = (if \<not> conn_valid conn_id s then -1 else sint (c_rto_ms (g_tcp_conns s (nat conn_id))))"

definition qos_net_tcp_retries :: "int \<Rightarrow> net \<Rightarrow> int" where
  "qos_net_tcp_retries conn_id s =
     (if \<not> conn_valid conn_id s then -1 else int (unat (c_retries (g_tcp_conns s (nat conn_id)))))"

definition qos_net_tcp_next_rto_ms :: "u32 \<Rightarrow> u32" where
  "qos_net_tcp_next_rto_ms current_rto_ms = tcp_next_rto current_rto_ms"

section \<open>Specification\<close>

datatype tcp_op = Listen u16 | Unlisten u16 | Connect u16 u32 u16 | Step int u32

fun tcp_step :: "tcp_op \<Rightarrow> net \<Rightarrow> int \<times> net" where
  "tcp_step (Listen port) s = qos_net_tcp_listen port s"
| "tcp_step (Unlisten port) s = qos_net_tcp_unlisten port s"
| "tcp_step (Connect lp ip rp) s = qos_net_tcp_connect lp ip rp s"
| "tcp_step (Step c e) s = qos_net_tcp_step c e s"

text \<open>
  A connection in use: opened by \<open>connect\<close>, so never in a state of the passive open, at most five
  retries, and a timeout that doubled with each.
\<close>

definition conn_ok :: "tcp_conn \<Rightarrow> bool" where
  "conn_ok c \<longleftrightarrow> c_state c \<noteq> LISTEN \<and> c_state c \<noteq> SYN_RECEIVED \<and> unat (c_retries c) \<le> 5 \<and>
     unat (c_rto_ms c) = 500 * 2 ^ unat (c_retries c)"

definition tcp_inv :: "net \<Rightarrow> bool" where
  "tcp_inv s \<longleftrightarrow> (\<forall>i < QOS_NET_TCP_MAX_CONNS. c_used (g_tcp_conns s i) \<longrightarrow> conn_ok (g_tcp_conns s i))"

text \<open>The states from which a connection can still go on, with the longest way to \<open>CLOSED\<close>.\<close>

fun tcp_distance :: "tcp_state \<Rightarrow> nat" where
  "tcp_distance CLOSED = 0"
| "tcp_distance TIME_WAIT = 1"
| "tcp_distance LAST_ACK = 1"
| "tcp_distance CLOSING = 2"
| "tcp_distance FIN_WAIT_2 = 2"
| "tcp_distance CLOSE_WAIT = 2"
| "tcp_distance FIN_WAIT_1 = 3"
| "tcp_distance ESTABLISHED = 4"
| "tcp_distance SYN_SENT = 5"
| "tcp_distance SYN_RECEIVED = 5"
| "tcp_distance LISTEN = 6"

text \<open>An upper bound on the events a connection still accepts.\<close>

definition tcp_fuel :: "tcp_conn \<Rightarrow> nat" where
  "tcp_fuel c = tcp_distance (c_state c) + (if c_state c = SYN_SENT then 5 - unat (c_retries c) else 0)"

text \<open>The slots in use, and the successful connects of a history with its results.\<close>

definition conns_used :: "net \<Rightarrow> nat" where
  "conns_used s = card (live QOS_NET_TCP_MAX_CONNS c_used (g_tcp_conns s))"

fun connected :: "tcp_op \<times> int \<Rightarrow> bool" where
  "connected (Connect lp ip rp, r) \<longleftrightarrow> r \<ge> 0"
| "connected _ \<longleftrightarrow> False"

section \<open>Library\<close>

lemma next_rto_double:
  assumes "unat r = 500 * 2 ^ n" "n < 5"
  shows "unat (tcp_next_rto r) = 500 * 2 ^ Suc n"
proof -
  have "(2 :: nat) ^ n \<le> 2 ^ 4" using assms(2) by (intro power_increasing) simp_all
  then have "unat r \<le> 8000" using assms(1) by simp
  moreover from this have "unat (r * 2) = 2 * unat r" by (simp add: unat_word_ariths)
  ultimately show ?thesis using assms(1) by (auto simp: tcp_next_rto_def word_le_nat_alt word_less_nat_alt)
qed

lemma conn_ok_next:
  assumes "conn_ok c" "\<not> 5 \<le> c_retries c"
  shows "conn_ok (c\<lparr>c_retries := c_retries c + 1, c_rto_ms := tcp_next_rto (c_rto_ms c)\<rparr>)"
proof -
  have r: "unat (c_retries c) < 5" using assms(2) by (simp add: word_le_nat_alt)
  then have "unat (c_retries c + 1) = Suc (unat (c_retries c))" by (simp add: unat_word_ariths)
  then show ?thesis using assms(1) r next_rto_double [of "c_rto_ms c" "unat (c_retries c)"] by (simp add: conn_ok_def)
qed

lemma tcp_switch_ok: "tcp_switch st e = Some st' \<Longrightarrow> st \<noteq> LISTEN \<Longrightarrow> st' \<noteq> LISTEN \<and> st' \<noteq> SYN_RECEIVED"
  by (cases st) (auto split: if_splits)

lemma tcp_inv_set: "tcp_inv s \<Longrightarrow> conn_ok c \<Longrightarrow> tcp_inv (set_conn k c s)"
  by (auto simp: tcp_inv_def set_conn_def)

lemma tcp_inv_step:
  assumes inv: "tcp_inv s"
  shows "tcp_inv (snd (tcp_step x s))"
proof (cases x)
  case (Step k e)
  let ?c = "g_tcp_conns s (nat k)"
  show ?thesis
  proof (cases "conn_valid k s")
    case False
    then show ?thesis using Step inv by (simp add: qos_net_tcp_step_def)
  next
    case True
    then have ok: "conn_ok ?c" using inv by (auto simp: conn_valid_def tcp_inv_def)
    have cl: "conn_ok (?c\<lparr>c_state := CLOSED\<rparr>)" using ok by (simp add: conn_ok_def)
    have sw: "conn_ok (?c\<lparr>c_state := st\<rparr>)" if "tcp_switch (c_state ?c) e = Some st" for st
      using ok tcp_switch_ok [OF that] by (auto simp: conn_ok_def)
    show ?thesis
      using Step True inv tcp_inv_set [OF inv cl] tcp_inv_set [OF inv conn_ok_next [OF ok]] tcp_inv_set [OF inv sw]
      by (auto simp: qos_net_tcp_step_def Let_def split: option.splits)
  qed
qed (use inv in \<open>auto simp: qos_net_tcp_listen_def qos_net_tcp_unlisten_def qos_net_tcp_connect_def tcp_inv_def conn_ok_def
    split: option.splits\<close>)

lemma tcp_inv_run: "tcp_inv s \<Longrightarrow> tcp_inv (snd (run_ops tcp_step xs s))"
proof (induction xs arbitrary: s)
  case (Cons x xs)
  then show ?case using tcp_inv_step by (simp add: split_beta Let_def)
qed simp

lemma tcp_reset_inv: "tcp_inv qos_net_reset"
  by (simp add: tcp_inv_def qos_net_reset_def)

lemma sint_small: "unat (w :: u32) < 2 ^ 31 \<Longrightarrow> sint w = int (unat w)"
proof -
  assume "unat w < 2 ^ 31"
  then have "int (unat w) < int (2 ^ 31)" by (simp only: of_nat_less_iff)
  then have "uint w < 2 ^ 31" by simp
  moreover have "- (2 ^ 31) \<le> uint w" by (rule order.trans [OF _ uint_ge_0]) simp
  ultimately have "signed_take_bit 31 (uint w) = uint w" by (intro signed_take_bit_int_eq_self)
  then show ?thesis by (simp add: sint_uint)
qed

lemma tcp_switch_closer: "tcp_switch st e = Some st' \<Longrightarrow> tcp_distance st' < tcp_distance st \<and> st' \<noteq> SYN_SENT"
  by (cases st) (auto split: if_splits)

lemma tcp_step_fuel:
  assumes "conn_valid k s" "qos_net_tcp_step k e s = (0, s')"
  shows "tcp_fuel (g_tcp_conns s' (nat k)) < tcp_fuel (g_tcp_conns s (nat k)) \<and>
    (\<forall>i. i \<noteq> nat k \<longrightarrow> g_tcp_conns s' i = g_tcp_conns s i) \<and> conn_valid k s'"
proof -
  let ?c = "g_tcp_conns s (nat k)"
  have used: "c_used ?c" using assms(1) by (simp add: conn_valid_def)
  obtain c where c: "s' = set_conn k c s" "c_used c" "tcp_fuel c < tcp_fuel ?c"
  proof -
    consider (tw) "e = 6" "c_state ?c = TIME_WAIT" | (ss) "e = 6" "c_state ?c = SYN_SENT"
      | (sw) "\<not> (e = 6 \<and> c_state ?c = TIME_WAIT)" "\<not> (e = 6 \<and> c_state ?c = SYN_SENT)" by blast
    then show thesis
    proof cases
      case tw
      then have "s' = set_conn k (?c\<lparr>c_state := CLOSED\<rparr>) s" using assms by (simp add: qos_net_tcp_step_def Let_def)
      then show thesis using tw used by (intro that [of "?c\<lparr>c_state := CLOSED\<rparr>"]) (simp_all add: tcp_fuel_def)
    next
      case ss
      let ?n = "if c_retries ?c \<ge> 5 then ?c\<lparr>c_state := CLOSED\<rparr>
          else ?c\<lparr>c_retries := c_retries ?c + 1, c_rto_ms := tcp_next_rto (c_rto_ms ?c)\<rparr>"
      have "s' = set_conn k ?n s" using ss assms by (simp add: qos_net_tcp_step_def Let_def)
      moreover have "tcp_fuel ?n < tcp_fuel ?c"
      proof (cases "5 \<le> c_retries ?c")
        case False
        then have "unat (c_retries ?c) < 5" by (simp add: word_le_nat_alt)
        then have "unat (c_retries ?c + 1) = Suc (unat (c_retries ?c))" "unat (c_retries ?c) < 5" by (simp_all add: unat_word_ariths)
        then show ?thesis using False ss by (simp add: tcp_fuel_def)
      qed (use ss in \<open>simp add: tcp_fuel_def\<close>)
      ultimately show thesis using used by (intro that [of ?n]) simp_all
    next
      case sw
      then obtain st where st: "tcp_switch (c_state ?c) e = Some st" "s' = set_conn k (?c\<lparr>c_state := st\<rparr>) s"
        using assms by (auto simp: qos_net_tcp_step_def Let_def split: option.splits if_splits)
      then show thesis
        using tcp_switch_closer [OF st(1)] used by (intro that [of "?c\<lparr>c_state := st\<rparr>"]) (simp_all add: tcp_fuel_def)
    qed
  qed
  then show ?thesis using assms(1) by (simp add: set_conn_def conn_valid_def)
qed

lemma conns_used_step: "conns_used (snd (tcp_step x s)) = conns_used s + (if connected (x, fst (tcp_step x s)) then 1 else 0)"
proof (cases x)
  case (Connect lp ip rp)
  then show ?thesis
  proof (cases "find_free 128 c_used (g_tcp_conns s)")
    case (Some i)
    then show ?thesis
      using Connect find_free_Some [OF Some] by (auto simp: qos_net_tcp_connect_def conns_used_def card_live_insert)
  qed (auto simp: qos_net_tcp_connect_def)
next
  case (Step k e)
  have "live 128 c_used (g_tcp_conns (set_conn k c s)) = live 128 c_used (g_tcp_conns s)" if "conn_valid k s" "c_used c" for c
    using that live_replace [of c_used "g_tcp_conns s" "nat k" c 128] by (simp add: set_conn_def conn_valid_def)
  then show ?thesis
    using Step by (auto simp: qos_net_tcp_step_def Let_def conns_used_def conn_valid_def split: option.splits)
qed (auto simp: qos_net_tcp_listen_def qos_net_tcp_unlisten_def conns_used_def split: option.splits)

section \<open>Properties\<close>

text \<open>
  C36. A connection makes at most ten steps and its timeout stays bounded. After any history from a
  well-formed state every connection has at most five retries, a timeout of 500 ms doubled once per
  retry, hence between 500 and 16000 ms, and it is never in a state of the passive open. Every event that
  \<open>qos_net_tcp_step\<close> accepts uses up one of at most ten steps and leaves the other connections alone; a
  closed connection accepts none.
\<close>

theorem tcp_connection_bounded:
  assumes inv: "tcp_inv s" and k: "conn_valid k (snd (run_ops tcp_step xs s))"
  defines "s1 \<equiv> snd (run_ops tcp_step xs s)"
  shows "0 \<le> qos_net_tcp_retries k s1 \<and> qos_net_tcp_retries k s1 \<le> 5 \<and>
    qos_net_tcp_rto k s1 = 500 * 2 ^ nat (qos_net_tcp_retries k s1) \<and> qos_net_tcp_rto k s1 \<le> 16000 \<and>
    qos_net_tcp_state k s1 \<notin> {1, 3} \<and> tcp_fuel (g_tcp_conns s1 (nat k)) \<le> 10 \<and>
    (\<forall>e s2. qos_net_tcp_step k e s1 = (0, s2) \<longrightarrow>
       tcp_fuel (g_tcp_conns s2 (nat k)) < tcp_fuel (g_tcp_conns s1 (nat k)) \<and>
       (\<forall>i. i \<noteq> nat k \<longrightarrow> g_tcp_conns s2 i = g_tcp_conns s1 i)) \<and>
    (qos_net_tcp_state k s1 = 0 \<longrightarrow> (\<forall>e. qos_net_tcp_step k e s1 = (-1, s1)))"
proof -
  let ?c = "g_tcp_conns s1 (nat k)"
  have k1: "conn_valid k s1" using k by (simp add: s1_def)
  have "tcp_inv s1" unfolding s1_def by (rule tcp_inv_run [OF inv])
  then have ok: "conn_ok ?c" using k1 by (auto simp: conn_valid_def tcp_inv_def)
  have p: "(2 :: nat) ^ unat (c_retries ?c) \<le> 2 ^ 5" using ok by (intro power_increasing) (simp_all add: conn_ok_def)
  then have le: "unat (c_rto_ms ?c) \<le> 16000" using ok by (simp add: conn_ok_def)
  then have si: "sint (c_rto_ms ?c) = int (unat (c_rto_ms ?c))" by (intro sint_small) simp
  have "sint (c_rto_ms ?c) = int (500 * 2 ^ unat (c_retries ?c))" unfolding si using ok by (simp only: conn_ok_def)
  moreover have "sint (c_rto_ms ?c) \<le> int 16000" unfolding si using le by (simp only: of_nat_le_iff)
  ultimately have rto: "qos_net_tcp_rto k s1 = 500 * 2 ^ nat (qos_net_tcp_retries k s1)" "qos_net_tcp_rto k s1 \<le> 16000"
    using k1 by (simp_all add: qos_net_tcp_rto_def qos_net_tcp_retries_def)
  have st: "qos_net_tcp_state k s1 \<notin> {1, 3}" using k1 ok by (cases "c_state ?c") (auto simp: qos_net_tcp_state_def conn_ok_def)
  have "tcp_distance (c_state ?c) \<le> 5" using ok by (cases "c_state ?c") (simp_all add: conn_ok_def)
  then have "tcp_fuel ?c \<le> 10" by (simp add: tcp_fuel_def)
  moreover have "qos_net_tcp_step k e s1 = (-1, s1)" if "qos_net_tcp_state k s1 = 0" for e
    using that k1 by (cases "c_state ?c") (auto simp: qos_net_tcp_state_def qos_net_tcp_step_def Let_def)
  moreover have "int (unat (c_retries ?c)) \<le> int 5" using ok by (simp only: of_nat_le_iff conn_ok_def)
  then have "0 \<le> qos_net_tcp_retries k s1" "qos_net_tcp_retries k s1 \<le> 5" using k1 by (simp_all add: qos_net_tcp_retries_def)
  ultimately show ?thesis using rto st tcp_step_fuel [OF k1] by blast
qed

theorem tcp_connection_bounded_witness:
  "let s1 = snd (run_ops tcp_step [Listen 8080, Connect 4000 1 8080, Step 0 6, Step 0 6] qos_net_reset) in
   conn_valid 0 s1 \<and> qos_net_tcp_rto 0 s1 = 2000 \<and> tcp_fuel (g_tcp_conns s1 0) \<le> 10 \<and>
   (\<forall>e s2. qos_net_tcp_step 0 e s1 = (0, s2) \<longrightarrow> tcp_fuel (g_tcp_conns s2 0) < tcp_fuel (g_tcp_conns s1 0))"
proof -
  let ?xs = "[Listen 8080, Connect 4000 1 8080, Step 0 6, Step 0 6]"
  have k: "conn_valid 0 (snd (run_ops tcp_step ?xs qos_net_reset))" by code_simp
  have r: "qos_net_tcp_retries 0 (snd (run_ops tcp_step ?xs qos_net_reset)) = 2" by code_simp
  from tcp_connection_bounded [OF tcp_reset_inv k] k r show ?thesis unfolding Let_def by simp
qed

text \<open>
  C40. A connection's slot is never given back. Whatever the history, the number of slots in use grows
  by one with every successful connect and never falls, so at most 128 connects ever succeed, no
  matter how many of the connections were closed.
\<close>

theorem tcp_connects_limited:
  "conns_used (snd (run_ops tcp_step xs s)) = conns_used s + length (filter connected (zip xs (fst (run_ops tcp_step xs s)))) \<and>
   conns_used s + length (filter connected (zip xs (fst (run_ops tcp_step xs s)))) \<le> QOS_NET_TCP_MAX_CONNS"
proof -
  have "conns_used (snd (run_ops tcp_step xs s)) = conns_used s + length (filter connected (zip xs (fst (run_ops tcp_step xs s))))"
  proof (induction xs arbitrary: s)
    case (Cons x xs)
    then show ?case using conns_used_step [of x s] by (simp add: split_beta Let_def)
  qed simp
  moreover have "conns_used (snd (run_ops tcp_step xs s)) \<le> 128" unfolding conns_used_def by (rule card_live_le)
  ultimately show ?thesis by simp
qed

end
