(* ===== verification/Fdtable.thy ===== *)
theory Fdtable
  imports Udp Tcp
begin

text \<open>
  The tables behind the system calls of \<^verbatim>\<open>src/c-os/kernel/syscall/syscall.c\<close>: file descriptors with their
  sockets, port bitmaps, pending connections, file contents and pipes, and the functions that allocate and
  release them. The system calls themselves are in the theory \<open>Syscall\<close>.

  The parallel arrays \<open>g_fd_*\<close> are one array of records, the arrays \<open>g_fd_sock_*\<close> a record in it. A
  \<open>uint32_t\<close> descriptor is the number it stands for.
\<close>

section \<open>State\<close>

abbreviation (input) QOS_SYSCALL_MAX :: nat where "QOS_SYSCALL_MAX \<equiv> 128"
abbreviation (input) QOS_FD_MAX :: nat where "QOS_FD_MAX \<equiv> 256"
abbreviation (input) QOS_FD_KIND_VFS :: u8 where "QOS_FD_KIND_VFS \<equiv> 1"
abbreviation (input) QOS_FD_KIND_SOCKET :: u8 where "QOS_FD_KIND_SOCKET \<equiv> 2"
abbreviation (input) QOS_FD_KIND_PIPE_R :: u8 where "QOS_FD_KIND_PIPE_R \<equiv> 3"
abbreviation (input) QOS_FD_KIND_PIPE_W :: u8 where "QOS_FD_KIND_PIPE_W \<equiv> 4"
abbreviation (input) QOS_FD_KIND_PROC :: u8 where "QOS_FD_KIND_PROC \<equiv> 5"
abbreviation (input) QOS_SOCK_STREAM :: u8 where "QOS_SOCK_STREAM \<equiv> 1"
abbreviation (input) QOS_SOCK_DGRAM :: u8 where "QOS_SOCK_DGRAM \<equiv> 2"
abbreviation (input) QOS_SOCK_RAW :: u8 where "QOS_SOCK_RAW \<equiv> 3"
abbreviation (input) QOS_PROC_FD_NONE :: u8 where "QOS_PROC_FD_NONE \<equiv> 0"
abbreviation (input) QOS_PIPE_MAX :: nat where "QOS_PIPE_MAX \<equiv> 32"
abbreviation (input) QOS_PIPE_CAP :: nat where "QOS_PIPE_CAP \<equiv> 1024"
abbreviation (input) QOS_FILE_MAX :: nat where "QOS_FILE_MAX \<equiv> 128"
abbreviation (input) QOS_FILE_PATH_MAX :: nat where "QOS_FILE_PATH_MAX \<equiv> 128"
abbreviation (input) QOS_SOCK_PORT_MIN :: nat where "QOS_SOCK_PORT_MIN \<equiv> 1024"
abbreviation (input) QOS_SOCK_PORT_MAX :: nat where "QOS_SOCK_PORT_MAX \<equiv> 65535"
abbreviation (input) QOS_SOCK_PENDING_MAX :: nat where "QOS_SOCK_PENDING_MAX \<equiv> 16"
abbreviation (input) QOS_SHLIB_MAX :: nat where "QOS_SHLIB_MAX \<equiv> 64"
abbreviation (input) QOS_MODULE_MAX :: nat where "QOS_MODULE_MAX \<equiv> 32"
abbreviation (input) UINT16_MAX :: u16 where "UINT16_MAX \<equiv> 0xFFFF"

record sock =
  s_bound :: bool
  s_listening :: bool
  s_connected :: bool
  s_pending :: u8
  s_backlog :: u8
  s_type :: u8
  s_lport :: u16
  s_rport :: u16
  s_rip :: u32
  s_conn_id :: int
  s_stream_len :: u16
  s_stream_buf :: bytes
  s_raw_len :: u16
  s_raw_src_ip :: u32
  s_raw_buf :: bytes
  s_pending_rport :: u16
  s_pending_rip :: u32
  s_pending_conn_id :: int
  s_pending_head :: u8
  s_pending_tail :: u8
  s_q_rport :: "u16 arr"
  s_q_rip :: "u32 arr"
  s_q_conn_id :: "int arr"

record fd_slot =
  f_used :: bool
  f_kind :: u8
  f_sock :: sock
  f_pipe_id :: u16
  f_offset :: u64
  f_file_id :: u16
  f_proc_kind :: u8
  f_proc_pid :: u32

record file_slot =
  fl_used :: bool
  fl_path :: string
  fl_len :: u16
  fl_data :: bytes

record pipe_slot =
  pi_used :: bool
  pi_len :: u16
  pi_buf :: bytes

record shlib_slot =
  sl_used :: bool
  sl_handle :: u32
  sl_refcount :: u32
  sl_file_id :: u16
  sl_path :: string

record module_slot =
  mo_used :: bool
  mo_id :: u32
  mo_generation :: u32
  mo_shlib_handle :: u32
  mo_path :: string

record call_slot =
  y_used :: bool
  y_op :: u8
  y_value :: int

record syscall =
  g_calls :: "call_slot arr"
  g_call_count :: u32
  g_fds :: "fd_slot arr"
  g_sock_ports_stream :: "u32 arr"
  g_sock_ports_dgram :: "u32 arr"
  g_files :: "file_slot arr"
  g_pipes :: "pipe_slot arr"
  g_shlibs :: "shlib_slot arr"
  g_shlib_next_handle :: u32
  g_modules :: "module_slot arr"
  g_module_next_id :: u32

definition sock0 :: sock where
  "sock0 = \<lparr>s_bound = False, s_listening = False, s_connected = False, s_pending = 0, s_backlog = 0, s_type = 0,
     s_lport = 0, s_rport = 0, s_rip = 0, s_conn_id = -1, s_stream_len = 0,
     s_stream_buf = replicate QOS_NET_MAX_PACKET 0, s_raw_len = 0, s_raw_src_ip = 0,
     s_raw_buf = replicate QOS_NET_MAX_PACKET 0, s_pending_rport = 0, s_pending_rip = 0, s_pending_conn_id = -1,
     s_pending_head = 0, s_pending_tail = 0, s_q_rport = (\<lambda>_. 0), s_q_rip = (\<lambda>_. 0), s_q_conn_id = (\<lambda>_. -1)\<rparr>"

definition fd0 :: fd_slot where
  "fd0 = \<lparr>f_used = False, f_kind = 0, f_sock = sock0, f_pipe_id = 0, f_offset = 0, f_file_id = UINT16_MAX,
     f_proc_kind = QOS_PROC_FD_NONE, f_proc_pid = 0\<rparr>"

definition file0 :: file_slot where
  "file0 = \<lparr>fl_used = False, fl_path = [], fl_len = 0, fl_data = replicate QOS_PIPE_CAP 0\<rparr>"

definition pipe0 :: pipe_slot where
  "pipe0 = \<lparr>pi_used = False, pi_len = 0, pi_buf = replicate QOS_PIPE_CAP 0\<rparr>"

definition shlib0 :: shlib_slot where
  "shlib0 = \<lparr>sl_used = False, sl_handle = 0, sl_refcount = 0, sl_file_id = UINT16_MAX, sl_path = []\<rparr>"

definition module0 :: module_slot where
  "module0 = \<lparr>mo_used = False, mo_id = 0, mo_generation = 0, mo_shlib_handle = 0, mo_path = []\<rparr>"

definition qos_syscall_reset :: syscall where
  "qos_syscall_reset =
     \<lparr>g_calls = (\<lambda>_. \<lparr>y_used = False, y_op = 0, y_value = 0\<rparr>), g_call_count = 0, g_fds = (\<lambda>_. fd0),
      g_sock_ports_stream = (\<lambda>_. 0), g_sock_ports_dgram = (\<lambda>_. 0), g_files = (\<lambda>_. file0), g_pipes = (\<lambda>_. pipe0),
      g_shlibs = (\<lambda>_. shlib0), g_shlib_next_handle = 1, g_modules = (\<lambda>_. module0), g_module_next_id = 1\<rparr>"

section \<open>Model\<close>

definition put_fd :: "nat \<Rightarrow> fd_slot \<Rightarrow> syscall \<Rightarrow> syscall" where
  "put_fd i r s = s\<lparr>g_fds := (g_fds s)(i := r)\<rparr>"

definition put_file :: "nat \<Rightarrow> file_slot \<Rightarrow> syscall \<Rightarrow> syscall" where
  "put_file i r s = s\<lparr>g_files := (g_files s)(i := r)\<rparr>"

definition put_pipe :: "nat \<Rightarrow> pipe_slot \<Rightarrow> syscall \<Rightarrow> syscall" where
  "put_pipe i r s = s\<lparr>g_pipes := (g_pipes s)(i := r)\<rparr>"

definition fd_valid :: "nat \<Rightarrow> syscall \<Rightarrow> bool" where
  "fd_valid fd s \<longleftrightarrow> fd < QOS_FD_MAX \<and> f_used (g_fds s fd)"

subsection \<open>Ports\<close>

definition socket_port_bitmap :: "u8 \<Rightarrow> syscall \<Rightarrow> u32 arr option" where
  "socket_port_bitmap sock_type s =
     (if sock_type = QOS_SOCK_STREAM then Some (g_sock_ports_stream s)
      else if sock_type = QOS_SOCK_DGRAM then Some (g_sock_ports_dgram s)
      else None)"

definition set_port_bitmap :: "u8 \<Rightarrow> u32 arr \<Rightarrow> syscall \<Rightarrow> syscall" where
  "set_port_bitmap sock_type b s =
     (if sock_type = QOS_SOCK_STREAM then s\<lparr>g_sock_ports_stream := b\<rparr>
      else if sock_type = QOS_SOCK_DGRAM then s\<lparr>g_sock_ports_dgram := b\<rparr>
      else s)"

definition socket_port_index :: "u16 \<Rightarrow> (nat \<times> u32) option" where
  "socket_port_index port =
     (if unat port < QOS_SOCK_PORT_MIN \<or> unat port > QOS_SOCK_PORT_MAX then None
      else let idx = unat port - QOS_SOCK_PORT_MIN in Some (idx div 32, push_bit (idx mod 32) 1))"

definition socket_port_mark :: "u8 \<Rightarrow> u16 \<Rightarrow> syscall \<Rightarrow> int \<times> syscall" where
  "socket_port_mark sock_type port s =
     (case (socket_port_bitmap sock_type s, socket_port_index port) of
        (Some bitmap, Some (w, m)) \<Rightarrow>
          if bitmap w AND m \<noteq> 0 then (-1, s)
          else (0, set_port_bitmap sock_type (bitmap(w := bitmap w OR m)) s)
      | _ \<Rightarrow> (-1, s))"

definition socket_port_unmark :: "u8 \<Rightarrow> u16 \<Rightarrow> syscall \<Rightarrow> syscall" where
  "socket_port_unmark sock_type port s =
     (case (socket_port_bitmap sock_type s, socket_port_index port) of
        (Some bitmap, Some (w, m)) \<Rightarrow> set_port_bitmap sock_type (bitmap(w := bitmap w AND NOT m)) s
      | _ \<Rightarrow> s)"

text \<open>
  The two loops of \<open>socket_port_alloc\<close> try to mark each port; a failed attempt changes nothing, so each
  loop ends at the first port that can be marked.
\<close>

definition socket_port_alloc :: "u8 \<Rightarrow> syscall \<Rightarrow> u16 \<times> syscall" where
  "socket_port_alloc sock_type s =
     (let free = (\<lambda>port. fst (socket_port_mark sock_type (word_of_nat port) s) = 0);
          take_port = (\<lambda>port. (word_of_nat port, snd (socket_port_mark sock_type (word_of_nat port) s))) in
      case scan free 49152 (Suc QOS_SOCK_PORT_MAX) of
        Some port \<Rightarrow> take_port port
      | None \<Rightarrow> (case scan free QOS_SOCK_PORT_MIN 49152 of Some port \<Rightarrow> take_port port | None \<Rightarrow> (0, s)))"

definition socket_port_in_use :: "u16 \<Rightarrow> u8 \<Rightarrow> syscall \<Rightarrow> bool" where
  "socket_port_in_use port sock_type s \<longleftrightarrow>
     scan (\<lambda>i. let r = g_fds s i in f_used r \<and> f_kind r = QOS_FD_KIND_SOCKET \<and> s_bound (f_sock r) \<and>
       s_type (f_sock r) = sock_type \<and> s_lport (f_sock r) = port) 0 QOS_FD_MAX \<noteq> None"

definition socket_listener_in_use :: "u16 \<Rightarrow> syscall \<Rightarrow> bool" where
  "socket_listener_in_use port s \<longleftrightarrow>
     scan (\<lambda>i. let r = g_fds s i in f_used r \<and> f_kind r = QOS_FD_KIND_SOCKET \<and> s_type (f_sock r) = QOS_SOCK_STREAM \<and>
       s_listening (f_sock r) \<and> s_lport (f_sock r) = port) 0 QOS_FD_MAX \<noteq> None"

subsection \<open>Pending connections\<close>

definition socket_pending_push :: "nat \<Rightarrow> u16 \<Rightarrow> u32 \<Rightarrow> int \<Rightarrow> syscall \<Rightarrow> int \<times> syscall" where
  "socket_pending_push fd peer_port peer_ip conn_id s =
     (let r = g_fds s fd; k = f_sock r in
      if fd \<ge> QOS_FD_MAX \<or> unat (s_pending k) \<ge> QOS_SOCK_PENDING_MAX then (-1, s)
      else let tail = unat (s_pending_tail k) in
        (0, put_fd fd (r\<lparr>f_sock := k\<lparr>s_q_rport := (s_q_rport k)(tail := peer_port), s_q_rip := (s_q_rip k)(tail := peer_ip),
               s_q_conn_id := (s_q_conn_id k)(tail := conn_id),
               s_pending_tail := word_of_nat ((tail + 1) mod QOS_SOCK_PENDING_MAX), s_pending := s_pending k + 1\<rparr>\<rparr>) s))"

definition socket_pending_pop :: "nat \<Rightarrow> syscall \<Rightarrow> (u16 \<times> u32 \<times> int) option \<times> syscall" where
  "socket_pending_pop fd s =
     (let r = g_fds s fd; k = f_sock r in
      if fd \<ge> QOS_FD_MAX \<or> s_pending k = 0 then (None, s)
      else let head = unat (s_pending_head k);
               k1 = k\<lparr>s_q_rport := (s_q_rport k)(head := 0), s_q_rip := (s_q_rip k)(head := 0),
                 s_q_conn_id := (s_q_conn_id k)(head := -1),
                 s_pending_head := word_of_nat ((head + 1) mod QOS_SOCK_PENDING_MAX), s_pending := s_pending k - 1\<rparr>;
               k2 = (if s_pending k1 = 0 then k1\<lparr>s_pending_head := 0, s_pending_tail := 0\<rparr> else k1) in
        (Some (s_q_rport k head, s_q_rip k head, s_q_conn_id k head), put_fd fd (r\<lparr>f_sock := k2\<rparr>) s))"

subsection \<open>Descriptors, files and pipes\<close>

definition fd_alloc :: "u8 \<Rightarrow> syscall \<Rightarrow> nat option \<times> syscall" where
  "fd_alloc kind s =
     (case find_free QOS_FD_MAX f_used (g_fds s) of
        None \<Rightarrow> (None, s)
      | Some i \<Rightarrow> (Some i, put_fd i (fd0\<lparr>f_used := True, f_kind := kind\<rparr>) s))"

definition file_find :: "string \<Rightarrow> syscall \<Rightarrow> nat option" where
  "file_find path s = find_key QOS_FILE_MAX fl_used fl_path (g_files s) path"

definition file_alloc :: "string \<Rightarrow> syscall \<Rightarrow> nat option \<times> syscall" where
  "file_alloc path s =
     (case find_free QOS_FILE_MAX fl_used (g_files s) of
        None \<Rightarrow> (None, s)
      | Some i \<Rightarrow> (Some i, put_file i \<lparr>fl_used = True, fl_path = take (QOS_FILE_PATH_MAX - 1) path, fl_len = 0,
          fl_data = replicate QOS_PIPE_CAP 0\<rparr> s))"

definition file_ensure :: "string \<Rightarrow> syscall \<Rightarrow> nat option \<times> syscall" where
  "file_ensure path s = (case file_find path s of Some idx \<Rightarrow> (Some idx, s) | None \<Rightarrow> file_alloc path s)"

definition file_has_refs :: "nat \<Rightarrow> syscall \<Rightarrow> bool" where
  "file_has_refs file_id s \<longleftrightarrow>
     scan (\<lambda>i. let r = g_fds s i in f_used r \<and> f_kind r = QOS_FD_KIND_VFS \<and> unat (f_file_id r) = file_id) 0 QOS_FD_MAX \<noteq> None"

definition file_drop :: "nat \<Rightarrow> syscall \<Rightarrow> syscall" where
  "file_drop file_id s = (if file_id \<ge> QOS_FILE_MAX then s else put_file file_id file0 s)"

definition file_unlink_path :: "string \<Rightarrow> syscall \<Rightarrow> syscall" where
  "file_unlink_path path s =
     (case file_find path s of
        None \<Rightarrow> s
      | Some idx \<Rightarrow>
          let s1 = put_file idx ((g_files s idx)\<lparr>fl_path := []\<rparr>) s in
          if \<not> file_has_refs idx s1 then file_drop idx s1 else s1)"

definition pipe_in_use :: "nat \<Rightarrow> syscall \<Rightarrow> bool" where
  "pipe_in_use pipe_id s \<longleftrightarrow>
     scan (\<lambda>i. let r = g_fds s i in f_used r \<and> (f_kind r = QOS_FD_KIND_PIPE_R \<or> f_kind r = QOS_FD_KIND_PIPE_W) \<and>
       unat (f_pipe_id r) = pipe_id) 0 QOS_FD_MAX \<noteq> None"

definition pipe_alloc :: "syscall \<Rightarrow> nat option \<times> syscall" where
  "pipe_alloc s =
     (case find_free QOS_PIPE_MAX pi_used (g_pipes s) of
        None \<Rightarrow> (None, s)
      | Some i \<Rightarrow> (Some i, put_pipe i (pipe0\<lparr>pi_used := True\<rparr>) s))"

text \<open>The four releases at the end of \<open>fd_clear\<close>, for what the cleared descriptor \<open>r\<close> held.\<close>

definition release_pipe :: "fd_slot \<Rightarrow> syscall \<Rightarrow> syscall" where
  "release_pipe r s =
     (let pipe_id = unat (f_pipe_id r) in
      if pipe_id < QOS_PIPE_MAX \<and> \<not> pipe_in_use pipe_id s then put_pipe pipe_id pipe0 s else s)"

definition release_file :: "fd_slot \<Rightarrow> syscall \<Rightarrow> syscall" where
  "release_file r s =
     (let file_id = unat (f_file_id r) in
      if file_id < QOS_FILE_MAX \<and> fl_used (g_files s file_id) \<and> fl_path (g_files s file_id) = [] \<and> \<not> file_has_refs file_id s
      then file_drop file_id s else s)"

definition release_listener :: "fd_slot \<Rightarrow> syscall \<Rightarrow> net \<Rightarrow> net" where
  "release_listener r s n =
     (let k = f_sock r in
      if f_kind r = QOS_FD_KIND_SOCKET \<and> s_type k = QOS_SOCK_STREAM \<and> s_listening k \<and> \<not> socket_listener_in_use (s_lport k) s
      then snd (qos_net_tcp_unlisten (s_lport k) n) else n)"

definition release_port :: "fd_slot \<Rightarrow> syscall \<Rightarrow> net \<Rightarrow> syscall \<times> net" where
  "release_port r s n =
     (let k = f_sock r in
      if f_kind r = QOS_FD_KIND_SOCKET \<and> s_bound k \<and> \<not> socket_port_in_use (s_lport k) (s_type k) s
      then (socket_port_unmark (s_type k) (s_lport k) s,
            if s_type k = QOS_SOCK_DGRAM then snd (qos_net_udp_unbind (s_lport k) n) else n)
      else (s, n))"

definition fd_clear :: "nat \<Rightarrow> syscall \<Rightarrow> net \<Rightarrow> syscall \<times> net" where
  "fd_clear fd s n =
     (if \<not> fd_valid fd s then (s, n)
      else let r = g_fds s fd;
               s1 = release_file r (release_pipe r (put_fd fd fd0 s)) in
        release_port r s1 (release_listener r s1 n))"

subsection \<open>Socket addresses\<close>

text \<open>The bytes behind the pointer; the result is the port and the address stored through the out-pointers.\<close>

definition parse_sockaddr :: "bytes option \<Rightarrow> u32 \<Rightarrow> bool \<Rightarrow> (u16 \<times> u32) option" where
  "parse_sockaddr addr len allow_any_ip =
     (case addr of
        None \<Rightarrow> None
      | Some p \<Rightarrow>
          if len < 8 then None
          else let port = push_bit 8 (ucast (p ! 2)) OR ucast (p ! 3);
                   ip = push_bit 24 (ucast (p ! 4)) OR push_bit 16 (ucast (p ! 5)) OR push_bit 8 (ucast (p ! 6)) OR ucast (p ! 7) in
            if port = 0 then None
            else if \<not> allow_any_ip \<and> ip = 0 then None
            else Some (port, ip))"

definition write_sockaddr :: "u16 \<Rightarrow> u32 \<Rightarrow> bytes" where
  "write_sockaddr port ip =
     [2, 0, ucast (drop_bit 8 port), ucast (port AND 0xFF), ucast (drop_bit 24 ip), ucast (drop_bit 16 ip AND 0xFF),
      ucast (drop_bit 8 ip AND 0xFF), ucast (ip AND 0xFF), 0, 0, 0, 0, 0, 0, 0, 0]"

text \<open>The canned reply of the host and its preparation for a request that starts with \<open>GET\<close>.\<close>

definition k_resp :: bytes where
  "k_resp = map of_char (''HTTP/1.0 200 OK'' @ [CHR 0x0D, CHR 0x0A] @ ''Content-Length: 4'' @
     [CHR 0x0D, CHR 0x0A, CHR 0x0D, CHR 0x0A] @ ''qos'' @ [CHR 0x0A])"

definition stream_host_response_prepare :: "nat \<Rightarrow> bytes option \<Rightarrow> u32 \<Rightarrow> syscall \<Rightarrow> int \<times> syscall" where
  "stream_host_response_prepare fd req req_len s =
     (case req of
        None \<Rightarrow> (-1, s)
      | Some q \<Rightarrow>
          if fd \<ge> QOS_FD_MAX \<or> req_len < 4 \<or> take 4 q \<noteq> map of_char ''GET '' \<or> length k_resp > QOS_NET_MAX_PACKET then (-1, s)
          else let r = g_fds s fd; k = f_sock r in
            (0, put_fd fd (r\<lparr>f_sock := k\<lparr>s_stream_buf := memcpy_to (s_stream_buf k) k_resp (length k_resp),
                 s_stream_len := word_of_nat (length k_resp)\<rparr>\<rparr>) s))"

end
