(* ===== verification/Resources.thy ===== *)
theory Resources
  imports Fdtable
begin

text \<open>
  What the descriptors hold: files, pipes, ports and listeners. The invariant \<open>fd_inv\<close> says that the
  tables of files and pipes, the port bitmaps and the network stack agree with the open descriptors: nothing
  a descriptor refers to is free, and nothing stays allocated that no descriptor refers to; a file holds zeros behind its last byte. The theory shows
  that closing a descriptor and the allocation functions keep it.
\<close>

section \<open>Specification\<close>

definition holds_file :: "fd_slot \<Rightarrow> nat set" where
  "holds_file r = (if f_used r \<and> f_kind r = QOS_FD_KIND_VFS then {unat (f_file_id r)} else {})"

definition holds_pipe :: "fd_slot \<Rightarrow> nat set" where
  "holds_pipe r =
     (if f_used r \<and> (f_kind r = QOS_FD_KIND_PIPE_R \<or> f_kind r = QOS_FD_KIND_PIPE_W) then {unat (f_pipe_id r)} else {})"

definition holds_port :: "fd_slot \<Rightarrow> (u8 \<times> u16) set" where
  "holds_port r =
     (if f_used r \<and> f_kind r = QOS_FD_KIND_SOCKET \<and> s_bound (f_sock r)
      then {(s_type (f_sock r), s_lport (f_sock r))} else {})"

definition holds_listener :: "fd_slot \<Rightarrow> u16 set" where
  "holds_listener r =
     (if f_used r \<and> f_kind r = QOS_FD_KIND_SOCKET \<and> s_type (f_sock r) = QOS_SOCK_STREAM \<and> s_listening (f_sock r)
      then {s_lport (f_sock r)} else {})"

definition held :: "(fd_slot \<Rightarrow> 'a set) \<Rightarrow> fd_slot arr \<Rightarrow> 'a set" where
  "held h g = (\<Union>i<QOS_FD_MAX. h (g i))"

definition held_else :: "(fd_slot \<Rightarrow> 'a set) \<Rightarrow> nat \<Rightarrow> fd_slot arr \<Rightarrow> 'a set" where
  "held_else h fd g = (\<Union>i\<in>{..<QOS_FD_MAX} - {fd}. h (g i))"

text \<open>The ports marked in the bitmaps.\<close>

definition marked :: "u8 \<Rightarrow> u16 \<Rightarrow> syscall \<Rightarrow> bool" where
  "marked t p s \<longleftrightarrow>
     (case (socket_port_bitmap t s, socket_port_index p) of
        (Some b, Some (w, m)) \<Rightarrow> b w AND m \<noteq> 0
      | _ \<Rightarrow> False)"

definition port_bit :: "u32 arr \<Rightarrow> u16 \<Rightarrow> bool" where
  "port_bit b p \<longleftrightarrow> bit (b ((unat p - 1024) div 32)) ((unat p - 1024) mod 32)"

definition port_ok :: "u8 \<Rightarrow> u16 \<Rightarrow> bool" where
  "port_ok t p \<longleftrightarrow> (t = QOS_SOCK_STREAM \<or> t = QOS_SOCK_DGRAM) \<and> QOS_SOCK_PORT_MIN \<le> unat p"

text \<open>A well-formed socket; the pending connections are a ring of 16.\<close>

definition pending_ok :: "sock \<Rightarrow> bool" where
  "pending_ok k \<longleftrightarrow> unat (s_pending_head k) < QOS_SOCK_PENDING_MAX \<and> unat (s_pending k) \<le> QOS_SOCK_PENDING_MAX \<and>
     unat (s_pending_tail k) = (unat (s_pending_head k) + unat (s_pending k)) mod QOS_SOCK_PENDING_MAX"

definition sock_ok :: "sock \<Rightarrow> bool" where
  "sock_ok k \<longleftrightarrow> s_type k \<in> {QOS_SOCK_STREAM, QOS_SOCK_DGRAM, QOS_SOCK_RAW} \<and> (s_bound k \<longleftrightarrow> s_lport k \<noteq> 0) \<and>
     (s_bound k \<and> s_type k \<noteq> QOS_SOCK_RAW \<longrightarrow> QOS_SOCK_PORT_MIN \<le> unat (s_lport k)) \<and>
     (s_listening k \<longrightarrow> s_type k = QOS_SOCK_STREAM \<and> s_bound k) \<and> (s_connected k \<longrightarrow> s_bound k) \<and>
     pending_ok k \<and> unat (s_backlog k) \<le> QOS_SOCK_PENDING_MAX \<and>
     length (s_stream_buf k) = QOS_NET_MAX_PACKET \<and> unat (s_stream_len k) \<le> QOS_NET_MAX_PACKET \<and>
     length (s_raw_buf k) = QOS_NET_MAX_PACKET \<and> unat (s_raw_len k) \<le> QOS_NET_MAX_PACKET"

definition fd_ok :: "file_slot arr \<Rightarrow> pipe_slot arr \<Rightarrow> fd_slot \<Rightarrow> bool" where
  "fd_ok fs ps r \<longleftrightarrow>
     f_kind r \<in> {QOS_FD_KIND_VFS, QOS_FD_KIND_SOCKET, QOS_FD_KIND_PIPE_R, QOS_FD_KIND_PIPE_W, QOS_FD_KIND_PROC} \<and>
     (\<forall>j \<in> holds_file r. j < QOS_FILE_MAX \<and> fl_used (fs j)) \<and>
     (\<forall>j \<in> holds_pipe r. j < QOS_PIPE_MAX \<and> pi_used (ps j)) \<and>
     (f_kind r = QOS_FD_KIND_SOCKET \<longrightarrow> sock_ok (f_sock r))"

definition fds_inv :: "syscall \<Rightarrow> bool" where
  "fds_inv s \<longleftrightarrow>
     (\<forall>i < QOS_FD_MAX. if f_used (g_fds s i) then fd_ok (g_files s) (g_pipes s) (g_fds s i) else g_fds s i = fd0)"

definition files_inv :: "syscall \<Rightarrow> bool" where
  "files_inv s \<longleftrightarrow>
     (\<forall>j < QOS_FILE_MAX. let f = g_files s j in
        length (fl_data f) = QOS_PIPE_CAP \<and> unat (fl_len f) \<le> QOS_PIPE_CAP \<and> length (fl_path f) < QOS_FILE_PATH_MAX \<and>
        drop (unat (fl_len f)) (fl_data f) = replicate (QOS_PIPE_CAP - unat (fl_len f)) 0 \<and>
        (fl_used f \<longrightarrow> fl_path f = [] \<longrightarrow> j \<in> held holds_file (g_fds s)) \<and> (\<not> fl_used f \<longrightarrow> f = file0)) \<and>
     (\<forall>i < QOS_FILE_MAX. \<forall>j < QOS_FILE_MAX. fl_used (g_files s i) \<and> fl_used (g_files s j) \<and>
        fl_path (g_files s i) = fl_path (g_files s j) \<and> fl_path (g_files s i) \<noteq> [] \<longrightarrow> i = j)"

definition pipes_inv :: "syscall \<Rightarrow> bool" where
  "pipes_inv s \<longleftrightarrow>
     (\<forall>j < QOS_PIPE_MAX. let p = g_pipes s j in
        length (pi_buf p) = QOS_PIPE_CAP \<and> unat (pi_len p) \<le> QOS_PIPE_CAP \<and>
        (pi_used p \<longleftrightarrow> j \<in> held holds_pipe (g_fds s)) \<and> (\<not> pi_used p \<longrightarrow> p = pipe0))"

definition ports_inv :: "syscall \<Rightarrow> net \<Rightarrow> bool" where
  "ports_inv s n \<longleftrightarrow>
     (\<forall>t p. t \<noteq> QOS_SOCK_RAW \<longrightarrow> marked t p s = ((t, p) \<in> held holds_port (g_fds s))) \<and>
     (\<forall>p. udp_port_is_bound p n = ((QOS_SOCK_DGRAM, p) \<in> held holds_port (g_fds s))) \<and>
     (\<forall>p. tcp_listener_exists p n = (p \<in> held holds_listener (g_fds s)))"

definition listeners_inv :: "net \<Rightarrow> bool" where
  "listeners_inv n \<longleftrightarrow> uniq_keys QOS_NET_TCP_MAX_LISTENERS l_used l_port (g_tcp_listeners n)"

definition net_inv :: "net \<Rightarrow> bool" where
  "net_inv n \<longleftrightarrow> packets_inv n \<and> arp_inv n \<and> udp_inv n \<and> tcp_inv n \<and> listeners_inv n"

definition fd_inv :: "syscall \<Rightarrow> net \<Rightarrow> bool" where
  "fd_inv s n \<longleftrightarrow> fds_inv s \<and> files_inv s \<and> pipes_inv s \<and> ports_inv s n \<and> net_inv n"

section \<open>What the descriptors hold\<close>

lemma put_sel [simp]:
  "g_fds (put_fd i r s) = (g_fds s)(i := r)" "g_files (put_fd i r s) = g_files s" "g_pipes (put_fd i r s) = g_pipes s"
  "g_fds (put_file j f s) = g_fds s" "g_files (put_file j f s) = (g_files s)(j := f)" "g_pipes (put_file j f s) = g_pipes s"
  "g_fds (put_pipe j p s) = g_fds s" "g_files (put_pipe j p s) = g_files s" "g_pipes (put_pipe j p s) = (g_pipes s)(j := p)"
  "socket_port_bitmap t (put_fd i r s) = socket_port_bitmap t s"
  "socket_port_bitmap t (put_file j f s) = socket_port_bitmap t s"
  "socket_port_bitmap t (put_pipe j p s) = socket_port_bitmap t s"
  by (simp_all add: put_fd_def put_file_def put_pipe_def socket_port_bitmap_def)

lemma set_port_bitmap_sel [simp]:
  "g_fds (set_port_bitmap t b s) = g_fds s" "g_files (set_port_bitmap t b s) = g_files s"
  "g_pipes (set_port_bitmap t b s) = g_pipes s"
  by (simp_all add: set_port_bitmap_def)

lemma port_ops_sel [simp]:
  "g_fds (snd (socket_port_mark t p s)) = g_fds s" "g_files (snd (socket_port_mark t p s)) = g_files s"
  "g_pipes (snd (socket_port_mark t p s)) = g_pipes s"
  "g_fds (socket_port_unmark t p s) = g_fds s" "g_files (socket_port_unmark t p s) = g_files s"
  "g_pipes (socket_port_unmark t p s) = g_pipes s"
  by (simp_all add: socket_port_mark_def socket_port_unmark_def split: option.splits)

lemma marked_put [simp]:
  "marked t p (put_fd i r s) = marked t p s" "marked t p (put_file j f s) = marked t p s"
  "marked t p (put_pipe j q s) = marked t p s"
  by (simp_all add: marked_def)

lemma files_inv_cong: "g_fds s' = g_fds s \<Longrightarrow> g_files s' = g_files s \<Longrightarrow> files_inv s' = files_inv s"
  by (simp only: files_inv_def)

lemma pipes_inv_cong: "g_fds s' = g_fds s \<Longrightarrow> g_pipes s' = g_pipes s \<Longrightarrow> pipes_inv s' = pipes_inv s"
  by (simp only: pipes_inv_def)

lemma held_fd0 [simp]:
  "holds_file fd0 = {}" "holds_pipe fd0 = {}" "holds_port fd0 = {}" "holds_listener fd0 = {}" "\<not> f_used fd0"
  by (simp_all add: holds_file_def holds_pipe_def holds_port_def holds_listener_def fd0_def)

lemma held_split: "fd < QOS_FD_MAX \<Longrightarrow> held h g = held_else h fd g \<union> h (g fd)"
  unfolding held_def held_else_def by (auto simp: lessThan_iff)

lemma held_put: "fd < QOS_FD_MAX \<Longrightarrow> held h (g(fd := r)) = held_else h fd g \<union> h r"
proof -
  assume "fd < QOS_FD_MAX"
  then have "held h (g(fd := r)) = held_else h fd (g(fd := r)) \<union> h r" by (simp add: held_split)
  moreover have "held_else h fd (g(fd := r)) = held_else h fd g" by (auto simp: held_else_def)
  ultimately show ?thesis by simp
qed

lemma held_same: "h r = h (g fd) \<Longrightarrow> fd < QOS_FD_MAX \<Longrightarrow> held h (g(fd := r)) = held h g"
  by (simp add: held_put held_split [of fd h g])

lemma file_has_refs_held: "file_has_refs j s \<longleftrightarrow> j \<in> held holds_file (g_fds s)"
  by (auto simp: file_has_refs_def scan_None_iff held_def holds_file_def Let_def)

lemma pipe_in_use_held: "pipe_in_use j s \<longleftrightarrow> j \<in> held holds_pipe (g_fds s)"
  by (auto simp: pipe_in_use_def scan_None_iff held_def holds_pipe_def Let_def)

lemma socket_port_in_use_held: "socket_port_in_use p t s \<longleftrightarrow> (t, p) \<in> held holds_port (g_fds s)"
  by (auto simp: socket_port_in_use_def scan_None_iff held_def holds_port_def Let_def)

lemma socket_listener_in_use_held: "socket_listener_in_use p s \<longleftrightarrow> p \<in> held holds_listener (g_fds s)"
  by (auto simp: socket_listener_in_use_def scan_None_iff held_def holds_listener_def Let_def)

lemmas in_use_held = file_has_refs_held pipe_in_use_held socket_port_in_use_held socket_listener_in_use_held

section \<open>Port bitmaps\<close>

lemma and_bit_mask: "(m :: u32) AND push_bit n 1 \<noteq> 0 \<longleftrightarrow> bit m n"
proof
  assume "m AND push_bit n 1 \<noteq> 0"
  then obtain j where "bit (m AND push_bit n 1) j" by (metis bit_0_eq bit_eq_iff bot_apply bot_bool_def)
  then show "bit m n" by (auto simp: bit_simps)
next
  assume "bit m n"
  then have "bit (m AND push_bit n 1) n" by (auto simp: bit_simps dest: bit_imp_le_length)
  then show "m AND push_bit n 1 \<noteq> 0" by auto
qed

lemma socket_port_index_eq:
  "socket_port_index p = (if unat p < 1024 then None
     else Some ((unat p - 1024) div 32, push_bit ((unat p - 1024) mod 32) 1))"
proof -
  have "unat p < 2 ^ 16" by (rule order.strict_trans2 [OF unsigned_less]) simp
  then show ?thesis by (auto simp: socket_port_index_def Let_def)
qed

lemma marked_bit:
  "marked t p s \<longleftrightarrow> 1024 \<le> unat p \<and> (\<exists>b. socket_port_bitmap t s = Some b \<and> port_bit b p)"
  by (auto simp: marked_def socket_port_index_eq and_bit_mask port_bit_def simp del: push_bit_of_1 split: option.splits)

lemma port_index_inj:
  "1024 \<le> unat p \<Longrightarrow> 1024 \<le> unat q \<Longrightarrow> (unat p - 1024) div 32 = (unat q - 1024) div 32 \<Longrightarrow>
     (unat p - 1024) mod 32 = (unat q - 1024) mod 32 \<Longrightarrow> p = (q :: u16)"
proof -
  assume "1024 \<le> unat p" "1024 \<le> unat q" "(unat p - 1024) div 32 = (unat q - 1024) div 32"
    "(unat p - 1024) mod 32 = (unat q - 1024) mod 32"
  moreover from this(3,4) have "unat p - 1024 = unat q - 1024" by (metis div_mult_mod_eq)
  ultimately have "unat p = unat q" by linarith
  then show ?thesis by (simp add: word_unat_eq_iff)
qed

lemma port_bit_set:
  assumes "1024 \<le> unat p" "1024 \<le> unat q"
  defines "w \<equiv> (unat p - 1024) div 32" and "k \<equiv> (unat p - 1024) mod 32"
  shows "port_bit (b(w := b w OR push_bit k 1)) q \<longleftrightarrow> port_bit b q \<or> q = p"
    "port_bit (b(w := b w AND NOT (push_bit k 1))) q \<longleftrightarrow> port_bit b q \<and> q \<noteq> p"
proof -
  have k: "k < 32" by (simp add: k_def)
  show "port_bit (b(w := b w OR push_bit k 1)) q \<longleftrightarrow> port_bit b q \<or> q = p"
    using port_index_inj [OF assms(1,2)] k unfolding port_bit_def w_def k_def
    by (cases "(unat p - 1024) div 32 = (unat q - 1024) div 32") (auto simp: bit_simps)
  show "port_bit (b(w := b w AND NOT (push_bit k 1))) q \<longleftrightarrow> port_bit b q \<and> q \<noteq> p"
    using port_index_inj [OF assms(1,2)] k unfolding port_bit_def w_def k_def
    by (cases "(unat p - 1024) div 32 = (unat q - 1024) div 32") (auto simp: bit_simps)
qed

lemma bitmap_set:
  "socket_port_bitmap t s = Some b \<Longrightarrow> socket_port_bitmap t' (set_port_bitmap t b' s) = (if t' = t then Some b' else socket_port_bitmap t' s)"
  by (auto simp: socket_port_bitmap_def set_port_bitmap_def split: if_splits)

text \<open>Marking a port, and giving it back.\<close>

lemma bitmap_Some: "socket_port_bitmap t s = Some b \<Longrightarrow> t = QOS_SOCK_STREAM \<or> t = QOS_SOCK_DGRAM"
  by (auto simp: socket_port_bitmap_def split: if_splits)

lemma port_mark_cases:
  "socket_port_mark t p s = (if port_ok t p \<and> \<not> marked t p s then (0, snd (socket_port_mark t p s)) else (-1, s))"
  by (auto simp: socket_port_mark_def marked_def port_ok_def socket_port_index_eq socket_port_bitmap_def)

lemma marked_mark:
  assumes "port_ok t p" "\<not> marked t p s"
  shows "marked t' q (snd (socket_port_mark t p s)) \<longleftrightarrow> marked t' q s \<or> (t' = t \<and> q = p)"
proof -
  obtain b where b: "socket_port_bitmap t s = Some b" using assms(1) by (auto simp: port_ok_def socket_port_bitmap_def)
  let ?w = "(unat p - 1024) div 32" and ?m = "push_bit ((unat p - 1024) mod 32) 1 :: u32"
  have p: "1024 \<le> unat p" using assms(1) by (simp add: port_ok_def)
  have "snd (socket_port_mark t p s) = set_port_bitmap t (b(?w := b ?w OR ?m)) s"
    using assms(2) b p by (auto simp: socket_port_mark_def marked_def socket_port_index_eq)
  then show ?thesis
    using b p port_bit_set(1) [OF p] by (auto simp: marked_bit bitmap_set [OF b])
qed

lemma marked_unmark: "marked t' q (socket_port_unmark t p s) \<longleftrightarrow> marked t' q s \<and> \<not> (t' = t \<and> q = p)"
proof (cases "\<exists>b. socket_port_bitmap t s = Some b \<and> 1024 \<le> unat p")
  case True
  then obtain b where b: "socket_port_bitmap t s = Some b" and p: "1024 \<le> unat p" by blast
  let ?w = "(unat p - 1024) div 32" and ?m = "push_bit ((unat p - 1024) mod 32) 1 :: u32"
  have "socket_port_unmark t p s = set_port_bitmap t (b(?w := b ?w AND NOT ?m)) s"
    using b p by (auto simp: socket_port_unmark_def socket_port_index_eq)
  then show ?thesis
    using b p port_bit_set(2) [OF p] by (auto simp: marked_bit bitmap_set [OF b])
next
  case False
  then have "socket_port_unmark t p s = s" "\<not> marked t p s"
    by (auto simp: socket_port_unmark_def socket_port_index_eq marked_bit split: option.splits)
  then show ?thesis by auto
qed

lemma unmark_mark:
  assumes "port_ok t p" "\<not> marked t p s"
  shows "socket_port_unmark t p (snd (socket_port_mark t p s)) = s"
proof -
  obtain b where b: "socket_port_bitmap t s = Some b" using assms(1) by (auto simp: port_ok_def socket_port_bitmap_def)
  let ?w = "(unat p - 1024) div 32" and ?m = "push_bit ((unat p - 1024) mod 32) 1 :: u32"
  have p: "1024 \<le> unat p" using assms(1) by (simp add: port_ok_def)
  have clear: "b ?w AND ?m = 0" using assms(2) b p by (auto simp: marked_def socket_port_index_eq)
  have "\<not> (bit (b ?w) n \<and> bit ?m n)" for n using clear by (metis bit_0_eq bit_and_iff bot_apply bot_bool_def)
  then have "(b ?w OR ?m) AND NOT ?m = b ?w" by (intro bit_word_eqI) (auto simp: bit_and_iff bit_or_iff bit_not_iff)
  then show ?thesis
    using assms(2) b p clear
    by (auto simp: socket_port_mark_def socket_port_unmark_def socket_port_index_eq bitmap_set [OF b] set_port_bitmap_def
        socket_port_bitmap_def split: if_splits)
qed

lemma port_alloc_cases:
  assumes "t = QOS_SOCK_STREAM \<or> t = QOS_SOCK_DGRAM"
  obtains "socket_port_alloc t s = (0, s)" "\<forall>p. port_ok t p \<longrightarrow> marked t p s"
  | p where "socket_port_alloc t s = (p, snd (socket_port_mark t p s))" "port_ok t p" "\<not> marked t p s" "p \<noteq> 0"
proof -
  note found = that(2)
  define free where "free = (\<lambda>port. fst (socket_port_mark t (word_of_nat port) s) = 0)"
  have free: "free port \<longleftrightarrow> port_ok t (word_of_nat port) \<and> \<not> marked t (word_of_nat port) s" for port
    unfolding free_def by (subst port_mark_cases) auto
  have alloc: "socket_port_alloc t s = (case scan free 49152 65536 of
        Some port \<Rightarrow> (word_of_nat port, snd (socket_port_mark t (word_of_nat port) s))
      | None \<Rightarrow> (case scan free 1024 49152 of
          Some port \<Rightarrow> (word_of_nat port, snd (socket_port_mark t (word_of_nat port) s)) | None \<Rightarrow> (0, s)))"
    unfolding socket_port_alloc_def free_def Let_def by simp
  have hit: thesis if "scan free a b = Some port" "socket_port_alloc t s = (word_of_nat port, snd (socket_port_mark t (word_of_nat port) s))"
    for a b port
  proof -
    from that(1) have "free port" by (simp add: scan_Some_iff)
    with free have "port_ok t (word_of_nat port)" "\<not> marked t (word_of_nat port) s" by blast+
    moreover from this(1) have "word_of_nat port \<noteq> (0 :: u16)" by (auto simp: port_ok_def)
    ultimately show thesis using that(2) found by blast
  qed
  consider port where "scan free 49152 65536 = Some port"
    | port where "scan free 49152 65536 = None" "scan free 1024 49152 = Some port"
    | "scan free 49152 65536 = None" "scan free 1024 49152 = None" by (metis option.exhaust)
  then show thesis
  proof cases
    case 3
    have "marked t p s" if "port_ok t p" for p
    proof -
      have "unat p < 65536" using unsigned_less [of p] by simp
      moreover have "1024 \<le> unat p" using that by (simp add: port_ok_def)
      ultimately have "\<not> free (unat p)" using 3 by (cases "unat p < 49152") (simp_all add: scan_None_iff)
      with free [of "unat p"] that show ?thesis by simp
    qed
    with 3 alloc show thesis by (intro that(1)) simp_all
  qed (use hit alloc in simp_all)
qed

section \<open>The network stack\<close>

lemma udp_unbind_bound:
  assumes "udp_inv n"
  shows "udp_port_is_bound q (snd (qos_net_udp_unbind p n)) \<longleftrightarrow> udp_port_is_bound q n \<and> q \<noteq> p"
    "udp_inv (snd (qos_net_udp_unbind p n))"
  using udp_refines_unbind [OF assms, of p]
  by (auto simp: udp_refines_def udp_bound split_beta prod_eq_iff split: if_splits)

lemma udp_bind_bound:
  assumes "udp_inv n" "qos_net_udp_bind p n = (r, n')"
  shows "r = 0 \<and> (\<forall>q. udp_port_is_bound q n' \<longleftrightarrow> udp_port_is_bound q n \<or> q = p) \<and> udp_inv n' \<or> r = -1 \<and> n' = n"
  using udp_refines_bind [OF assms(1), of p] assms
  by (auto simp: udp_refines_def udp_bound split_beta prod_eq_iff qos_net_udp_bind_def split: if_splits option.splits)

lemma udp_frame [simp]:
  "g_tcp_listeners (snd (qos_net_udp_unbind p n)) = g_tcp_listeners n" "g_tcp_conns (snd (qos_net_udp_unbind p n)) = g_tcp_conns n"
  "g_arp (snd (qos_net_udp_unbind p n)) = g_arp n" "packets_inv (snd (qos_net_udp_unbind p n)) = packets_inv n"
  by (auto simp: qos_net_udp_unbind_def udp_drop_port_datagrams_def packets_inv_def split_beta Let_def split: option.splits)

lemma tcp_listener_keys: "tcp_listener_exists p n \<longleftrightarrow> p \<in> keys QOS_NET_TCP_MAX_LISTENERS l_used l_port (g_tcp_listeners n)"
  by (simp add: tcp_listener_exists_def find_key_def [symmetric] find_key_None)

lemma tcp_unlisten_exists:
  assumes "listeners_inv n"
  shows "tcp_listener_exists q (snd (qos_net_tcp_unlisten p n)) \<longleftrightarrow> tcp_listener_exists q n \<and> q \<noteq> p"
    "listeners_inv (snd (qos_net_tcp_unlisten p n))"
proof -
  let ?off = "\<lparr>l_used = False, l_port = 0\<rparr>"
  note u = assms [unfolded listeners_inv_def]
  show "tcp_listener_exists q (snd (qos_net_tcp_unlisten p n)) \<longleftrightarrow> tcp_listener_exists q n \<and> q \<noteq> p"
  proof (cases "find_key QOS_NET_TCP_MAX_LISTENERS l_used l_port (g_tcp_listeners n) p")
    case None
    then have "\<not> tcp_listener_exists p n" by (simp add: tcp_listener_keys find_key_None)
    moreover have "snd (qos_net_tcp_unlisten p n) = n" using None by (simp add: qos_net_tcp_unlisten_def find_key_def)
    ultimately show ?thesis by auto
  next
    case (Some i)
    note f = find_key_Some [OF Some]
    have "snd (qos_net_tcp_unlisten p n) = n\<lparr>g_tcp_listeners := (g_tcp_listeners n)(i := ?off)\<rparr>"
      using Some by (simp add: qos_net_tcp_unlisten_def find_key_def)
    then show ?thesis
      using keys_remove [OF u, of i ?off] f by (simp add: tcp_listener_keys)
  qed
  show "listeners_inv (snd (qos_net_tcp_unlisten p n))"
    using u uniq_keys_remove [OF u, of ?off] by (auto simp: qos_net_tcp_unlisten_def listeners_inv_def split: option.splits)
qed

lemma tcp_listen_exists:
  assumes "listeners_inv n" "qos_net_tcp_listen p n = (r, n')"
  shows "r \<ge> 0 \<and> (\<forall>q. tcp_listener_exists q n' \<longleftrightarrow> tcp_listener_exists q n \<or> q = p) \<and> listeners_inv n' \<or> r = -1 \<and> n' = n"
proof (cases "p < QOS_NET_PORT_MIN_DYNAMIC \<or> tcp_listener_exists p n")
  case new: False
  show ?thesis
  proof (cases "find_free QOS_NET_TCP_MAX_LISTENERS l_used (g_tcp_listeners n)")
    case (Some i)
    note u = assms(1) [unfolded listeners_inv_def] and f = find_free_Some [OF Some]
    let ?l = "\<lparr>l_used = True, l_port = p\<rparr>"
    have r: "r = int i" "n' = n\<lparr>g_tcp_listeners := (g_tcp_listeners n)(i := ?l)\<rparr>"
      using new Some assms(2) by (auto simp: qos_net_tcp_listen_def)
    have "keys 64 l_used l_port ((g_tcp_listeners n)(i := ?l)) = insert p (keys 64 l_used l_port (g_tcp_listeners n))"
      using keys_insert [of i 64 l_used "g_tcp_listeners n" ?l l_port] f by simp
    then have "tcp_listener_exists q n' \<longleftrightarrow> tcp_listener_exists q n \<or> q = p" for q
      unfolding tcp_listener_keys r by auto
    moreover have "listeners_inv n'"
      using uniq_keys_insert [OF u, of i ?l] f new r unfolding tcp_listener_keys by (simp add: listeners_inv_def)
    ultimately show ?thesis using r(1) by simp
  qed (use new assms(2) in \<open>auto simp: qos_net_tcp_listen_def\<close>)
qed (use assms(2) in \<open>auto simp: qos_net_tcp_listen_def\<close>)

lemma tcp_frame [simp]:
  "g_udp_ports (snd (tcp_step x n)) = g_udp_ports n" "g_udp_datagrams (snd (tcp_step x n)) = g_udp_datagrams n"
  "g_udp_count (snd (tcp_step x n)) = g_udp_count n" "g_arp (snd (tcp_step x n)) = g_arp n"
  "packets_inv (snd (tcp_step x n)) = packets_inv n"
  by (cases x; auto simp: qos_net_tcp_listen_def qos_net_tcp_unlisten_def qos_net_tcp_connect_def qos_net_tcp_step_def
      set_conn_def packets_inv_def Let_def split: option.splits)+

lemma net_inv_frame:
  "packets_inv n' = packets_inv n \<Longrightarrow> g_arp n' = g_arp n \<Longrightarrow> g_tcp_conns n' = g_tcp_conns n \<Longrightarrow>
     udp_inv n' \<Longrightarrow> listeners_inv n' \<Longrightarrow> net_inv n \<Longrightarrow> net_inv n'"
  by (simp add: net_inv_def arp_inv_def tcp_inv_def)

lemma net_inv_unbind: "net_inv n \<Longrightarrow> net_inv (snd (qos_net_udp_unbind p n))"
  by (rule net_inv_frame [of _ n]) (simp_all add: net_inv_def udp_unbind_bound listeners_inv_def)

lemma net_inv_tcp:
  assumes "net_inv n" "listeners_inv (snd (tcp_step x n))"
  shows "net_inv (snd (tcp_step x n))"
  using assms tcp_inv_step [of n x]
  by (simp add: net_inv_def arp_inv_def udp_inv_def dg_list_def del: tcp_step.simps)

lemma udp_bound_tcp: "udp_port_is_bound p (snd (tcp_step x n)) = udp_port_is_bound p n"
  by (simp add: udp_port_is_bound_def del: tcp_step.simps)

lemma tcp_listener_unbind: "tcp_listener_exists q (snd (qos_net_udp_unbind p n)) = tcp_listener_exists q n"
  by (simp add: tcp_listener_exists_def)

section \<open>Closing a descriptor\<close>

lemma held_fun_upd_fd0:
  assumes "fd < QOS_FD_MAX" "h fd0 = {}"
  shows "held h (g(fd := fd0)) \<subseteq> held h g" "x \<notin> h (g fd) \<Longrightarrow> x \<in> held h (g(fd := fd0)) \<longleftrightarrow> x \<in> held h g"
  using assms by (auto simp: held_put held_split [of fd h g])

lemma fd_ok_mono:
  assumes "fd_ok fs ps r" "\<And>j. j \<in> holds_file r \<Longrightarrow> fl_used (fs j) \<Longrightarrow> fl_used (fs' j)"
    "\<And>j. j \<in> holds_pipe r \<Longrightarrow> pi_used (ps j) \<Longrightarrow> pi_used (ps' j)"
  shows "fd_ok fs' ps' r"
  using assms by (auto simp: fd_ok_def)

lemma holds_heldI: "i < QOS_FD_MAX \<Longrightarrow> x \<in> h (g i) \<Longrightarrow> x \<in> held h g"
  by (auto simp: held_def)

lemma release_pipe_inv:
  assumes inv: "pipes_inv s" and fd: "fd < QOS_FD_MAX"
  defines "s1 \<equiv> release_pipe (g_fds s fd) (put_fd fd fd0 s)"
  shows "pipes_inv s1 \<and> g_fds s1 = (g_fds s)(fd := fd0) \<and> g_files s1 = g_files s \<and> (\<forall>t p. marked t p s1 = marked t p s)"
proof -
  let ?g = "(g_fds s)(fd := fd0)" and ?id = "unat (f_pipe_id (g_fds s fd))"
  have sub: "holds_pipe (g_fds s fd) \<subseteq> {?id}" by (simp add: holds_pipe_def)
  have other: "j \<in> held holds_pipe ?g \<longleftrightarrow> j \<in> held holds_pipe (g_fds s)" if "j \<noteq> ?id" for j
    using held_fun_upd_fd0(2) [OF fd, of holds_pipe j "g_fds s"] sub that by auto
  have less: "j \<in> held holds_pipe ?g \<Longrightarrow> j \<in> held holds_pipe (g_fds s)" for j
    using held_fun_upd_fd0(1) [OF fd, of holds_pipe "g_fds s"] by auto
  have s1: "s1 = (if ?id < 32 \<and> ?id \<notin> held holds_pipe ?g then put_pipe ?id pipe0 (put_fd fd fd0 s) else put_fd fd fd0 s)"
    unfolding s1_def release_pipe_def Let_def pipe_in_use_held by simp
  have "pipes_inv s1"
    unfolding pipes_inv_def
  proof (intro allI impI)
    fix j :: nat assume j: "j < 32"
    then have old: "length (pi_buf (g_pipes s j)) = 1024" "unat (pi_len (g_pipes s j)) \<le> 1024"
      "pi_used (g_pipes s j) \<longleftrightarrow> j \<in> held holds_pipe (g_fds s)" "\<not> pi_used (g_pipes s j) \<Longrightarrow> g_pipes s j = pipe0"
      using inv by (auto simp: pipes_inv_def Let_def)
    show "let p = g_pipes s1 j in length (pi_buf p) = 1024 \<and> unat (pi_len p) \<le> 1024 \<and>
        pi_used p = (j \<in> held holds_pipe (g_fds s1)) \<and> (\<not> pi_used p \<longrightarrow> p = pipe0)"
      using old other [of j] less [of j] j by (cases "j = ?id") (auto simp: s1 pipe0_def Let_def)
  qed
  then show ?thesis by (simp add: s1)
qed

lemma release_file_inv:
  assumes inv: "files_inv s" and fd: "fd < QOS_FD_MAX"
    and s1: "g_fds s1 = (g_fds s)(fd := fd0)" "g_files s1 = g_files s"
  defines "s2 \<equiv> release_file (g_fds s fd) s1"
  shows "files_inv s2 \<and> g_fds s2 = g_fds s1 \<and> g_pipes s2 = g_pipes s1 \<and> (\<forall>t p. marked t p s2 = marked t p s1) \<and>
    (\<forall>j \<in> held holds_file (g_fds s1). fl_used (g_files s j) \<longrightarrow> fl_used (g_files s2 j))"
proof -
  let ?g = "(g_fds s)(fd := fd0)" and ?id = "unat (f_file_id (g_fds s fd))"
  have sub: "holds_file (g_fds s fd) \<subseteq> {?id}" by (simp add: holds_file_def)
  have other: "j \<in> held holds_file ?g \<longleftrightarrow> j \<in> held holds_file (g_fds s)" if "j \<noteq> ?id" for j
    using held_fun_upd_fd0(2) [OF fd, of holds_file j "g_fds s"] sub that by auto
  define gone where "gone \<longleftrightarrow> ?id < 128 \<and> fl_used (g_files s ?id) \<and> fl_path (g_files s ?id) = [] \<and> ?id \<notin> held holds_file ?g"
  have s2: "s2 = (if gone then put_file ?id file0 s1 else s1)"
    by (auto simp: s2_def release_file_def file_has_refs_held file_drop_def gone_def s1)
  have "files_inv s2"
    unfolding files_inv_def
  proof (intro conjI allI impI)
    fix j :: nat assume j: "j < 128"
    then have old: "length (fl_data (g_files s j)) = 1024" "unat (fl_len (g_files s j)) \<le> 1024"
      "length (fl_path (g_files s j)) < 128"
      "drop (unat (fl_len (g_files s j))) (fl_data (g_files s j)) = replicate (1024 - unat (fl_len (g_files s j))) 0"
      "fl_used (g_files s j) \<Longrightarrow> fl_path (g_files s j) = [] \<Longrightarrow> j \<in> held holds_file (g_fds s)"
      "\<not> fl_used (g_files s j) \<Longrightarrow> g_files s j = file0"
      using inv by (auto simp: files_inv_def Let_def)
    show "let f = g_files s2 j in length (fl_data f) = 1024 \<and> unat (fl_len f) \<le> 1024 \<and> length (fl_path f) < 128 \<and>
        drop (unat (fl_len f)) (fl_data f) = replicate (1024 - unat (fl_len f)) 0 \<and>
        (fl_used f \<longrightarrow> fl_path f = [] \<longrightarrow> j \<in> held holds_file (g_fds s2)) \<and> (\<not> fl_used f \<longrightarrow> f = file0)"
      using old other [of j] j by (cases "j = ?id") (auto simp: s2 s1 file0_def Let_def gone_def)
  next
    fix i j :: nat assume "i < 128" "j < 128"
    then show "fl_used (g_files s2 i) \<and> fl_used (g_files s2 j) \<and> fl_path (g_files s2 i) = fl_path (g_files s2 j) \<and>
        fl_path (g_files s2 i) \<noteq> [] \<Longrightarrow> i = j"
      using inv by (auto simp: s2 s1 file0_def files_inv_def split: if_splits)
  qed
  then show ?thesis by (auto simp: s2 s1 gone_def)
qed

lemma release_listener_inv:
  assumes inv: "ports_inv s n" "net_inv n" and fd: "fd < QOS_FD_MAX" "f_used (g_fds s fd)"
    and s1: "g_fds s1 = (g_fds s)(fd := fd0)"
  defines "n1 \<equiv> release_listener (g_fds s fd) s1 n"
  shows "net_inv n1 \<and> (\<forall>p. udp_port_is_bound p n1 = udp_port_is_bound p n) \<and>
    (\<forall>p. tcp_listener_exists p n1 = (p \<in> held holds_listener (g_fds s1)))"
proof -
  let ?r = "g_fds s fd" and ?g = "(g_fds s)(fd := fd0)"
  let ?p = "s_lport (f_sock ?r)"
  have old: "tcp_listener_exists q n \<longleftrightarrow> q \<in> held holds_listener (g_fds s)" for q using inv(1) by (simp add: ports_inv_def)
  have l: "listeners_inv n" using inv(2) by (simp add: net_inv_def)
  have split: "q \<in> held holds_listener (g_fds s) \<longleftrightarrow> q \<in> held holds_listener ?g \<or> q \<in> holds_listener ?r" for q
    using fd(1) by (simp add: held_put held_split [of fd holds_listener "g_fds s"])
  show ?thesis
  proof (cases "holds_listener ?r = {} \<or> ?p \<in> held holds_listener ?g")
    case True
    then have "n1 = n"
      using fd(2) by (auto simp: n1_def release_listener_def socket_listener_in_use_held s1 holds_listener_def Let_def split: if_splits)
    moreover have "holds_listener ?r \<subseteq> held holds_listener ?g"
      using True by (auto simp: holds_listener_def split: if_splits)
    ultimately show ?thesis using inv(2) old split s1 by auto
  next
    case False
    then have r: "holds_listener ?r = {?p}" by (auto simp: holds_listener_def split: if_splits)
    with False have n1: "n1 = snd (tcp_step (Unlisten ?p) n)"
      using fd(2) by (auto simp: n1_def release_listener_def socket_listener_in_use_held s1 holds_listener_def Let_def split: if_splits)
    have "net_inv n1" unfolding n1 by (rule net_inv_tcp [OF inv(2)]) (simp add: tcp_unlisten_exists [OF l])
    moreover have "tcp_listener_exists q n1 \<longleftrightarrow> q \<in> held holds_listener ?g" for q
      using False r old [of q] split [of q] by (auto simp: n1 tcp_unlisten_exists [OF l])
    ultimately show ?thesis using s1 udp_bound_tcp [of _ "Unlisten ?p" n] n1 by simp
  qed
qed

lemma release_port_inv:
  assumes inv: "ports_inv s n" and fd: "fd < QOS_FD_MAX" "f_used (g_fds s fd)"
    and s1: "g_fds s1 = (g_fds s)(fd := fd0)" "\<forall>t p. marked t p s1 = marked t p s"
    and n1: "net_inv n1" "\<forall>p. udp_port_is_bound p n1 = udp_port_is_bound p n"
      "\<forall>p. tcp_listener_exists p n1 = (p \<in> held holds_listener (g_fds s1))"
  defines "s2 \<equiv> fst (release_port (g_fds s fd) s1 n1)" and "n2 \<equiv> snd (release_port (g_fds s fd) s1 n1)"
  shows "ports_inv s2 n2 \<and> net_inv n2 \<and> g_fds s2 = g_fds s1 \<and> g_files s2 = g_files s1 \<and> g_pipes s2 = g_pipes s1"
proof -
  let ?r = "g_fds s fd" and ?g = "(g_fds s)(fd := fd0)"
  let ?t = "s_type (f_sock ?r)" and ?p = "s_lport (f_sock ?r)"
  have u: "udp_inv n1" using n1(1) by (simp add: net_inv_def)
  have split: "x \<in> held holds_port (g_fds s) \<longleftrightarrow> x \<in> held holds_port ?g \<or> x \<in> holds_port ?r" for x
    using fd(1) by (simp add: held_put held_split [of fd holds_port "g_fds s"])
  show ?thesis
  proof (cases "holds_port ?r = {} \<or> (?t, ?p) \<in> held holds_port ?g")
    case True
    then have "s2 = s1 \<and> n2 = n1"
      using fd(2) by (auto simp: s2_def n2_def release_port_def socket_port_in_use_held s1 holds_port_def Let_def split: if_splits)
    moreover have "holds_port ?r \<subseteq> held holds_port ?g" using True by (auto simp: holds_port_def split: if_splits)
    ultimately show ?thesis using inv split n1 s1 by (auto simp: ports_inv_def)
  next
    case False
    then have r: "holds_port ?r = {(?t, ?p)}" by (auto simp: holds_port_def split: if_splits)
    with False have eq: "s2 = socket_port_unmark ?t ?p s1"
      "n2 = (if ?t = QOS_SOCK_DGRAM then snd (qos_net_udp_unbind ?p n1) else n1)"
      using fd(2) by (auto simp: s2_def n2_def release_port_def socket_port_in_use_held s1 holds_port_def Let_def split: if_splits)
    have "marked t q s2 \<longleftrightarrow> (t, q) \<in> held holds_port ?g" if "t \<noteq> QOS_SOCK_RAW" for t q
      using that False r inv split [of "(t, q)"] s1(2) by (auto simp: eq marked_unmark ports_inv_def)
    moreover have "udp_port_is_bound q n2 \<longleftrightarrow> (QOS_SOCK_DGRAM, q) \<in> held holds_port ?g" for q
      using False r inv split [of "(QOS_SOCK_DGRAM, q)"] n1(2) by (auto simp: eq udp_unbind_bound [OF u] ports_inv_def)
    moreover have "tcp_listener_exists q n2 = tcp_listener_exists q n1" for q by (simp add: eq tcp_listener_unbind)
    moreover have "net_inv n2" using n1(1) by (simp add: eq net_inv_unbind)
    ultimately show ?thesis using n1(3) s1 by (simp add: ports_inv_def eq(1))
  qed
qed

lemma fd_clear_inv:
  assumes inv: "fd_inv s n" and v: "fd_valid fd s"
  shows "fd_inv (fst (fd_clear fd s n)) (snd (fd_clear fd s n)) \<and> g_fds (fst (fd_clear fd s n)) = (g_fds s)(fd := fd0)"
proof -
  let ?r = "g_fds s fd"
  have fd: "fd < QOS_FD_MAX" "f_used ?r" using v by (auto simp: fd_valid_def)
  have parts: "fds_inv s" "files_inv s" "pipes_inv s" "ports_inv s n" "net_inv n" using inv by (auto simp: fd_inv_def)
  define sp where "sp = release_pipe ?r (put_fd fd fd0 s)"
  define sf where "sf = release_file ?r sp"
  define n1 where "n1 = release_listener ?r sf n"
  define s2 where "s2 = fst (release_port ?r sf n1)"
  define n2 where "n2 = snd (release_port ?r sf n1)"
  have p: "pipes_inv sp" "g_fds sp = (g_fds s)(fd := fd0)" "g_files sp = g_files s" "\<forall>t p. marked t p sp = marked t p s"
    using release_pipe_inv [OF parts(3) fd(1)] by (auto simp: sp_def)
  have f: "files_inv sf" "g_fds sf = g_fds sp" "g_pipes sf = g_pipes sp" "\<forall>t p. marked t p sf = marked t p sp"
    "\<forall>j \<in> held holds_file (g_fds sp). fl_used (g_files s j) \<longrightarrow> fl_used (g_files sf j)"
    using release_file_inv [OF parts(2) fd(1) p(2,3)] by (auto simp: sf_def)
  have l: "net_inv n1" "\<forall>p. udp_port_is_bound p n1 = udp_port_is_bound p n"
      "\<forall>p. tcp_listener_exists p n1 = (p \<in> held holds_listener (g_fds sf))"
    using release_listener_inv [OF parts(4,5) fd, of sf] f(2) p(2) by (auto simp: n1_def)
  have r: "ports_inv s2 n2" "net_inv n2" "g_fds s2 = g_fds sf" "g_files s2 = g_files sf" "g_pipes s2 = g_pipes sf"
    using release_port_inv [OF parts(4) fd _ _ l] f(2,4) p(2,4) by (auto simp: s2_def n2_def)
  have fds: "g_fds s2 = (g_fds s)(fd := fd0)" using r f p by simp
  have "fd_ok (g_files s2) (g_pipes s2) (g_fds s i)" if "i < 256" "i \<noteq> fd" "f_used (g_fds s i)" for i
  proof (rule fd_ok_mono)
    show "fd_ok (g_files s) (g_pipes s) (g_fds s i)" using parts(1) that by (auto simp: fds_inv_def split: if_splits)
    show "fl_used (g_files s2 j)" if j: "j \<in> holds_file (g_fds s i)" "fl_used (g_files s j)" for j
      using holds_heldI [of i j holds_file "g_fds sp"] f(5) j \<open>i < 256\<close> \<open>i \<noteq> fd\<close> r(4) p(2) by auto
    show "pi_used (g_pipes s2 j)" if j: "j \<in> holds_pipe (g_fds s i)" "pi_used (g_pipes s j)" for j
    proof -
      have "j \<in> held holds_pipe (g_fds sp)" using holds_heldI [of i j holds_pipe "g_fds sp"] j \<open>i < 256\<close> \<open>i \<noteq> fd\<close> p(2) by auto
      moreover have "j < 32" using parts(1) j \<open>i < 256\<close> \<open>f_used (g_fds s i)\<close> by (auto simp: fds_inv_def fd_ok_def split: if_splits)
      ultimately show ?thesis using p(1) r(5) f(3) by (auto simp: pipes_inv_def Let_def)
    qed
  qed
  then have "fds_inv s2" using parts(1) unfolding fds_inv_def fds by auto
  moreover have "files_inv s2" using f(1) files_inv_cong [OF r(3,4)] by simp
  moreover have "pipes_inv s2" using p(1) pipes_inv_cong [of s2 sp] f(2,3) r(3,5) by simp
  ultimately have "fd_inv s2 n2" using r(1,2) by (simp add: fd_inv_def)
  moreover have "fd_clear fd s n = (s2, n2)"
    using v by (simp add: fd_clear_def Let_def s2_def n2_def n1_def sf_def sp_def)
  ultimately show ?thesis using fds by simp
qed

end
