(* ===== verification/Shlib.thy ===== *)
theory Shlib
  imports Elf Resources
begin

text \<open>
  Shared libraries and loadable modules of \<^verbatim>\<open>src/c-os/kernel/syscall/syscall.c\<close>: tables of handles with
  reference counts, and modules that hold a library each. A handle or identifier returned as an \<open>int\<close> is the
  signed reading of its 32 bits.
\<close>

section \<open>Model\<close>

definition put_shlib :: "nat \<Rightarrow> shlib_slot \<Rightarrow> syscall \<Rightarrow> syscall" where
  "put_shlib i r s = s\<lparr>g_shlibs := (g_shlibs s)(i := r)\<rparr>"

definition put_module :: "nat \<Rightarrow> module_slot \<Rightarrow> syscall \<Rightarrow> syscall" where
  "put_module i r s = s\<lparr>g_modules := (g_modules s)(i := r)\<rparr>"

definition shlib_find_slot_by_handle :: "u32 \<Rightarrow> syscall \<Rightarrow> nat option" where
  "shlib_find_slot_by_handle handle s =
     (if handle = 0 then None else find_key QOS_SHLIB_MAX sl_used sl_handle (g_shlibs s) handle)"

definition shlib_find_slot_by_path :: "cstr \<Rightarrow> syscall \<Rightarrow> nat option" where
  "shlib_find_slot_by_path path s =
     (case path of None \<Rightarrow> None | Some p \<Rightarrow> find_key QOS_SHLIB_MAX sl_used sl_path (g_shlibs s) p)"

definition shlib_free_slot :: "syscall \<Rightarrow> nat option" where
  "shlib_free_slot s = find_free QOS_SHLIB_MAX sl_used (g_shlibs s)"

text \<open>A counter that skips 0; the same code serves handles and module identifiers.\<close>

definition next_number :: "u32 \<Rightarrow> u32 \<times> u32" where
  "next_number c =
     (let (h, c) = (c, c + 1);
          (h, c) = (if h = 0 then (c, c + 1) else (h, c)) in
      if h = 0 then (1, 2) else (h, c))"

definition shlib_next_handle :: "syscall \<Rightarrow> u32 \<times> syscall" where
  "shlib_next_handle s =
     (case next_number (g_shlib_next_handle s) of (h, c) \<Rightarrow> (h, s\<lparr>g_shlib_next_handle := c\<rparr>))"

definition shlib_load_path :: "cstr \<Rightarrow> bool \<Rightarrow> syscall \<Rightarrow> int \<times> syscall" where
  "shlib_load_path path force_new s =
     (case path of
        None \<Rightarrow> (-1, s)
      | Some p \<Rightarrow>
          if p = [] \<or> hd p \<noteq> CHR ''/'' then (-1, s)
          else case (if force_new then None else shlib_find_slot_by_path path s) of
            Some slot \<Rightarrow>
              let r = g_shlibs s slot in (sint (sl_handle r), put_shlib slot (r\<lparr>sl_refcount := sl_refcount r + 1\<rparr>) s)
          | None \<Rightarrow>
              (case file_find p s of
                 None \<Rightarrow> (-1, s)
               | Some file_id \<Rightarrow>
                   let f = g_files s file_id in
                   if \<not> fl_used f \<or> fl_len f = 0 then (-1, s)
                   else case parse_shared_elf_image (Some (fl_data f)) (ucast (fl_len f)) of
                     Some (Some _) \<Rightarrow>
                       (case shlib_free_slot s of
                          None \<Rightarrow> (-1, s)
                        | Some slot \<Rightarrow>
                            let (handle, s1) = shlib_next_handle s;
                                stored = take (QOS_FILE_PATH_MAX - 1) p in
                            if length stored = 0 then (-1, put_shlib slot shlib0 s1)
                            else (sint handle, put_shlib slot \<lparr>sl_used = True, sl_handle = handle, sl_refcount = 1,
                                    sl_file_id = word_of_nat file_id, sl_path = stored\<rparr> s1))
                   | _ \<Rightarrow> (-1, s)))"

definition shlib_release_handle :: "u32 \<Rightarrow> syscall \<Rightarrow> int \<times> syscall" where
  "shlib_release_handle handle s =
     (case shlib_find_slot_by_handle handle s of
        None \<Rightarrow> (-1, s)
      | Some slot \<Rightarrow>
          let r = g_shlibs s slot in
          if sl_refcount r = 0 then (-1, s)
          else if sl_refcount r - 1 = 0 then (0, put_shlib slot shlib0 s)
          else (0, put_shlib slot (r\<lparr>sl_refcount := sl_refcount r - 1\<rparr>) s))"

definition module_find_slot_by_id :: "u32 \<Rightarrow> syscall \<Rightarrow> nat option" where
  "module_find_slot_by_id module_id s =
     (if module_id = 0 then None else find_key QOS_MODULE_MAX mo_used mo_id (g_modules s) module_id)"

definition module_find_slot_by_path :: "cstr \<Rightarrow> syscall \<Rightarrow> nat option" where
  "module_find_slot_by_path path s =
     (case path of None \<Rightarrow> None | Some p \<Rightarrow> find_key QOS_MODULE_MAX mo_used mo_path (g_modules s) p)"

definition module_free_slot :: "syscall \<Rightarrow> nat option" where
  "module_free_slot s = find_free QOS_MODULE_MAX mo_used (g_modules s)"

definition module_next_id :: "syscall \<Rightarrow> u32 \<times> syscall" where
  "module_next_id s =
     (case next_number (g_module_next_id s) of (h, c) \<Rightarrow> (h, s\<lparr>g_module_next_id := c\<rparr>))"

definition module_load_path :: "cstr \<Rightarrow> syscall \<Rightarrow> int \<times> syscall" where
  "module_load_path path s =
     (case path of
        None \<Rightarrow> (-1, s)
      | Some p \<Rightarrow>
          if p = [] \<or> hd p \<noteq> CHR ''/'' then (-1, s)
          else case module_find_slot_by_path path s of
            Some existing \<Rightarrow> (sint (mo_id (g_modules s existing)), s)
          | None \<Rightarrow>
              let (handle, s1) = shlib_load_path path False s in
              if handle < 0 then (-1, s1)
              else case module_free_slot s1 of
                None \<Rightarrow> (-1, snd (shlib_release_handle (word_of_int handle) s1))
              | Some slot \<Rightarrow>
                  let (mid, s2) = module_next_id s1;
                      stored = take (QOS_FILE_PATH_MAX - 1) p in
                  if stored = [] then
                    (-1, snd (shlib_release_handle (word_of_int handle)
                                (put_module slot ((g_modules s2 slot)\<lparr>mo_used := False, mo_id := 0, mo_generation := 0,
                                   mo_shlib_handle := 0, mo_path := stored\<rparr>) s2)))
                  else (sint mid, put_module slot \<lparr>mo_used = True, mo_id = mid, mo_generation = 1,
                          mo_shlib_handle = word_of_int handle, mo_path = stored\<rparr> s2))"

definition module_unload_id :: "u32 \<Rightarrow> syscall \<Rightarrow> int \<times> syscall" where
  "module_unload_id module_id s =
     (case module_find_slot_by_id module_id s of
        None \<Rightarrow> (-1, s)
      | Some slot \<Rightarrow>
          let handle = mo_shlib_handle (g_modules s slot);
              s1 = put_module slot module0 s in
          (0, if handle \<noteq> 0 then snd (shlib_release_handle handle s1) else s1))"

definition module_reload_id :: "u32 \<Rightarrow> syscall \<Rightarrow> int \<times> syscall" where
  "module_reload_id module_id s =
     (case module_find_slot_by_id module_id s of
        None \<Rightarrow> (-1, s)
      | Some slot \<Rightarrow>
          let (new_handle, s1) = shlib_load_path (Some (mo_path (g_modules s slot))) True s in
          if new_handle < 0 then (-1, s1)
          else let r = g_modules s1 slot;
                   old_handle = mo_shlib_handle r;
                   generation = (if mo_generation r + 1 = 0 then 1 else mo_generation r + 1);
                   s2 = put_module slot (r\<lparr>mo_shlib_handle := word_of_int new_handle, mo_generation := generation\<rparr>) s1 in
            (sint generation, if old_handle \<noteq> 0 then snd (shlib_release_handle old_handle s2) else s2))"

text \<open>The hash of a symbol name; \<open>(hash << 5) + hash\<close> wraps at 32 bits.\<close>

fun symbol_hash_loop :: "u32 \<Rightarrow> string \<Rightarrow> u32" where
  "symbol_hash_loop hash [] = hash"
| "symbol_hash_loop hash (c # cs) = symbol_hash_loop ((push_bit 5 hash + hash) XOR of_char c) cs"

definition symbol_hash32 :: "cstr \<Rightarrow> u32" where
  "symbol_hash32 name =
     (case name of None \<Rightarrow> 0 | Some n \<Rightarrow> if n = [] then 0 else symbol_hash_loop 5381 n)"

end
