(* ===== verification/Vfs.thy ===== *)
theory Vfs
  imports Prelude
begin

text \<open>
  The virtual file system of \<^verbatim>\<open>src/c-os/kernel/fs/vfs.c\<close>: a table of 128 path slots with a counter.
  The state is the record \<open>vfs\<close>; \<open>g_paths\<close> and \<open>g_used\<close> are the two fields of a slot. The table is a
  bounded registry of paths (interpretation \<open>vfs_reg\<close>), and the mount classification looks at
  the first component of a path.
\<close>

section \<open>Model\<close>

abbreviation (input) QOS_VFS_MAX_NODES :: nat where "QOS_VFS_MAX_NODES \<equiv> 128"
abbreviation (input) QOS_VFS_PATH_MAX :: nat where "QOS_VFS_PATH_MAX \<equiv> 128"
abbreviation (input) QOS_VFS_FS_INITRAMFS :: int where "QOS_VFS_FS_INITRAMFS \<equiv> 1"
abbreviation (input) QOS_VFS_FS_TMPFS :: int where "QOS_VFS_FS_TMPFS \<equiv> 2"
abbreviation (input) QOS_VFS_FS_PROCFS :: int where "QOS_VFS_FS_PROCFS \<equiv> 3"
abbreviation (input) QOS_VFS_FS_EXT2 :: int where "QOS_VFS_FS_EXT2 \<equiv> 4"

record vfs_node =
  n_path :: string
  n_used :: bool

record vfs =
  vfs_nodes :: "vfs_node arr"
  vfs_g_count :: u32

text \<open>
  \<open>strncmp(path, mount, strlen(mount)) == 0\<close> says that \<open>mount\<close> is a prefix; the character after the
  prefix is NUL exactly when the path ends there.
\<close>

definition path_is_mount_or_child :: "string \<Rightarrow> string \<Rightarrow> bool" where
  "path_is_mount_or_child path mount_path =
     (let mount_len = length mount_path in
      take mount_len path = mount_path \<and>
      (length path = mount_len \<or> path ! mount_len = CHR ''/''))"

definition path_valid :: "cstr \<Rightarrow> bool" where
  "path_valid path =
     (case path of
        None \<Rightarrow> False
      | Some p \<Rightarrow>
          if p = [] \<or> p ! 0 \<noteq> CHR ''/'' then False
          else if length p = 0 \<or> length p \<ge> QOS_VFS_PATH_MAX then False
          else True)"

definition find_path :: "string \<Rightarrow> vfs \<Rightarrow> nat option" where
  "find_path path s = find_key QOS_VFS_MAX_NODES n_used n_path (vfs_nodes s) path"

definition vfs_find_free_slot :: "vfs \<Rightarrow> nat option" where
  "vfs_find_free_slot s = find_free QOS_VFS_MAX_NODES n_used (vfs_nodes s)"

definition qos_vfs_reset :: vfs where
  "qos_vfs_reset = \<lparr>vfs_nodes = (\<lambda>_. \<lparr>n_path = [], n_used = False\<rparr>), vfs_g_count = 0\<rparr>"

definition qos_vfs_create :: "cstr \<Rightarrow> vfs \<Rightarrow> int \<times> vfs" where
  "qos_vfs_create path s =
     (if \<not> path_valid path then (-1, s)
      else if find_path (the path) s \<noteq> None then (-1, s)
      else case vfs_find_free_slot s of
             None \<Rightarrow> (-1, s)
           | Some idx \<Rightarrow>
               (0, s\<lparr>vfs_nodes := (vfs_nodes s)(idx := \<lparr>n_path = the path, n_used = True\<rparr>),
                     vfs_g_count := vfs_g_count s + 1\<rparr>))"

definition qos_vfs_exists :: "cstr \<Rightarrow> vfs \<Rightarrow> int" where
  "qos_vfs_exists path s =
     (if \<not> path_valid path then 0 else if find_path (the path) s \<noteq> None then 1 else 0)"

definition qos_vfs_remove :: "cstr \<Rightarrow> vfs \<Rightarrow> int \<times> vfs" where
  "qos_vfs_remove path s =
     (if \<not> path_valid path then (-1, s)
      else case find_path (the path) s of
             None \<Rightarrow> (-1, s)
           | Some idx \<Rightarrow>
               (0, s\<lparr>vfs_nodes := (vfs_nodes s)(idx := \<lparr>n_path = [], n_used = False\<rparr>),
                     vfs_g_count := vfs_g_count s - 1\<rparr>))"

definition qos_vfs_count :: "vfs \<Rightarrow> u32" where
  "qos_vfs_count s = vfs_g_count s"

definition qos_vfs_fs_kind :: "cstr \<Rightarrow> int" where
  "qos_vfs_fs_kind path =
     (if \<not> path_valid path then -1
      else if path_is_mount_or_child (the path) ''/tmp'' then QOS_VFS_FS_TMPFS
      else if path_is_mount_or_child (the path) ''/proc'' then QOS_VFS_FS_PROCFS
      else if path_is_mount_or_child (the path) ''/data'' then QOS_VFS_FS_EXT2
      else QOS_VFS_FS_INITRAMFS)"

definition qos_vfs_is_read_only :: "cstr \<Rightarrow> int" where
  "qos_vfs_is_read_only path =
     (let kind = qos_vfs_fs_kind path in
      if kind < 0 then -1
      else if kind = QOS_VFS_FS_INITRAMFS \<or> kind = QOS_VFS_FS_PROCFS then 1 else 0)"

section \<open>Specification\<close>

definition vfs_members :: "vfs \<Rightarrow> cstr set" where
  "vfs_members s = Some ` keys QOS_VFS_MAX_NODES n_used n_path (vfs_nodes s)"

definition vfs_inv :: "vfs \<Rightarrow> bool" where
  "vfs_inv s \<longleftrightarrow>
     tbl_inv QOS_VFS_MAX_NODES n_used n_path (vfs_nodes s) (vfs_g_count s) \<and>
     (\<forall>p \<in> keys QOS_VFS_MAX_NODES n_used n_path (vfs_nodes s). path_valid (Some p))"
text \<open>The first component of an absolute path, what the mount table is indexed by.\<close>

definition first_component :: "string \<Rightarrow> string" where
  "first_component p = takeWhile (\<lambda>c. c \<noteq> CHR ''/'') (tl p)"

definition mount_kind :: "string \<Rightarrow> int" where
  "mount_kind c =
     (if c = ''tmp'' then QOS_VFS_FS_TMPFS else if c = ''proc'' then QOS_VFS_FS_PROCFS
      else if c = ''data'' then QOS_VFS_FS_EXT2 else QOS_VFS_FS_INITRAMFS)"

section \<open>Library\<close>

lemma vfs_inv_reset: "vfs_inv qos_vfs_reset" "vfs_members qos_vfs_reset = {}"
  by (simp_all add: vfs_inv_def vfs_members_def qos_vfs_reset_def tbl_inv_def)

lemma vfs_members_card: "vfs_inv s \<Longrightarrow> card (vfs_members s) = unat (vfs_g_count s)"
  by (simp add: vfs_members_def vfs_inv_def card_image tbl_card)

lemma vfs_members_valid: "vfs_inv s \<Longrightarrow> k \<in> vfs_members s \<Longrightarrow> path_valid k"
  by (auto simp: vfs_members_def vfs_inv_def)

lemma path_valid_Some: "path_valid k \<Longrightarrow> \<exists>p. k = Some p"
  by (simp add: path_valid_def split: option.splits)

lemma vfs_inv_uniq: "vfs_inv s \<Longrightarrow> uniq_keys QOS_VFS_MAX_NODES n_used n_path (vfs_nodes s)"
  unfolding vfs_inv_def by (blast intro: tbl_uniq)

lemma find_path_Some:
  "find_path p s = Some i \<Longrightarrow> i < QOS_VFS_MAX_NODES \<and> n_used (vfs_nodes s i) \<and> n_path (vfs_nodes s i) = p"
  unfolding find_path_def by (rule find_key_Some)

lemma find_path_None: "find_path p s = None \<longleftrightarrow> Some p \<notin> vfs_members s"
  by (auto simp: find_path_def find_key_None vfs_members_def)

lemma vfs_free_Some:
  "vfs_find_free_slot s = Some i \<Longrightarrow> i < QOS_VFS_MAX_NODES \<and> \<not> n_used (vfs_nodes s i)"
  unfolding vfs_find_free_slot_def by (rule find_free_Some)

lemma vfs_free_None:
  "vfs_inv s \<Longrightarrow> vfs_find_free_slot s = None \<longleftrightarrow> card (vfs_members s) = QOS_VFS_MAX_NODES"
  using tbl_full [of QOS_VFS_MAX_NODES n_used n_path "vfs_nodes s" "vfs_g_count s"]
  by (simp add: vfs_members_card vfs_find_free_slot_def) (simp add: vfs_inv_def)

lemma vfs_create_accept:
  assumes inv: "vfs_inv s" and k: "path_valid k" "k \<notin> vfs_members s"
    and room: "card (vfs_members s) < QOS_VFS_MAX_NODES"
  shows "\<exists>s'. qos_vfs_create k s = (0, s') \<and> vfs_inv s' \<and> vfs_members s' = insert k (vfs_members s)"
proof -
  obtain p where p: "k = Some p" using path_valid_Some [OF k(1)] by blast
  obtain i where fr: "vfs_find_free_slot s = Some i"
    using room vfs_free_None [OF inv] by fastforce
  note i = vfs_free_Some [OF fr]
  let ?s' = "s\<lparr>vfs_nodes := (vfs_nodes s)(i := \<lparr>n_path = p, n_used = True\<rparr>),
    vfs_g_count := vfs_g_count s + 1\<rparr>"
  have "qos_vfs_create k s = (0, ?s')"
    using k fr by (simp add: qos_vfs_create_def p find_path_None)
  moreover have "vfs_inv ?s'"
    using inv k i by (auto simp: vfs_inv_def slot_simps p vfs_members_def image_iff)
  moreover have "vfs_members ?s' = insert k (vfs_members s)"
    using i by (simp add: vfs_members_def slot_simps p)
  ultimately show ?thesis by blast
qed

lemma vfs_create_reject:
  assumes "vfs_inv s" "\<not> (path_valid k \<and> k \<notin> vfs_members s \<and> card (vfs_members s) < QOS_VFS_MAX_NODES)"
  shows "qos_vfs_create k s = (-1, s)"
proof (cases "path_valid k \<and> k \<notin> vfs_members s")
  case True
  with assms have "card (vfs_members s) = QOS_VFS_MAX_NODES"
    by (simp add: vfs_members_card vfs_inv_def) (metis le_antisym not_less tbl_bound)
  then have "vfs_find_free_slot s = None" by (simp add: vfs_free_None assms(1))
  then show ?thesis by (simp add: qos_vfs_create_def)
next
  case False
  then show ?thesis
    using find_path_None [of "the k" s] by (auto simp: qos_vfs_create_def dest: path_valid_Some)
qed

lemma vfs_remove_accept:
  assumes inv: "vfs_inv s" and k: "k \<in> vfs_members s"
  shows "\<exists>s'. qos_vfs_remove k s = (0, s') \<and> vfs_inv s' \<and> vfs_members s' = vfs_members s - {k}"
proof -
  obtain p where p: "k = Some p" using k by (auto simp: vfs_members_def)
  obtain i where f: "find_path p s = Some i" using k find_path_None [of p s] by (auto simp: p)
  note i = find_path_Some [OF f]
  let ?r = "\<lparr>n_path = [], n_used = False\<rparr>"
  let ?s' = "s\<lparr>vfs_nodes := (vfs_nodes s)(i := ?r), vfs_g_count := vfs_g_count s - 1\<rparr>"
  have K: "keys QOS_VFS_MAX_NODES n_used n_path ((vfs_nodes s)(i := ?r)) =
      keys QOS_VFS_MAX_NODES n_used n_path (vfs_nodes s) - {p}"
    using vfs_inv_uniq [OF inv] i by (simp add: keys_remove)
  then have "vfs_inv ?s'" using inv i by (simp add: vfs_inv_def tbl_remove)
  moreover have "vfs_members ?s' = vfs_members s - {k}" using K p by (auto simp: vfs_members_def)
  moreover have "qos_vfs_remove k s = (0, ?s')"
    using f vfs_members_valid [OF inv k] by (simp add: qos_vfs_remove_def p)
  ultimately show ?thesis by blast
qed

lemma vfs_remove_reject: "k \<notin> vfs_members s \<Longrightarrow> qos_vfs_remove k s = (-1, s)"
  using find_path_None [of "the k" s] by (auto simp: qos_vfs_remove_def dest: path_valid_Some)
interpretation vfs_reg: bounded_registry QOS_VFS_MAX_NODES path_valid qos_vfs_create qos_vfs_remove
  vfs_members vfs_inv
proof (unfold_locales, goal_cases)
  case 1 then show ?case by (rule vfs_create_accept)
next
  case 2 then show ?case by (rule vfs_create_reject)
next
  case 3 then show ?case by (rule vfs_remove_accept)
next
  case 4 then show ?case by (intro vfs_remove_reject)
next
  case (5 s)
  then have "unat (vfs_g_count s) \<le> QOS_VFS_MAX_NODES"
    unfolding vfs_inv_def by (blast intro: tbl_bound)
  with 5 show ?case by (simp add: vfs_members_card) (simp add: vfs_members_def)
qed
lemma mount_prefix:
  assumes "CHR ''/'' \<notin> set c"
  shows "path_is_mount_or_child p (CHR ''/'' # c) \<longleftrightarrow>
    p \<noteq> [] \<and> p ! 0 = CHR ''/'' \<and> first_component p = c"
proof (cases p)
  case Nil
  then show ?thesis by (simp add: path_is_mount_or_child_def)
next
  case (Cons x xs)
  have "take (length c) xs = c \<and> (length xs = length c \<or> xs ! length c = CHR ''/'') \<longleftrightarrow>
      takeWhile (\<lambda>a. a \<noteq> CHR ''/'') xs = c"
    using assms
  proof (induction c arbitrary: xs)
    case Nil
    then show ?case by (cases xs) auto
  next
    case (Cons a c)
    then show ?case by (cases xs) auto
  qed
  with Cons show ?thesis
    by (auto simp: path_is_mount_or_child_def first_component_def Let_def)
qed

section \<open>Properties\<close>

text \<open>
  C15. The node table refines a bounded set of paths. From any well-formed table, a run of any
  sequence of \<open>qos_vfs_create\<close> and \<open>qos_vfs_remove\<close> calls returns exactly the codes a set of at most
  128 valid paths returns, ends in a well-formed table and leaves exactly the paths that set holds;
  \<open>qos_vfs_exists\<close> and \<open>qos_vfs_count\<close> report its members and its size.
\<close>

theorem vfs_refines_bounded_set:
  assumes "vfs_inv s"
  shows "\<exists>s'. run_ops (reg_step qos_vfs_create qos_vfs_remove) xs s =
      (fst (run_ops (bset_step QOS_VFS_MAX_NODES path_valid) xs (vfs_members s)), s') \<and>
    vfs_inv s' \<and>
    vfs_members s' = snd (run_ops (bset_step QOS_VFS_MAX_NODES path_valid) xs (vfs_members s)) \<and>
    (\<forall>k. qos_vfs_exists k s' = (if k \<in> vfs_members s' then 1 else 0)) \<and>
    unat (qos_vfs_count s') = card (vfs_members s')"
proof -
  obtain s' where s': "run_ops (reg_step qos_vfs_create qos_vfs_remove) xs s =
      (fst (run_ops (bset_step QOS_VFS_MAX_NODES path_valid) xs (vfs_members s)), s')"
    "vfs_inv s'" "vfs_members s' = snd (run_ops (bset_step QOS_VFS_MAX_NODES path_valid) xs (vfs_members s))"
    using vfs_reg.reg_sim.sim_run [OF assms] by blast
  have "qos_vfs_exists k s' = (if k \<in> vfs_members s' then 1 else 0)" for k
    using vfs_members_valid [OF s'(2)] find_path_None [of "the k" s']
    by (auto simp: qos_vfs_exists_def dest: path_valid_Some)
  moreover have "unat (qos_vfs_count s') = card (vfs_members s')"
    using s'(2) by (simp add: vfs_members_card qos_vfs_count_def)
  ultimately show ?thesis using s' by blast
qed

theorem vfs_refines_bounded_set_witness:
  "vfs_inv qos_vfs_reset \<and>
   fst (run_ops (reg_step qos_vfs_create qos_vfs_remove)
     [Create (Some ''/a''), Create (Some ''/a''), Remove (Some ''/a''), Remove (Some ''/a''), Create None]
     qos_vfs_reset) = [0, -1, 0, -1, -1]"
  using vfs_refines_bounded_set [OF vfs_inv_reset(1), of
      "[Create (Some ''/a''), Create (Some ''/a''), Remove (Some ''/a''), Remove (Some ''/a''), Create None]"]
  by (auto simp: vfs_inv_reset path_valid_def Let_def)

text \<open>
  Mount classification. For every valid path \<open>qos_vfs_fs_kind\<close> depends only on the first
  component: \<open>tmp\<close>, \<open>proc\<close> and \<open>data\<close> name their file systems and everything else, a component that
  merely starts with one of these names included, is the initramfs.
\<close>

lemma vfs_fs_kind_first_component:
  assumes "path_valid (Some p)"
  shows "qos_vfs_fs_kind (Some p) = mount_kind (first_component p)"
proof -
  have p: "p \<noteq> []" "p ! 0 = CHR ''/''"
    using assms by (auto simp: path_valid_def split: if_splits)
  have "path_is_mount_or_child p (CHR ''/'' # c) \<longleftrightarrow> first_component p = c" if "CHR ''/'' \<notin> set c" for c
    using p mount_prefix [OF that] by simp
  then show ?thesis using assms by (simp add: qos_vfs_fs_kind_def mount_kind_def)
qed

end
