(* ===== verification/Sched.thy ===== *)
theory Sched
  imports Prelude
begin

text \<open>
  The scheduler of \<^verbatim>\<open>src/c-os/kernel/sched/sched.c\<close>: four priority levels, each an array of 64
  process ids with a count and a round-robin cursor, a total count and the current process.

  The specification views the state as four lists (\<open>sched_q\<close>) and states the operations on them
  (\<open>lv_step\<close>); the properties are that the arrays implement the lists, that the highest
  non-empty level is served round robin, and how the code treats the cursor on removal.
\<close>

section \<open>Model\<close>

abbreviation (input) QOS_SCHED_MAX_TASKS :: nat where "QOS_SCHED_MAX_TASKS \<equiv> 64"
abbreviation (input) QOS_SCHED_LEVELS :: nat where "QOS_SCHED_LEVELS \<equiv> 4"
abbreviation (input) QOS_SCHED_PRIO_NORMAL :: u32 where "QOS_SCHED_PRIO_NORMAL \<equiv> 2"

record sched =
  g_queues :: "nat \<Rightarrow> u32 arr"
  g_counts :: "u32 arr"
  g_rr_cursor :: "u32 arr"
  g_total_count :: u32
  g_current_pid :: u32

definition priority_valid :: "nat \<Rightarrow> bool" where
  "priority_valid priority \<longleftrightarrow> priority \<le> 3"

definition find_pid_in_priority :: "nat \<Rightarrow> u32 \<Rightarrow> sched \<Rightarrow> nat option" where
  "find_pid_in_priority priority pid s =
     (if \<not> priority_valid priority then None
      else scan (\<lambda>i. g_queues s priority i = pid) 0 (unat (g_counts s priority)))"

text \<open>The result is the pair the out-parameters receive.\<close>

definition sched_find_pid :: "u32 \<Rightarrow> sched \<Rightarrow> (nat \<times> nat) option" where
  "sched_find_pid pid s =
     (case scan (\<lambda>priority. find_pid_in_priority priority pid s \<noteq> None) 0 QOS_SCHED_LEVELS of
        None \<Rightarrow> None
      | Some priority \<Rightarrow> Some (priority, the (find_pid_in_priority priority pid s)))"

definition queue_append :: "nat \<Rightarrow> u32 \<Rightarrow> sched \<Rightarrow> int \<times> sched" where
  "queue_append priority pid s =
     (if \<not> priority_valid priority then (-1, s)
      else let count = g_counts s priority in
        if unat count \<ge> QOS_SCHED_MAX_TASKS then (-1, s)
        else (0, s\<lparr>g_queues := (g_queues s)(priority := (g_queues s priority)(unat count := pid)),
                   g_counts := (g_counts s)(priority := count + 1),
                   g_total_count := g_total_count s + 1\<rparr>))"

text \<open>\<^verbatim>\<open>while (i > index) { q[i] = q[i - 1]; i--; }\<close>\<close>

fun shift_up :: "nat \<Rightarrow> nat \<Rightarrow> u32 arr \<Rightarrow> u32 arr" where
  "shift_up index 0 q = q"
| "shift_up index (Suc i) q = (if Suc i > index then shift_up index i (q(Suc i := q i)) else q)"

definition queue_insert_at :: "nat \<Rightarrow> nat \<Rightarrow> u32 \<Rightarrow> sched \<Rightarrow> int \<times> sched" where
  "queue_insert_at priority index0 pid s =
     (if \<not> priority_valid priority then (-1, s)
      else let count = g_counts s priority in
        if unat count \<ge> QOS_SCHED_MAX_TASKS then (-1, s)
        else let index = (if index0 > unat count then unat count else index0);
                 q = (shift_up index (unat count) (g_queues s priority))(index := pid);
                 cursor = g_rr_cursor s priority in
          (0, s\<lparr>g_queues := (g_queues s)(priority := q),
                g_counts := (g_counts s)(priority := count + 1),
                g_rr_cursor := (g_rr_cursor s)(priority :=
                  if index < unat cursor then cursor + 1 else cursor),
                g_total_count := g_total_count s + 1\<rparr>))"

text \<open>\<^verbatim>\<open>while (i + 1 < count) { q[i] = q[i + 1]; i++; }\<close>\<close>

function shift_down :: "nat \<Rightarrow> nat \<Rightarrow> u32 arr \<Rightarrow> u32 arr" where
  "shift_down i count q = (if i + 1 < count then shift_down (i + 1) count (q(i := q (i + 1))) else q)"
  by pat_completeness auto
termination
  by (relation "measure (\<lambda>(i, count, q). count - i)") auto

declare shift_down.simps [simp del]

definition queue_remove_at :: "nat \<Rightarrow> nat \<Rightarrow> sched \<Rightarrow> sched" where
  "queue_remove_at priority index s =
     (if \<not> priority_valid priority \<or> index \<ge> unat (g_counts s priority) then s
      else let count = g_counts s priority - 1;
               q = (shift_down index (unat (g_counts s priority)) (g_queues s priority))(unat count := 0);
               s1 = s\<lparr>g_queues := (g_queues s)(priority := q),
                      g_counts := (g_counts s)(priority := count),
                      g_total_count := g_total_count s - 1\<rparr> in
        if count = 0 then s1\<lparr>g_rr_cursor := (g_rr_cursor s)(priority := 0)\<rparr>
        else let c1 = (if g_rr_cursor s priority \<ge> count then 0 else g_rr_cursor s priority);
                 c2 = (if index < unat c1 \<and> c1 > 0 then c1 - 1 else c1) in
          s1\<lparr>g_rr_cursor := (g_rr_cursor s)(priority := c2)\<rparr>)"

definition qos_sched_reset :: sched where
  "qos_sched_reset = \<lparr>g_queues = (\<lambda>_ _. 0), g_counts = (\<lambda>_. 0), g_rr_cursor = (\<lambda>_. 0),
     g_total_count = 0, g_current_pid = 0\<rparr>"

definition qos_sched_add_task_prio :: "u32 \<Rightarrow> u32 \<Rightarrow> sched \<Rightarrow> int \<times> sched" where
  "qos_sched_add_task_prio pid priority s =
     (if pid = 0 \<or> \<not> priority_valid (unat priority) then (-1, s)
      else if sched_find_pid pid s \<noteq> None then (-1, s)
      else if unat (g_total_count s) \<ge> QOS_SCHED_MAX_TASKS then (-1, s)
      else queue_append (unat priority) pid s)"

definition qos_sched_add_task :: "u32 \<Rightarrow> sched \<Rightarrow> int \<times> sched" where
  "qos_sched_add_task pid s = qos_sched_add_task_prio pid QOS_SCHED_PRIO_NORMAL s"

definition qos_sched_remove_task :: "u32 \<Rightarrow> sched \<Rightarrow> int \<times> sched" where
  "qos_sched_remove_task pid s =
     (case sched_find_pid pid s of
        None \<Rightarrow> (-1, s)
      | Some (priority, index) \<Rightarrow> (0, queue_remove_at priority index s))"

definition qos_sched_set_priority :: "u32 \<Rightarrow> u32 \<Rightarrow> sched \<Rightarrow> int \<times> sched" where
  "qos_sched_set_priority pid priority s =
     (if \<not> priority_valid (unat priority) then (-1, s)
      else case sched_find_pid pid s of
        None \<Rightarrow> (-1, s)
      | Some (old_priority, old_index) \<Rightarrow>
          if old_priority = unat priority then (0, s)
          else let s1 = queue_remove_at old_priority old_index s;
                   (r, s2) = queue_append (unat priority) pid s1 in
            if r \<noteq> 0 then (-1, snd (queue_insert_at old_priority old_index pid s2))
            else (0, s2))"

text \<open>The flag is \<open>out_priority != 0\<close>; the option is the value stored there.\<close>

definition qos_sched_get_priority :: "u32 \<Rightarrow> bool \<Rightarrow> sched \<Rightarrow> int \<times> u32 option" where
  "qos_sched_get_priority pid out s =
     (if \<not> out then (-1, None)
      else case sched_find_pid pid s of
        None \<Rightarrow> (-1, None)
      | Some (priority, _) \<Rightarrow> (0, Some (word_of_nat priority)))"

definition qos_sched_count :: "sched \<Rightarrow> u32" where
  "qos_sched_count s = g_total_count s"

text \<open>The loop over the levels, from the highest; the argument is \<open>level\<close>.\<close>

fun sched_next_level :: "nat \<Rightarrow> sched \<Rightarrow> u32 \<times> sched" where
  "sched_next_level 0 s = (0, s\<lparr>g_current_pid := 0\<rparr>)"
| "sched_next_level (Suc priority) s =
     (let count = g_counts s priority in
      if count \<noteq> 0 then
        let idx = g_rr_cursor s priority mod count;
            pid = g_queues s priority (unat idx) in
        (pid, s\<lparr>g_rr_cursor := (g_rr_cursor s)(priority := (idx + 1) mod count),
                g_current_pid := pid\<rparr>)
      else sched_next_level priority s)"

definition qos_sched_next :: "sched \<Rightarrow> u32 \<times> sched" where
  "qos_sched_next s =
     (if g_total_count s = 0 then (0, s\<lparr>g_current_pid := 0\<rparr>)
      else sched_next_level QOS_SCHED_LEVELS s)"

definition qos_sched_current :: "sched \<Rightarrow> u32" where
  "qos_sched_current s = g_current_pid s"

section \<open>Specification\<close>

text \<open>The tasks of a level, in array order.\<close>

definition sched_q :: "sched \<Rightarrow> nat \<Rightarrow> u32 list" where
  "sched_q s p = (if p < QOS_SCHED_LEVELS then map (g_queues s p) [0..<unat (g_counts s p)] else [])"

definition lv_total :: "(nat \<Rightarrow> u32 list) \<Rightarrow> nat" where
  "lv_total L = (\<Sum>p<QOS_SCHED_LEVELS. length (L p))"

definition lv_mem :: "u32 \<Rightarrow> (nat \<Rightarrow> u32 list) \<Rightarrow> bool" where
  "lv_mem pid L \<longleftrightarrow> (\<exists>p<QOS_SCHED_LEVELS. pid \<in> set (L p))"

definition lv_drop :: "u32 \<Rightarrow> (nat \<Rightarrow> u32 list) \<Rightarrow> nat \<Rightarrow> u32 list" where
  "lv_drop pid L p = filter (\<lambda>x. x \<noteq> pid) (L p)"

datatype sched_op = AddTask u32 u32 | RemoveTask u32 | SetPriority u32 u32

fun lv_step :: "sched_op \<Rightarrow> (nat \<Rightarrow> u32 list) \<Rightarrow> int \<times> (nat \<Rightarrow> u32 list)" where
  "lv_step (AddTask pid pr) L =
     (if pid \<noteq> 0 \<and> unat pr < QOS_SCHED_LEVELS \<and> \<not> lv_mem pid L \<and> lv_total L < QOS_SCHED_MAX_TASKS
      then (0, L(unat pr := L (unat pr) @ [pid])) else (-1, L))"
| "lv_step (RemoveTask pid) L = (if lv_mem pid L then (0, lv_drop pid L) else (-1, L))"
| "lv_step (SetPriority pid pr) L =
     (if unat pr < QOS_SCHED_LEVELS \<and> lv_mem pid L
      then (0, if pid \<in> set (L (unat pr)) then L
               else (lv_drop pid L)(unat pr := L (unat pr) @ [pid]))
      else (-1, L))"

fun sched_step :: "sched_op \<Rightarrow> sched \<Rightarrow> int \<times> sched" where
  "sched_step (AddTask pid pr) s = qos_sched_add_task_prio pid pr s"
| "sched_step (RemoveTask pid) s = qos_sched_remove_task pid s"
| "sched_step (SetPriority pid pr) s = qos_sched_set_priority pid pr s"

definition lv_ok :: "(nat \<Rightarrow> u32 list) \<Rightarrow> bool" where
  "lv_ok L \<longleftrightarrow> (\<forall>p. distinct (L p) \<and> 0 \<notin> set (L p)) \<and>
     (\<forall>p q x. x \<in> set (L p) \<longrightarrow> x \<in> set (L q) \<longrightarrow> p = q) \<and>
     (\<forall>p\<ge>QOS_SCHED_LEVELS. L p = []) \<and> lv_total L \<le> QOS_SCHED_MAX_TASKS"

definition cursors_ok :: "sched \<Rightarrow> bool" where
  "cursors_ok s \<longleftrightarrow> (\<forall>p<QOS_SCHED_LEVELS. g_rr_cursor s p = 0 \<or> g_rr_cursor s p < g_counts s p)"

definition sched_inv :: "sched \<Rightarrow> bool" where
  "sched_inv s \<longleftrightarrow> lv_ok (sched_q s) \<and> cursors_ok s \<and> unat (g_total_count s) = lv_total (sched_q s)"
text \<open>The highest level that holds a task.\<close>

definition sched_top :: "sched \<Rightarrow> nat \<Rightarrow> bool" where
  "sched_top s p \<longleftrightarrow> p < QOS_SCHED_LEVELS \<and> sched_q s p \<noteq> [] \<and> (\<forall>q. p < q \<longrightarrow> sched_q s q = [])"

text \<open>The results of \<open>n\<close> successive calls of \<open>qos_sched_next\<close>.\<close>

fun sched_run_next :: "nat \<Rightarrow> sched \<Rightarrow> u32 list \<times> sched" where
  "sched_run_next 0 s = ([], s)"
| "sched_run_next (Suc n) s =
     (let (pid, s1) = qos_sched_next s; (pids, s2) = sched_run_next n s1 in (pid # pids, s2))"

section \<open>The arrays as lists\<close>

lemma shift_down_nth:
  "shift_down i c q j = (if i \<le> j \<and> j + 1 < c then q (j + 1) else q j)"
proof (induction i c q rule: shift_down.induct)
  case (1 i c q)
  show ?case
    using 1 by (subst shift_down.simps) (auto simp: fun_upd_def)
qed

lemma shift_up_nth:
  "shift_up idx i q j = (if idx < j \<and> j \<le> i then q (j - 1) else q j)"
proof (induction idx i q rule: shift_up.induct)
  case (2 idx i q)
  then show ?case by (cases "j = Suc i") (auto simp: fun_upd_def)
qed simp

lemma remove_nth_filter:
  assumes "distinct xs" "i < length xs"
  shows "take i xs @ drop (Suc i) xs = filter (\<lambda>x. x \<noteq> xs ! i) xs"
proof -
  have xs: "xs = take i xs @ xs ! i # drop (Suc i) xs"
    using assms(2) by (rule id_take_nth_drop)
  then have "distinct (take i xs @ xs ! i # drop (Suc i) xs)"
    using assms(1) by simp
  then have "filter (\<lambda>x. x \<noteq> xs ! i) (take i xs) = take i xs"
    "filter (\<lambda>x. x \<noteq> xs ! i) (drop (Suc i) xs) = drop (Suc i) xs"
    by (auto simp: filter_id_conv)
  then show ?thesis
    by (subst (4) xs) simp
qed

lemma length_sched_q: "p < 4 \<Longrightarrow> length (sched_q s p) = unat (g_counts s p)"
  by (simp add: sched_q_def)

lemma nth_sched_q: "p < 4 \<Longrightarrow> i < unat (g_counts s p) \<Longrightarrow> sched_q s p ! i = g_queues s p i"
  by (simp add: sched_q_def)

lemma set_sched_q: "p < 4 \<Longrightarrow> set (sched_q s p) = g_queues s p ` {..<unat (g_counts s p)}"
  by (auto simp: sched_q_def)

lemma find_pid_in_priority_None:
  "p < 4 \<Longrightarrow> find_pid_in_priority p pid s = None \<longleftrightarrow> pid \<notin> set (sched_q s p)"
  by (auto simp: find_pid_in_priority_def priority_valid_def scan_None_iff set_sched_q image_iff)

lemma find_pid_in_priority_Some:
  assumes "find_pid_in_priority p pid s = Some i"
  shows "p < 4" "i < unat (g_counts s p)" "g_queues s p i = pid"
  using assms by (auto simp: find_pid_in_priority_def priority_valid_def scan_Some_iff split: if_splits)

lemma sched_find_pid_None: "sched_find_pid pid s = None \<longleftrightarrow> \<not> lv_mem pid (sched_q s)"
proof -
  have "scan (\<lambda>p. find_pid_in_priority p pid s \<noteq> None) 0 4 = None \<longleftrightarrow>
      (\<forall>p<4. find_pid_in_priority p pid s = None)"
    by (auto simp: scan_None_iff)
  also have "\<dots> \<longleftrightarrow> \<not> lv_mem pid (sched_q s)"
    by (auto simp: lv_mem_def find_pid_in_priority_None)
  finally show ?thesis
    by (auto simp: sched_find_pid_def split: option.splits)
qed

lemma sched_find_pid_Some:
  assumes "sched_find_pid pid s = Some (p, i)"
  shows "p < 4" "i < length (sched_q s p)" "sched_q s p ! i = pid" "pid \<in> set (sched_q s p)"
proof -
  have f: "find_pid_in_priority p pid s = Some i"
    using assms by (auto simp: sched_find_pid_def scan_Some_iff split: option.splits)
  note f1 = find_pid_in_priority_Some[OF f]
  show "p < 4" "i < length (sched_q s p)" "sched_q s p ! i = pid"
    using f1 by (simp_all add: length_sched_q nth_sched_q)
  then show "pid \<in> set (sched_q s p)"
    by (metis nth_mem)
qed

lemma sum_upd_levels:
  fixes p :: nat
  shows "p < 4 \<Longrightarrow> lv_total (L(p := xs)) + length (L p) = lv_total L + length xs"
  by (auto simp: lv_total_def numeral_eq_Suc less_Suc_eq)

lemma lv_ok_bound: "lv_ok L \<Longrightarrow> length (L p) \<le> lv_total L"
proof -
  assume ok: "lv_ok L"
  show ?thesis
  proof (cases "p < 4")
    case True
    then show ?thesis using sum_upd_levels [of p L "[]"] by simp
  next
    case False
    with ok show ?thesis by (simp add: lv_ok_def)
  qed
qed

lemma sched_inv_count_bound:
  assumes "sched_inv s" "p < 4"
  shows "unat (g_counts s p) \<le> lv_total (sched_q s)" "lv_total (sched_q s) \<le> 64"
  using assms lv_ok_bound [of "sched_q s" p] by (auto simp: sched_inv_def length_sched_q lv_ok_def)

lemma lv_drop_upd:
  assumes "lv_ok L" "pid \<in> set (L p)"
  shows "lv_drop pid L = L(p := filter (\<lambda>x. x \<noteq> pid) (L p))"
proof
  fix q
  have "pid \<notin> set (L q)" if "q \<noteq> p" using assms that unfolding lv_ok_def by blast
  then show "lv_drop pid L q = (L(p := filter (\<lambda>x. x \<noteq> pid) (L p))) q"
    by (auto simp: lv_drop_def intro!: filter_True)
qed

lemma lv_mem_pos: "lv_ok L \<Longrightarrow> pid \<in> set (L p) \<Longrightarrow> p < 4 \<and> lv_mem pid L"
  unfolding lv_ok_def lv_mem_def by (metis empty_iff empty_set not_le)

lemma lv_drop_total:
  assumes "lv_ok L" "pid \<in> set (L p)"
  shows "lv_total L = Suc (lv_total (lv_drop pid L))"
proof -
  have p: "p < 4" using lv_mem_pos [OF assms] by simp
  have "distinct (L p)" using assms(1) by (simp add: lv_ok_def)
  then have "length (filter (\<lambda>x. x \<noteq> pid) (L p)) = length (L p) - 1"
    using assms(2) distinct_remove1_removeAll [of "L p" pid] length_remove1 [of pid "L p"]
    by (simp add: removeAll_filter_not_eq eq_commute [of pid])
  moreover have "0 < length (L p)" using assms(2) by (cases "L p") auto
  ultimately show ?thesis
    using sum_upd_levels [OF p, of L "filter (\<lambda>x. x \<noteq> pid) (L p)"]
    unfolding lv_drop_upd [OF assms] by linarith
qed

lemma lv_ok_drop: "lv_ok L \<Longrightarrow> lv_ok (lv_drop pid L)"
proof -
  assume ok: "lv_ok L"
  have "lv_total (lv_drop pid L) \<le> lv_total L"
    unfolding lv_total_def lv_drop_def by (intro sum_mono) simp
  with ok show ?thesis by (auto simp: lv_ok_def lv_drop_def)
qed

lemma lv_ok_append:
  assumes "lv_ok L" "p < 4" "\<not> lv_mem pid L" "pid \<noteq> 0" "lv_total L < 64"
  shows "lv_ok (L(p := L p @ [pid]))" "lv_total (L(p := L p @ [pid])) = Suc (lv_total L)"
proof -
  have fresh: "pid \<notin> set (L q)" for q
    using assms(1,3) lv_mem_pos by blast
  show t: "lv_total (L(p := L p @ [pid])) = Suc (lv_total L)"
    using sum_upd_levels [OF assms(2), of L "L p @ [pid]"] by simp
  show "lv_ok (L(p := L p @ [pid]))"
    using assms fresh t unfolding lv_ok_def by (auto split: if_splits)
qed

lemma sched_q_append:
  assumes "p < 4" "unat (g_counts s p) < 64"
  shows "queue_append p pid s = (0, snd (queue_append p pid s))"
    "sched_q (snd (queue_append p pid s)) = (sched_q s)(p := sched_q s p @ [pid])"
    "g_total_count (snd (queue_append p pid s)) = g_total_count s + 1"
    "cursors_ok s \<Longrightarrow> cursors_ok (snd (queue_append p pid s))"
proof -
  have c: "unat (g_counts s p + 1) = Suc (unat (g_counts s p))"
    using assms(2) by (intro unat_Suc_count [where n = 64]) auto
  show "queue_append p pid s = (0, snd (queue_append p pid s))"
    using assms by (simp add: queue_append_def priority_valid_def Let_def)
  show "sched_q (snd (queue_append p pid s)) = (sched_q s)(p := sched_q s p @ [pid])"
    using assms c by (auto simp: queue_append_def priority_valid_def Let_def sched_q_def fun_eq_iff)
  show "g_total_count (snd (queue_append p pid s)) = g_total_count s + 1"
    using assms by (simp add: queue_append_def priority_valid_def Let_def)
  show "cursors_ok (snd (queue_append p pid s))" if "cursors_ok s"
    using that assms c
    by (auto simp: queue_append_def priority_valid_def Let_def cursors_ok_def word_less_nat_alt)
qed

lemma sched_q_remove:
  assumes p: "p < 4" and i: "i < length (sched_q s p)"
  shows "sched_q (queue_remove_at p i s) = (sched_q s)(p := take i (sched_q s p) @ drop (Suc i) (sched_q s p))"
    "g_total_count (queue_remove_at p i s) = g_total_count s - 1"
    "cursors_ok s \<Longrightarrow> cursors_ok (queue_remove_at p i s)"
proof -
  have i': "i < unat (g_counts s p)" using i p by (simp add: length_sched_q)
  then have c: "unat (g_counts s p - 1) = unat (g_counts s p) - 1"
    by (intro unat_pred_count) simp
  have r: "g_queues (queue_remove_at p i s) = (g_queues s)(p :=
      (shift_down i (unat (g_counts s p)) (g_queues s p))(unat (g_counts s p - 1) := 0))"
    "g_counts (queue_remove_at p i s) = (g_counts s)(p := g_counts s p - 1)"
    "g_total_count (queue_remove_at p i s) = g_total_count s - 1"
    using p i' by (simp_all add: queue_remove_at_def priority_valid_def Let_def)
  show "g_total_count (queue_remove_at p i s) = g_total_count s - 1" by (rule r)
  have "map (g_queues (queue_remove_at p i s) p) [0..<unat (g_counts s p) - 1] =
      take i (sched_q s p) @ drop (Suc i) (sched_q s p)"
    using p i' c
    by (intro nth_equalityI) (auto simp: sched_q_def r shift_down_nth nth_append min_def)
  then show "sched_q (queue_remove_at p i s) =
      (sched_q s)(p := take i (sched_q s p) @ drop (Suc i) (sched_q s p))"
    using p c by (auto simp: fun_eq_iff sched_q_def r)
  show "cursors_ok (queue_remove_at p i s)" if ok: "cursors_ok s"
  proof -
    have "g_rr_cursor (queue_remove_at p i s) q = g_rr_cursor s q" if "q \<noteq> p" for q
      using that p i' by (simp add: queue_remove_at_def priority_valid_def Let_def)
    moreover have "g_rr_cursor (queue_remove_at p i s) p = 0 \<or>
        unat (g_rr_cursor (queue_remove_at p i s) p) < unat (g_counts s p) - 1"
      using p i' c unat_minus_one [of "g_rr_cursor s p"]
      by (cases "g_rr_cursor s p = 0")
        (auto simp: queue_remove_at_def priority_valid_def Let_def word_less_nat_alt word_le_nat_alt)
    ultimately show ?thesis
      using ok c by (auto simp: cursors_ok_def r word_less_nat_alt)
  qed
qed

lemma sched_cursor_remove:
  assumes p: "p < 4" and i: "i < length (sched_q s p)"
    and c: "unat (g_rr_cursor s p) < length (sched_q s p)" "2 \<le> length (sched_q s p)"
  shows "unat (g_rr_cursor (queue_remove_at p i s) p) =
    (if Suc (unat (g_rr_cursor s p)) = length (sched_q s p) then 0
     else if i < unat (g_rr_cursor s p) then unat (g_rr_cursor s p) - 1 else unat (g_rr_cursor s p))"
proof -
  have n: "length (sched_q s p) = unat (g_counts s p)" using p by (simp add: length_sched_q)
  have m: "unat (g_counts s p - 1) = unat (g_counts s p) - 1"
    using c by (intro unat_pred_count) (simp add: n)
  then have "g_counts s p - 1 \<noteq> 0" using c by (auto simp: n unat_eq_zero [symmetric])
  moreover have "unat (g_rr_cursor s p - 1) = unat (g_rr_cursor s p) - 1" if "g_rr_cursor s p \<noteq> 0"
    using that by (simp add: unat_minus_one)
  ultimately show ?thesis
    using p i c m unfolding n
    by (cases "g_rr_cursor s p = 0")
      (auto simp: queue_remove_at_def priority_valid_def Let_def word_less_nat_alt word_le_nat_alt)
qed

lemma sched_remove_found:
  assumes inv: "sched_inv s" and f: "sched_find_pid pid s = Some (p, i)"
  shows "sched_q (queue_remove_at p i s) = lv_drop pid (sched_q s)"
    "sched_inv (queue_remove_at p i s)"
proof -
  note fp = sched_find_pid_Some [OF f]
  have ok: "lv_ok (sched_q s)" using inv by (simp add: sched_inv_def)
  have "take i (sched_q s p) @ drop (Suc i) (sched_q s p) = filter (\<lambda>x. x \<noteq> pid) (sched_q s p)"
    using remove_nth_filter [of "sched_q s p" i] ok fp by (simp add: lv_ok_def)
  then show q: "sched_q (queue_remove_at p i s) = lv_drop pid (sched_q s)"
    using sched_q_remove(1) [OF fp(1,2)] lv_drop_upd [OF ok fp(4)] by simp
  have "unat (g_total_count s - 1) = lv_total (lv_drop pid (sched_q s))"
    using inv lv_drop_total [OF ok fp(4)] by (intro unat_pred_count) (simp add: sched_inv_def)
  then show "sched_inv (queue_remove_at p i s)"
    using inv ok sched_q_remove(2,3) [OF fp(1,2)] by (simp add: sched_inv_def q lv_ok_drop)
qed

lemma sched_append_fresh:
  assumes inv: "sched_inv s" and p: "p < 4" and fresh: "\<not> lv_mem pid (sched_q s)" "pid \<noteq> 0"
    and room: "lv_total (sched_q s) < 64"
  shows "queue_append p pid s = (0, snd (queue_append p pid s))"
    "sched_q (snd (queue_append p pid s)) = (sched_q s)(p := sched_q s p @ [pid])"
    "sched_inv (snd (queue_append p pid s))"
proof -
  have c: "unat (g_counts s p) < 64" using sched_inv_count_bound [OF inv p] room by simp
  have ok: "lv_ok (sched_q s)" using inv by (simp add: sched_inv_def)
  show "queue_append p pid s = (0, snd (queue_append p pid s))"
    "sched_q (snd (queue_append p pid s)) = (sched_q s)(p := sched_q s p @ [pid])"
    by (rule sched_q_append [OF p c])+
  moreover have "unat (g_total_count s + 1) = Suc (lv_total (sched_q s))"
    using inv room by (intro unat_Suc_count [where n = 64]) (auto simp: sched_inv_def)
  ultimately show "sched_inv (snd (queue_append p pid s))"
    using inv sched_q_append [OF p c] lv_ok_append [OF ok p fresh room] by (simp add: sched_inv_def)
qed

section \<open>Operations refine the lists\<close>

lemma sched_add_refines:
  assumes inv: "sched_inv s"
  shows "\<exists>s'. qos_sched_add_task_prio pid pr s = (fst (lv_step (AddTask pid pr) (sched_q s)), s') \<and>
    sched_inv s' \<and> sched_q s' = snd (lv_step (AddTask pid pr) (sched_q s))"
proof (cases "pid \<noteq> 0 \<and> unat pr < 4 \<and> \<not> lv_mem pid (sched_q s) \<and> lv_total (sched_q s) < 64")
  case True
  have "qos_sched_add_task_prio pid pr s = queue_append (unat pr) pid s"
    using True inv sched_find_pid_None [of pid s]
    by (simp add: qos_sched_add_task_prio_def priority_valid_def sched_inv_def)
  with True sched_append_fresh [OF inv, of "unat pr" pid] show ?thesis by auto
next
  case False
  then have "qos_sched_add_task_prio pid pr s = (-1, s)"
    using inv sched_find_pid_None [of pid s]
    by (auto simp: qos_sched_add_task_prio_def priority_valid_def sched_inv_def)
  with False inv show ?thesis by auto
qed

lemma sched_remove_refines:
  assumes inv: "sched_inv s"
  shows "\<exists>s'. qos_sched_remove_task pid s = (fst (lv_step (RemoveTask pid) (sched_q s)), s') \<and>
    sched_inv s' \<and> sched_q s' = snd (lv_step (RemoveTask pid) (sched_q s))"
proof (cases "sched_find_pid pid s")
  case None
  then show ?thesis
    using inv sched_find_pid_None [of pid s] by (simp add: qos_sched_remove_task_def)
next
  case (Some pi)
  obtain p i where pi: "pi = (p, i)" by fastforce
  then have "lv_mem pid (sched_q s)" using Some sched_find_pid_None [of pid s] by simp
  then show ?thesis
    using sched_remove_found [OF inv, of pid p i] Some pi by (simp add: qos_sched_remove_task_def)
qed

lemma sched_set_refines:
  assumes inv: "sched_inv s"
  shows "\<exists>s'. qos_sched_set_priority pid pr s = (fst (lv_step (SetPriority pid pr) (sched_q s)), s') \<and>
    sched_inv s' \<and> sched_q s' = snd (lv_step (SetPriority pid pr) (sched_q s))"
proof (cases "unat pr < 4 \<and> lv_mem pid (sched_q s)")
  case False
  then have "qos_sched_set_priority pid pr s = (-1, s)"
    using sched_find_pid_None [of pid s] by (auto simp: qos_sched_set_priority_def priority_valid_def)
  with False inv show ?thesis by auto
next
  case True
  obtain p i where f: "sched_find_pid pid s = Some (p, i)"
    using True sched_find_pid_None [of pid s] by (cases "sched_find_pid pid s") auto
  note fp = sched_find_pid_Some [OF f]
  have ok: "lv_ok (sched_q s)" using inv by (simp add: sched_inv_def)
  have at: "pid \<in> set (sched_q s q) \<longleftrightarrow> q = p" for q
    using fp(4) ok unfolding lv_ok_def by blast
  show ?thesis
  proof (cases "p = unat pr")
    case True
    then show ?thesis
      using inv f at [of "unat pr"] \<open>unat pr < 4 \<and> _\<close>
      by (simp add: qos_sched_set_priority_def priority_valid_def)
  next
    case False
    let ?s1 = "queue_remove_at p i s"
    note r = sched_remove_found [OF inv f]
    have L: "lv_drop pid (sched_q s) (unat pr) = sched_q s (unat pr)"
      using at [of "unat pr"] False by (auto simp: lv_drop_def intro!: filter_True)
    have "\<not> lv_mem pid (sched_q ?s1)" "pid \<noteq> 0" "lv_total (sched_q ?s1) < 64"
      using lv_drop_total [OF ok fp(4)] ok fp(4) unfolding r(1)
      by (auto simp: lv_mem_def lv_drop_def lv_ok_def)
    note a = sched_append_fresh [OF r(2) _ this, of "unat pr"]
    have "qos_sched_set_priority pid pr s = (0, snd (queue_append (unat pr) pid ?s1))"
      using True f False a(1)
      by (cases "queue_append (unat pr) pid ?s1") (simp add: qos_sched_set_priority_def priority_valid_def)
    moreover have "lv_step (SetPriority pid pr) (sched_q s) =
        (0, (lv_drop pid (sched_q s))(unat pr := sched_q s (unat pr) @ [pid]))"
      using True False at [of "unat pr"] by simp
    ultimately show ?thesis using a(2,3) True by (simp only: r(1) L fst_conv snd_conv) blast
  qed
qed

lemma sched_step_refines:
  assumes "sched_inv s"
  shows "\<exists>s'. sched_step x s = (fst (lv_step x (sched_q s)), s') \<and>
    sched_inv s' \<and> sched_q s' = snd (lv_step x (sched_q s))"
  by (cases x) (simp_all only: sched_step.simps sched_add_refines [OF assms]
      sched_remove_refines [OF assms] sched_set_refines [OF assms])

interpretation sched_sim: simulation sched_step lv_step sched_q sched_inv
  by unfold_locales (rule sched_step_refines)

lemma sched_inv_reset: "sched_inv qos_sched_reset" "sched_q qos_sched_reset = (\<lambda>_. [])"
  by (auto simp: sched_inv_def lv_ok_def cursors_ok_def lv_total_def sched_q_def qos_sched_reset_def
      fun_eq_iff)

section \<open>Selection of the next task\<close>


lemma sched_q_empty: "p < 4 \<Longrightarrow> sched_q s p = [] \<longleftrightarrow> g_counts s p = 0"
  by (simp add: sched_q_def unat_eq_zero)

lemma sched_next_level_top:
  assumes "p < n" "n \<le> 4" "g_counts s p \<noteq> 0" "\<And>q. p < q \<Longrightarrow> q < n \<Longrightarrow> g_counts s q = 0"
  shows "sched_next_level n s = sched_next_level (Suc p) s"
  using assms
proof (induction n)
  case (Suc n)
  show ?case
  proof (cases "n = p")
    case False
    with Suc.prems have "p < n" "g_counts s n = 0" by auto
    with Suc show ?thesis by (simp add: Let_def)
  qed simp
qed simp

lemma sched_top_exists: "lv_total (sched_q s) \<noteq> 0 \<Longrightarrow> \<exists>p. sched_top s p"
proof -
  assume "lv_total (sched_q s) \<noteq> 0"
  then obtain p where p: "p < 4" "sched_q s p \<noteq> []"
    by (auto simp: lv_total_def)
  let ?P = "\<lambda>p. p < 4 \<and> sched_q s p \<noteq> []"
  have "?P (Greatest ?P)" using p by (intro GreatestI_nat [of ?P p 4]) auto
  moreover have "sched_q s q = []" if "Greatest ?P < q" for q
  proof (rule ccontr)
    assume ne: "sched_q s q \<noteq> []"
    then have "?P q" by (auto simp: sched_q_def split: if_splits)
    then have "q \<le> Greatest ?P" by (intro Greatest_le_nat [of ?P q 4]) auto
    with that show False by simp
  qed
  ultimately show ?thesis unfolding sched_top_def by blast
qed

lemma sched_next_top:
  assumes inv: "sched_inv s" and top: "sched_top s p"
  defines "c \<equiv> unat (g_rr_cursor s p)" and "Q \<equiv> sched_q s p"
  shows "fst (qos_sched_next s) = Q ! c" "c < length Q"
    "unat (g_rr_cursor (snd (qos_sched_next s)) p) = Suc c mod length Q"
    "sched_q (snd (qos_sched_next s)) = sched_q s" "sched_inv (snd (qos_sched_next s))"
    "g_current_pid (snd (qos_sched_next s)) = Q ! c"
proof -
  have p: "p < 4" "g_counts s p \<noteq> 0" using top by (auto simp: sched_top_def sched_q_empty)
  have len: "length Q = unat (g_counts s p)" using p(1) by (simp add: Q_def length_sched_q)
  have cnt: "0 < length Q" "length Q \<le> 64"
    using sched_inv_count_bound [OF inv p(1)] p(2) by (simp_all add: len unat_gt_0)
  show c: "c < length Q"
    using inv p(1) cnt(1) by (auto simp: sched_inv_def cursors_ok_def c_def len word_less_nat_alt)
  have cm: "g_rr_cursor s p mod g_counts s p = g_rr_cursor s p"
    using c by (intro mod_word_less) (simp add: c_def len word_less_nat_alt)
  have "length Q \<le> lv_total (sched_q s)"
    using sched_inv_count_bound [OF inv p(1)] by (simp add: len)
  then have t: "g_total_count s \<noteq> 0" using inv cnt by (auto simp: sched_inv_def)
  have top': "g_counts s q = 0" if "p < q" "q < 4" for q
    using top that by (auto simp: sched_top_def sched_q_empty [symmetric])
  have nx: "qos_sched_next s = (Q ! c, s\<lparr>g_rr_cursor := (g_rr_cursor s)(p := (g_rr_cursor s p + 1) mod g_counts s p),
      g_current_pid := Q ! c\<rparr>)"
    using sched_next_level_top [of p 4 s] p top' t cm c len
    by (simp add: qos_sched_next_def Let_def Q_def c_def nth_sched_q)
  have c1: "unat ((g_rr_cursor s p + 1) mod g_counts s p) = Suc c mod length Q"
    using unat_Suc_count [of "g_rr_cursor s p" c 64] c cnt
    by (simp add: unat_mod_distrib len c_def)
  show "fst (qos_sched_next s) = Q ! c" "g_current_pid (snd (qos_sched_next s)) = Q ! c"
    by (simp_all add: nx)
  show "unat (g_rr_cursor (snd (qos_sched_next s)) p) = Suc c mod length Q"
    using c1 by (simp add: nx)
  show q: "sched_q (snd (qos_sched_next s)) = sched_q s"
    by (simp add: nx sched_q_def fun_eq_iff)
  have "(g_rr_cursor s p + 1) mod g_counts s p < g_counts s p"
    using c1 cnt by (simp add: word_less_nat_alt len [symmetric])
  then show "sched_inv (snd (qos_sched_next s))"
    using inv q by (simp add: sched_inv_def cursors_ok_def) (simp add: nx)
qed

lemma sched_top_cong: "sched_q s' = sched_q s \<Longrightarrow> sched_top s' p = sched_top s p"
  by (simp add: sched_top_def)

lemma sched_run_next_top:
  assumes "sched_inv s" "sched_top s p"
  shows "fst (sched_run_next n s) =
      map (\<lambda>k. sched_q s p ! ((unat (g_rr_cursor s p) + k) mod length (sched_q s p))) [0..<n] \<and>
    sched_inv (snd (sched_run_next n s)) \<and> sched_q (snd (sched_run_next n s)) = sched_q s"
  using assms
proof (induction n arbitrary: s)
  case (Suc n)
  let ?s1 = "snd (qos_sched_next s)" and ?Q = "sched_q s p" and ?c = "unat (g_rr_cursor s p)"
  note nx = sched_next_top [OF Suc.prems]
  have IH: "fst (sched_run_next n ?s1) = map (\<lambda>k. ?Q ! ((Suc ?c mod length ?Q + k) mod length ?Q)) [0..<n]"
    "sched_inv (snd (sched_run_next n ?s1))" "sched_q (snd (sched_run_next n ?s1)) = sched_q s"
    using Suc.IH [OF nx(5)] Suc.prems(2) sched_top_cong [OF nx(4)] nx(3,4) by simp_all
  have "map (\<lambda>k. ?Q ! ((?c + k) mod length ?Q)) [0..<Suc n] =
      ?Q ! ?c # map (\<lambda>k. ?Q ! ((?c + Suc k) mod length ?Q)) [0..<n]"
    using nx(2) by (subst upt_conv_Cons) (simp_all add: map_Suc_upt [symmetric] comp_def del: upt_Suc)
  also have "\<dots> = fst (qos_sched_next s) # fst (sched_run_next n ?s1)"
    using nx(1) by (simp add: IH(1) mod_add_left_eq)
  finally show ?case using IH by (simp add: split_beta Let_def)
qed simp

lemma run_next_Suc0: "sched_run_next (Suc 0) s = ([fst (qos_sched_next s)], snd (qos_sched_next s))"
  by (simp add: split_beta Let_def)

lemma lv_mem_eval: "lv_mem pid L \<longleftrightarrow> pid \<in> set (L 0) \<or> pid \<in> set (L 1) \<or> pid \<in> set (L 2) \<or> pid \<in> set (L 3)"
  by (auto simp: lv_mem_def numeral_eq_Suc less_Suc_eq)

lemma lv_total_eval: "lv_total L = length (L 0) + length (L 1) + length (L 2) + length (L 3)"
  by (simp add: lv_total_def numeral_eq_Suc)

lemmas lv_eval = lv_mem_eval lv_total_eval lv_drop_def split_beta Let_def

section \<open>Properties\<close>

text \<open>
  C11. The scheduler arrays refine four lists. From any well-formed state, any sequence of
  \<open>qos_sched_add_task_prio\<close>, \<open>qos_sched_remove_task\<close> and \<open>qos_sched_set_priority\<close> calls returns the
  codes of \<open>lv_step\<close> and leaves its lists: an added or moved task goes to the end of its level, a
  removed task leaves the order of the others alone, a task is on one level only, and a change of
  priority fails only for an invalid priority or an unknown task (the code's rollback never runs).
\<close>

theorem sched_refines_levels:
  assumes "sched_inv s"
  shows "\<exists>s'. run_ops sched_step xs s = (fst (run_ops lv_step xs (sched_q s)), s') \<and>
    sched_inv s' \<and> sched_q s' = snd (run_ops lv_step xs (sched_q s)) \<and>
    unat (qos_sched_count s') = lv_total (sched_q s')"
proof -
  obtain s' where "run_ops sched_step xs s = (fst (run_ops lv_step xs (sched_q s)), s')"
    "sched_inv s'" "sched_q s' = snd (run_ops lv_step xs (sched_q s))"
    using sched_sim.sim_run [OF assms] by blast
  then show ?thesis by (auto simp: qos_sched_count_def sched_inv_def)
qed

theorem sched_refines_levels_witness:
  "sched_inv qos_sched_reset \<and>
   fst (run_ops sched_step [AddTask 7 1, AddTask 7 2, SetPriority 7 3, SetPriority 7 4, RemoveTask 7,
     RemoveTask 7] qos_sched_reset) = [0, -1, 0, -1, 0, -1]"
proof -
  let ?xs = "[AddTask 7 1, AddTask 7 2, SetPriority 7 3, SetPriority 7 4, RemoveTask 7, RemoveTask 7]"
  have "fst (run_ops lv_step ?xs (sched_q qos_sched_reset)) = [0, -1, 0, -1, 0, -1]"
    by (simp add: sched_inv_reset lv_eval)
  then show ?thesis
    using sched_refines_levels [OF sched_inv_reset(1), of ?xs] sched_inv_reset(1) by fastforce
qed

text \<open>
  C17. Strict priority, round robin within a level. When the highest level with a task is \<open>p\<close>, the
  results of \<open>n\<close> successive \<open>qos_sched_next\<close> calls are the tasks of level \<open>p\<close> in cyclic order from
  the cursor; the calls change no queue. In particular any window of as many calls as the level has
  tasks serves each of them once.
\<close>

theorem sched_next_round_robin:
  assumes "sched_inv s" "sched_top s p"
  shows "fst (sched_run_next n s) =
      map (\<lambda>k. sched_q s p ! ((unat (g_rr_cursor s p) + k) mod length (sched_q s p))) [0..<n] \<and>
    sched_inv (snd (sched_run_next n s)) \<and> sched_q (snd (sched_run_next n s)) = sched_q s \<and>
    fst (sched_run_next (length (sched_q s p)) s) = rotate (unat (g_rr_cursor s p)) (sched_q s p)"
proof -
  have "fst (sched_run_next (length (sched_q s p)) s) = rotate (unat (g_rr_cursor s p)) (sched_q s p)"
    using sched_run_next_top [OF assms] by (intro nth_equalityI) (auto simp: nth_rotate)
  with sched_run_next_top [OF assms] show ?thesis by blast
qed

theorem sched_next_round_robin_witness:
  "sched_inv (snd (run_ops sched_step [AddTask 5 1, AddTask 7 2, AddTask 8 2] qos_sched_reset)) \<and>
   fst (sched_run_next 3 (snd (run_ops sched_step [AddTask 5 1, AddTask 7 2, AddTask 8 2]
     qos_sched_reset))) = [7, 8, 7]"
proof -
  let ?xs = "[AddTask 5 1, AddTask 7 2, AddTask 8 2]"
  define s where "s = snd (run_ops sched_step ?xs qos_sched_reset)"
  have inv: "sched_inv s" unfolding s_def by (rule sched_sim.sim_invar [OF sched_inv_reset(1)])
  have "sched_q s = snd (run_ops lv_step ?xs (sched_q qos_sched_reset))"
    unfolding s_def using sched_sim.sim_run [OF sched_inv_reset(1), of ?xs] by fastforce
  then have q: "sched_q s = (\<lambda>p. if p = 1 then [5] else if p = 2 then [7, 8] else [])"
    by (simp add: sched_inv_reset lv_eval fun_eq_iff)
  then have top: "sched_top s 2" by (auto simp: sched_top_def)
  have "g_rr_cursor s 2 = 0" unfolding s_def by code_simp
  then show ?thesis
    using inv sched_next_round_robin [OF inv top, of 3] unfolding s_def [symmetric]
    by (simp add: q upt_rec)
qed

text \<open>
  C18. A removal and the turn of the next task. When task number \<open>i\<close> of a level is removed and it is
  not the one the cursor points to, the cursor afterwards points to the same task as before, except
  in one case: the cursor was at the last of at least three tasks and an earlier one was removed.
  There the code resets the cursor to the start, and the task whose turn it was is passed over.
\<close>

theorem sched_remove_turn:
  assumes inv: "sched_inv s" and f: "sched_find_pid pid s = Some (p, i)"
    and other: "i \<noteq> unat (g_rr_cursor s p)"
  shows "sched_q (snd (qos_sched_remove_task pid s)) p !
      unat (g_rr_cursor (snd (qos_sched_remove_task pid s)) p) = sched_q s p ! unat (g_rr_cursor s p) \<longleftrightarrow>
    \<not> (i < unat (g_rr_cursor s p) \<and> Suc (unat (g_rr_cursor s p)) = length (sched_q s p) \<and>
       2 < length (sched_q s p))"
proof -
  let ?Q = "sched_q s p" and ?c = "unat (g_rr_cursor s p)"
  let ?Q' = "sched_q (queue_remove_at p i s) p" and ?c' = "unat (g_rr_cursor (queue_remove_at p i s) p)"
  note fp = sched_find_pid_Some [OF f]
  have dist: "distinct ?Q" using inv by (simp add: sched_inv_def lv_ok_def)
  have "g_rr_cursor s p = 0 \<or> ?c < length ?Q"
    using inv fp(1) by (auto simp: sched_inv_def cursors_ok_def length_sched_q word_less_nat_alt)
  then have c: "?c < length ?Q" "2 \<le> length ?Q" using fp(2) other by auto
  have c': "?c' = (if Suc ?c = length ?Q then 0 else if i < ?c then ?c - 1 else ?c)"
    using sched_cursor_remove [OF fp(1,2)] c by simp
  have Q': "?Q' ! k = (if k < i then ?Q ! k else ?Q ! Suc k)" if "Suc k < length ?Q" for k
    using that fp(2) sched_q_remove(1) [OF fp(1,2)] by (simp add: nth_append)
  have r: "snd (qos_sched_remove_task pid s) = queue_remove_at p i s"
    using f by (simp add: qos_sched_remove_task_def)
  show ?thesis
  proof (cases "Suc ?c = length ?Q")
    case True
    then have e: "?Q' ! ?c' = ?Q ! (if 0 < i then 0 else 1)" and i: "i < ?c"
      using Q' [of 0] c c' fp(2) other by auto
    have "?Q' ! ?c' = ?Q ! ?c \<longleftrightarrow> (if 0 < i then 0 else 1) = ?c"
      unfolding e using c by (intro nth_eq_iff_index_eq [OF dist]) auto
    then show ?thesis using True i unfolding r by auto
  next
    case False
    then have "?Q' ! ?c' = ?Q ! ?c"
      using Q' [of ?c] Q' [of "?c - 1"] c c' other by (cases ?c) auto
    then show ?thesis using False unfolding r by simp
  qed
qed

theorem sched_remove_turn_witness:
  "let s = snd (sched_run_next 2 (snd (run_ops sched_step [AddTask 1 2, AddTask 2 2, AddTask 3 2]
         qos_sched_reset)));
       s' = snd (qos_sched_remove_task 1 s) in
   sched_inv s \<and> sched_find_pid 1 s = Some (2, 0) \<and> sched_q s 2 ! unat (g_rr_cursor s 2) = 3 \<and>
   sched_q s' 2 ! unat (g_rr_cursor s' 2) \<noteq> 3"
proof -
  let ?xs = "[AddTask 1 2, AddTask 2 2, AddTask 3 2]"
  define s0 where "s0 = snd (run_ops sched_step ?xs qos_sched_reset)"
  define s where "s = snd (sched_run_next 2 s0)"
  have inv0: "sched_inv s0" unfolding s0_def by (rule sched_sim.sim_invar [OF sched_inv_reset(1)])
  have "sched_q s0 = snd (run_ops lv_step ?xs (sched_q qos_sched_reset))"
    unfolding s0_def using sched_sim.sim_run [OF sched_inv_reset(1), of ?xs] by fastforce
  then have "sched_q s0 = (\<lambda>p. if p = 2 then [1, 2, 3] else [])"
    by (simp add: sched_inv_reset lv_eval fun_eq_iff)
  moreover from this have "sched_top s0 2" by (auto simp: sched_top_def)
  ultimately have s: "sched_inv s" "sched_q s 2 = [1, 2, 3]"
    unfolding s_def using sched_run_next_top [OF inv0, of 2] by auto
  have f: "sched_find_pid 1 s = Some (2, 0)" "g_rr_cursor s 2 = 2"
    unfolding s_def s0_def by code_simp+
  then show ?thesis
    using sched_remove_turn [OF s(1) f(1)] s
    unfolding s0_def [symmetric] s_def [symmetric] Let_def by simp
qed

end
