(* ===== verification/Boot.thy ===== *)
theory Boot
  imports Prelude
begin

text \<open>
  The boot information the loader hands to the kernel (\<^verbatim>\<open>src/c-os/boot/boot_info.h\<close>), its validation
  (\<^verbatim>\<open>qos_boot_info_validate\<close> of \<^verbatim>\<open>src/c-os/kernel/kernel.c\<close>) and the page arithmetic of
  \<^verbatim>\<open>src/c-os/kernel/mm/mm.c\<close>, shared by the physical and the virtual memory manager.
  A \<open>const boot_info_t *\<close> is \<open>None\<close> for the null pointer and otherwise its address with the structure.
\<close>

section \<open>Model\<close>

abbreviation (input) QOS_BOOT_MAGIC :: u64 where "QOS_BOOT_MAGIC \<equiv> 0x514F53424F4F5400"
abbreviation (input) QOS_MMAP_MAX_ENTRIES :: nat where "QOS_MMAP_MAX_ENTRIES \<equiv> 128"
abbreviation (input) QOS_PAGE_SIZE :: u64 where "QOS_PAGE_SIZE \<equiv> 4096"

record mmap_entry =
  me_base :: u64
  me_length :: u64
  me_type :: u32

record boot_info =
  bi_magic :: u64
  bi_mmap_entry_count :: u32
  bi_mmap_entries :: "mmap_entry arr"
  bi_fb_addr :: u64
  bi_fb_width :: u32
  bi_fb_height :: u32
  bi_fb_pitch :: u32
  bi_fb_bpp :: u8
  bi_initramfs_addr :: u64
  bi_initramfs_size :: u64
  bi_acpi_rsdp_addr :: u64
  bi_dtb_addr :: u64

text \<open>
  \<open>sizeof(boot_info_t)\<close>: 8 + 4 + 4, 128 entries of 24 bytes, 8 + 3 * 4 + 1 + 3 and four 8-byte
  fields.
\<close>

abbreviation (input) sizeof_boot_info :: u64 where "sizeof_boot_info \<equiv> 3144"

type_synonym boot_ptr = "(u64 \<times> boot_info) option"

definition qos_boot_info_validate :: "boot_ptr \<Rightarrow> int" where
  "qos_boot_info_validate boot_info =
     (case boot_info of
        None \<Rightarrow> -1
      | Some (_, bi) \<Rightarrow>
          if bi_magic bi \<noteq> QOS_BOOT_MAGIC then -1
          else if bi_mmap_entry_count bi = 0 \<or> unat (bi_mmap_entry_count bi) > QOS_MMAP_MAX_ENTRIES then -1
          else if me_length (bi_mmap_entries bi 0) = 0 \<or> me_type (bi_mmap_entries bi 0) = 0 then -1
          else if bi_initramfs_size bi \<noteq> 0 \<and> bi_initramfs_addr bi = 0 then -1
          else 0)"

definition align_up :: "u64 \<Rightarrow> u64" where
  "align_up value = (value + (QOS_PAGE_SIZE - 1)) AND NOT (QOS_PAGE_SIZE - 1)"

definition align_down :: "u64 \<Rightarrow> u64" where
  "align_down value = value AND NOT (QOS_PAGE_SIZE - 1)"

section \<open>Page arithmetic\<close>

lemma page_mask: "(4095 :: u64) = mask 12"
  by (simp add: mask_eq_exp_minus_1)

lemma page_offset_mod: "unat (v AND 4095 :: u64) = unat v mod 4096"
  unfolding page_mask by (simp add: take_bit_eq_mask [symmetric] take_bit_eq_mod unat_mod_distrib)

lemma page_aligned_iff: "(v :: u64) AND 4095 = 0 \<longleftrightarrow> unat v mod 4096 = 0"
  using page_offset_mod [of v] by (metis unat_eq_zero)

lemma align_down_plus: "align_down v + (v AND 4095) = v"
  unfolding align_down_def
  by (subst word_plus_and_or [symmetric]) (simp add: ac_simps, rule bit_word_eqI, auto simp: bit_simps)

lemma unat_align_down: "unat (align_down v) = unat v div 4096 * 4096"
proof -
  have "align_down v = push_bit 12 (drop_bit 12 v)"
  proof (rule bit_word_eqI)
    fix n assume "n < LENGTH(64)"
    moreover have "bit (4095 :: u64) n \<longleftrightarrow> n < 12" if "n < 64"
      using that unfolding page_mask by (simp add: bit_mask_iff)
    ultimately show "bit (align_down v) n = bit (push_bit 12 (drop_bit 12 v)) n"
      by (auto simp: align_down_def bit_simps)
  qed
  moreover have "unat (push_bit 12 (drop_bit 12 v)) = unat v div 4096 * 4096"
  proof -
    have "unat v div 4096 * 4096 < 2 ^ 64"
      using unat_u64_lt [of v] by simp
    then show ?thesis
      by (simp add: push_bit_eq_mult drop_bit_eq_div unat_word_ariths(2) unat_div_distrib)
  qed
  ultimately show ?thesis by simp
qed

lemma align_down_aligned: "align_down v AND 4095 = 0"
  by (simp add: page_aligned_iff unat_align_down)

lemma align_down_id: "v AND 4095 = 0 \<Longrightarrow> align_down v = v"
  using align_down_plus [of v] by simp

lemma align_down_idem [simp]: "align_down (align_down v) = align_down v"
  by (rule align_down_id [OF align_down_aligned])

lemma unat_align_up:
  assumes "unat v + 4095 < 2 ^ 64"
  shows "unat (align_up v) = (unat v + 4095) div 4096 * 4096"
proof -
  have "align_up v = align_down (v + 4095)" by (simp add: align_up_def align_down_def)
  moreover have "unat (v + 4095) = unat v + 4095" using assms by (simp add: unat_word_ariths)
  ultimately show ?thesis by (simp add: unat_align_down)
qed

end
