(* ===== verification/Pmm.thy ===== *)
theory Pmm
  imports Boot
begin

text \<open>
  The physical page allocator of \<^verbatim>\<open>src/c-os/kernel/mm/mm.c\<close>: an array of at most 4096 page frames
  with a used flag each, filled from the usable entries of the boot memory map.

  The addresses of \<open>__kernel_phys_start\<close> and \<open>__kernel_phys_end\<close> come from the linker and are
  arguments of the definitions that read them. The specification (\<open>pool_step\<close>) is a list of frames
  with a set of free ones.
\<close>

section \<open>Model\<close>

abbreviation (input) QOS_PMM_MAX_PAGES :: nat where "QOS_PMM_MAX_PAGES \<equiv> 4096"
abbreviation (input) QOS_PMM_PAGE_NONE :: u64 where "QOS_PMM_PAGE_NONE \<equiv> 0xFFFFFFFFFFFFFFFF"

record pmm =
  g_frames :: "u64 arr"
  g_used :: "bool arr"
  g_frame_count :: u32
  g_free_count :: u32

definition qos_pmm_reset :: pmm where
  "qos_pmm_reset = \<lparr>g_frames = (\<lambda>_. 0), g_used = (\<lambda>_. False), g_frame_count = 0, g_free_count = 0\<rparr>"

text \<open>The loop of \<open>pmm_add_range\<close>.\<close>

function pmm_add_loop :: "u64 \<Rightarrow> u64 \<Rightarrow> pmm \<Rightarrow> pmm" where
  "pmm_add_loop start end s =
     (if start < end \<and> unat (g_frame_count s) < QOS_PMM_MAX_PAGES then
        pmm_add_loop (start + QOS_PAGE_SIZE) end
          (s\<lparr>g_frames := (g_frames s)(unat (g_frame_count s) := start),
             g_used := (g_used s)(unat (g_frame_count s) := False),
             g_frame_count := g_frame_count s + 1,
             g_free_count := g_free_count s + 1\<rparr>)
      else s)"
  by pat_completeness auto
termination
proof (relation "measure (\<lambda>(start, end, s). QOS_PMM_MAX_PAGES - unat (g_frame_count s))", goal_cases)
  case (2 start "end" s)
  then have "unat (g_frame_count s + 1) = Suc (unat (g_frame_count s))"
    by (intro unat_Suc_count [where n = QOS_PMM_MAX_PAGES]) auto
  with 2 show ?case by auto
qed simp

declare pmm_add_loop.simps [simp del]

definition pmm_add_range :: "u64 \<Rightarrow> u64 \<Rightarrow> pmm \<Rightarrow> pmm" where
  "pmm_add_range base len s = pmm_add_loop (align_up base) (align_down (base + len)) s"

text \<open>The loop of \<open>pmm_reserve_range\<close>.\<close>

function pmm_reserve_loop :: "u64 \<Rightarrow> u64 \<Rightarrow> nat \<Rightarrow> pmm \<Rightarrow> pmm" where
  "pmm_reserve_loop base end i s =
     (if i < unat (g_frame_count s) then
        let frame = g_frames s i in
        pmm_reserve_loop base end (Suc i)
          (if base \<le> frame \<and> frame < end \<and> \<not> g_used s i
           then s\<lparr>g_used := (g_used s)(i := True), g_free_count := g_free_count s - 1\<rparr> else s)
      else s)"
  by pat_completeness auto
termination
  by (relation "measure (\<lambda>(base, end, i, s). unat (g_frame_count s) - i)") auto

declare pmm_reserve_loop.simps [simp del]

definition pmm_reserve_range :: "u64 \<Rightarrow> u64 \<Rightarrow> pmm \<Rightarrow> pmm" where
  "pmm_reserve_range base len s =
     (if len = 0 then s else pmm_reserve_loop base (base + len) 0 s)"

definition pmm_reserve_kernel_image :: "u64 \<Rightarrow> u64 \<Rightarrow> pmm \<Rightarrow> pmm" where
  "pmm_reserve_kernel_image start end s =
     (if start \<noteq> 0 \<and> end > start then pmm_reserve_range start (end - start) s else s)"

text \<open>The loop of \<open>qos_pmm_init\<close> over the memory map.\<close>

function pmm_entries_loop :: "boot_info \<Rightarrow> nat \<Rightarrow> pmm \<Rightarrow> pmm" where
  "pmm_entries_loop bi i s =
     (if i < unat (bi_mmap_entry_count bi) then
        let entry = bi_mmap_entries bi i in
        pmm_entries_loop bi (Suc i)
          (if me_type entry = 1 \<and> me_length entry \<ge> QOS_PAGE_SIZE
           then pmm_add_range (me_base entry) (me_length entry) s else s)
      else s)"
  by pat_completeness auto
termination
  by (relation "measure (\<lambda>(bi, i, s). unat (bi_mmap_entry_count bi) - i)") auto

declare pmm_entries_loop.simps [simp del]

definition qos_pmm_init :: "u64 \<Rightarrow> u64 \<Rightarrow> boot_ptr \<Rightarrow> int \<times> pmm" where
  "qos_pmm_init kstart kend boot_info =
     (let s0 = qos_pmm_reset in
      case boot_info of
        None \<Rightarrow> (-1, s0)
      | Some (addr, bi) \<Rightarrow>
          if bi_magic bi \<noteq> QOS_BOOT_MAGIC then (-1, s0)
          else if bi_mmap_entry_count bi = 0 \<or> unat (bi_mmap_entry_count bi) > QOS_MMAP_MAX_ENTRIES
            then (-1, s0)
          else let s1 = pmm_entries_loop bi 0 s0 in
            if g_frame_count s1 = 0 then (-1, s1)
            else let s2 = pmm_reserve_range 0 0x100000 s1;
                     s3 = pmm_reserve_kernel_image kstart kend s2;
                     s4 = pmm_reserve_range addr sizeof_boot_info s3;
                     s5 = (if bi_initramfs_size bi \<noteq> 0
                           then pmm_reserve_range (bi_initramfs_addr bi) (bi_initramfs_size bi) s4
                           else s4) in
              (0, s5))"

definition qos_pmm_total_pages :: "pmm \<Rightarrow> u32" where
  "qos_pmm_total_pages s = g_frame_count s"

definition qos_pmm_free_pages :: "pmm \<Rightarrow> u32" where
  "qos_pmm_free_pages s = g_free_count s"

definition qos_pmm_alloc_page :: "pmm \<Rightarrow> u64 \<times> pmm" where
  "qos_pmm_alloc_page s =
     (case scan (\<lambda>i. \<not> g_used s i) 0 (unat (g_frame_count s)) of
        Some i \<Rightarrow> (g_frames s i,
          s\<lparr>g_used := (g_used s)(i := True), g_free_count := g_free_count s - 1\<rparr>)
      | None \<Rightarrow> (QOS_PMM_PAGE_NONE, s))"

definition qos_pmm_free_page :: "u64 \<Rightarrow> pmm \<Rightarrow> int \<times> pmm" where
  "qos_pmm_free_page page s =
     (if page AND (QOS_PAGE_SIZE - 1) \<noteq> 0 then (-1, s)
      else case scan (\<lambda>i. g_frames s i = page) 0 (unat (g_frame_count s)) of
        None \<Rightarrow> (-1, s)
      | Some i \<Rightarrow>
          if \<not> g_used s i then (-1, s)
          else (0, s\<lparr>g_used := (g_used s)(i := False), g_free_count := g_free_count s + 1\<rparr>))"

section \<open>Specification\<close>

definition pmm_frames :: "pmm \<Rightarrow> u64 list" where
  "pmm_frames s = map (g_frames s) [0..<unat (g_frame_count s)]"

definition pmm_free_set :: "pmm \<Rightarrow> u64 set" where
  "pmm_free_set s = g_frames s ` {i. i < unat (g_frame_count s) \<and> \<not> g_used s i}"

text \<open>The counters agree with the arrays and every frame is page aligned.\<close>

definition pmm_ok :: "pmm \<Rightarrow> bool" where
  "pmm_ok s \<longleftrightarrow> unat (g_frame_count s) \<le> QOS_PMM_MAX_PAGES \<and>
     unat (g_free_count s) = card {i. i < unat (g_frame_count s) \<and> \<not> g_used s i} \<and>
     (\<forall>i < unat (g_frame_count s). g_frames s i AND 4095 = 0)"

definition pmm_inv :: "pmm \<Rightarrow> bool" where
  "pmm_inv s \<longleftrightarrow> pmm_ok s \<and> distinct (pmm_frames s)"

datatype pmm_op = AllocPage | FreePage u64

text \<open>The result of an allocation is the page (left), that of a release the code (right).\<close>

fun pool_step :: "pmm_op \<Rightarrow> u64 list \<times> u64 set \<Rightarrow> (u64 + int) \<times> u64 list \<times> u64 set" where
  "pool_step AllocPage (fs, F) =
     (case find (\<lambda>f. f \<in> F) fs of
        None \<Rightarrow> (Inl QOS_PMM_PAGE_NONE, fs, F)
      | Some f \<Rightarrow> (Inl f, fs, F - {f}))"
| "pool_step (FreePage p) (fs, F) =
     (if p \<in> set fs \<and> p \<notin> F then (Inr 0, fs, insert p F) else (Inr (-1), fs, F))"

fun pmm_step :: "pmm_op \<Rightarrow> pmm \<Rightarrow> (u64 + int) \<times> pmm" where
  "pmm_step AllocPage s = (let (p, s') = qos_pmm_alloc_page s in (Inl p, s'))"
| "pmm_step (FreePage p) s = (let (r, s') = qos_pmm_free_page p s in (Inr r, s'))"

definition pmm_pool :: "pmm \<Rightarrow> u64 list \<times> u64 set" where
  "pmm_pool s = (pmm_frames s, pmm_free_set s)"

text \<open>The whole pages inside the bytes \<open>base\<close> to \<open>base + length\<close>, in increasing order.\<close>

definition whole_pages :: "nat \<Rightarrow> nat \<Rightarrow> u64 list" where
  "whole_pages base len =
     map (\<lambda>k. word_of_nat (4096 * k)) [(base + 4095) div 4096 ..< (base + len) div 4096]"

definition usable_entry :: "mmap_entry \<Rightarrow> bool" where
  "usable_entry e \<longleftrightarrow> me_type e = 1 \<and> 4096 \<le> unat (me_length e)"

definition mmap_pages :: "mmap_entry list \<Rightarrow> u64 list" where
  "mmap_pages es = concat (map (\<lambda>e. whole_pages (unat (me_base e)) (unat (me_length e))) (filter usable_entry es))"

definition boot_entries :: "boot_info \<Rightarrow> mmap_entry list" where
  "boot_entries bi = map (bi_mmap_entries bi) [0..<unat (bi_mmap_entry_count bi)]"

definition entry_fits :: "mmap_entry \<Rightarrow> bool" where
  "entry_fits e \<longleftrightarrow> unat (me_base e) + unat (me_length e) < 2 ^ 64"

definition in_range :: "u64 \<Rightarrow> u64 \<Rightarrow> u64 \<Rightarrow> bool" where
  "in_range base len f \<longleftrightarrow> len \<noteq> 0 \<and> base \<le> f \<and> f < base + len"

text \<open>What \<open>qos_pmm_init\<close> reserves: low memory, kernel image, boot information and initramfs.\<close>

definition boot_reserved :: "u64 \<Rightarrow> u64 \<Rightarrow> u64 \<Rightarrow> boot_info \<Rightarrow> u64 \<Rightarrow> bool" where
  "boot_reserved kstart kend addr bi f \<longleftrightarrow>
     in_range 0 0x100000 f \<or> (kstart \<noteq> 0 \<and> kstart < kend \<and> kstart \<le> f \<and> f < kend) \<or>
     in_range addr sizeof_boot_info f \<or> in_range (bi_initramfs_addr bi) (bi_initramfs_size bi) f"

definition pmm_fresh :: "pmm \<Rightarrow> bool" where
  "pmm_fresh s \<longleftrightarrow> unat (g_frame_count s) \<le> QOS_PMM_MAX_PAGES \<and> g_free_count s = g_frame_count s \<and>
     (\<forall>i < unat (g_frame_count s). \<not> g_used s i \<and> g_frames s i AND 4095 = 0)"

definition pages_between :: "u64 \<Rightarrow> u64 \<Rightarrow> u64 list" where
  "pages_between start end = map (\<lambda>k. word_of_nat (4096 * k)) [unat start div 4096 ..< unat end div 4096]"

text \<open>The state \<open>s'\<close> is \<open>s\<close> with the frames that satisfy \<open>P\<close> marked as used.\<close>

definition reserves :: "(u64 \<Rightarrow> bool) \<Rightarrow> pmm \<Rightarrow> pmm \<Rightarrow> bool" where
  "reserves P s s' \<longleftrightarrow> g_frames s' = g_frames s \<and> g_frame_count s' = g_frame_count s \<and>
     (pmm_ok s \<longrightarrow> pmm_ok s') \<and>
     (\<forall>j < unat (g_frame_count s). g_used s' j \<longleftrightarrow> g_used s j \<or> P (g_frames s j))"

text \<open>No two usable entries of the memory map share a byte.\<close>

definition apart :: "mmap_entry \<Rightarrow> mmap_entry \<Rightarrow> bool" where
  "apart e f \<longleftrightarrow> unat (me_base e) + unat (me_length e) \<le> unat (me_base f) \<or>
     unat (me_base f) + unat (me_length f) \<le> unat (me_base e)"

definition mmap_ok :: "mmap_entry list \<Rightarrow> bool" where
  "mmap_ok es \<longleftrightarrow> (\<forall>e \<in> set (filter usable_entry es). entry_fits e) \<and>
     sorted_wrt apart (filter usable_entry es)"

text \<open>A machine with three usable pages and an initramfs inside the second.\<close>

definition demo_boot :: boot_info where
  "demo_boot = \<lparr>bi_magic = QOS_BOOT_MAGIC, bi_mmap_entry_count = 1,
     bi_mmap_entries = (\<lambda>_. \<lparr>me_base = 0x1FF800, me_length = 0x3800, me_type = 1\<rparr>),
     bi_fb_addr = 0, bi_fb_width = 0, bi_fb_height = 0, bi_fb_pitch = 0, bi_fb_bpp = 0,
     bi_initramfs_addr = 0x201800, bi_initramfs_size = 16, bi_acpi_rsdp_addr = 0, bi_dtb_addr = 0\<rparr>"

section \<open>Marking frames\<close>

lemma pmm_ok_mark:
  assumes ok: "pmm_ok s" and i: "i < unat (g_frame_count s)" "\<not> g_used s i"
  shows "pmm_ok (s\<lparr>g_used := (g_used s)(i := True), g_free_count := g_free_count s - 1\<rparr>)"
proof -
  let ?F = "{j. j < unat (g_frame_count s) \<and> \<not> g_used s j}"
  have "{j. j < unat (g_frame_count s) \<and> \<not> ((g_used s)(i := True)) j} = ?F - {i}" by auto
  moreover have "card ?F = Suc (card (?F - {i}))"
    using i by (intro card_Suc_Diff1 [symmetric]) auto
  ultimately show ?thesis
    using ok unat_pred_count [of "g_free_count s" "card (?F - {i})"] by (simp add: pmm_ok_def)
qed

lemma pmm_ok_unmark:
  assumes ok: "pmm_ok s" and i: "i < unat (g_frame_count s)" "g_used s i"
  shows "pmm_ok (s\<lparr>g_used := (g_used s)(i := False), g_free_count := g_free_count s + 1\<rparr>)"
proof -
  let ?F = "{j. j < unat (g_frame_count s) \<and> \<not> g_used s j}"
  have "{j. j < unat (g_frame_count s) \<and> \<not> ((g_used s)(i := False)) j} = insert i ?F"
    using i by auto
  then have F: "card {j. j < unat (g_frame_count s) \<and> \<not> ((g_used s)(i := False)) j} = Suc (card ?F)"
    using i by simp
  have "?F \<subset> {..<unat (g_frame_count s)}" using i by auto
  then have "card ?F < unat (g_frame_count s)"
    using psubset_card_mono [of "{..<unat (g_frame_count s)}" ?F] by simp
  then have "unat (g_free_count s + 1) = Suc (card ?F)"
    using ok by (intro unat_Suc_count [where n = 4096]) (auto simp: pmm_ok_def)
  with ok F show ?thesis by (simp add: pmm_ok_def)
qed

lemma free_set_mark:
  assumes inv: "pmm_inv s" and i: "i < unat (g_frame_count s)"
  shows "pmm_free_set (s\<lparr>g_used := (g_used s)(i := u), g_free_count := c\<rparr>) =
    (if u then pmm_free_set s - {g_frames s i} else insert (g_frames s i) (pmm_free_set s))"
proof -
  have inj: "inj_on (g_frames s) {..<unat (g_frame_count s)}"
    using inv by (simp add: pmm_inv_def pmm_frames_def distinct_map atLeast0LessThan)
  show ?thesis
    using i by (auto simp: pmm_free_set_def image_iff dest: inj_onD [OF inj] split: if_splits)
qed

lemma pmm_frames_mark [simp]: "pmm_frames (s\<lparr>g_used := u, g_free_count := c\<rparr>) = pmm_frames s"
  by (simp add: pmm_frames_def)

lemma free_set_iff:
  assumes inv: "pmm_inv s" and i: "i < unat (g_frame_count s)"
  shows "g_frames s i \<in> pmm_free_set s \<longleftrightarrow> \<not> g_used s i"
proof -
  have inj: "inj_on (g_frames s) {..<unat (g_frame_count s)}"
    using inv by (simp add: pmm_inv_def pmm_frames_def distinct_map atLeast0LessThan)
  show ?thesis using i by (auto simp: pmm_free_set_def dest: inj_onD [OF inj])
qed

lemma pmm_alloc_refines:
  assumes inv: "pmm_inv s"
  shows "\<exists>s'. pmm_step AllocPage s = (fst (pool_step AllocPage (pmm_pool s)), s') \<and>
    pmm_inv s' \<and> pmm_pool s' = snd (pool_step AllocPage (pmm_pool s))"
proof -
  have f: "find (\<lambda>f. f \<in> pmm_free_set s) (pmm_frames s) =
      map_option (g_frames s) (scan (\<lambda>i. \<not> g_used s i) 0 (unat (g_frame_count s)))"
    unfolding pmm_frames_def find_map_scan
    by (intro arg_cong [where f = "map_option _"] scan_cong free_set_iff [OF inv])
  show ?thesis
  proof (cases "scan (\<lambda>i. \<not> g_used s i) 0 (unat (g_frame_count s))")
    case None
    then show ?thesis using inv f by (simp add: pmm_pool_def qos_pmm_alloc_page_def)
  next
    case (Some i)
    then have i: "i < unat (g_frame_count s)" "\<not> g_used s i" by (auto dest: scan_SomeD)
    then show ?thesis
      using inv Some f free_set_mark [OF inv i(1), where u = True] pmm_ok_mark [OF _ i]
      by (simp add: pmm_pool_def qos_pmm_alloc_page_def pmm_inv_def)
  qed
qed

lemma pmm_free_refines:
  assumes inv: "pmm_inv s"
  shows "\<exists>s'. pmm_step (FreePage p) s = (fst (pool_step (FreePage p) (pmm_pool s)), s') \<and>
    pmm_inv s' \<and> pmm_pool s' = snd (pool_step (FreePage p) (pmm_pool s))"
proof (cases "scan (\<lambda>i. g_frames s i = p) 0 (unat (g_frame_count s))")
  case None
  then have "p \<notin> set (pmm_frames s)" by (auto simp: scan_None_iff pmm_frames_def)
  with None inv show ?thesis by (simp add: pmm_pool_def qos_pmm_free_page_def)
next
  case (Some i)
  then have i: "i < unat (g_frame_count s)" "g_frames s i = p" by (auto dest: scan_SomeD)
  then have p: "p \<in> set (pmm_frames s)" "p AND 4095 = 0"
    using inv by (auto simp: pmm_frames_def pmm_inv_def pmm_ok_def)
  show ?thesis
    using inv Some p i free_set_iff [OF inv i(1)] free_set_mark [OF inv i(1), where u = False] pmm_ok_unmark [OF _ i(1)]
    by (auto simp: pmm_pool_def qos_pmm_free_page_def pmm_inv_def)
qed

interpretation pmm_sim: simulation pmm_step pool_step pmm_pool pmm_inv
proof (unfold_locales, goal_cases)
  case (1 s x)
  then show ?case using pmm_alloc_refines pmm_free_refines by (cases x) metis+
qed

section \<open>Start-up\<close>

lemma pages_between_step:
  assumes "start < end" "start AND 4095 = 0" "end AND 4095 = 0"
  shows "pages_between start end = start # pages_between (start + 4096) end"
    "(start + 4096) AND 4095 = 0"
proof -
  obtain a where a: "unat start = 4096 * a" using assms(2) by (auto simp: page_aligned_iff)
  obtain b where b: "unat end = 4096 * b" using assms(3) by (auto simp: page_aligned_iff)
  have ab: "a < b" using assms(1) by (simp add: word_less_nat_alt a b)
  have "unat start + 4096 < 2 ^ 64 \<or> b = Suc a" using ab unat_u64_lt [of "end"] by (simp add: a b)
  have le: "4096 * Suc a \<le> unat end" using ab by (simp add: b)
  then have s: "unat (start + 4096) = 4096 * Suc a"
    using unat_u64_lt [of "end"] by (simp add: unat_word_ariths a)
  then show "(start + 4096) AND 4095 = 0" by (simp only: page_aligned_iff mod_mult_self1_is_0)
  have "start = word_of_nat (4096 * a)" by (simp flip: a)
  then show "pages_between start end = start # pages_between (start + 4096) end"
    using ab unfolding pages_between_def s a b by (simp add: upt_conv_Cons)
qed

lemma pmm_add_loop_frames:
  assumes "start AND 4095 = 0" "end AND 4095 = 0" "pmm_fresh s"
  shows "pmm_fresh (pmm_add_loop start end s) \<and>
    pmm_frames (pmm_add_loop start end s) = take 4096 (pmm_frames s @ pages_between start end)"
  using assms
proof (induction start "end" s rule: pmm_add_loop.induct)
  case (1 start "end" s)
  have len: "length (pmm_frames s) \<le> 4096" using 1(4) by (simp add: pmm_frames_def pmm_fresh_def)
  show ?case
  proof (cases "start < end \<and> unat (g_frame_count s) < 4096")
    case False
    have "pmm_frames s = take 4096 (pmm_frames s @ pages_between start end)"
    proof (cases "start < end")
      case True
      with False len show ?thesis by (simp add: pmm_frames_def)
    next
      case False
      then have "unat end div 4096 \<le> unat start div 4096" by (intro div_le_mono) (simp add: word_less_nat_alt)
      with len show ?thesis by (simp add: pages_between_def)
    qed
    with False 1(4) show ?thesis by (subst (1 2) pmm_add_loop.simps) auto
  next
    case True
    let ?n = "unat (g_frame_count s)"
    let ?s = "s\<lparr>g_frames := (g_frames s)(?n := start), g_used := (g_used s)(?n := False),
      g_frame_count := g_frame_count s + 1, g_free_count := g_free_count s + 1\<rparr>"
    note st = pages_between_step [OF _ 1(2,3)]
    have n: "unat (g_frame_count s + 1) = Suc ?n"
      using True by (intro unat_Suc_count [where n = 4096]) auto
    have fresh: "pmm_fresh ?s" using True 1(2,4) n by (auto simp: pmm_fresh_def less_Suc_eq)
    have fr: "pmm_frames ?s = pmm_frames s @ [start]" by (simp add: pmm_frames_def n)
    have "pmm_add_loop start end s = pmm_add_loop (start + 4096) end ?s"
      using True by (subst pmm_add_loop.simps) simp
    moreover have "pmm_frames s @ pages_between start end = pmm_frames ?s @ pages_between (start + 4096) end"
      using True st(1) fr by simp
    ultimately show ?thesis using 1(1) [OF True st(2) 1(3) fresh] True by simp
  qed
qed

lemma pages_between_whole:
  assumes "unat base + unat len < 2 ^ 64" "4096 \<le> unat len"
  shows "pages_between (align_up base) (align_down (base + len)) = whole_pages (unat base) (unat len)"
proof -
  have "unat (base + len) = unat base + unat len" using assms(1) by (simp add: unat_word_ariths)
  with assms show ?thesis
    by (simp add: pages_between_def whole_pages_def unat_align_up unat_align_down)
qed

lemma align_up_aligned: "align_up v AND 4095 = 0"
  using align_down_aligned [of "v + 4095"] by (simp add: align_up_def align_down_def)

lemma take_take_append: "take n (take n xs @ ys) = take n (xs @ ys)"
  by (simp add: min_def)

lemma pmm_entries_frames:
  assumes "pmm_fresh s" "\<And>j. i \<le> j \<Longrightarrow> j < unat (bi_mmap_entry_count bi) \<Longrightarrow> usable_entry (bi_mmap_entries bi j) \<Longrightarrow>
    entry_fits (bi_mmap_entries bi j)"
  shows "pmm_fresh (pmm_entries_loop bi i s) \<and>
    pmm_frames (pmm_entries_loop bi i s) = take 4096 (pmm_frames s @
      mmap_pages (map (bi_mmap_entries bi) [i..<unat (bi_mmap_entry_count bi)]))"
  using assms
proof (induction bi i s rule: pmm_entries_loop.induct)
  case (1 bi i s)
  have len: "length (pmm_frames s) \<le> 4096" using 1(2) by (simp add: pmm_frames_def pmm_fresh_def)
  show ?case
  proof (cases "i < unat (bi_mmap_entry_count bi)")
    case False
    with 1(2) len show ?thesis by (subst (1 2) pmm_entries_loop.simps) (simp add: mmap_pages_def)
  next
    case True
    let ?e = "bi_mmap_entries bi i"
    let ?s = "if me_type ?e = 1 \<and> me_length ?e \<ge> 4096 then pmm_add_range (me_base ?e) (me_length ?e) s else s"
    have us: "usable_entry ?e \<longleftrightarrow> me_type ?e = 1 \<and> me_length ?e \<ge> 4096"
      by (simp add: usable_entry_def word_le_nat_alt)
    have s: "pmm_fresh ?s \<and> pmm_frames ?s = take 4096 (pmm_frames s @ mmap_pages [?e])"
    proof (cases "usable_entry ?e")
      case True
      then have "entry_fits ?e" using 1(3) \<open>i < _\<close> by simp
      then show ?thesis
        using True us pmm_add_loop_frames [OF align_up_aligned align_down_aligned 1(2)]
          pages_between_whole [of "me_base ?e" "me_length ?e"]
        by (simp add: pmm_add_range_def mmap_pages_def entry_fits_def usable_entry_def)
    next
      case False
      with us 1(2) len show ?thesis by (auto simp: mmap_pages_def)
    qed
    have "pmm_entries_loop bi i s = pmm_entries_loop bi (Suc i) ?s"
      using True by (subst pmm_entries_loop.simps) (simp add: Let_def)
    moreover have "mmap_pages (map (bi_mmap_entries bi) [i..<unat (bi_mmap_entry_count bi)]) =
        mmap_pages [?e] @ mmap_pages (map (bi_mmap_entries bi) [Suc i..<unat (bi_mmap_entry_count bi)])"
      using True by (simp add: upt_conv_Cons mmap_pages_def)
    moreover note IH = 1(1) [OF True refl conjunct1 [OF s] 1(3) [OF Suc_leD]]
    ultimately show ?thesis using s by (simp only: take_take_append append.assoc)
  qed
qed

lemma reserves_refl: "reserves (\<lambda>_. False) s s"
  by (simp add: reserves_def)

lemma reserves_trans: "reserves P s s' \<Longrightarrow> reserves Q s' s'' \<Longrightarrow> reserves (\<lambda>f. P f \<or> Q f) s s''"
  by (auto simp: reserves_def)


lemma pmm_reserve_loop_marks:
  "g_frames (pmm_reserve_loop b e i s) = g_frames s \<and>
   g_frame_count (pmm_reserve_loop b e i s) = g_frame_count s \<and>
   (pmm_ok s \<longrightarrow> pmm_ok (pmm_reserve_loop b e i s)) \<and>
   (\<forall>j < unat (g_frame_count s). g_used (pmm_reserve_loop b e i s) j \<longleftrightarrow>
     g_used s j \<or> (i \<le> j \<and> b \<le> g_frames s j \<and> g_frames s j < e))"
proof (induction b e i s rule: pmm_reserve_loop.induct)
  case (1 b e i s)
  show ?case
  proof (cases "i < unat (g_frame_count s)")
    case False
    then show ?thesis by (subst (1 2 3 4) pmm_reserve_loop.simps) auto
  next
    case True
    let ?s = "if b \<le> g_frames s i \<and> g_frames s i < e \<and> \<not> g_used s i
      then s\<lparr>g_used := (g_used s)(i := True), g_free_count := g_free_count s - 1\<rparr> else s"
    have "pmm_reserve_loop b e i s = pmm_reserve_loop b e (Suc i) ?s"
      using True by (subst pmm_reserve_loop.simps) (simp add: Let_def)
    moreover have "g_frames ?s = g_frames s" "g_frame_count ?s = g_frame_count s" "pmm_ok s \<longrightarrow> pmm_ok ?s"
      using pmm_ok_mark [OF _ True] by auto
    moreover have "g_used ?s j \<longleftrightarrow> g_used s j \<or> j = i \<and> b \<le> g_frames s j \<and> g_frames s j < e" for j
      by auto
    ultimately show ?thesis
      using 1 [OF True refl] by (simp only: Suc_le_eq) (auto simp: le_less)
  qed
qed

lemma reserve_range_marks: "reserves (in_range b l) s (pmm_reserve_range b l s)"
  using pmm_reserve_loop_marks [of b "b + l" 0 s]
  by (auto simp: reserves_def pmm_reserve_range_def in_range_def)

lemma reserve_kernel_marks:
  "reserves (\<lambda>f. ks \<noteq> 0 \<and> ks < ke \<and> ks \<le> f \<and> f < ke) s (pmm_reserve_kernel_image ks ke s)"
proof (cases "ks \<noteq> 0 \<and> ks < ke")
  case True
  then have "in_range ks (ke - ks) = (\<lambda>f. ks \<noteq> 0 \<and> ks < ke \<and> ks \<le> f \<and> f < ke)"
    by (auto simp: in_range_def fun_eq_iff)
  with True reserve_range_marks [of ks "ke - ks" s] show ?thesis by (simp add: pmm_reserve_kernel_image_def)
next
  case False
  then have "(\<lambda>f. ks \<noteq> 0 \<and> ks < ke \<and> ks \<le> f \<and> f < ke) = (\<lambda>_. False)" by auto
  with False reserves_refl [of s] show ?thesis by (auto simp: pmm_reserve_kernel_image_def)
qed

lemma less_div_page: "k < n div 4096 \<Longrightarrow> 4096 * k + 4096 \<le> (n :: nat)"
  using div_mult_mod_eq [of n 4096] by linarith

lemma whole_pages_mem:
  assumes "f \<in> set (whole_pages b l)" "b + l < 2 ^ 64"
  shows "b \<le> unat f \<and> unat f + 4096 \<le> b + l \<and> unat f mod 4096 = 0"
proof -
  obtain k where k: "(b + 4095) div 4096 \<le> k" "k < (b + l) div 4096" "f = word_of_nat (4096 * k)"
    using assms(1) by (auto simp: whole_pages_def)
  have "4096 * k + 4096 \<le> b + l" using k(2) by (rule less_div_page)
  moreover from this have "unat f = 4096 * k"
    unfolding k(3) using assms(2) by (intro unat_u64_of_nat) simp
  moreover have "b \<le> 4096 * k"
    using k(1) div_mult_mod_eq [of "b + 4095" 4096] mod_less_divisor [of 4096 "b + 4095"] by linarith
  ultimately show ?thesis by simp
qed

lemma distinct_whole_pages: "b + l < 2 ^ 64 \<Longrightarrow> distinct (whole_pages b l)"
proof -
  assume fit: "b + l < 2 ^ 64"
  have "inj_on (\<lambda>k. word_of_nat (4096 * k) :: u64) {(b + 4095) div 4096 ..< (b + l) div 4096}"
  proof (rule inj_onI)
    fix j k assume j: "j \<in> {(b + 4095) div 4096 ..< (b + l) div 4096}" and k: "k \<in> {(b + 4095) div 4096 ..< (b + l) div 4096}"
      and e: "(word_of_nat (4096 * j) :: u64) = word_of_nat (4096 * k)"
    have "unat (word_of_nat (4096 * i) :: u64) = 4096 * i" if "i < (b + l) div 4096" for i
    proof -
      have "4096 * i < 18446744073709551616" using less_div_page [OF that] fit by simp
      then show ?thesis by (rule unat_u64_of_nat)
    qed
    with j k arg_cong [OF e, of unat] show "j = k" by simp
  qed
  then show ?thesis by (simp add: whole_pages_def distinct_map)
qed

lemma distinct_mmap_pages: "mmap_ok es \<Longrightarrow> distinct (mmap_pages es)"
proof (induction es)
  case (Cons e es)
  have ok: "mmap_ok es" using Cons.prems by (auto simp: mmap_ok_def split: if_splits)
  show ?case
  proof (cases "usable_entry e")
    case False
    with Cons.IH [OF ok] show ?thesis by (simp add: mmap_pages_def)
  next
    case True
    let ?W = "\<lambda>e. whole_pages (unat (me_base e)) (unat (me_length e))"
    have e: "entry_fits e" "\<And>f. f \<in> set es \<Longrightarrow> usable_entry f \<Longrightarrow> apart e f \<and> entry_fits f"
      using Cons.prems True by (auto simp: mmap_ok_def)
    have "set (?W e) \<inter> set (?W f) = {}" if f: "f \<in> set es" "usable_entry f" for f
    proof (rule ccontr)
      assume "set (?W e) \<inter> set (?W f) \<noteq> {}"
      then obtain x where x: "x \<in> set (?W e)" "x \<in> set (?W f)" by blast
      show False
        using whole_pages_mem [OF x(1)] whole_pages_mem [OF x(2)] e(1) e(2) [OF f]
        by (auto simp: entry_fits_def apart_def)
    qed
    moreover have "distinct (?W e)" using e(1) by (simp add: entry_fits_def distinct_whole_pages)
    ultimately show ?thesis using True Cons.IH [OF ok] by (auto simp: mmap_pages_def)
  qed
qed (simp add: mmap_pages_def)

lemma pmm_fresh_ok: "pmm_fresh s \<Longrightarrow> pmm_ok s"
proof -
  assume f: "pmm_fresh s"
  then have "{i. i < unat (g_frame_count s) \<and> \<not> g_used s i} = {..<unat (g_frame_count s)}"
    by (auto simp: pmm_fresh_def)
  with f show ?thesis by (auto simp: pmm_ok_def pmm_fresh_def)
qed

lemma reserves_pool:
  assumes "reserves P s s'" "pmm_fresh s"
  shows "pmm_ok s'" "pmm_frames s' = pmm_frames s" "pmm_free_set s' = {f \<in> set (pmm_frames s). \<not> P f}"
  using assms pmm_fresh_ok [of s]
  by (auto simp: reserves_def pmm_frames_def pmm_free_set_def pmm_fresh_def)

lemma qos_pmm_init_shape:
  assumes "bi_magic bi = QOS_BOOT_MAGIC" "bi_mmap_entry_count bi \<noteq> 0"
    "unat (bi_mmap_entry_count bi) \<le> QOS_MMAP_MAX_ENTRIES"
  defines "s1 \<equiv> pmm_entries_loop bi 0 qos_pmm_reset"
  shows "g_frame_count s1 = 0 \<Longrightarrow> qos_pmm_init ks ke (Some (a, bi)) = (-1, s1)"
    "g_frame_count s1 \<noteq> 0 \<Longrightarrow> \<exists>s'. qos_pmm_init ks ke (Some (a, bi)) = (0, s') \<and>
       reserves (boot_reserved ks ke a bi) s1 s'"
proof -
  show "qos_pmm_init ks ke (Some (a, bi)) = (-1, s1)" if "g_frame_count s1 = 0"
    using that assms by (simp add: qos_pmm_init_def Let_def)
  show "\<exists>s'. qos_pmm_init ks ke (Some (a, bi)) = (0, s') \<and> reserves (boot_reserved ks ke a bi) s1 s'"
    if "g_frame_count s1 \<noteq> 0"
  proof -
    let ?I = "in_range (bi_initramfs_addr bi) (bi_initramfs_size bi)"
    let ?s3 = "pmm_reserve_kernel_image ks ke (pmm_reserve_range 0 0x100000 s1)"
    let ?s4 = "pmm_reserve_range a sizeof_boot_info ?s3"
    let ?s5 = "if bi_initramfs_size bi \<noteq> 0
      then pmm_reserve_range (bi_initramfs_addr bi) (bi_initramfs_size bi) ?s4 else ?s4"
    have "?s5 = pmm_reserve_range (bi_initramfs_addr bi) (bi_initramfs_size bi) ?s4"
      by (simp add: pmm_reserve_range_def)
    then have I: "reserves ?I ?s4 ?s5" using reserve_range_marks by simp
    note k = reserves_trans [OF reserve_range_marks [of 0 "0x100000" s1] reserve_kernel_marks [of ks ke]]
    note b = reserves_trans [OF k reserve_range_marks [of a sizeof_boot_info]]
    have "reserves (boot_reserved ks ke a bi) s1 ?s5"
      using reserves_trans [OF b I] by (simp add: boot_reserved_def [abs_def] disj_assoc)
    moreover have "qos_pmm_init ks ke (Some (a, bi)) = (0, ?s5)"
      using that assms by (simp add: qos_pmm_init_def Let_def)
    ultimately show ?thesis by blast
  qed
qed

lemma pmm_init_pool_aux:
  assumes bi: "bi_magic bi = QOS_BOOT_MAGIC" "bi_mmap_entry_count bi \<noteq> 0"
      "unat (bi_mmap_entry_count bi) \<le> QOS_MMAP_MAX_ENTRIES"
    and mm: "mmap_ok (boot_entries bi)" and r: "qos_pmm_init ks ke (Some (a, bi)) = (r, s)"
  shows "r = (if mmap_pages (boot_entries bi) = [] then -1 else 0)"
    "r = 0 \<Longrightarrow> pmm_inv s \<and>
       pmm_pool s = (take QOS_PMM_MAX_PAGES (mmap_pages (boot_entries bi)),
         {f \<in> set (take QOS_PMM_MAX_PAGES (mmap_pages (boot_entries bi))). \<not> boot_reserved ks ke a bi f})"
proof -
  let ?s1 = "pmm_entries_loop bi 0 qos_pmm_reset"
  have fresh0: "pmm_fresh qos_pmm_reset" "pmm_frames qos_pmm_reset = []"
    by (simp_all add: pmm_fresh_def qos_pmm_reset_def pmm_frames_def)
  have fr: "pmm_fresh ?s1" "pmm_frames ?s1 = take 4096 (mmap_pages (boot_entries bi))"
    using pmm_entries_frames [OF fresh0(1), of 0 bi] mm fresh0(2)
    by (auto simp: mmap_ok_def boot_entries_def)
  have z: "g_frame_count ?s1 = 0 \<longleftrightarrow> mmap_pages (boot_entries bi) = []"
    using arg_cong [OF fr(2), of length] by (auto simp: pmm_frames_def unat_eq_zero min_def split: if_splits)
  note sh = qos_pmm_init_shape [OF bi, of ks ke a]
  show "r = (if mmap_pages (boot_entries bi) = [] then -1 else 0)" using sh z r by auto
  assume "r = 0"
  then have "g_frame_count ?s1 \<noteq> 0" using sh(1) r by auto
  then have "reserves (boot_reserved ks ke a bi) ?s1 s" using sh(2) r by auto
  from reserves_pool [OF this fr(1)] distinct_mmap_pages [OF mm]
  show "pmm_inv s \<and> pmm_pool s = (take QOS_PMM_MAX_PAGES (mmap_pages (boot_entries bi)),
      {f \<in> set (take QOS_PMM_MAX_PAGES (mmap_pages (boot_entries bi))). \<not> boot_reserved ks ke a bi f})"
    by (simp add: pmm_inv_def pmm_pool_def fr(2))
qed

lemma demo_boot_pages:
  "mmap_ok (boot_entries demo_boot)" "mmap_pages (boot_entries demo_boot) = [0x200000, 0x201000, 0x202000]"
  by (simp_all add: mmap_ok_def boot_entries_def demo_boot_def entry_fits_def mmap_pages_def usable_entry_def
      whole_pages_def upt_rec)

lemma demo_boot_init:
  "\<exists>s. qos_pmm_init 0 0 (Some (0x202000, demo_boot)) = (0, s) \<and> pmm_inv s \<and>
     pmm_pool s = ([0x200000, 0x201000, 0x202000], {0x200000, 0x201000})"
proof -
  obtain r s where r: "qos_pmm_init 0 0 (Some (0x202000, demo_boot)) = (r, s)" by fastforce
  have bi: "bi_magic demo_boot = QOS_BOOT_MAGIC" "bi_mmap_entry_count demo_boot \<noteq> 0"
    "unat (bi_mmap_entry_count demo_boot) \<le> QOS_MMAP_MAX_ENTRIES"
    by (simp_all add: demo_boot_def)
  have "{f \<in> set [0x200000, 0x201000, 0x202000]. \<not> boot_reserved 0 0 0x202000 demo_boot f} = {0x200000, 0x201000}"
    by (auto simp: boot_reserved_def in_range_def demo_boot_def)
  with pmm_init_pool_aux [OF bi demo_boot_pages(1) r] r show ?thesis by (simp add: demo_boot_pages(2))
qed

section \<open>Properties\<close>

text \<open>
  C10. The page allocator refines a pool of frames. From any well-formed state, any sequence of
  \<open>qos_pmm_alloc_page\<close> and \<open>qos_pmm_free_page\<close> calls gives the results of \<open>pool_step\<close>: an allocation
  returns the first free frame and takes it out of the free set (so no frame is handed out twice),
  or \<open>QOS_PMM_PAGE_NONE\<close> when none is free; a release is accepted exactly for a frame of the pool
  that is not free (a double release is rejected); the counters report the sizes of the pool.
\<close>

theorem pmm_refines_pool:
  assumes "pmm_inv s"
  shows "\<exists>s'. run_ops pmm_step xs s = (fst (run_ops pool_step xs (pmm_pool s)), s') \<and>
    pmm_inv s' \<and> pmm_pool s' = snd (run_ops pool_step xs (pmm_pool s)) \<and>
    unat (qos_pmm_free_pages s') = card (snd (pmm_pool s')) \<and>
    unat (qos_pmm_total_pages s') = length (fst (pmm_pool s'))"
proof -
  obtain s' where s': "run_ops pmm_step xs s = (fst (run_ops pool_step xs (pmm_pool s)), s')"
    "pmm_inv s'" "pmm_pool s' = snd (run_ops pool_step xs (pmm_pool s))"
    using pmm_sim.sim_run [OF assms] by blast
  have "inj_on (g_frames s') {i. i < unat (g_frame_count s') \<and> \<not> g_used s' i}"
    using s'(2) by (auto simp: pmm_inv_def pmm_frames_def distinct_map intro: inj_on_subset)
  then have "unat (qos_pmm_free_pages s') = card (snd (pmm_pool s'))"
    using s'(2) by (simp add: pmm_inv_def pmm_ok_def pmm_pool_def pmm_free_set_def card_image qos_pmm_free_pages_def)
  moreover have "unat (qos_pmm_total_pages s') = length (fst (pmm_pool s'))"
    by (simp add: pmm_pool_def pmm_frames_def qos_pmm_total_pages_def)
  ultimately show ?thesis using s' by blast
qed

theorem pmm_refines_pool_witness:
  "\<exists>s. pmm_inv s \<and> snd (pmm_pool s) = {0x200000, 0x201000} \<and>
     fst (run_ops pmm_step [AllocPage, AllocPage, AllocPage, FreePage 0x200000, FreePage 0x200000,
       FreePage 0x300000] s) = [Inl 0x200000, Inl 0x201000, Inl QOS_PMM_PAGE_NONE, Inr 0, Inr (-1), Inr (-1)]"
proof -
  obtain s where s: "pmm_inv s" "pmm_pool s = ([0x200000, 0x201000, 0x202000], {0x200000, 0x201000})"
    using demo_boot_init by blast
  have "fst (run_ops pool_step [AllocPage, AllocPage, AllocPage, FreePage 0x200000, FreePage 0x200000,
      FreePage 0x300000] (pmm_pool s)) =
    [Inl 0x200000, Inl 0x201000, Inl QOS_PMM_PAGE_NONE, Inr 0, Inr (-1), Inr (-1)]"
    by (simp add: s(2) Let_def)
  then show ?thesis
    using s pmm_refines_pool [OF s(1), of "[AllocPage, AllocPage, AllocPage, FreePage 0x200000,
      FreePage 0x200000, FreePage 0x300000]"]
    by (intro exI [of _ s]) auto
qed

text \<open>
  C19. What start-up makes available. For boot information with the right magic and entry count,
  whose usable memory entries neither wrap around nor overlap, \<open>qos_pmm_init\<close> succeeds exactly when
  there is a whole usable page, and then the pool holds the first 4096 whole pages of the usable
  entries in memory-map order, free exactly when they start outside low memory, the kernel image,
  the boot information and the initramfs.
\<close>

theorem pmm_init_pool:
  assumes "bi_magic bi = QOS_BOOT_MAGIC" "bi_mmap_entry_count bi \<noteq> 0"
    "unat (bi_mmap_entry_count bi) \<le> QOS_MMAP_MAX_ENTRIES" "mmap_ok (boot_entries bi)"
    "qos_pmm_init ks ke (Some (a, bi)) = (r, s)"
  shows "r = (if mmap_pages (boot_entries bi) = [] then -1 else 0) \<and>
    (r = 0 \<longrightarrow> pmm_inv s \<and>
       pmm_pool s = (take QOS_PMM_MAX_PAGES (mmap_pages (boot_entries bi)),
         {f \<in> set (take QOS_PMM_MAX_PAGES (mmap_pages (boot_entries bi))). \<not> boot_reserved ks ke a bi f}))"
  using pmm_init_pool_aux [OF assms] by blast

theorem pmm_init_pool_witness:
  "\<exists>s. qos_pmm_init 0 0 (Some (0x202000, demo_boot)) = (0, s) \<and>
     pmm_frames s = [0x200000, 0x201000, 0x202000]"
proof -
  obtain r s where r: "qos_pmm_init 0 0 (Some (0x202000, demo_boot)) = (r, s)" by fastforce
  have bi: "bi_magic demo_boot = QOS_BOOT_MAGIC" "bi_mmap_entry_count demo_boot \<noteq> 0"
    "unat (bi_mmap_entry_count demo_boot) \<le> QOS_MMAP_MAX_ENTRIES"
    by (simp_all add: demo_boot_def)
  from pmm_init_pool [OF bi demo_boot_pages(1) r] r show ?thesis
    by (simp add: demo_boot_pages(2) pmm_pool_def)
qed

text \<open>
  C20. The first page of an unaligned initramfs is not reserved. After a successful start-up, a frame
  that contains the first bytes of the initramfs but starts before it, and is not reserved for
  another reason, is in the free set, so that it can be handed out.
\<close>

theorem pmm_initramfs_first_page_free:
  assumes bi: "bi_magic bi = QOS_BOOT_MAGIC" "bi_mmap_entry_count bi \<noteq> 0"
      "unat (bi_mmap_entry_count bi) \<le> QOS_MMAP_MAX_ENTRIES" "mmap_ok (boot_entries bi)"
      "qos_pmm_init ks ke (Some (a, bi)) = (0, s)"
    and f: "f \<in> set (pmm_frames s)" "f < bi_initramfs_addr bi" "bi_initramfs_addr bi < f + 4096"
      "bi_initramfs_size bi \<noteq> 0" "0x100000 \<le> f" "\<not> (ks \<le> f \<and> f < ke)" "\<not> in_range a sizeof_boot_info f"
  shows "f \<in> snd (pmm_pool s)"
proof -
  have p: "pmm_pool s = (take 4096 (mmap_pages (boot_entries bi)),
      {f \<in> set (take 4096 (mmap_pages (boot_entries bi))). \<not> boot_reserved ks ke a bi f})"
    using pmm_init_pool_aux(2) [OF bi] by simp
  moreover have "\<not> boot_reserved ks ke a bi f"
    using f by (auto simp: boot_reserved_def in_range_def)
  ultimately show ?thesis using f(1) by (simp add: pmm_pool_def)
qed

theorem pmm_initramfs_first_page_free_witness:
  "\<exists>s. qos_pmm_init 0 0 (Some (0x202000, demo_boot)) = (0, s) \<and>
     bi_initramfs_addr demo_boot = 0x201800 \<and> 0x201000 \<in> snd (pmm_pool s)"
proof -
  obtain s where s: "qos_pmm_init 0 0 (Some (0x202000, demo_boot)) = (0, s)"
    "pmm_frames s = [0x200000, 0x201000, 0x202000]"
    using demo_boot_init by (auto simp: pmm_pool_def)
  have bi: "bi_magic demo_boot = QOS_BOOT_MAGIC" "bi_mmap_entry_count demo_boot \<noteq> 0"
    "unat (bi_mmap_entry_count demo_boot) \<le> QOS_MMAP_MAX_ENTRIES"
    by (simp_all add: demo_boot_def)
  have "0x201000 \<in> snd (pmm_pool s)"
    by (rule pmm_initramfs_first_page_free [OF bi demo_boot_pages(1) s(1)])
      (simp_all add: s(2) demo_boot_def in_range_def)
  with s show ?thesis by (simp add: demo_boot_def)
qed

end
