(* ===== verification/Vmm.thy ===== *)
theory Vmm
  imports Boot
begin

text \<open>
  The virtual memory manager of \<^verbatim>\<open>src/c-os/kernel/mm/mm.c\<close>: 64 address spaces of at most 2048 page
  mappings each, and a current address space. The parallel arrays \<open>g_vas\<close>, \<open>g_pas\<close>, \<open>g_vflags\<close> and
  \<open>g_vused\<close> are an array of slots per address space. The specification (\<open>as_step\<close>) is a finite map
  from page addresses to physical page and flags for each address space.
\<close>

section \<open>Model\<close>

abbreviation (input) QOS_VMM_MAX_MAPPINGS :: nat where "QOS_VMM_MAX_MAPPINGS \<equiv> 2048"
abbreviation (input) QOS_VMM_MAX_AS :: nat where "QOS_VMM_MAX_AS \<equiv> 64"

record vmm_slot =
  v_va :: u64
  v_pa :: u64
  v_flags :: u32
  v_used :: bool

record vmm =
  vmm_slots :: "nat \<Rightarrow> vmm_slot arr"
  g_vmm_asid :: u32

definition vmm_slot0 :: vmm_slot where
  "vmm_slot0 = \<lparr>v_va = 0, v_pa = 0, v_flags = 0, v_used = False\<rparr>"

definition qos_vmm_reset :: vmm where
  "qos_vmm_reset = \<lparr>vmm_slots = (\<lambda>_ _. vmm_slot0), g_vmm_asid = 0\<rparr>"

definition asid_valid :: "u32 \<Rightarrow> bool" where
  "asid_valid asid \<longleftrightarrow> unat asid < QOS_VMM_MAX_AS"

definition qos_vmm_set_asid :: "u32 \<Rightarrow> vmm \<Rightarrow> vmm" where
  "qos_vmm_set_asid asid s = (if asid_valid asid then s\<lparr>g_vmm_asid := asid\<rparr> else s)"

definition qos_vmm_get_asid :: "vmm \<Rightarrow> u32" where
  "qos_vmm_get_asid s = g_vmm_asid s"

definition vmm_find :: "u32 \<Rightarrow> u64 \<Rightarrow> vmm \<Rightarrow> nat option" where
  "vmm_find asid page_va s =
     (if \<not> asid_valid asid then None
      else find_key QOS_VMM_MAX_MAPPINGS v_used v_va (vmm_slots s (unat asid)) page_va)"

definition vmm_free_slot :: "u32 \<Rightarrow> vmm \<Rightarrow> nat option" where
  "vmm_free_slot asid s =
     (if \<not> asid_valid asid then None
      else find_free QOS_VMM_MAX_MAPPINGS v_used (vmm_slots s (unat asid)))"

definition vmm_put :: "u32 \<Rightarrow> nat \<Rightarrow> vmm_slot \<Rightarrow> vmm \<Rightarrow> vmm" where
  "vmm_put asid i r s = s\<lparr>vmm_slots := (vmm_slots s)(unat asid := (vmm_slots s (unat asid))(i := r))\<rparr>"

definition qos_vmm_map_as :: "u32 \<Rightarrow> u64 \<Rightarrow> u64 \<Rightarrow> u32 \<Rightarrow> vmm \<Rightarrow> int \<times> vmm" where
  "qos_vmm_map_as asid va pa flags s =
     (let page_va = align_down va in
      if \<not> asid_valid asid then (-1, s)
      else if flags = 0 then (-1, s)
      else if va AND (QOS_PAGE_SIZE - 1) \<noteq> 0 \<or> pa AND (QOS_PAGE_SIZE - 1) \<noteq> 0 then (-1, s)
      else case vmm_find asid page_va s of
        Some idx \<Rightarrow>
          (0, vmm_put asid idx ((vmm_slots s (unat asid) idx)\<lparr>v_pa := pa, v_flags := flags\<rparr>) s)
      | None \<Rightarrow>
          (case vmm_free_slot asid s of
             None \<Rightarrow> (-1, s)
           | Some idx \<Rightarrow>
               (0, vmm_put asid idx
                     ((vmm_slots s (unat asid) idx)\<lparr>v_used := True, v_va := page_va, v_pa := pa, v_flags := flags\<rparr>) s)))"

definition qos_vmm_map :: "u64 \<Rightarrow> u64 \<Rightarrow> u32 \<Rightarrow> vmm \<Rightarrow> int \<times> vmm" where
  "qos_vmm_map va pa flags s = qos_vmm_map_as (g_vmm_asid s) va pa flags s"

definition qos_vmm_unmap_as :: "u32 \<Rightarrow> u64 \<Rightarrow> vmm \<Rightarrow> int \<times> vmm" where
  "qos_vmm_unmap_as asid va s =
     (let page_va = align_down va in
      if \<not> asid_valid asid then (-1, s)
      else if va AND (QOS_PAGE_SIZE - 1) \<noteq> 0 then (-1, s)
      else case vmm_find asid page_va s of
        None \<Rightarrow> (-1, s)
      | Some idx \<Rightarrow> (0, vmm_put asid idx vmm_slot0 s))"

definition qos_vmm_unmap :: "u64 \<Rightarrow> vmm \<Rightarrow> int \<times> vmm" where
  "qos_vmm_unmap va s = qos_vmm_unmap_as (g_vmm_asid s) va s"

definition qos_vmm_translate_as :: "u32 \<Rightarrow> u64 \<Rightarrow> vmm \<Rightarrow> u64" where
  "qos_vmm_translate_as asid va s =
     (let page_va = align_down va; offset = va AND (QOS_PAGE_SIZE - 1) in
      if \<not> asid_valid asid then 0
      else case vmm_find asid page_va s of
        None \<Rightarrow> 0
      | Some idx \<Rightarrow> v_pa (vmm_slots s (unat asid) idx) + offset)"

definition qos_vmm_translate :: "u64 \<Rightarrow> vmm \<Rightarrow> u64" where
  "qos_vmm_translate va s = qos_vmm_translate_as (g_vmm_asid s) va s"

definition qos_vmm_flags_as :: "u32 \<Rightarrow> u64 \<Rightarrow> vmm \<Rightarrow> u32" where
  "qos_vmm_flags_as asid va s =
     (let page_va = align_down va in
      if \<not> asid_valid asid then 0
      else case vmm_find asid page_va s of
        None \<Rightarrow> 0
      | Some idx \<Rightarrow> v_flags (vmm_slots s (unat asid) idx))"

definition qos_vmm_flags :: "u64 \<Rightarrow> vmm \<Rightarrow> u32" where
  "qos_vmm_flags va s = qos_vmm_flags_as (g_vmm_asid s) va s"

definition qos_vmm_mapping_count_as :: "u32 \<Rightarrow> vmm \<Rightarrow> u32" where
  "qos_vmm_mapping_count_as asid s =
     (if \<not> asid_valid asid then 0
      else word_of_nat (slot_count (\<lambda>i. v_used (vmm_slots s (unat asid) i)) QOS_VMM_MAX_MAPPINGS))"

definition qos_vmm_mapping_count :: "vmm \<Rightarrow> u32" where
  "qos_vmm_mapping_count s = qos_vmm_mapping_count_as (g_vmm_asid s) s"

text \<open>The loop of \<open>qos_vmm_mapping_get_as\<close>: the slot of the given ordinal.\<close>

function vmm_get_loop :: "vmm_slot arr \<Rightarrow> u32 \<Rightarrow> nat \<Rightarrow> u32 \<Rightarrow> vmm_slot option" where
  "vmm_get_loop slots ordinal i seen =
     (if i < QOS_VMM_MAX_MAPPINGS then
        if v_used (slots i) then
          if seen = ordinal then Some (slots i)
          else vmm_get_loop slots ordinal (Suc i) (seen + 1)
        else vmm_get_loop slots ordinal (Suc i) seen
      else None)"
  by pat_completeness auto
termination
  by (relation "measure (\<lambda>(slots, ordinal, i, seen). QOS_VMM_MAX_MAPPINGS - i)") auto

declare vmm_get_loop.simps [simp del]

text \<open>The flag is that the three out-pointers are not null; the option is what they receive.\<close>

definition qos_vmm_mapping_get_as :: "u32 \<Rightarrow> u32 \<Rightarrow> bool \<Rightarrow> vmm \<Rightarrow> int \<times> (u64 \<times> u64 \<times> u32) option" where
  "qos_vmm_mapping_get_as asid ordinal outs s =
     (if \<not> asid_valid asid \<or> \<not> outs then (-1, None)
      else case vmm_get_loop (vmm_slots s (unat asid)) ordinal 0 0 of
        Some r \<Rightarrow> (0, Some (v_va r, v_pa r, v_flags r))
      | None \<Rightarrow> (-1, None))"

definition qos_vmm_mapping_get :: "u32 \<Rightarrow> bool \<Rightarrow> vmm \<Rightarrow> int \<times> (u64 \<times> u64 \<times> u32) option" where
  "qos_vmm_mapping_get ordinal outs s = qos_vmm_mapping_get_as (g_vmm_asid s) ordinal outs s"

section \<open>Specification\<close>

type_synonym page_map = "u64 \<rightharpoonup> u64 \<times> u32"

definition vmm_maps :: "vmm \<Rightarrow> u32 \<Rightarrow> page_map" where
  "vmm_maps s asid = (if asid_valid asid
     then tbl_map QOS_VMM_MAX_MAPPINGS v_used v_va (\<lambda>r. (v_pa r, v_flags r)) (vmm_slots s (unat asid))
     else Map.empty)"

definition vmm_inv :: "vmm \<Rightarrow> bool" where
  "vmm_inv s \<longleftrightarrow> asid_valid (g_vmm_asid s) \<and>
     (\<forall>a < QOS_VMM_MAX_AS. uniq_keys QOS_VMM_MAX_MAPPINGS v_used v_va (vmm_slots s a) \<and>
       (\<forall>va \<in> keys QOS_VMM_MAX_MAPPINGS v_used v_va (vmm_slots s a). va AND 4095 = 0))"

datatype vmm_op = MapAs u32 u64 u64 u32 | UnmapAs u32 u64

fun as_step :: "vmm_op \<Rightarrow> (u32 \<Rightarrow> page_map) \<Rightarrow> int \<times> (u32 \<Rightarrow> page_map)" where
  "as_step (MapAs a va pa fl) m =
     (if unat a < QOS_VMM_MAX_AS \<and> fl \<noteq> 0 \<and> va AND 4095 = 0 \<and> pa AND 4095 = 0 \<and>
         (va \<in> dom (m a) \<or> card (dom (m a)) < QOS_VMM_MAX_MAPPINGS)
      then (0, m(a := (m a)(va \<mapsto> (pa, fl)))) else (-1, m))"
| "as_step (UnmapAs a va) m =
     (if unat a < QOS_VMM_MAX_AS \<and> va \<in> dom (m a) then (0, m(a := (m a)(va := None))) else (-1, m))"

fun vmm_step :: "vmm_op \<Rightarrow> vmm \<Rightarrow> int \<times> vmm" where
  "vmm_step (MapAs a va pa fl) s = qos_vmm_map_as a va pa fl s"
| "vmm_step (UnmapAs a va) s = qos_vmm_unmap_as a va s"

section \<open>Library\<close>

lemma vmm_slots_put: "vmm_slots (vmm_put a i r s) b = (if b = unat a then (vmm_slots s b)(i := r) else vmm_slots s b)"
  by (simp add: vmm_put_def)

lemma vmm_find_None: "asid_valid a \<Longrightarrow> vmm_find a va s = None \<longleftrightarrow> va \<notin> dom (vmm_maps s a)"
  by (simp add: vmm_find_def vmm_maps_def dom_tbl_map find_key_None)

lemma vmm_find_Some:
  assumes "vmm_find a va s = Some i"
  shows "asid_valid a" "i < QOS_VMM_MAX_MAPPINGS" "v_used (vmm_slots s (unat a) i)" "v_va (vmm_slots s (unat a) i) = va"
    "vmm_maps s a va = Some (v_pa (vmm_slots s (unat a) i), v_flags (vmm_slots s (unat a) i))"
proof -
  show a: "asid_valid a" using assms by (auto simp: vmm_find_def split: if_splits)
  then have f: "find_key QOS_VMM_MAX_MAPPINGS v_used v_va (vmm_slots s (unat a)) va = Some i"
    using assms by (simp add: vmm_find_def)
  from find_key_Some [OF this] show "i < QOS_VMM_MAX_MAPPINGS" "v_used (vmm_slots s (unat a) i)"
    "v_va (vmm_slots s (unat a) i) = va" by simp_all
  show "vmm_maps s a va = Some (v_pa (vmm_slots s (unat a) i), v_flags (vmm_slots s (unat a) i))"
    using a f by (simp add: vmm_maps_def tbl_map_def)
qed

lemma vmm_inv_uniq:
  assumes "vmm_inv s" "asid_valid a"
  shows "uniq_keys QOS_VMM_MAX_MAPPINGS v_used v_va (vmm_slots s (unat a))"
  using assms by (simp add: vmm_inv_def asid_valid_def)

lemma vmm_dom: "asid_valid a \<Longrightarrow> dom (vmm_maps s a) = keys QOS_VMM_MAX_MAPPINGS v_used v_va (vmm_slots s (unat a))"
  by (simp add: vmm_maps_def dom_tbl_map)

lemma vmm_card_dom:
  assumes "vmm_inv s" "asid_valid a"
  shows "card (dom (vmm_maps s a)) = card (live QOS_VMM_MAX_MAPPINGS v_used (vmm_slots s (unat a)))"
  using card_keys [OF vmm_inv_uniq [OF assms]] by (simp add: vmm_dom assms(2))

lemma vmm_free_slot_None:
  assumes "vmm_inv s" "asid_valid a"
  shows "vmm_free_slot a s = None \<longleftrightarrow> \<not> card (dom (vmm_maps s a)) < QOS_VMM_MAX_MAPPINGS"
  using card_live_le [of QOS_VMM_MAX_MAPPINGS v_used "vmm_slots s (unat a)"]
  by (auto simp: vmm_card_dom assms vmm_free_slot_def find_free_None)

lemma vmm_put_inv:
  assumes "vmm_inv s" "asid_valid a"
    and "uniq_keys QOS_VMM_MAX_MAPPINGS v_used v_va ((vmm_slots s (unat a))(i := r))"
    and "\<And>va. va \<in> keys QOS_VMM_MAX_MAPPINGS v_used v_va ((vmm_slots s (unat a))(i := r)) \<Longrightarrow> va AND 4095 = 0"
  shows "vmm_inv (vmm_put a i r s)"
  using assms unfolding vmm_inv_def vmm_slots_put by (auto simp: vmm_put_def)

lemma vmm_maps_put:
  assumes "asid_valid a"
    "tbl_map QOS_VMM_MAX_MAPPINGS v_used v_va (\<lambda>r. (v_pa r, v_flags r)) ((vmm_slots s (unat a))(i := r)) = m"
  shows "vmm_maps (vmm_put a i r s) = (vmm_maps s)(a := m)"
  using assms by (auto simp: vmm_maps_def vmm_slots_put word_unat_eq_iff [symmetric] intro!: ext)

lemma vmm_inv_keys:
  "vmm_inv s \<Longrightarrow> asid_valid a \<Longrightarrow> va \<in> keys QOS_VMM_MAX_MAPPINGS v_used v_va (vmm_slots s (unat a)) \<Longrightarrow>
    va AND 4095 = 0"
  unfolding vmm_inv_def asid_valid_def by blast

lemma vmm_map_replace:
  fixes pa fl
  assumes inv: "vmm_inv s" and f: "vmm_find a va s = Some i"
  defines "r \<equiv> (vmm_slots s (unat a) i)\<lparr>v_pa := pa, v_flags := fl\<rparr>"
  shows "vmm_inv (vmm_put a i r s)" "vmm_maps (vmm_put a i r s) = (vmm_maps s)(a := (vmm_maps s a)(va \<mapsto> (pa, fl)))"
proof -
  note i = vmm_find_Some [OF f]
  have r: "v_used r" "v_va r = v_va (vmm_slots s (unat a) i)" "v_va r = va" "v_pa r = pa" "v_flags r = fl"
    using i by (simp_all add: r_def)
  show "vmm_inv (vmm_put a i r s)"
    using i r by (intro vmm_put_inv [OF inv i(1)])
      (simp_all add: uniq_keys_replace vmm_inv_uniq [OF inv i(1)] keys_replace vmm_inv_keys [OF inv i(1)])
  show "vmm_maps (vmm_put a i r s) = (vmm_maps s)(a := (vmm_maps s a)(va \<mapsto> (pa, fl)))"
    using i r tbl_map_replace [OF vmm_inv_uniq [OF inv i(1)] i(2,3) r(1,2), where V = "\<lambda>r. (v_pa r, v_flags r)"]
    by (intro vmm_maps_put) (simp_all add: vmm_maps_def)
qed

lemma vmm_map_insert:
  fixes pa fl
  assumes inv: "vmm_inv s" and f: "vmm_find a va s = None" and a: "asid_valid a" and va: "va AND 4095 = 0"
    and fr: "vmm_free_slot a s = Some i"
  defines "r \<equiv> (vmm_slots s (unat a) i)\<lparr>v_used := True, v_va := va, v_pa := pa, v_flags := fl\<rparr>"
  shows "vmm_inv (vmm_put a i r s)" "vmm_maps (vmm_put a i r s) = (vmm_maps s)(a := (vmm_maps s a)(va \<mapsto> (pa, fl)))"
proof -
  have i: "i < QOS_VMM_MAX_MAPPINGS" "\<not> v_used (vmm_slots s (unat a) i)"
    using fr a by (auto simp: vmm_free_slot_def dest: find_free_Some)
  have r: "v_used r" "v_va r = va" "v_pa r = pa" "v_flags r = fl" by (simp_all add: r_def)
  have new: "v_va r \<notin> keys QOS_VMM_MAX_MAPPINGS v_used v_va (vmm_slots s (unat a))"
    using f a r by (simp add: vmm_find_None vmm_dom)
  show "vmm_inv (vmm_put a i r s)"
    using i r va new by (intro vmm_put_inv [OF inv a])
      (auto simp: uniq_keys_insert vmm_inv_uniq [OF inv a] keys_insert vmm_inv_keys [OF inv a])
  show "vmm_maps (vmm_put a i r s) = (vmm_maps s)(a := (vmm_maps s a)(va \<mapsto> (pa, fl)))"
    using a r tbl_map_insert [OF vmm_inv_uniq [OF inv a] i r(1) new, where V = "\<lambda>r. (v_pa r, v_flags r)"]
    by (intro vmm_maps_put) (simp_all add: vmm_maps_def)
qed

lemma vmm_unmap_found:
  assumes inv: "vmm_inv s" and f: "vmm_find a va s = Some i"
  shows "vmm_inv (vmm_put a i vmm_slot0 s)"
    "vmm_maps (vmm_put a i vmm_slot0 s) = (vmm_maps s)(a := (vmm_maps s a)(va := None))"
proof -
  note i = vmm_find_Some [OF f] and u = vmm_inv_uniq [OF inv vmm_find_Some(1) [OF f]]
  have r: "\<not> v_used vmm_slot0" by (simp add: vmm_slot0_def)
  show "vmm_inv (vmm_put a i vmm_slot0 s)"
    using i r vmm_inv_keys [OF inv i(1)] by (intro vmm_put_inv [OF inv i(1)])
      (auto simp: uniq_keys_remove u keys_remove)
  show "vmm_maps (vmm_put a i vmm_slot0 s) = (vmm_maps s)(a := (vmm_maps s a)(va := None))"
    using i tbl_map_remove [OF u i(2,3) r, where V = "\<lambda>r. (v_pa r, v_flags r)"] by (intro vmm_maps_put) (simp_all add: vmm_maps_def)
qed

lemma vmm_map_refines:
  assumes inv: "vmm_inv s"
  shows "\<exists>s'. qos_vmm_map_as a va pa fl s = (fst (as_step (MapAs a va pa fl) (vmm_maps s)), s') \<and>
    vmm_inv s' \<and> vmm_maps s' = snd (as_step (MapAs a va pa fl) (vmm_maps s))"
proof (cases "asid_valid a \<and> fl \<noteq> 0 \<and> va AND 4095 = 0 \<and> pa AND 4095 = 0")
  case False
  then have "qos_vmm_map_as a va pa fl s = (-1, s)" by (auto simp: qos_vmm_map_as_def Let_def)
  with False inv show ?thesis by (auto simp: asid_valid_def)
next
  case ok: True
  then have al: "align_down va = va" by (simp add: align_down_id)
  show ?thesis
  proof (cases "vmm_find a va s")
    case (Some i)
    have "va \<in> dom (vmm_maps s a)" using vmm_find_Some(5) [OF Some] by blast
    then show ?thesis
      using ok Some al vmm_map_replace [OF inv Some] by (simp add: qos_vmm_map_as_def asid_valid_def)
  next
    case None
    then have new: "va \<notin> dom (vmm_maps s a)" using ok by (simp add: vmm_find_None)
    show ?thesis
    proof (cases "vmm_free_slot a s")
      case (Some i)
      then have "card (dom (vmm_maps s a)) < 2048" using vmm_free_slot_None [OF inv, of a] ok by auto
      then show ?thesis
        using ok None Some al vmm_map_insert [OF inv None _ _ Some] by (simp add: qos_vmm_map_as_def asid_valid_def)
    next
      case no: None
      then have "\<not> card (dom (vmm_maps s a)) < 2048" using vmm_free_slot_None [OF inv, of a] ok by auto
      then show ?thesis using ok None no al new inv by (simp add: qos_vmm_map_as_def)
    qed
  qed
qed

lemma vmm_dom_aligned: "vmm_inv s \<Longrightarrow> va \<in> dom (vmm_maps s a) \<Longrightarrow> asid_valid a \<and> va AND 4095 = 0"
proof -
  assume inv: "vmm_inv s" and va: "va \<in> dom (vmm_maps s a)"
  then have a: "asid_valid a" by (auto simp: vmm_maps_def split: if_splits)
  with va vmm_inv_keys [OF inv a, of va] show ?thesis by (simp add: vmm_dom)
qed

lemma vmm_unmap_refines:
  assumes inv: "vmm_inv s"
  shows "\<exists>s'. qos_vmm_unmap_as a va s = (fst (as_step (UnmapAs a va) (vmm_maps s)), s') \<and>
    vmm_inv s' \<and> vmm_maps s' = snd (as_step (UnmapAs a va) (vmm_maps s))"
proof (cases "va \<in> dom (vmm_maps s a)")
  case True
  note a = vmm_dom_aligned [OF inv True]
  then obtain i where i: "vmm_find a va s = Some i" using True vmm_find_None [of a va s] by auto
  then show ?thesis
    using True a vmm_unmap_found [OF inv i] by (simp add: qos_vmm_unmap_as_def align_down_id asid_valid_def)
next
  case False
  then have "asid_valid a \<Longrightarrow> va AND 4095 = 0 \<Longrightarrow> vmm_find a (align_down va) s = None"
    by (simp add: align_down_id vmm_find_None)
  then have "qos_vmm_unmap_as a va s = (-1, s)" by (auto simp: qos_vmm_unmap_as_def Let_def)
  with False inv show ?thesis by auto
qed

interpretation vmm_sim: simulation vmm_step as_step vmm_maps vmm_inv
proof (unfold_locales, goal_cases)
  case (1 s x)
  then show ?case
    by (cases x) (simp_all only: vmm_step.simps vmm_map_refines vmm_unmap_refines)
qed

lemma vmm_translate_map:
  "qos_vmm_translate_as a va s =
     (case vmm_maps s a (align_down va) of None \<Rightarrow> 0 | Some (pa, _) \<Rightarrow> pa + (va AND 4095))"
  "qos_vmm_flags_as a va s = (case vmm_maps s a (align_down va) of None \<Rightarrow> 0 | Some (_, fl) \<Rightarrow> fl)"
  by (auto simp: qos_vmm_translate_as_def qos_vmm_flags_as_def vmm_find_def vmm_maps_def tbl_map_def Let_def
      split: option.splits)

lemma vmm_count_map:
  assumes "vmm_inv s"
  shows "unat (qos_vmm_mapping_count_as a s) = card (dom (vmm_maps s a))"
proof (cases "asid_valid a")
  case True
  have "card (live 2048 v_used (vmm_slots s (unat a))) < 4294967296"
    by (rule le_less_trans [OF card_live_le]) simp
  with True show ?thesis
    by (simp add: qos_vmm_mapping_count_as_def slot_count_live vmm_card_dom [OF assms] unat_u32_of_nat)
next
  case False
  then show ?thesis by (simp add: qos_vmm_mapping_count_as_def vmm_maps_def)
qed

lemma vmm_inv_reset: "vmm_inv qos_vmm_reset" "vmm_maps qos_vmm_reset = (\<lambda>_. Map.empty)"
proof -
  have k: "keys 2048 v_used v_va (\<lambda>_. vmm_slot0) = {}" by (rule keys_empty) (simp add: vmm_slot0_def)
  have "uniq_keys 2048 v_used v_va (\<lambda>_. vmm_slot0)" by (rule uniq_keys_empty) (simp add: vmm_slot0_def)
  with k show "vmm_inv qos_vmm_reset" by (simp add: vmm_inv_def qos_vmm_reset_def asid_valid_def)
  have "dom (vmm_maps qos_vmm_reset a) = {}" for a
    using k vmm_dom [of a qos_vmm_reset]
    by (cases "asid_valid a") (simp_all add: qos_vmm_reset_def vmm_maps_def)
  then show "vmm_maps qos_vmm_reset = (\<lambda>_. Map.empty)" by auto
qed

lemma vmm_get_loop_nth:
  assumes "unat seen + (2048 - i) < 4294967296"
  shows "vmm_get_loop slots ordinal i seen =
    (let us = filter (\<lambda>j. v_used (slots j)) [i..<2048] in
     if unat seen \<le> unat ordinal \<and> unat ordinal - unat seen < length us
     then Some (slots (us ! (unat ordinal - unat seen))) else None)"
  using assms
proof (induction slots ordinal i seen rule: vmm_get_loop.induct)
  case (1 slots ordinal i seen)
  show ?case
  proof (cases "i < 2048")
    case False
    then show ?thesis by (subst vmm_get_loop.simps) simp
  next
    case True
    then have u: "[i..<2048] = i # [Suc i..<2048]" by (simp add: upt_conv_Cons)
    show ?thesis
    proof (cases "v_used (slots i)")
      case False
      with 1(2) [OF True False] True u 1(3) show ?thesis by (subst vmm_get_loop.simps) simp
    next
      case used: True
      show ?thesis
      proof (cases "seen = ordinal")
        case True
        with used \<open>i < 2048\<close> u show ?thesis by (subst vmm_get_loop.simps) simp
      next
        case False
        have s1: "unat (seen + 1) = Suc (unat seen)" using 1(3) True by (simp add: unat_word_ariths)
        have ne: "unat seen \<noteq> unat ordinal" using False by (simp add: word_unat_eq_iff)
        have "vmm_get_loop slots ordinal i seen = vmm_get_loop slots ordinal (Suc i) (seen + 1)"
          using True used False by (subst vmm_get_loop.simps) simp
        then show ?thesis
          using 1(1) [OF True used False] 1(3) True used u s1 ne
          by (auto simp: Let_def nth_Cons' Suc_le_eq)
      qed
    qed
  qed
qed

lemma vmm_get_nth:
  fixes s
  assumes "asid_valid a"
  defines "us \<equiv> filter (\<lambda>j. v_used (vmm_slots s (unat a) j)) [0..<2048]"
  shows "qos_vmm_mapping_get_as a k True s = (if unat k < length us
    then (0, Some (let r = vmm_slots s (unat a) (us ! unat k) in (v_va r, v_pa r, v_flags r))) else (-1, None))"
  using vmm_get_loop_nth [of 0 0 "vmm_slots s (unat a)" k] assms
  by (simp add: qos_vmm_mapping_get_as_def Let_def del: upt_rec_numeral)

lemma vmm_used_length:
  assumes "vmm_inv s" "asid_valid a"
  shows "length (filter (\<lambda>j. v_used (vmm_slots s (unat a) j)) [0..<2048]) = card (dom (vmm_maps s a))"
proof -
  have "length (filter (\<lambda>j. v_used (vmm_slots s (unat a) j)) [0..<2048]) =
      card (set (filter (\<lambda>j. v_used (vmm_slots s (unat a) j)) [0..<2048]))"
    by (rule distinct_card [symmetric]) (rule distinct_filter [OF distinct_upt])
  also have "set (filter (\<lambda>j. v_used (vmm_slots s (unat a) j)) [0..<2048]) =
      live 2048 v_used (vmm_slots s (unat a))" by (auto simp: live_def simp del: upt_rec_numeral)
  finally show ?thesis by (simp add: vmm_card_dom [OF assms])
qed

lemma vmm_maps_slot:
  assumes "vmm_inv s" "asid_valid a"
  shows "vmm_maps s a va = Some (pa, fl) \<longleftrightarrow>
    (\<exists>i<2048. v_used (vmm_slots s (unat a) i) \<and> v_va (vmm_slots s (unat a) i) = va \<and>
      v_pa (vmm_slots s (unat a) i) = pa \<and> v_flags (vmm_slots s (unat a) i) = fl)"
    (is "?L \<longleftrightarrow> ?R")
proof
  assume ?L
  then obtain i where i: "vmm_find a va s = Some i"
    using vmm_find_None [OF assms(2), of va s] by (cases "vmm_find a va s") auto
  show ?R using vmm_find_Some [OF i] \<open>?L\<close> by (intro exI [of _ i]) simp
next
  assume ?R
  then obtain i where i: "i < 2048" "v_used (vmm_slots s (unat a) i)" "v_va (vmm_slots s (unat a) i) = va"
    "v_pa (vmm_slots s (unat a) i) = pa" "v_flags (vmm_slots s (unat a) i) = fl" by blast
  have "vmm_find a va s = Some i"
    using find_key_eqI [OF vmm_inv_uniq [OF assms] i(1-3)] assms(2) by (simp add: vmm_find_def)
  from vmm_find_Some(5) [OF this] i show ?L by simp
qed

section \<open>Properties\<close>

text \<open>
  C9. The mapping tables refine one finite map per address space. From any well-formed state, any
  sequence of \<open>qos_vmm_map_as\<close> and \<open>qos_vmm_unmap_as\<close> calls returns the codes of \<open>as_step\<close> and leaves
  its maps, so a call on one address space changes no other. A mapping is accepted for a valid
  address space, non-zero flags, page-aligned addresses and a page already mapped or room for one
  more of 2048. Translation adds the page offset to the mapped page, and translation, flags and
  mapping count read the map.
\<close>

theorem vmm_refines_maps:
  assumes "vmm_inv s"
  shows "\<exists>s'. run_ops vmm_step xs s = (fst (run_ops as_step xs (vmm_maps s)), s') \<and>
    vmm_inv s' \<and> vmm_maps s' = snd (run_ops as_step xs (vmm_maps s)) \<and>
    (\<forall>a va. qos_vmm_translate_as a va s' =
        (case vmm_maps s' a (align_down va) of None \<Rightarrow> 0 | Some (pa, _) \<Rightarrow> pa + (va AND 4095)) \<and>
      qos_vmm_flags_as a va s' = (case vmm_maps s' a (align_down va) of None \<Rightarrow> 0 | Some (_, fl) \<Rightarrow> fl) \<and>
      unat (qos_vmm_mapping_count_as a s') = card (dom (vmm_maps s' a)))"
proof -
  obtain s' where s': "run_ops vmm_step xs s = (fst (run_ops as_step xs (vmm_maps s)), s')"
    "vmm_inv s'" "vmm_maps s' = snd (run_ops as_step xs (vmm_maps s))"
    using vmm_sim.sim_run [OF assms] by blast
  then show ?thesis using vmm_translate_map [of _ _ s'] vmm_count_map [OF s'(2)] by blast
qed

theorem vmm_refines_maps_witness:
  "vmm_inv qos_vmm_reset \<and>
   (\<exists>s'. run_ops vmm_step [MapAs 1 0x1000 0x8000 3, MapAs 64 0x1000 0x8000 3, MapAs 1 0x1000 0x9000 1,
       UnmapAs 2 0x1000, MapAs 1 0x1001 0x8000 1] qos_vmm_reset = ([0, -1, 0, -1, -1], s') \<and>
     qos_vmm_translate_as 1 0x1234 s' = 0x9234 \<and> qos_vmm_translate_as 2 0x1234 s' = 0)"
proof -
  let ?xs = "[MapAs 1 0x1000 0x8000 3, MapAs 64 0x1000 0x8000 3, MapAs 1 0x1000 0x9000 1,
       UnmapAs 2 0x1000, MapAs 1 0x1001 0x8000 1]"
  have r: "fst (run_ops as_step ?xs (vmm_maps qos_vmm_reset)) = [0, -1, 0, -1, -1]"
    "snd (run_ops as_step ?xs (vmm_maps qos_vmm_reset)) = (\<lambda>_. Map.empty)(1 := [0x1000 \<mapsto> (0x9000, 1)])"
    by (simp_all add: vmm_inv_reset Let_def split_beta)
  have "align_down 0x1234 = 0x1000" by (simp add: align_down_def)
  with r vmm_refines_maps [OF vmm_inv_reset(1), of ?xs] vmm_inv_reset(1) show ?thesis by auto
qed

text \<open>
  C21. Enumeration of an address space. The ordinals below the mapping count list exactly the
  mappings of the address space, and every larger ordinal is rejected.
\<close>

theorem vmm_mapping_get_enumerates:
  assumes inv: "vmm_inv s" and a: "asid_valid a"
  shows "(vmm_maps s a va = Some (pa, fl) \<longleftrightarrow>
      (\<exists>k < qos_vmm_mapping_count_as a s. qos_vmm_mapping_get_as a k True s = (0, Some (va, pa, fl)))) \<and>
    (\<forall>k \<ge> qos_vmm_mapping_count_as a s. qos_vmm_mapping_get_as a k True s = (-1, None))"
proof -
  define us where "us = filter (\<lambda>j. v_used (vmm_slots s (unat a) j)) [0..<2048]"
  have n: "unat (qos_vmm_mapping_count_as a s) = length us"
    using vmm_used_length [OF inv a] vmm_count_map [OF inv, of a] by (simp only: us_def)
  have big: "\<forall>k \<ge> qos_vmm_mapping_count_as a s. qos_vmm_mapping_get_as a k True s = (-1, None)"
    using n vmm_get_nth [OF a, of _ s] unfolding us_def [symmetric] by (auto simp: word_le_nat_alt)
  have us: "j \<in> set us \<longleftrightarrow> j < 2048 \<and> v_used (vmm_slots s (unat a) j)" for j
    by (auto simp: us_def simp del: upt_rec_numeral)
  have "vmm_maps s a va = Some (pa, fl) \<longleftrightarrow> (\<exists>j \<in> set us.
      (v_va (vmm_slots s (unat a) j), v_pa (vmm_slots s (unat a) j), v_flags (vmm_slots s (unat a) j)) = (va, pa, fl))"
    using vmm_maps_slot [OF inv a] us by auto
  also have "\<dots> \<longleftrightarrow> (\<exists>k < length us. (let r = vmm_slots s (unat a) (us ! k) in
      (v_va r, v_pa r, v_flags r)) = (va, pa, fl))"
    unfolding Bex_def in_set_conv_nth Let_def by blast
  also have "\<dots> \<longleftrightarrow> (\<exists>k < qos_vmm_mapping_count_as a s. (let r = vmm_slots s (unat a) (us ! unat k) in
      (v_va r, v_pa r, v_flags r)) = (va, pa, fl))"
    unfolding n [symmetric] by (rule ex_u32_less)
  also have "\<dots> \<longleftrightarrow> (\<exists>k < qos_vmm_mapping_count_as a s. qos_vmm_mapping_get_as a k True s = (0, Some (va, pa, fl)))"
    using vmm_get_nth [OF a, of _ s] n unfolding us_def [symmetric] by (auto simp: word_less_nat_alt)
  finally show ?thesis using big by blast
qed

theorem vmm_mapping_get_enumerates_witness:
  "\<exists>s. vmm_inv s \<and> asid_valid 1 \<and>
     (\<exists>k < qos_vmm_mapping_count_as 1 s. qos_vmm_mapping_get_as 1 k True s = (0, Some (0x1000, 0x8000, 3)))"
proof -
  let ?xs = "[MapAs 1 0x1000 0x8000 3]"
  define s where "s = snd (run_ops vmm_step ?xs qos_vmm_reset)"
  have inv: "vmm_inv s" unfolding s_def by (rule vmm_sim.sim_invar [OF vmm_inv_reset(1)])
  have "vmm_maps s = snd (run_ops as_step ?xs (vmm_maps qos_vmm_reset))"
    unfolding s_def using vmm_sim.sim_run [OF vmm_inv_reset(1), of ?xs] by fastforce
  then have "vmm_maps s 1 0x1000 = Some (0x8000, 3)" by (simp add: vmm_inv_reset)
  moreover have a: "asid_valid 1" by (simp add: asid_valid_def)
  ultimately show ?thesis using vmm_mapping_get_enumerates [OF inv a, of "0x1000" "0x8000" 3] inv by blast
qed

end
