(* ===== verification/Drivers.thy ===== *)
theory Drivers
  imports Prelude
begin

text \<open>
  The driver registry of \<^verbatim>\<open>src/c-os/kernel/drivers/drivers.c\<close>: at most 64 named drivers, some with a
  network-card descriptor whose ring indices the kernel advances. The parallel arrays \<open>g_names\<close>,
  \<open>g_used\<close>, \<open>g_nics\<close> and \<open>g_nic_present\<close> are an array of slots. The specification (\<open>drv_spec\<close>) is a
  finite map from names to an optional descriptor.
\<close>

section \<open>Model\<close>

abbreviation (input) QOS_DRIVERS_MAX :: nat where "QOS_DRIVERS_MAX \<equiv> 64"
abbreviation (input) QOS_DRIVER_NAME_MAX :: nat where "QOS_DRIVER_NAME_MAX \<equiv> 64"

record nic_desc =
  mmio_base :: u64
  nic_irq :: u32
  tx_desc_count :: u16
  rx_desc_count :: u16
  tx_head :: u16
  tx_tail :: u16
  rx_head :: u16
  rx_tail :: u16

record drv_slot =
  d_name :: string
  d_used :: bool
  d_nic :: nic_desc
  d_nic_present :: bool

record drivers =
  drv_slots :: "drv_slot arr"
  drv_g_count :: u32

definition name_valid :: "cstr \<Rightarrow> bool" where
  "name_valid name =
     (case name of
        None \<Rightarrow> False
      | Some n \<Rightarrow> \<not> (length n = 0 \<or> length n \<ge> QOS_DRIVER_NAME_MAX))"

definition find_name :: "string \<Rightarrow> drivers \<Rightarrow> nat option" where
  "find_name name s = find_key QOS_DRIVERS_MAX d_used d_name (drv_slots s) name"

definition drv_free_slot :: "drivers \<Rightarrow> nat option" where
  "drv_free_slot s = find_free QOS_DRIVERS_MAX d_used (drv_slots s)"

definition nic0 :: nic_desc where
  "nic0 = \<lparr>mmio_base = 0, nic_irq = 0, tx_desc_count = 0, rx_desc_count = 0, tx_head = 0, tx_tail = 0,
     rx_head = 0, rx_tail = 0\<rparr>"

definition qos_drivers_reset :: drivers where
  "qos_drivers_reset =
     \<lparr>drv_slots = (\<lambda>_. \<lparr>d_name = [], d_used = False, d_nic = nic0, d_nic_present = False\<rparr>), drv_g_count = 0\<rparr>"

definition qos_drivers_register :: "cstr \<Rightarrow> drivers \<Rightarrow> int \<times> drivers" where
  "qos_drivers_register name s =
     (if \<not> name_valid name then (-1, s)
      else if find_name (the name) s \<noteq> None then (-1, s)
      else case drv_free_slot s of
        None \<Rightarrow> (-1, s)
      | Some slot \<Rightarrow>
          (0, s\<lparr>drv_slots := (drv_slots s)(slot :=
                  (drv_slots s slot)\<lparr>d_name := the name, d_used := True, d_nic_present := False\<rparr>),
                drv_g_count := drv_g_count s + 1\<rparr>))"

definition qos_drivers_loaded :: "cstr \<Rightarrow> drivers \<Rightarrow> int" where
  "qos_drivers_loaded name s =
     (if \<not> name_valid name then 0 else if find_name (the name) s \<noteq> None then 1 else 0)"

definition qos_drivers_count :: "drivers \<Rightarrow> u32" where
  "qos_drivers_count s = drv_g_count s"

definition qos_drivers_register_nic :: "cstr \<Rightarrow> u64 \<Rightarrow> u32 \<Rightarrow> u16 \<Rightarrow> u16 \<Rightarrow> drivers \<Rightarrow> int \<times> drivers" where
  "qos_drivers_register_nic name base irq tx_count rx_count s =
     (if \<not> name_valid name \<or> tx_count = 0 \<or> rx_count = 0 then (-1, s)
      else if find_name (the name) s \<noteq> None then (-1, s)
      else case drv_free_slot s of
        None \<Rightarrow> (-1, s)
      | Some slot \<Rightarrow>
          (0, s\<lparr>drv_slots := (drv_slots s)(slot :=
                  (drv_slots s slot)\<lparr>d_name := the name, d_used := True, d_nic_present := True,
                    d_nic := \<lparr>mmio_base = base, nic_irq = irq, tx_desc_count = tx_count,
                      rx_desc_count = rx_count, tx_head = 0, tx_tail = 0, rx_head = 0, rx_tail = 0\<rparr>\<rparr>),
                drv_g_count := drv_g_count s + 1\<rparr>))"

text \<open>The flag is \<open>out_desc != NULL\<close>; the option is the descriptor copied there.\<close>

definition qos_drivers_get_nic :: "cstr \<Rightarrow> bool \<Rightarrow> drivers \<Rightarrow> int \<times> nic_desc option" where
  "qos_drivers_get_nic name out s =
     (if \<not> name_valid name \<or> \<not> out then (-1, None)
      else case find_name (the name) s of
        None \<Rightarrow> (-1, None)
      | Some idx \<Rightarrow>
          if \<not> d_nic_present (drv_slots s idx) then (-1, None) else (0, Some (d_nic (drv_slots s idx))))"

text \<open>
  The sums \<open>tx_tail + produced\<close> and \<open>rx_head + consumed\<close> are of type \<open>int\<close> and do not wrap.
\<close>

definition qos_drivers_nic_advance_tx :: "cstr \<Rightarrow> u16 \<Rightarrow> drivers \<Rightarrow> int \<times> drivers" where
  "qos_drivers_nic_advance_tx name produced s =
     (if \<not> name_valid name then (-1, s)
      else case find_name (the name) s of
        None \<Rightarrow> (-1, s)
      | Some idx \<Rightarrow>
          if \<not> d_nic_present (drv_slots s idx) then (-1, s)
          else let d = d_nic (drv_slots s idx) in
            if tx_desc_count d = 0 then (-1, s)
            else (0, s\<lparr>drv_slots := (drv_slots s)(idx := (drv_slots s idx)\<lparr>d_nic :=
                   d\<lparr>tx_tail := word_of_nat ((unat (tx_tail d) + unat produced) mod unat (tx_desc_count d))\<rparr>\<rparr>)\<rparr>))"

definition qos_drivers_nic_consume_rx :: "cstr \<Rightarrow> u16 \<Rightarrow> drivers \<Rightarrow> int \<times> drivers" where
  "qos_drivers_nic_consume_rx name consumed s =
     (if \<not> name_valid name then (-1, s)
      else case find_name (the name) s of
        None \<Rightarrow> (-1, s)
      | Some idx \<Rightarrow>
          if \<not> d_nic_present (drv_slots s idx) then (-1, s)
          else let d = d_nic (drv_slots s idx) in
            if rx_desc_count d = 0 then (-1, s)
            else (0, s\<lparr>drv_slots := (drv_slots s)(idx := (drv_slots s idx)\<lparr>d_nic :=
                   d\<lparr>rx_head := word_of_nat ((unat (rx_head d) + unat consumed) mod unat (rx_desc_count d))\<rparr>\<rparr>)\<rparr>))"

section \<open>Specification\<close>

definition drv_val :: "drv_slot \<Rightarrow> nic_desc option" where
  "drv_val r = (if d_nic_present r then Some (d_nic r) else None)"

definition drv_map :: "drivers \<Rightarrow> string \<rightharpoonup> nic_desc option" where
  "drv_map s = tbl_map QOS_DRIVERS_MAX d_used d_name drv_val (drv_slots s)"

text \<open>The ring indices of a descriptor stay below the ring sizes.\<close>

definition nic_ok :: "nic_desc \<Rightarrow> bool" where
  "nic_ok d \<longleftrightarrow> tx_tail d < tx_desc_count d \<and> rx_head d < rx_desc_count d"

definition drv_inv :: "drivers \<Rightarrow> bool" where
  "drv_inv s \<longleftrightarrow> tbl_inv QOS_DRIVERS_MAX d_used d_name (drv_slots s) (drv_g_count s) \<and>
     (\<forall>k d. drv_map s k = Some (Some d) \<longrightarrow> nic_ok d) \<and> (\<forall>k \<in> dom (drv_map s). name_valid (Some k))"

datatype drv_op = Register cstr | RegisterNic cstr u64 u32 u16 u16 | AdvanceTx cstr u16 | ConsumeRx cstr u16

definition nic_new :: "u64 \<Rightarrow> u32 \<Rightarrow> u16 \<Rightarrow> u16 \<Rightarrow> nic_desc" where
  "nic_new base irq tx rx = \<lparr>mmio_base = base, nic_irq = irq, tx_desc_count = tx, rx_desc_count = rx,
     tx_head = 0, tx_tail = 0, rx_head = 0, rx_tail = 0\<rparr>"

definition nic_tx :: "u16 \<Rightarrow> nic_desc \<Rightarrow> nic_desc" where
  "nic_tx n d = d\<lparr>tx_tail := word_of_nat ((unat (tx_tail d) + unat n) mod unat (tx_desc_count d))\<rparr>"

definition nic_rx :: "u16 \<Rightarrow> nic_desc \<Rightarrow> nic_desc" where
  "nic_rx n d = d\<lparr>rx_head := word_of_nat ((unat (rx_head d) + unat n) mod unat (rx_desc_count d))\<rparr>"

definition drv_add :: "cstr \<Rightarrow> nic_desc option \<Rightarrow> (string \<rightharpoonup> nic_desc option) \<Rightarrow> int \<times> (string \<rightharpoonup> nic_desc option)" where
  "drv_add name v m =
     (if name_valid name \<and> the name \<notin> dom m \<and> card (dom m) < QOS_DRIVERS_MAX
      then (0, m(the name \<mapsto> v)) else (-1, m))"

definition drv_upd :: "cstr \<Rightarrow> (nic_desc \<Rightarrow> nic_desc) \<Rightarrow> (string \<rightharpoonup> nic_desc option) \<Rightarrow> int \<times> (string \<rightharpoonup> nic_desc option)" where
  "drv_upd name f m =
     (case name of
        None \<Rightarrow> (-1, m)
      | Some n \<Rightarrow> (case m n of Some (Some d) \<Rightarrow> (0, m(n \<mapsto> Some (f d))) | _ \<Rightarrow> (-1, m)))"

fun drv_spec :: "drv_op \<Rightarrow> (string \<rightharpoonup> nic_desc option) \<Rightarrow> int \<times> (string \<rightharpoonup> nic_desc option)" where
  "drv_spec (Register name) m = drv_add name None m"
| "drv_spec (RegisterNic name base irq tx rx) m =
     (if tx = 0 \<or> rx = 0 then (-1, m) else drv_add name (Some (nic_new base irq tx rx)) m)"
| "drv_spec (AdvanceTx name n) m = drv_upd name (nic_tx n) m"
| "drv_spec (ConsumeRx name n) m = drv_upd name (nic_rx n) m"

fun drv_step :: "drv_op \<Rightarrow> drivers \<Rightarrow> int \<times> drivers" where
  "drv_step (Register name) s = qos_drivers_register name s"
| "drv_step (RegisterNic name base irq tx rx) s = qos_drivers_register_nic name base irq tx rx s"
| "drv_step (AdvanceTx name n) s = qos_drivers_nic_advance_tx name n s"
| "drv_step (ConsumeRx name n) s = qos_drivers_nic_consume_rx name n s"

section \<open>Library\<close>

lemma drv_find_None: "find_name n s = None \<longleftrightarrow> n \<notin> dom (drv_map s)"
  by (simp add: find_name_def drv_map_def dom_tbl_map find_key_None)

lemma drv_find_Some:
  assumes "find_name n s = Some i"
  shows "i < QOS_DRIVERS_MAX" "d_used (drv_slots s i)" "d_name (drv_slots s i) = n"
    "drv_map s n = Some (drv_val (drv_slots s i))"
  using find_key_Some [OF assms [unfolded find_name_def]] assms
  by (simp_all add: drv_map_def tbl_map_def find_name_def)

lemma drv_inv_tbl:
  assumes "drv_inv s"
  shows "uniq_keys QOS_DRIVERS_MAX d_used d_name (drv_slots s)"
    "card (dom (drv_map s)) = unat (drv_g_count s)" "unat (drv_g_count s) \<le> QOS_DRIVERS_MAX"
proof -
  have t: "tbl_inv QOS_DRIVERS_MAX d_used d_name (drv_slots s) (drv_g_count s)"
    using assms by (simp add: drv_inv_def)
  show "uniq_keys QOS_DRIVERS_MAX d_used d_name (drv_slots s)" by (rule tbl_uniq [OF t])
  show "card (dom (drv_map s)) = unat (drv_g_count s)"
    using tbl_card [OF t] by (simp add: drv_map_def dom_tbl_map)
  show "unat (drv_g_count s) \<le> QOS_DRIVERS_MAX" by (rule tbl_bound [OF t])
qed

lemma drv_free_None:
  "drv_inv s \<Longrightarrow> drv_free_slot s = None \<longleftrightarrow> card (dom (drv_map s)) = QOS_DRIVERS_MAX"
  using tbl_full [of QOS_DRIVERS_MAX d_used d_name "drv_slots s" "drv_g_count s"]
  by (simp add: drv_inv_tbl drv_free_slot_def) (simp add: drv_inv_def)

lemma drv_valid_Some: "name_valid k \<Longrightarrow> \<exists>n. k = Some n"
  by (simp add: name_valid_def split: option.splits)

lemma drv_add_refines:
  assumes inv: "drv_inv s" and v: "\<And>d. v = Some d \<Longrightarrow> nic_ok d"
    and r: "\<And>i. d_name (r i) = the k" "\<And>i. d_used (r i)" "\<And>i. drv_val (r i) = v"
  shows "\<exists>s'. (if \<not> name_valid k then (-1, s) else if find_name (the k) s \<noteq> None then (-1, s)
      else case drv_free_slot s of None \<Rightarrow> (-1, s)
        | Some i \<Rightarrow> (0, s\<lparr>drv_slots := (drv_slots s)(i := r i), drv_g_count := drv_g_count s + 1\<rparr>)) =
      (fst (drv_add k v (drv_map s)), s') \<and> drv_inv s' \<and> drv_map s' = snd (drv_add k v (drv_map s))"
proof (cases "name_valid k \<and> the k \<notin> dom (drv_map s)")
  case False
  with inv show ?thesis by (auto simp: drv_add_def drv_find_None)
next
  case ok: True
  show ?thesis
  proof (cases "drv_free_slot s")
    case None
    with drv_free_None [OF inv] have "card (dom (drv_map s)) = QOS_DRIVERS_MAX" by simp
    with None ok inv show ?thesis by (simp add: drv_add_def drv_find_None)
  next
    case (Some i)
    have i: "i < QOS_DRIVERS_MAX" "\<not> d_used (drv_slots s i)"
      using Some by (auto simp: drv_free_slot_def dest: find_free_Some)
    have room: "card (dom (drv_map s)) < QOS_DRIVERS_MAX"
      using drv_free_None [OF inv] Some drv_inv_tbl [OF inv] by auto
    let ?s = "s\<lparr>drv_slots := (drv_slots s)(i := r i), drv_g_count := drv_g_count s + 1\<rparr>"
    have new: "d_name (r i) \<notin> keys QOS_DRIVERS_MAX d_used d_name (drv_slots s)"
      using ok by (simp add: r drv_map_def dom_tbl_map)
    have m: "drv_map ?s = (drv_map s)(the k \<mapsto> v)"
      using tbl_map_insert [OF drv_inv_tbl(1) [OF inv] i r(2) new, where V = drv_val]
      by (simp add: drv_map_def r)
    have "tbl_inv QOS_DRIVERS_MAX d_used d_name (drv_slots s) (drv_g_count s)"
      using inv by (simp add: drv_inv_def)
    then have "tbl_inv QOS_DRIVERS_MAX d_used d_name ((drv_slots s)(i := r i)) (drv_g_count s + 1)"
      using i new r(2) by (intro tbl_insert) simp_all
    moreover have "name_valid (Some (the k))" using ok drv_valid_Some [of k] by auto
    ultimately have "drv_inv ?s"
      using inv v unfolding drv_inv_def m by (auto simp: drv_inv_def)
    then show ?thesis using ok Some room m by (simp add: drv_add_def drv_find_None)
  qed
qed

lemma drv_upd_refines:
  assumes inv: "drv_inv s" and f: "\<And>d. nic_ok d \<Longrightarrow> nic_ok (f d)" and c: "\<And>d. nic_ok d \<Longrightarrow> \<not> c d"
  shows "\<exists>s'. (if \<not> name_valid k then (-1, s) else case find_name (the k) s of None \<Rightarrow> (-1, s)
      | Some i \<Rightarrow> if \<not> d_nic_present (drv_slots s i) then (-1, s)
          else let d = d_nic (drv_slots s i) in
            if c d then (-1, s)
            else (0, s\<lparr>drv_slots := (drv_slots s)(i := (drv_slots s i)\<lparr>d_nic := f d\<rparr>)\<rparr>)) =
      (fst (drv_upd k f (drv_map s)), s') \<and> drv_inv s' \<and> drv_map s' = snd (drv_upd k f (drv_map s))"
proof (cases "name_valid k \<and> the k \<in> dom (drv_map s)")
  case False
  have "drv_upd k f (drv_map s) = (-1, drv_map s)"
  proof (cases k)
    case (Some n)
    then have "n \<notin> dom (drv_map s)" using False inv by (auto simp: drv_inv_def)
    with Some show ?thesis by (auto simp: drv_upd_def domIff)
  qed (simp add: drv_upd_def)
  moreover have "name_valid k \<Longrightarrow> find_name (the k) s = None" using False by (simp add: drv_find_None)
  ultimately show ?thesis using inv by simp
next
  case True
  then obtain n where n: "k = Some n" using drv_valid_Some by blast
  obtain i where i: "find_name n s = Some i" using True n drv_find_None [of n s] by auto
  note fi = drv_find_Some [OF i]
  let ?r = "(drv_slots s i)\<lparr>d_nic := f (d_nic (drv_slots s i))\<rparr>"
  let ?s = "s\<lparr>drv_slots := (drv_slots s)(i := ?r)\<rparr>"
  show ?thesis
  proof (cases "d_nic_present (drv_slots s i)")
    case False
    with True n i fi inv show ?thesis by (simp add: drv_upd_def drv_val_def)
  next
    case pr: True
    let ?d = "d_nic (drv_slots s i)"
    have dn: "drv_map s n = Some (Some ?d)" using fi pr by (simp add: drv_val_def)
    then have ok: "nic_ok ?d" using inv by (auto simp: drv_inv_def)
    have m: "drv_map ?s = (drv_map s)(n \<mapsto> Some (f ?d))"
      using tbl_map_replace [OF drv_inv_tbl(1) [OF inv] fi(1,2), of ?r drv_val] fi pr
      by (simp add: drv_map_def drv_val_def)
    have "tbl_inv QOS_DRIVERS_MAX d_used d_name ((drv_slots s)(i := ?r)) (drv_g_count s)"
      using inv fi by (intro tbl_replace) (simp_all add: drv_inv_def)
    then have "drv_inv ?s"
      using inv f [OF ok] True n unfolding drv_inv_def m by (auto simp: drv_inv_def)
    then show ?thesis using True n i pr dn c [OF ok] m by (simp add: drv_upd_def Let_def)
  qed
qed

lemma nic_mod_less: "c \<noteq> (0 :: u16) \<Longrightarrow> word_of_nat (k mod unat c) < c"
proof -
  assume "c \<noteq> 0"
  then have "k mod unat c < unat c" by (simp add: unat_gt_0)
  moreover have "unat c < 65536" using unsigned_less [of c] by simp
  ultimately show ?thesis by (simp add: word_less_nat_alt unat_of_nat)
qed

lemma nic_ok_upd: "nic_ok d \<Longrightarrow> nic_ok (nic_tx n d)" "nic_ok d \<Longrightarrow> nic_ok (nic_rx n d)"
  by (auto simp: nic_ok_def nic_tx_def nic_rx_def intro!: nic_mod_less)

lemma nic_ok_count: "nic_ok d \<Longrightarrow> \<not> tx_desc_count d = 0" "nic_ok d \<Longrightarrow> \<not> rx_desc_count d = 0"
  by (auto simp: nic_ok_def)

lemma drv_step_refines:
  assumes inv: "drv_inv s"
  shows "\<exists>s'. drv_step x s = (fst (drv_spec x (drv_map s)), s') \<and> drv_inv s' \<and>
    drv_map s' = snd (drv_spec x (drv_map s))"
proof (cases x)
  case (Register k)
  show ?thesis
    using drv_add_refines [OF inv, of None "\<lambda>i. (drv_slots s i)\<lparr>d_name := the k, d_used := True, d_nic_present := False\<rparr>" k]
    by (simp add: Register qos_drivers_register_def drv_val_def)
next
  case (RegisterNic k b q tx rx)
  show ?thesis
  proof (cases "tx = 0 \<or> rx = 0")
    case True
    with inv show ?thesis by (auto simp: RegisterNic qos_drivers_register_nic_def)
  next
    case False
    then have ok: "nic_ok (nic_new b q tx rx)" by (auto simp: nic_ok_def nic_new_def word_gt_0)
    show ?thesis
      using False ok drv_add_refines [OF inv, of "Some (nic_new b q tx rx)"
          "\<lambda>i. (drv_slots s i)\<lparr>d_name := the k, d_used := True, d_nic_present := True, d_nic := nic_new b q tx rx\<rparr>" k]
      unfolding nic_new_def by (simp add: RegisterNic qos_drivers_register_nic_def drv_val_def nic_new_def)
  qed
next
  case (AdvanceTx k n)
  show ?thesis
    using drv_upd_refines [OF inv, of "nic_tx n" "\<lambda>d. tx_desc_count d = 0" k, OF nic_ok_upd(1) nic_ok_count(1)] unfolding nic_tx_def
    by (simp add: AdvanceTx qos_drivers_nic_advance_tx_def nic_tx_def [abs_def])
next
  case (ConsumeRx k n)
  show ?thesis
    using drv_upd_refines [OF inv, of "nic_rx n" "\<lambda>d. rx_desc_count d = 0" k, OF nic_ok_upd(2) nic_ok_count(2)] unfolding nic_rx_def
    by (simp add: ConsumeRx qos_drivers_nic_consume_rx_def nic_rx_def [abs_def])
qed

interpretation drv_sim: simulation drv_step drv_spec drv_map drv_inv
  by unfold_locales (rule drv_step_refines)

lemma drv_inv_reset: "drv_inv qos_drivers_reset" "drv_map qos_drivers_reset = Map.empty"
proof -
  have "dom (drv_map qos_drivers_reset) = {}"
    unfolding drv_map_def dom_tbl_map by (rule keys_empty) (simp add: qos_drivers_reset_def)
  then show m: "drv_map qos_drivers_reset = Map.empty" by auto
  show "drv_inv qos_drivers_reset" unfolding drv_inv_def m tbl_inv_def by (simp add: qos_drivers_reset_def)
qed

section \<open>Properties\<close>

text \<open>
  C16. The driver table refines a finite map. From any well-formed table, any sequence of
  registrations and ring updates returns the codes of \<open>drv_spec\<close> and leaves its map: at most 64
  distinct valid names, a descriptor exactly for the drivers registered as network cards, and each
  ring index advanced modulo its ring size, so that it always stays inside the ring.
  \<open>qos_drivers_loaded\<close>, \<open>qos_drivers_count\<close> and \<open>qos_drivers_get_nic\<close> read the map.
\<close>

theorem drivers_refine_map:
  assumes "drv_inv s"
  shows "\<exists>s'. run_ops drv_step xs s = (fst (run_ops drv_spec xs (drv_map s)), s') \<and>
    drv_map s' = snd (run_ops drv_spec xs (drv_map s)) \<and>
    unat (qos_drivers_count s') = card (dom (drv_map s')) \<and> card (dom (drv_map s')) \<le> QOS_DRIVERS_MAX \<and>
    (\<forall>n d. qos_drivers_loaded (Some n) s' = (if n \<in> dom (drv_map s') then 1 else 0) \<and>
      (qos_drivers_get_nic (Some n) True s' = (0, Some d) \<longleftrightarrow> drv_map s' n = Some (Some d)) \<and>
      (drv_map s' n = Some (Some d) \<longrightarrow> tx_tail d < tx_desc_count d \<and> rx_head d < rx_desc_count d))"
proof -
  obtain s' where s': "run_ops drv_step xs s = (fst (run_ops drv_spec xs (drv_map s)), s')"
    "drv_inv s'" "drv_map s' = snd (run_ops drv_spec xs (drv_map s))"
    using drv_sim.sim_run [OF assms] by blast
  have val: "n \<in> dom (drv_map s') \<Longrightarrow> name_valid (Some n)" for n using s'(2) by (simp add: drv_inv_def)
  have "qos_drivers_loaded (Some n) s' = (if n \<in> dom (drv_map s') then 1 else 0)" for n
    using val [of n] drv_find_None [of n s'] by (simp add: qos_drivers_loaded_def)
  moreover have "qos_drivers_get_nic (Some n) True s' = (0, Some d) \<longleftrightarrow> drv_map s' n = Some (Some d)" for n d
  proof (cases "find_name n s'")
    case None
    with drv_find_None [of n s'] show ?thesis by (auto simp: qos_drivers_get_nic_def)
  next
    case (Some i)
    then have "name_valid (Some n)" using val drv_find_None [of n s'] by force
    with Some drv_find_Some(4) [OF Some] show ?thesis by (simp add: qos_drivers_get_nic_def drv_val_def)
  qed
  moreover have "drv_map s' n = Some (Some d) \<Longrightarrow> tx_tail d < tx_desc_count d \<and> rx_head d < rx_desc_count d" for n d
    using s'(2) by (auto simp: drv_inv_def nic_ok_def)
  ultimately show ?thesis using s' drv_inv_tbl(2,3) [OF s'(2)] by (auto simp: qos_drivers_count_def)
qed

theorem drivers_refine_map_witness:
  "drv_inv qos_drivers_reset \<and>
   (\<exists>s'. run_ops drv_step [RegisterNic (Some ''e1000'') 16 11 8 8, Register (Some ''e1000''),
       AdvanceTx (Some ''e1000'') 11, Register None] qos_drivers_reset = ([0, -1, 0, -1], s') \<and>
     map_option (map_option tx_tail) (drv_map s' ''e1000'') = Some (Some 3))"
proof -
  let ?xs = "[RegisterNic (Some ''e1000'') 16 11 8 8, Register (Some ''e1000''), AdvanceTx (Some ''e1000'') 11,
    Register None]"
  have "fst (run_ops drv_spec ?xs (drv_map qos_drivers_reset)) = [0, -1, 0, -1]"
    "map_option (map_option tx_tail) (snd (run_ops drv_spec ?xs (drv_map qos_drivers_reset)) ''e1000'') = Some (Some 3)"
    by (simp_all add: drv_inv_reset drv_add_def drv_upd_def name_valid_def nic_new_def nic_tx_def Let_def)
  then show ?thesis using drivers_refine_map [OF drv_inv_reset(1), of ?xs] drv_inv_reset(1) by auto
qed

end
