(* ===== verification/Procmap.thy ===== *)
theory Procmap
  imports Proc
begin

text \<open>
  The process table as a finite map from identifiers to processes: the specification of every
  operation of \<^verbatim>\<open>proc/proc.c\<close> on that map, the invariant of the table, and the proof that the
  operations implement the specification.
\<close>

section \<open>Specification\<close>

text \<open>A process as the rest of the kernel sees it; the table is a finite map from identifiers to processes.\<close>

record process =
  a_parent :: u32
  a_exited :: bool
  a_stopped :: bool
  a_code :: int
  a_cwd :: string
  a_handlers :: "u64 arr"
  a_pending :: u32
  a_blocked :: u32
  a_altstack :: sigaltstack
  a_image :: exec_image

type_synonym procs = "u32 \<rightharpoonup> process"

definition proc_view :: "proc_slot \<Rightarrow> process" where
  "proc_view p = \<lparr>a_parent = p_ppid p, a_exited = p_exited p, a_stopped = p_stopped p, a_code = p_exit_code p,
     a_cwd = p_cwd p, a_handlers = p_handlers p, a_pending = p_pending p, a_blocked = p_blocked p,
     a_altstack = p_altstack p, a_image = p_image p\<rparr>"

definition procs :: "proc_state \<Rightarrow> procs" where
  "procs s = tbl_map QOS_PROC_MAX p_used p_pid proc_view (g_procs s)"

definition proc_name :: "u32 \<Rightarrow> string" where
  "proc_name pid = ''proc-'' @ dec_string pid"

text \<open>
  A well-formed slot: a non-zero identifier and its name, an absolute working directory with its
  length, and \<open>SIGKILL\<close> and \<open>SIGSTOP\<close> neither blocked nor handled.
\<close>

definition slot_ok :: "proc_slot \<Rightarrow> bool" where
  "slot_ok p \<longleftrightarrow> p_pid p \<noteq> 0 \<and> p_name p = proc_name (p_pid p) \<and> unat (p_name_len p) = length (p_name p) \<and>
     p_cwd p \<noteq> [] \<and> hd (p_cwd p) = CHR ''/'' \<and> length (p_cwd p) < QOS_PROC_CWD_MAX \<and>
     unat (p_cwd_len p) = length (p_cwd p) \<and> p_blocked p AND unmaskable_bits = 0 \<and>
     p_handlers p QOS_SIGKILL = QOS_SIG_DFL \<and> p_handlers p QOS_SIGSTOP = QOS_SIG_DFL"

definition proc_inv :: "proc_state \<Rightarrow> bool" where
  "proc_inv s \<longleftrightarrow> tbl_inv QOS_PROC_MAX p_used p_pid (g_procs s) (g_proc_count s) \<and>
     (\<forall>i < QOS_PROC_MAX. p_used (g_procs s i) \<longrightarrow> slot_ok (g_procs s i))"

text \<open>What happens to one process.\<close>

definition deliverable :: "process \<Rightarrow> nat \<Rightarrow> bool" where
  "deliverable p n \<longleftrightarrow> bit (a_pending p) n \<and> (\<not> bit (a_blocked p) n \<or> n = QOS_SIGKILL \<or> n = QOS_SIGSTOP)"

definition acknowledge :: "nat \<Rightarrow> process \<Rightarrow> process" where
  "acknowledge n p = p\<lparr>a_pending := a_pending p AND NOT (signum_bit n)\<rparr>"

definition default_action :: "nat \<Rightarrow> process \<Rightarrow> process" where
  "default_action n p =
     (if n = 17 then p
      else if n = 18 then p\<lparr>a_stopped := False\<rparr>
      else if n \<in> {19, 20, 21, 22} then p\<lparr>a_stopped := True\<rparr>
      else p\<lparr>a_stopped := False, a_exited := True, a_code := 128 + int n\<rparr>)"

text \<open>Ignored signals are dropped; the first other one is delivered.\<close>

fun deliver :: "nat list \<Rightarrow> process \<Rightarrow> int \<times> process" where
  "deliver [] p = (0, p)"
| "deliver (n # ns) p =
     (if a_handlers p n = QOS_SIG_IGN then deliver ns (acknowledge n p)
      else (int n, if a_handlers p n = QOS_SIG_DFL then default_action n (acknowledge n p) else acknowledge n p))"

definition next_signal :: "process \<Rightarrow> int \<times> process" where
  "next_signal p = deliver (filter (deliverable p) [1..<QOS_SIGNAL_MAX]) p"

definition new_process :: "u32 \<Rightarrow> process" where
  "new_process ppid = \<lparr>a_parent = ppid, a_exited = False, a_stopped = False, a_code = 0, a_cwd = ''/'',
     a_handlers = (\<lambda>_. 0), a_pending = 0, a_blocked = 0, a_altstack = \<lparr>ss_sp = 0, ss_size = 0, ss_flags = 0\<rparr>,
     a_image = image0\<rparr>"

definition forked :: "u32 \<Rightarrow> process \<Rightarrow> process" where
  "forked ppid p = p\<lparr>a_parent := ppid, a_exited := False, a_stopped := False, a_code := 0, a_pending := 0\<rparr>"

definition exec_reset :: "process \<Rightarrow> process" where
  "exec_reset p = p\<lparr>a_handlers := (\<lambda>n. if 1 \<le> n \<and> n < QOS_SIGNAL_MAX \<and> a_handlers p n \<noteq> QOS_SIG_IGN then QOS_SIG_DFL
       else a_handlers p n), a_pending := 0, a_blocked := a_blocked p AND NOT unmaskable_bits\<rparr>"

text \<open>
  The operations, and their meaning on the map. The map holds at most 256 processes. Waiting for any
  child (\<open>pid = -1\<close>) reaps the exited child in the lowest slot, which the map does not show; it is not
  one of these operations.
\<close>

datatype proc_op =
    PCreate u32 u32 | PFork u32 u32 | PRemove u32 | PExit u32 int | PWait u32 u32 u32 | PCwd u32 cstr
  | PExecReset u32 | PImage u32 "exec_image option" | PHandler u32 u32 u64 | PMask u32 u32 | PSend u32 u32
  | PNext u32 | PDefault u32 u32 | PSigreturn u32 "sigframe option" | PAltstack u32 u64 u64 u32

fun proc_step :: "proc_op \<Rightarrow> proc_state \<Rightarrow> int \<times> proc_state" where
  "proc_step (PCreate pid ppid) s = qos_proc_create pid ppid s"
| "proc_step (PFork parent child) s = qos_proc_fork parent child s"
| "proc_step (PRemove pid) s = qos_proc_remove pid s"
| "proc_step (PExit pid code) s = qos_proc_exit pid code s"
| "proc_step (PWait parent child options) s =
     (if child = - 1 then (-1, s) else case qos_proc_wait parent (sint child) options s of (r, _, s') \<Rightarrow> (r, s'))"
| "proc_step (PCwd pid path) s = qos_proc_cwd_set pid path s"
| "proc_step (PExecReset pid) s = qos_proc_exec_signal_reset pid s"
| "proc_step (PImage pid im) s = qos_proc_exec_image_set pid im s"
| "proc_step (PHandler pid signum h) s = qos_proc_signal_set_handler pid signum h s"
| "proc_step (PMask pid m) s = qos_proc_signal_set_mask pid m s"
| "proc_step (PSend pid signum) s = qos_proc_signal_send pid signum s"
| "proc_step (PNext pid) s = qos_proc_signal_next pid s"
| "proc_step (PDefault pid signum) s = qos_proc_signal_apply_default pid signum s"
| "proc_step (PSigreturn pid f) s = qos_proc_signal_sigreturn pid f s"
| "proc_step (PAltstack pid sp sz fl) s = qos_proc_signal_altstack_set pid sp sz fl s"

definition proc_upd :: "u32 \<Rightarrow> (process \<Rightarrow> int \<times> process) \<Rightarrow> procs \<Rightarrow> int \<times> procs" where
  "proc_upd pid f m = (case m pid of None \<Rightarrow> (-1, m) | Some p \<Rightarrow> (fst (f p), m(pid \<mapsto> snd (f p))))"

definition proc_add :: "u32 \<Rightarrow> process \<Rightarrow> procs \<Rightarrow> int \<times> procs" where
  "proc_add pid p m =
     (if pid = 0 \<or> m pid \<noteq> None \<or> card (dom m) = QOS_PROC_MAX then (-1, m) else (0, m(pid \<mapsto> p)))"

fun proc_spec :: "proc_op \<Rightarrow> procs \<Rightarrow> int \<times> procs" where
  "proc_spec (PCreate pid ppid) m = proc_add pid (new_process ppid) m"
| "proc_spec (PFork parent child) m =
     (case m parent of None \<Rightarrow> (-1, m) | Some p \<Rightarrow> proc_add child (forked parent p) m)"
| "proc_spec (PRemove pid) m = (if m pid = None then (-1, m) else (0, m(pid := None)))"
| "proc_spec (PExit pid code) m =
     proc_upd pid (\<lambda>p. if a_exited p then (-1, p) else (0, p\<lparr>a_exited := True, a_stopped := False, a_code := code\<rparr>)) m"
| "proc_spec (PWait parent child options) m =
     (let later = (if bit options 0 then 0 else -1) in
      if m parent = None \<or> child = - 1 then (-1, m)
      else case m child of
        None \<Rightarrow> (later, m)
      | Some p \<Rightarrow>
          if a_parent p \<noteq> parent then (-1, m) else if \<not> a_exited p then (later, m) else (sint child, m(child := None)))"
| "proc_spec (PCwd pid path) m =
     proc_upd pid (\<lambda>p. case path of None \<Rightarrow> (-1, p)
       | Some d \<Rightarrow> if d \<noteq> [] \<and> hd d = CHR ''/'' \<and> length d < QOS_PROC_CWD_MAX then (0, p\<lparr>a_cwd := d\<rparr>) else (-1, p)) m"
| "proc_spec (PExecReset pid) m = proc_upd pid (\<lambda>p. (0, exec_reset p)) m"
| "proc_spec (PImage pid im) m =
     proc_upd pid (\<lambda>p. case im of None \<Rightarrow> (-1, p) | Some i \<Rightarrow> (0, p\<lparr>a_image := i\<rparr>)) m"
| "proc_spec (PHandler pid signum h) m =
     proc_upd pid (\<lambda>p. if \<not> signum_valid signum \<or> unat signum \<in> {QOS_SIGKILL, QOS_SIGSTOP} \<and> h \<noteq> QOS_SIG_DFL then (-1, p)
       else (0, p\<lparr>a_handlers := (a_handlers p)(unat signum := h)\<rparr>)) m"
| "proc_spec (PMask pid b) m = proc_upd pid (\<lambda>p. (0, p\<lparr>a_blocked := b AND NOT unmaskable_bits\<rparr>)) m"
| "proc_spec (PSend pid signum) m =
     proc_upd pid (\<lambda>p. if \<not> signum_valid signum then (-1, p)
       else (0, p\<lparr>a_pending := a_pending p OR signum_bit (unat signum)\<rparr>)) m"
| "proc_spec (PNext pid) m = proc_upd pid next_signal m"
| "proc_spec (PDefault pid signum) m =
     proc_upd pid (\<lambda>p. if \<not> signum_valid signum then (-1, p) else (0, default_action (unat signum) p)) m"
| "proc_spec (PSigreturn pid f) m =
     proc_upd pid (\<lambda>p. case f of None \<Rightarrow> (-1, p) | Some fr \<Rightarrow> (0, p\<lparr>a_blocked := sf_saved_mask fr AND NOT unmaskable_bits\<rparr>)) m"
| "proc_spec (PAltstack pid sp sz fl) m =
     proc_upd pid (\<lambda>p. (0, p\<lparr>a_altstack := \<lparr>ss_sp = sp, ss_size = sz, ss_flags = fl\<rparr>\<rparr>)) m"

text \<open>An operation that changes one process, as a step on the map.\<close>

definition upd_result :: "nat \<Rightarrow> u32 \<Rightarrow> int \<times> process \<Rightarrow> proc_state \<Rightarrow> int \<times> proc_state \<Rightarrow> bool" where
  "upd_result i pid v s rs \<longleftrightarrow> (\<exists>p. rs = (fst v, set_proc i p s) \<and> p_used p \<and> p_pid p = pid \<and> slot_ok p \<and> proc_view p = snd v)"

text \<open>One operation does what the specification says.\<close>

definition proc_refines :: "proc_op \<Rightarrow> proc_state \<Rightarrow> bool" where
  "proc_refines x s \<longleftrightarrow> (\<exists>s'. proc_step x s = (fst (proc_spec x (procs s)), s') \<and> proc_inv s' \<and>
     procs s' = snd (proc_spec x (procs s)))"

section \<open>Library\<close>

lemma and_not_and: "(a AND NOT b) AND b = (0 :: u32)"
  by (rule bit_word_eqI) (auto simp: bit_simps)

lemma proc_name_room: "write_u32_ascii 27 pid = (length (dec_string pid), dec_string pid)"
  "length (proc_name pid) \<le> 15"
  using length_dec_string [of pid] by (simp_all add: write_u32_ascii_room proc_name_def)

lemma init_name_idx_eq:
  "init_name_idx i pid s = set_proc i ((g_procs s i)\<lparr>p_name := proc_name pid,
     p_name_len := word_of_nat (length (proc_name pid))\<rparr>) s"
proof -
  have "\<not> 32 \<le> 5 + length (dec_string pid)" using length_dec_string(1) [of pid] by simp
  then show ?thesis unfolding init_name_idx_def by (simp add: proc_name_room proc_name_def)
qed

lemma unat_u8_length: "length xs < 256 \<Longrightarrow> unat (word_of_nat (length xs) :: u8) = length xs"
  by (simp add: unat_of_nat)

lemma unat_proc_name_len: "unat (word_of_nat (length (proc_name pid)) :: u8) = length (proc_name pid)"
  using proc_name_room(2) [of pid] by (intro unat_u8_length) simp

lemma set_proc_simps [simp]:
  "g_procs (set_proc i p s) = (g_procs s)(i := p)" "g_proc_count (set_proc i p s) = g_proc_count s"
  "set_proc i q (set_proc i p s) = set_proc i q s" "set_proc i (g_procs s i) s = s"
  by (simp_all add: set_proc_def)

lemma find_pid_Some: "find_pid pid s = Some i \<Longrightarrow> i < QOS_PROC_MAX \<and> p_used (g_procs s i) \<and> p_pid (g_procs s i) = pid"
  unfolding find_pid_def by (rule find_key_Some)

lemma procs_find:
  "find_pid pid s = Some i \<Longrightarrow> procs s pid = Some (proc_view (g_procs s i))" "procs s pid = None \<longleftrightarrow> find_pid pid s = None"
  by (simp_all add: procs_def find_pid_def tbl_map_def)

lemma proc_inv_uniq: "proc_inv s \<Longrightarrow> uniq_keys QOS_PROC_MAX p_used p_pid (g_procs s)"
  unfolding proc_inv_def by (blast intro: tbl_uniq)

lemma proc_inv_slot: "proc_inv s \<Longrightarrow> find_pid pid s = Some i \<Longrightarrow> slot_ok (g_procs s i)"
  using find_pid_Some by (simp add: proc_inv_def)

lemma proc_replace:
  assumes "proc_inv s" "find_pid pid s = Some i" "p_used p" "p_pid p = pid" "slot_ok p"
  shows "proc_inv (set_proc i p s)" "procs (set_proc i p s) = (procs s)(pid \<mapsto> proc_view p)"
    "find_pid q (set_proc i p s) = find_pid q s"
proof -
  note i = find_pid_Some [OF assms(2)]
  show "proc_inv (set_proc i p s)"
    using assms i by (auto simp: proc_inv_def intro: tbl_replace)
  show "procs (set_proc i p s) = (procs s)(pid \<mapsto> proc_view p)"
    using tbl_map_replace [OF proc_inv_uniq [OF assms(1)], of i p proc_view] assms(3,4) i by (simp add: procs_def)
  show "find_pid q (set_proc i p s) = find_pid q s"
    unfolding find_pid_def set_proc_simps by (rule find_key_replace [where U = p_used]) (use assms(3,4) i in simp_all)
qed

lemma proc_upd_refines:
  assumes inv: "proc_inv s" and none: "find_pid pid s = None \<Longrightarrow> c s = (-1, s)"
    and some: "\<And>i. find_pid pid s = Some i \<Longrightarrow> upd_result i pid (f (proc_view (g_procs s i))) s (c s)"
  shows "\<exists>s'. c s = (fst (proc_upd pid f (procs s)), s') \<and> proc_inv s' \<and> procs s' = snd (proc_upd pid f (procs s))"
proof (cases "find_pid pid s")
  case None
  then show ?thesis using none inv by (simp add: proc_upd_def procs_find(2) [symmetric])
next
  case (Some i)
  then obtain p where p: "c s = (fst (f (proc_view (g_procs s i))), set_proc i p s)" "p_used p" "p_pid p = pid"
    "slot_ok p" "proc_view p = snd (f (proc_view (g_procs s i)))"
    using some by (auto simp: upd_result_def)
  then show ?thesis using proc_replace [OF inv Some p(2-4)] procs_find(1) [OF Some] by (simp add: proc_upd_def)
qed

lemma upd_same: "find_pid pid s = Some i \<Longrightarrow> proc_inv s \<Longrightarrow> upd_result i pid (r, proc_view (g_procs s i)) s (r, s)"
  unfolding upd_result_def by (rule exI [of _ "g_procs s i"]) (simp add: find_pid_Some proc_inv_slot)

lemma upd_change:
  "p_used p \<Longrightarrow> p_pid p = pid \<Longrightarrow> slot_ok p \<Longrightarrow> proc_view p = v \<Longrightarrow> upd_result i pid (r, v) s (r, set_proc i p s)"
  unfolding upd_result_def by auto

section \<open>Signals\<close>

lemma signum_bit_test: "m AND signum_bit n \<noteq> 0 \<longleftrightarrow> bit m n" for m :: u32
proof -
  have "m AND push_bit n 1 = (if bit m n then push_bit n 1 else 0)" by (rule bit_word_eqI) (auto simp: bit_simps)
  moreover have "bit m n \<Longrightarrow> push_bit n (1 :: u32) \<noteq> 0"
    using bit_imp_le_length [of m n] by (simp add: push_bit_eq_mult)
  ultimately show ?thesis unfolding signum_bit_def by auto
qed

lemma bit_signum_bit: "bit (signum_bit n) j \<longleftrightarrow> j = n \<and> n < 32"
  unfolding signum_bit_def by (auto simp: bit_simps)

lemma bit_unmaskable: "bit unmaskable_bits j \<longleftrightarrow> j = QOS_SIGKILL \<or> j = QOS_SIGSTOP"
  unfolding unmaskable_bits_def by (auto simp: bit_or_iff bit_signum_bit)

lemma slot_ok_state [simp]:
  "slot_ok (p\<lparr>p_pending := m\<rparr>) = slot_ok p" "slot_ok (p\<lparr>p_stopped := b\<rparr>) = slot_ok p"
  "slot_ok (p\<lparr>p_stopped := b, p_exited := e, p_exit_code := c\<rparr>) = slot_ok p"
  "slot_ok (p\<lparr>p_exited := e, p_stopped := b, p_exit_code := c\<rparr>) = slot_ok p"
  "slot_ok (p\<lparr>p_image := im\<rparr>) = slot_ok p" "slot_ok (p\<lparr>p_altstack := st\<rparr>) = slot_ok p"
  by (simp_all add: slot_ok_def)

lemma proc_view_state:
  "proc_view (p\<lparr>p_pending := p_pending p AND NOT (signum_bit n)\<rparr>) = acknowledge n (proc_view p)"
  by (simp add: proc_view_def acknowledge_def)

lemma apply_default_result:
  assumes "proc_inv s" "find_pid pid s = Some i" "signum_valid signum"
  shows "upd_result i pid (0, default_action (unat signum) (proc_view (g_procs s i))) s (qos_proc_signal_apply_default pid signum s)"
proof -
  let ?p = "g_procs s i"
  have p: "p_used ?p" "p_pid ?p = pid" "slot_ok ?p" using find_pid_Some proc_inv_slot assms by auto
  have u: "signum = 17 \<longleftrightarrow> unat signum = 17" "signum = 18 \<longleftrightarrow> unat signum = 18" "signum = 20 \<longleftrightarrow> unat signum = 20"
    "signum = 21 \<longleftrightarrow> unat signum = 21" "signum = 22 \<longleftrightarrow> unat signum = 22" by (simp_all add: word_unat_eq_iff)
  show ?thesis
    using assms(2,3) p upd_same [OF assms(2,1)] unfolding qos_proc_signal_apply_default_def default_action_def u
    by (auto simp: Let_def proc_view_def intro!: upd_change)
qed

lemma upd_result_trans:
  assumes "upd_result i pid v (set_proc i p s) (c :: int \<times> proc_state)"
  shows "upd_result i pid v s c"
  using assms by (auto simp: upd_result_def)

lemma signal_loop_deliver:
  assumes "proc_inv s" "find_pid pid s = Some i" "1 \<le> n" "n \<le> QOS_SIGNAL_MAX"
  shows "upd_result i pid (deliver (filter (bit d) [n..<QOS_SIGNAL_MAX]) (proc_view (g_procs s i))) s (signal_loop pid i d n s)"
  using assms
proof (induction "QOS_SIGNAL_MAX - n" arbitrary: n s)
  case 0
  then have "signal_loop pid i d n s = (0, s)" by (subst signal_loop.simps) simp
  then show ?case using 0 upd_same by simp
next
  case (Suc k)
  let ?p = "g_procs s i"
  let ?q = "?p\<lparr>p_pending := p_pending ?p AND NOT (signum_bit n)\<rparr>"
  have n: "n < 32" using Suc.hyps(2) by simp
  have c: "[n..<32] = n # [Suc n..<32]" using n by (simp add: upt_conv_Cons)
  have p: "p_used ?q" "p_pid ?q = pid" "slot_ok ?q" using find_pid_Some proc_inv_slot Suc.prems by auto
  note q = proc_replace [OF Suc.prems(1,2) p]
  have h: "a_handlers (proc_view ?p) n = p_handlers ?p n" by (simp add: proc_view_def)
  show ?case
  proof (cases "bit d n")
    case False
    then have "signal_loop pid i d n s = signal_loop pid i d (Suc n) s"
      using n signum_bit_test [of d n] by (subst signal_loop.simps) simp
    then show ?thesis using Suc.hyps(1) [of "Suc n" s] Suc.hyps(2) Suc.prems n False unfolding c by simp
  next
    case True
    have st: "signal_loop pid i d n s = (if p_handlers ?p n = 1 then signal_loop pid i d (Suc n) (set_proc i ?q s)
        else if p_handlers ?p n = 0 then (int n, snd (qos_proc_signal_apply_default pid (word_of_nat n) (set_proc i ?q s)))
        else (int n, set_proc i ?q s))"
      using n True signum_bit_test [of d n] by (subst signal_loop.simps) (simp add: Let_def)
    have "find_pid pid (set_proc i ?q s) = Some i" using q(3) Suc.prems(2) by simp
    note IH = Suc.hyps(1) [of "Suc n" "set_proc i ?q s", OF _ q(1) this]
    have valid: "signum_valid (word_of_nat n)" "unat (word_of_nat n :: u32) = n"
      using n Suc.prems(3) by (simp_all add: signum_valid_def unat_u32_of_nat word_less_nat_alt)
    note dflt = apply_default_result [OF q(1) \<open>find_pid pid (set_proc i ?q s) = Some i\<close> valid(1)]
    consider "p_handlers ?p n = 1" | "p_handlers ?p n = 0" | "p_handlers ?p n \<noteq> 0" "p_handlers ?p n \<noteq> 1" by blast
    then show ?thesis
    proof cases
      case 1
      have "upd_result i pid (deliver (filter (bit d) [Suc n..<32]) (proc_view ?q)) (set_proc i ?q s)
          (signal_loop pid i d (Suc n) (set_proc i ?q s))"
        using IH Suc.hyps(2) Suc.prems(3) n by simp
      then show ?thesis
        using upd_result_trans st 1 True h unfolding c by (simp add: proc_view_state)
    next
      case 2
      have "upd_result i pid (int n, default_action n (acknowledge n (proc_view ?p))) s
          (int n, snd (qos_proc_signal_apply_default pid (word_of_nat n) (set_proc i ?q s)))"
        using upd_result_trans [OF dflt] unfolding valid(2) by (auto simp: upd_result_def proc_view_state)
      then show ?thesis using st 2 True h unfolding c by simp
    next
      case 3
      have "upd_result i pid (int n, acknowledge n (proc_view ?p)) s (int n, set_proc i ?q s)"
        by (rule upd_change [OF p]) (rule proc_view_state)
      then show ?thesis using st 3 True h unfolding c by simp
    qed
  qed
qed

lemma signal_next_result:
  assumes inv: "proc_inv s" and i: "find_pid pid s = Some i"
  shows "upd_result i pid (next_signal (proc_view (g_procs s i))) s (qos_proc_signal_next pid s)"
proof -
  let ?p = "g_procs s i"
  define d where "d = (p_pending ?p AND NOT (p_blocked ?p)) OR (p_pending ?p AND unmaskable_bits)"
  have d: "bit d n \<longleftrightarrow> deliverable (proc_view ?p) n" if "n < 32" for n
    unfolding d_def deliverable_def using that by (auto simp: bit_simps bit_unmaskable proc_view_def)
  have f: "filter (deliverable (proc_view ?p)) [1..<32] = filter (bit d) [1..<32]"
    by (rule filter_cong) (auto simp: d simp del: upt_rec_numeral)
  have none: "next_signal (proc_view ?p) = (0, proc_view ?p)" if "d = 0"
    unfolding next_signal_def f that by simp
  have "p_pending ?p = 0 \<Longrightarrow> d = 0" by (simp add: d_def)
  then have eq: "qos_proc_signal_next pid s = (if d = 0 then (0, s) else signal_loop pid i d 1 s)"
    using i unfolding qos_proc_signal_next_def d_def by (simp add: Let_def)
  show ?thesis
  proof (cases "d = 0")
    case True
    then show ?thesis using eq none upd_same [OF i inv] by simp
  next
    case False
    then show ?thesis using eq signal_loop_deliver [OF inv i, of 1 d] unfolding next_signal_def f by simp
  qed
qed

section \<open>The operations refine the map\<close>

lemma slot_upd_facts:
  assumes "proc_inv s" "find_pid pid s = Some i"
  shows "p_used (g_procs s i)" "p_pid (g_procs s i) = pid" "slot_ok (g_procs s i)"
  using find_pid_Some proc_inv_slot assms by auto

lemma proc_view_sel [simp]:
  "a_exited (proc_view p) = p_exited p" "a_parent (proc_view p) = p_ppid p" "a_handlers (proc_view p) = p_handlers p"
  "a_pending (proc_view p) = p_pending p" "a_blocked (proc_view p) = p_blocked p" "a_cwd (proc_view p) = p_cwd p"
  "a_code (proc_view p) = p_exit_code p" "a_stopped (proc_view p) = p_stopped p" "a_image (proc_view p) = p_image p"
  "a_altstack (proc_view p) = p_altstack p"
  by (simp_all add: proc_view_def)

lemma proc_view_upd [simp]:
  "proc_view (p\<lparr>p_exited := e\<rparr>) = (proc_view p)\<lparr>a_exited := e\<rparr>"
  "proc_view (p\<lparr>p_stopped := b\<rparr>) = (proc_view p)\<lparr>a_stopped := b\<rparr>"
  "proc_view (p\<lparr>p_exit_code := c\<rparr>) = (proc_view p)\<lparr>a_code := c\<rparr>"
  "proc_view (p\<lparr>p_cwd := d\<rparr>) = (proc_view p)\<lparr>a_cwd := d\<rparr>"
  "proc_view (p\<lparr>p_cwd_len := n\<rparr>) = proc_view p"
  "proc_view (p\<lparr>p_handlers := h\<rparr>) = (proc_view p)\<lparr>a_handlers := h\<rparr>"
  "proc_view (p\<lparr>p_pending := m\<rparr>) = (proc_view p)\<lparr>a_pending := m\<rparr>"
  "proc_view (p\<lparr>p_blocked := m\<rparr>) = (proc_view p)\<lparr>a_blocked := m\<rparr>"
  "proc_view (p\<lparr>p_image := im\<rparr>) = (proc_view p)\<lparr>a_image := im\<rparr>"
  "proc_view (p\<lparr>p_altstack := st\<rparr>) = (proc_view p)\<lparr>a_altstack := st\<rparr>"
  by (simp_all add: proc_view_def)

lemma refinesI:
  assumes "proc_inv s" "\<And>m. proc_spec x m = proc_upd pid f m" "find_pid pid s = None \<Longrightarrow> proc_step x s = (-1, s)"
    "\<And>i. find_pid pid s = Some i \<Longrightarrow> p_used (g_procs s i) \<Longrightarrow> p_pid (g_procs s i) = pid \<Longrightarrow> slot_ok (g_procs s i) \<Longrightarrow>
       upd_result i pid (f (proc_view (g_procs s i))) s (proc_step x s)"
  shows "proc_refines x s"
  unfolding proc_refines_def assms(2)
proof (rule proc_upd_refines [where c = "proc_step x", OF assms(1,3)])
  fix i assume i: "find_pid pid s = Some i"
  show "upd_result i pid (f (proc_view (g_procs s i))) s (proc_step x s)"
    by (rule assms(4) [OF i slot_upd_facts [OF assms(1) i]])
qed

lemmas proc_op_defs = qos_proc_exit_def qos_proc_cwd_set_def cwd_set_idx_def qos_proc_exec_signal_reset_def
  qos_proc_exec_image_set_def qos_proc_signal_set_handler_def qos_proc_signal_set_mask_def qos_proc_signal_send_def
  qos_proc_signal_sigreturn_def qos_proc_signal_altstack_set_def

lemma unat_cwd_len: "length d < QOS_PROC_CWD_MAX \<Longrightarrow> unat (word_of_nat (length d) :: u8) = length d"
  by (rule unat_u8_length) simp

lemma proc_refines_state:
  assumes inv: "proc_inv s"
  shows "proc_refines (PExit pid code) s" "proc_refines (PCwd pid path) s" "proc_refines (PImage pid im) s"
    "proc_refines (PAltstack pid sp sz fl) s"
proof -
  note intros = upd_same [OF _ inv] upd_change
  show "proc_refines (PExit pid code) s"
    by (rule refinesI [OF inv proc_spec.simps(4)]) (auto simp: proc_op_defs intro!: intros)
  show "proc_refines (PCwd pid path) s"
    by (rule refinesI [OF inv proc_spec.simps(6)])
      (auto simp: proc_op_defs slot_ok_def unat_cwd_len not_le split: option.splits intro!: intros)
  show "proc_refines (PImage pid im) s"
    by (rule refinesI [OF inv proc_spec.simps(8)]) (auto simp: proc_op_defs split: option.splits intro!: intros)
  show "proc_refines (PAltstack pid sp sz fl) s"
    by (rule refinesI [OF inv proc_spec.simps(15)]) (auto simp: proc_op_defs intro!: intros)
qed

lemma proc_refines_signals:
  assumes inv: "proc_inv s"
  shows "proc_refines (PExecReset pid) s" "proc_refines (PHandler pid signum h) s" "proc_refines (PMask pid b) s"
    "proc_refines (PSend pid signum) s" "proc_refines (PNext pid) s" "proc_refines (PDefault pid signum) s"
    "proc_refines (PSigreturn pid fr) s"
proof -
  note intros = upd_same [OF _ inv] upd_change
  show "proc_refines (PExecReset pid) s"
    by (rule refinesI [OF inv proc_spec.simps(7)])
      (auto simp: proc_op_defs slot_ok_def and_not_and exec_reset_def Let_def cong: if_cong intro!: intros)
  show "proc_refines (PHandler pid signum h) s"
    by (rule refinesI [OF inv proc_spec.simps(9)]) (auto simp: proc_op_defs slot_ok_def intro!: intros)
  show "proc_refines (PMask pid b) s"
    by (rule refinesI [OF inv proc_spec.simps(10)]) (auto simp: proc_op_defs slot_ok_def and_not_and intro!: intros)
  show "proc_refines (PSend pid signum) s"
    by (rule refinesI [OF inv proc_spec.simps(11)]) (auto simp: proc_op_defs intro!: intros)
  show "proc_refines (PNext pid) s"
  proof (rule refinesI [OF inv proc_spec.simps(12)])
    show "proc_step (PNext pid) s = (-1, s)" if "find_pid pid s = None" using that by (simp add: qos_proc_signal_next_def)
  qed (simp add: signal_next_result [OF inv])
  show "proc_refines (PDefault pid signum) s"
  proof (rule refinesI [OF inv proc_spec.simps(13)])
    show "proc_step (PDefault pid signum) s = (-1, s)" if "find_pid pid s = None"
      using that by (simp add: qos_proc_signal_apply_default_def)
    fix i assume i: "find_pid pid s = Some i"
    show "upd_result i pid (if \<not> signum_valid signum then (-1, proc_view (g_procs s i))
        else (0, default_action (unat signum) (proc_view (g_procs s i)))) s (proc_step (PDefault pid signum) s)"
      using i apply_default_result [OF inv i, of signum] upd_same [OF i inv, of "-1"]
      by (cases "signum_valid signum") (simp_all add: qos_proc_signal_apply_default_def Let_def)
  qed
  show "proc_refines (PSigreturn pid fr) s"
    by (rule refinesI [OF inv proc_spec.simps(14)])
      (auto simp: proc_op_defs slot_ok_def and_not_and split: option.splits intro!: intros)
qed

lemma proc_insert:
  assumes inv: "proc_inv s" and i: "free_slot s = Some i" and new: "find_pid pid s = None"
    and p: "p_used p" "p_pid p = pid" "slot_ok p"
  shows "proc_inv ((set_proc i p s)\<lparr>g_proc_count := g_proc_count s + 1\<rparr>)"
    "procs ((set_proc i p s)\<lparr>g_proc_count := g_proc_count s + 1\<rparr>) = (procs s)(pid \<mapsto> proc_view p)"
proof -
  have f: "i < 256" "\<not> p_used (g_procs s i)" using find_free_Some i by (auto simp: free_slot_def)
  have k: "p_pid p \<notin> keys 256 p_used p_pid (g_procs s)"
    using new p(2) find_key_None [of 256 p_used p_pid "g_procs s"] by (simp add: find_pid_def)
  show "proc_inv ((set_proc i p s)\<lparr>g_proc_count := g_proc_count s + 1\<rparr>)"
    using inv f k p tbl_insert [of 256 p_used p_pid "g_procs s" "g_proc_count s" i p] by (simp add: proc_inv_def)
  show "procs ((set_proc i p s)\<lparr>g_proc_count := g_proc_count s + 1\<rparr>) = (procs s)(pid \<mapsto> proc_view p)"
    using tbl_map_insert [OF proc_inv_uniq [OF inv] f p(1) k, of proc_view] p(2) by (simp add: procs_def)
qed

lemma proc_delete:
  assumes inv: "proc_inv s" and i: "find_pid pid s = Some i" and p: "\<not> p_used p"
  shows "proc_inv ((set_proc i p s)\<lparr>g_proc_count := g_proc_count s - 1\<rparr>)"
    "procs ((set_proc i p s)\<lparr>g_proc_count := g_proc_count s - 1\<rparr>) = (procs s)(pid := None)"
proof -
  note f = find_pid_Some [OF i]
  show "proc_inv ((set_proc i p s)\<lparr>g_proc_count := g_proc_count s - 1\<rparr>)"
    using inv f p tbl_remove [of 256 p_used p_pid "g_procs s" "g_proc_count s" i p] by (simp add: proc_inv_def)
  show "procs ((set_proc i p s)\<lparr>g_proc_count := g_proc_count s - 1\<rparr>) = (procs s)(pid := None)"
    using tbl_map_remove [OF proc_inv_uniq [OF inv], of i p proc_view] f p by (simp add: procs_def)
qed

lemma procs_full: "proc_inv s \<Longrightarrow> free_slot s = None \<longleftrightarrow> card (dom (procs s)) = QOS_PROC_MAX"
  "proc_inv s \<Longrightarrow> card (dom (procs s)) = unat (qos_proc_count s)"
  unfolding procs_def dom_tbl_map free_slot_def proc_inv_def qos_proc_count_def by (auto simp: tbl_full tbl_card)

lemma remove_shape:
  assumes "find_pid pid s = Some i"
  obtains p where "\<not> p_used p" "qos_proc_remove pid s = (0, (set_proc i p s)\<lparr>g_proc_count := g_proc_count s - 1\<rparr>)"
proof -
  let ?p = "(g_procs s i)\<lparr>p_used := False, p_exited := False, p_stopped := False, p_exit_code := 0,
    p_pid := 0, p_ppid := 0, p_cwd := [], p_cwd_len := 0, p_name := [], p_name_len := 0, p_handlers := (\<lambda>_. 0), p_pending := 0,
    p_blocked := 0, p_altstack := \<lparr>ss_sp = 0, ss_size = 0, ss_flags = 0\<rparr>, p_image := image0\<rparr>"
  have "qos_proc_remove pid s = (0, (set_proc i ?p s)\<lparr>g_proc_count := g_proc_count s - 1\<rparr>)"
    using assms by (simp add: qos_proc_remove_def init_exec_image_state_def init_signal_state_def Let_def)
  then show thesis by (rule that [rotated]) simp
qed

lemma create_shape:
  assumes "pid \<noteq> 0" "find_pid pid s = None" "free_slot s = Some i"
  obtains p where "p_used p" "p_pid p = pid" "slot_ok p" "proc_view p = new_process ppid"
    "qos_proc_create pid ppid s = (0, (set_proc i p s)\<lparr>g_proc_count := g_proc_count s + 1\<rparr>)"
proof -
  define p where "p = (g_procs s i)\<lparr>p_used := True, p_exited := False, p_stopped := False,
    p_exit_code := 0, p_pid := pid, p_ppid := ppid, p_cwd := ''/'', p_cwd_len := 1, p_name := proc_name pid,
    p_name_len := word_of_nat (length (proc_name pid)), p_handlers := (\<lambda>_. 0), p_pending := 0, p_blocked := 0,
    p_altstack := \<lparr>ss_sp = 0, ss_size = 0, ss_flags = 0\<rparr>, p_image := image0\<rparr>"
  have "qos_proc_create pid ppid s = (0, (set_proc i p s)\<lparr>g_proc_count := g_proc_count s + 1\<rparr>)"
    using assms by (simp add: qos_proc_create_def cwd_set_idx_def init_name_idx_eq init_signal_state_def
        init_exec_image_state_def Let_def p_def)
  moreover have "slot_ok p" using assms(1) by (simp add: p_def slot_ok_def unat_proc_name_len)
  moreover have "proc_view p = new_process ppid" by (simp add: p_def proc_view_def new_process_def)
  ultimately show thesis by (intro that [of p]) (simp_all add: p_def)
qed

lemma fork_shape:
  assumes inv: "proc_inv s" and c: "child \<noteq> 0" "find_pid child s = None" "find_pid parent s = Some k" "free_slot s = Some i"
  obtains p where "p_used p" "p_pid p = child" "slot_ok p" "proc_view p = forked parent (proc_view (g_procs s k))"
    "qos_proc_fork parent child s = (0, (set_proc i p s)\<lparr>g_proc_count := g_proc_count s + 1\<rparr>)"
proof -
  let ?k = "g_procs s k"
  define p where "p = (g_procs s i)\<lparr>p_used := True, p_exited := False, p_stopped := False,
    p_exit_code := 0, p_pid := child, p_ppid := parent, p_cwd := p_cwd ?k, p_cwd_len := p_cwd_len ?k, p_name := proc_name child,
    p_name_len := word_of_nat (length (proc_name child)), p_handlers := p_handlers ?k, p_blocked := p_blocked ?k,
    p_pending := 0, p_altstack := p_altstack ?k, p_image := p_image ?k\<rparr>"
  have "qos_proc_fork parent child s = (0, (set_proc i p s)\<lparr>g_proc_count := g_proc_count s + 1\<rparr>)"
    using c by (simp add: qos_proc_fork_def init_name_idx_eq Let_def p_def)
  moreover have "slot_ok p" using c(1) proc_inv_slot [OF inv c(3)] by (simp add: p_def slot_ok_def unat_proc_name_len)
  moreover have "proc_view p = forked parent (proc_view ?k)" by (simp add: p_def proc_view_def forked_def)
  ultimately show thesis by (intro that [of p]) (simp_all add: p_def)
qed

lemma proc_refines_table:
  assumes inv: "proc_inv s"
  shows "proc_refines (PCreate pid ppid) s" "proc_refines (PFork parent child) s" "proc_refines (PRemove pid) s"
proof -
  show "proc_refines (PCreate pid ppid) s"
  proof (cases "pid = 0 \<or> find_pid pid s \<noteq> None \<or> free_slot s = None")
    case True
    then have "qos_proc_create pid ppid s = (-1, s)" by (auto simp: qos_proc_create_def)
    then show ?thesis
      using True inv procs_full(1) [OF inv] procs_find(2) [of s pid] by (auto simp: proc_refines_def proc_add_def)
  next
    case False
    then obtain i where i: "pid \<noteq> 0" "find_pid pid s = None" "free_slot s = Some i" by auto
    from create_shape [OF i, of ppid] obtain p where p: "p_used p" "p_pid p = pid" "slot_ok p" "proc_view p = new_process ppid"
      "qos_proc_create pid ppid s = (0, (set_proc i p s)\<lparr>g_proc_count := g_proc_count s + 1\<rparr>)" by blast
    then show ?thesis
      using proc_insert [OF inv i(3,2) p(1-3)] i procs_full(1) [OF inv] procs_find(2) [of s pid]
      by (simp add: proc_refines_def proc_add_def)
  qed
  show "proc_refines (PRemove pid) s"
  proof (cases "find_pid pid s")
    case None
    then show ?thesis using inv procs_find(2) [of s pid] by (simp add: proc_refines_def qos_proc_remove_def)
  next
    case (Some i)
    obtain p where p: "\<not> p_used p" "qos_proc_remove pid s = (0, (set_proc i p s)\<lparr>g_proc_count := g_proc_count s - 1\<rparr>)"
      by (rule remove_shape [OF Some])
    then show ?thesis
      using proc_delete [OF inv Some p(1)] Some procs_find(2) [of s pid] by (simp add: proc_refines_def)
  qed
  show "proc_refines (PFork parent child) s"
  proof (cases "child = 0 \<or> find_pid child s \<noteq> None \<or> find_pid parent s = None \<or> free_slot s = None")
    case True
    then have "qos_proc_fork parent child s = (-1, s)" by (auto simp: qos_proc_fork_def split: option.splits)
    then show ?thesis
      using True inv procs_full(1) [OF inv] procs_find(2) [of s]
      by (auto simp: proc_refines_def proc_add_def split: option.splits)
  next
    case False
    then obtain k i where i: "child \<noteq> 0" "find_pid child s = None" "find_pid parent s = Some k" "free_slot s = Some i" by auto
    from fork_shape [OF inv i] obtain p where p: "p_used p" "p_pid p = child" "slot_ok p"
      "proc_view p = forked parent (proc_view (g_procs s k))"
      "qos_proc_fork parent child s = (0, (set_proc i p s)\<lparr>g_proc_count := g_proc_count s + 1\<rparr>)" by blast
    then show ?thesis
      using proc_insert [OF inv i(4,2) p(1-3)] i procs_full(1) [OF inv] procs_find(2) [of s child] procs_find(1) [OF i(3)]
      by (simp add: proc_refines_def proc_add_def)
  qed
qed

lemma wait_option: "options AND 1 \<noteq> 0 \<longleftrightarrow> bit options 0" for options :: u32
  using signum_bit_test [of options 0] by (simp add: signum_bit_def)

lemma proc_refines_wait:
  assumes inv: "proc_inv s"
  shows "proc_refines (PWait parent child options) s"
proof (cases "child = - 1 \<or> find_pid parent s = None")
  case True
  then show ?thesis
    using inv procs_find(2) [of s parent] by (auto simp: proc_refines_def qos_proc_wait_def Let_def)
next
  case False
  have c2: "word_of_int (sint child) = child" by simp
  have c: "sint child \<noteq> -1" "word_of_int (sint child) = child"
  proof
    assume "sint child = -1"
    with c2 have "child = word_of_int (-1)" by simp
    then show False using False by simp
  qed (rule c2)
  have par: "\<not> (procs s parent = None \<or> child = - 1)" using False procs_find(2) [of s parent] by simp
  show ?thesis
  proof (cases "find_pid child s")
    case None
    then have "wait_match parent (sint child) options s = Inl (if bit options 0 then 0 else -1)"
      using c by (simp add: wait_match_def wait_option)
    then show ?thesis
      using None par False inv procs_find(2) [of s child] by (auto simp: proc_refines_def qos_proc_wait_def Let_def)
  next
    case (Some i)
    note pi = procs_find(1) [OF Some]
    have w: "wait_match parent (sint child) options s = (if p_ppid (g_procs s i) \<noteq> parent then Inl (-1)
        else if \<not> p_exited (g_procs s i) then Inl (if bit options 0 then 0 else -1) else Inr i)"
      using Some c by (simp add: wait_match_def wait_option)
    have pid: "p_pid (g_procs s i) = child" using find_pid_Some [OF Some] by simp
    obtain p where p: "\<not> p_used p" "qos_proc_remove child s = (0, (set_proc i p s)\<lparr>g_proc_count := g_proc_count s - 1\<rparr>)"
      by (rule remove_shape [OF Some])
    show ?thesis
      using w par False inv pi pid p proc_delete [OF inv Some p(1)] by (auto simp: proc_refines_def qos_proc_wait_def Let_def)
  qed
qed

lemma proc_step_refines:
  "proc_inv s \<Longrightarrow> \<exists>s'. proc_step x s = (fst (proc_spec x (procs s)), s') \<and> proc_inv s' \<and> procs s' = snd (proc_spec x (procs s))"
  unfolding proc_refines_def [symmetric]
  by (cases x) (simp_all only: proc_refines_state proc_refines_signals proc_refines_table proc_refines_wait)

interpretation proc_sim: simulation proc_step proc_spec procs proc_inv
  by unfold_locales (rule proc_step_refines)

lemma proc_inv_reset: "proc_inv qos_proc_reset" "procs qos_proc_reset = Map.empty"
proof -
  have "dom (procs qos_proc_reset) = {}"
    unfolding procs_def dom_tbl_map by (rule keys_empty) (simp add: qos_proc_reset_def)
  then show "procs qos_proc_reset = Map.empty" by auto
  show "proc_inv qos_proc_reset" by (simp add: proc_inv_def tbl_inv_def qos_proc_reset_def)
qed

end
