(* ===== verification/Signals.thy ===== *)
theory Signals
  imports Procmap
begin

text \<open>
  Properties of the process table and of signals: the refinement of the map, waiting for children,
  the delivery of \<open>SIGKILL\<close>, and working directories.
\<close>

section \<open>Delivery of SIGKILL\<close>

lemma proc_handlers_inv: "proc_inv s \<Longrightarrow> procs s pid = Some p \<Longrightarrow> a_handlers p QOS_SIGKILL = QOS_SIG_DFL"
  using proc_inv_slot [of s pid] procs_find(1) [of pid s] procs_find(2) [of s pid]
  by (cases "find_pid pid s") (auto simp: slot_ok_def)

lemma acknowledge_pending: "bit (a_pending (acknowledge n p)) j \<longleftrightarrow> bit (a_pending p) j \<and> j \<noteq> n"
  unfolding acknowledge_def by (auto simp: bit_simps bit_signum_bit dest: bit_imp_le_length)

lemma default_action_sel [simp]:
  "a_pending (default_action n p) = a_pending p" "a_blocked (default_action n p) = a_blocked p"
  "a_handlers (default_action n p) = a_handlers p"
  by (simp_all add: default_action_def)

lemma acknowledge_sel [simp]: "a_blocked (acknowledge n p) = a_blocked p" "a_handlers (acknowledge n p) = a_handlers p"
  by (simp_all add: acknowledge_def)

lemma deliver_frame:
  "a_blocked (snd (deliver ns p)) = a_blocked p \<and> a_handlers (snd (deliver ns p)) = a_handlers p \<and>
   (bit (a_pending (snd (deliver ns p))) j \<longrightarrow> bit (a_pending p) j)"
proof (induction ns arbitrary: p)
  case (Cons n ns)
  show ?case using Cons.IH [of "acknowledge n p"] by (simp add: acknowledge_pending)
qed simp

text \<open>Delivering from a list that holds \<open>SIGKILL\<close> ends the process or takes an earlier signal.\<close>

lemma deliver_sigkill:
  assumes "sorted_wrt (<) ns" "QOS_SIGKILL \<in> set ns" "a_handlers p QOS_SIGKILL = QOS_SIG_DFL" "bit (a_pending p) QOS_SIGKILL"
  shows "a_exited (snd (deliver ns p)) \<or>
    bit (a_pending (snd (deliver ns p))) QOS_SIGKILL \<and> (\<exists>n \<in> set ns. n < QOS_SIGKILL \<and> \<not> bit (a_pending (snd (deliver ns p))) n)"
  using assms
proof (induction ns arbitrary: p)
  case (Cons n ns)
  have "n \<le> 9" using Cons.prems(1,2) by auto
  then consider "a_handlers p n = QOS_SIG_IGN" "n < 9" | "a_handlers p n \<noteq> QOS_SIG_IGN" "n < 9" | "n = 9" by linarith
  then show ?case
  proof cases
    case 1
    let ?q = "acknowledge n p"
    have "bit (a_pending ?q) 9" "9 \<in> set ns" using 1 Cons.prems by (auto simp: acknowledge_pending)
    moreover have "a_handlers ?q 9 = QOS_SIG_DFL" "sorted_wrt (<) ns" using Cons.prems by simp_all
    ultimately have "a_exited (snd (deliver ns ?q)) \<or> bit (a_pending (snd (deliver ns ?q))) 9 \<and>
        (\<exists>m \<in> set ns. m < 9 \<and> \<not> bit (a_pending (snd (deliver ns ?q))) m)" by (intro Cons.IH)
    then show ?thesis using 1 by auto
  next
    case 2
    then show ?thesis using Cons.prems(4) by (simp add: acknowledge_pending)
  next
    case 3
    then show ?thesis using Cons.prems(3) by (simp add: default_action_def)
  qed
qed simp

lemma next_signal_sigkill:
  assumes "bit (a_pending p) QOS_SIGKILL" "a_handlers p QOS_SIGKILL = QOS_SIG_DFL"
  defines "q \<equiv> snd (next_signal p)"
  shows "a_exited q \<or> bit (a_pending q) QOS_SIGKILL \<and>
    {n. n < QOS_SIGKILL \<and> deliverable q n \<and> 0 < n} \<subset> {n. n < QOS_SIGKILL \<and> deliverable p n \<and> 0 < n}"
proof -
  let ?ns = "filter (deliverable p) [1..<32]"
  have s: "sorted_wrt (<) ?ns" by (intro sorted_wrt_filter sorted_wrt_upt)
  have mem: "n \<in> set ?ns \<longleftrightarrow> 1 \<le> n \<and> n < 32 \<and> deliverable p n" for n by (auto simp del: upt_rec_numeral)
  have "9 \<in> set ?ns" using assms(1) unfolding mem by (simp add: deliverable_def)
  note d = deliver_sigkill [OF s this assms(2,1), folded next_signal_def q_def]
  have sub: "deliverable q j \<Longrightarrow> deliverable p j" for j
    using deliver_frame [of ?ns p j, folded next_signal_def q_def] by (auto simp: deliverable_def)
  show ?thesis
  proof (cases "a_exited q")
    case False
    then obtain n where n: "n \<in> set ?ns" "n < 9" "\<not> bit (a_pending q) n" "bit (a_pending q) 9" using d by blast
    then have "\<not> deliverable q n" "deliverable p n" "0 < n" unfolding mem by (auto simp: deliverable_def)
    then show ?thesis using sub n(2,4) by blast
  qed simp
qed

lemma next_signal_keeps_handlers: "a_handlers (snd (next_signal p)) = a_handlers p"
  using deliver_frame unfolding next_signal_def by blast

lemma sigkill_rounds:
  assumes "bit (a_pending p) QOS_SIGKILL" "a_handlers p QOS_SIGKILL = QOS_SIG_DFL"
    "card {n. n < QOS_SIGKILL \<and> deliverable p n \<and> 0 < n} \<le> c"
  shows "\<exists>k \<le> Suc c. a_exited (((\<lambda>p. snd (next_signal p)) ^^ k) p)"
  using assms
proof (induction c arbitrary: p)
  case 0
  have "finite {n. n < 9 \<and> deliverable p n \<and> 0 < n}" by simp
  with 0 have "{n. n < 9 \<and> deliverable p n \<and> 0 < n} = {}" by (simp only: card_0_eq le_zero_eq)
  then have "a_exited (snd (next_signal p))" using next_signal_sigkill [OF 0(1,2)] by auto
  then show ?case by (intro exI [of _ 1]) simp
next
  case (Suc c)
  let ?q = "snd (next_signal p)"
  show ?case
  proof (cases "a_exited ?q")
    case True
    then show ?thesis by (intro exI [of _ 1]) simp
  next
    case False
    then have q: "bit (a_pending ?q) 9" and lt: "{n. n < 9 \<and> deliverable ?q n \<and> 0 < n} \<subset> {n. n < 9 \<and> deliverable p n \<and> 0 < n}"
      using next_signal_sigkill [OF Suc.prems(1,2)] by auto
    have "card {n. n < 9 \<and> deliverable ?q n \<and> 0 < n} < card {n. n < 9 \<and> deliverable p n \<and> 0 < n}"
      by (rule psubset_card_mono [OF _ lt]) simp
    then have "card {n. n < 9 \<and> deliverable ?q n \<and> 0 < n} \<le> c" using Suc.prems(3) by simp
    from Suc.IH [OF q _ this] Suc.prems(2) obtain k where "k \<le> Suc c" "a_exited (((\<lambda>p. snd (next_signal p)) ^^ k) ?q)"
      by (auto simp: next_signal_keeps_handlers)
    then show ?thesis using funpow_swap1 [of "\<lambda>p. snd (next_signal p)" k p] by (intro exI [of _ "Suc k"] conjI) simp_all
  qed
qed

lemma signal_next_procs:
  assumes inv: "proc_inv s" and p: "procs s pid = Some p"
  shows "proc_inv (snd (qos_proc_signal_next pid s))" "procs (snd (qos_proc_signal_next pid s)) pid = Some (snd (next_signal p))"
  using proc_step_refines [OF inv, of "PNext pid"] p by (auto simp: proc_upd_def)

lemma signal_next_iterate:
  assumes "proc_inv s" "procs s pid = Some p"
  shows "proc_inv (((\<lambda>s. snd (qos_proc_signal_next pid s)) ^^ k) s) \<and>
    procs (((\<lambda>s. snd (qos_proc_signal_next pid s)) ^^ k) s) pid = Some (((\<lambda>p. snd (next_signal p)) ^^ k) p)"
proof (induction k)
  case (Suc k)
  then show ?case using signal_next_procs by simp
qed (use assms in simp)

lemma qos_proc_alive_procs: "qos_proc_alive pid s \<longleftrightarrow> (\<exists>p. procs s pid = Some p \<and> \<not> a_exited p)"
  using procs_find(1) [of pid s] procs_find(2) [of s pid] by (cases "find_pid pid s") (auto simp: qos_proc_alive_def)

lemma name_copy_len:
  fixes l :: u8 and n :: u32
  assumes "unat l = length xs" "length xs < 256"
  shows "n < ucast l + 1 \<longleftrightarrow> unat n \<le> length xs" "unat (ucast l :: u32) = length xs"
proof -
  show u: "unat (ucast l :: u32) = length xs" using assms by (simp add: unsigned_ucast_eq take_bit_nat_eq_self)
  then have "unat (ucast l + 1 :: u32) = Suc (length xs)" using assms by (simp add: unat_word_ariths)
  then show "n < ucast l + 1 \<longleftrightarrow> unat n \<le> length xs" by (auto simp: word_less_nat_alt)
qed

section \<open>Properties\<close>

text \<open>
  C8. The process table refines a finite map from identifiers to processes. From any well-formed
  table, any sequence of create, fork, remove, exit, wait, working-directory, exec and signal operations
  gives the results of the specification, which knows no slots, and leaves a well-formed table whose
  abstraction is the map of the specification; the counter is the number of processes, and the
  queries read the map.
\<close>

theorem proc_refines_map:
  assumes "proc_inv s"
  shows "\<exists>s'. run_ops proc_step xs s = (fst (run_ops proc_spec xs (procs s)), s') \<and> proc_inv s' \<and>
    procs s' = snd (run_ops proc_spec xs (procs s)) \<and> unat (qos_proc_count s') = card (dom (procs s')) \<and>
    (\<forall>pid. qos_proc_alive pid s' \<longleftrightarrow> (\<exists>p. procs s' pid = Some p \<and> \<not> a_exited p)) \<and>
    (\<forall>pid. qos_proc_parent pid s' = (case procs s' pid of None \<Rightarrow> -1 | Some p \<Rightarrow> sint (a_parent p)))"
proof -
  obtain s' where s': "run_ops proc_step xs s = (fst (run_ops proc_spec xs (procs s)), s')" "proc_inv s'"
    "procs s' = snd (run_ops proc_spec xs (procs s))"
    using proc_sim.sim_run [OF assms, of xs] by blast
  have "qos_proc_parent pid s' = (case procs s' pid of None \<Rightarrow> -1 | Some p \<Rightarrow> sint (a_parent p))" for pid
    using procs_find(1) [of pid s'] procs_find(2) [of s' pid] by (cases "find_pid pid s'") (auto simp: qos_proc_parent_def)
  then show ?thesis using s' procs_full(2) [OF s'(2)] qos_proc_alive_procs by (metis (no_types, lifting))
qed

theorem proc_refines_map_witness:
  "let xs = [PCreate 1 0, PMask 1 0x80600, PFork 1 2, PSend 2 15, PNext 2, PWait 1 2 1, PWait 1 2 0] in
   proc_inv qos_proc_reset \<and> fst (run_ops proc_spec xs Map.empty) = [0, 0, 0, 0, 15, 2, -1] \<and>
   card (dom (snd (run_ops proc_spec xs Map.empty))) = 1"
proof -
  define xs where "xs = [PCreate 1 0, PMask 1 0x80600, PFork 1 2, PSend 2 15, PNext 2, PWait 1 2 1, PWait 1 2 0]"
  have c: "fst (run_ops proc_step xs qos_proc_reset) = [0, 0, 0, 0, 15, 2, -1]"
    "unat (qos_proc_count (snd (run_ops proc_step xs qos_proc_reset))) = 1"
    unfolding xs_def by code_simp+
  from proc_refines_map [OF proc_inv_reset(1), of xs] obtain s' where
    s': "run_ops proc_step xs qos_proc_reset = (fst (run_ops proc_spec xs Map.empty), s')"
      "procs s' = snd (run_ops proc_spec xs Map.empty)" "unat (qos_proc_count s') = card (dom (procs s'))"
    unfolding proc_inv_reset(2) by blast
  with c show ?thesis using proc_inv_reset(1) unfolding Let_def xs_def [symmetric] by simp
qed

text \<open>
  C35. Waiting for any child reaps one that has exited. With \<open>pid = -1\<close>, \<open>qos_proc_wait\<close> called by an existing
  process returns the identifier and the exit code of some exited child and removes exactly that
  process, if there is one; otherwise it changes nothing and returns 0 or -1 according to \<open>WNOHANG\<close>. A
  process that is not in the table gets -1.
\<close>

theorem proc_wait_any:
  assumes inv: "proc_inv s"
  shows "case qos_proc_wait parent (-1) options s of (r, status, s') \<Rightarrow>
    (if procs s parent = None then r = -1 \<and> status = None \<and> s' = s
     else if \<exists>c p. procs s c = Some p \<and> a_parent p = parent \<and> a_exited p then
       \<exists>c p. procs s c = Some p \<and> a_parent p = parent \<and> a_exited p \<and> r = sint c \<and> status = Some (a_code p) \<and>
         proc_inv s' \<and> procs s' = (procs s)(c := None) \<and> qos_proc_count s' = qos_proc_count s - 1
     else r = (if bit options 0 then 0 else -1) \<and> status = None \<and> s' = s)"
proof (cases "find_pid parent s")
  case None
  then show ?thesis using procs_find(2) [of s parent] by (simp add: qos_proc_wait_def)
next
  case (Some k)
  let ?P = "\<lambda>i. p_used (g_procs s i) \<and> p_ppid (g_procs s i) = parent \<and> p_exited (g_procs s i)"
  have par: "procs s parent \<noteq> None" using Some procs_find(2) [of s parent] by simp
  show ?thesis
  proof (cases "scan ?P 0 256")
    case None
    have "\<not> (procs s c = Some p \<and> a_parent p = parent \<and> a_exited p)" for c p
    proof
      assume a: "procs s c = Some p \<and> a_parent p = parent \<and> a_exited p"
      then obtain i where "find_pid c s = Some i" "p = proc_view (g_procs s i)"
        using procs_find(1) [of c s] procs_find(2) [of s c] by (cases "find_pid c s") auto
      then show False using a None find_pid_Some [of c s i] by (auto simp: scan_None_iff)
    qed
    then have no: "\<not> (\<exists>c p. procs s c = Some p \<and> a_parent p = parent \<and> a_exited p)" by blast
    have "qos_proc_wait parent (-1) options s = (if bit options 0 then 0 else -1, None, s)"
      using Some None by (simp add: qos_proc_wait_def wait_match_def wait_option)
    then show ?thesis using par no by simp
  next
    case hit: (Some i)
    then have i: "i < 256" "?P i" by (auto dest: scan_SomeD)
    let ?p = "g_procs s i"
    have f: "find_pid (p_pid ?p) s = Some i"
      unfolding find_pid_def using find_key_uniq [OF proc_inv_uniq [OF inv]] i by blast
    obtain q where q: "\<not> p_used q" "qos_proc_remove (p_pid ?p) s = (0, (set_proc i q s)\<lparr>g_proc_count := g_proc_count s - 1\<rparr>)"
      by (rule remove_shape [OF f])
    have w: "qos_proc_wait parent (-1) options s =
        (sint (p_pid ?p), Some (p_exit_code ?p), (set_proc i q s)\<lparr>g_proc_count := g_proc_count s - 1\<rparr>)"
      using Some hit q(2) by (simp add: qos_proc_wait_def wait_match_def Let_def)
    have c: "procs s (p_pid ?p) = Some (proc_view ?p) \<and> a_parent (proc_view ?p) = parent \<and> a_exited (proc_view ?p)"
      using procs_find(1) [OF f] i by simp
    then have ex: "\<exists>c p. procs s c = Some p \<and> a_parent p = parent \<and> a_exited p" by blast
    show ?thesis
      unfolding w prod.case using par ex c proc_delete [OF inv f q(1)]
      by (simp only: if_True if_False not_False_eq_True) (intro exI [of _ "p_pid ?p"] exI [of _ "proc_view ?p"], simp add: qos_proc_count_def)
  qed
qed

theorem proc_wait_any_witness:
  "let s = snd (run_ops proc_step [PCreate 1 0, PFork 1 2, PFork 1 3, PExit 3 7] qos_proc_reset) in
   proc_inv s \<and> (case qos_proc_wait 1 (-1) 0 s of (r, status, s') \<Rightarrow> r = 3 \<and> status = Some 7 \<and> procs s' = (procs s)(3 := None))"
proof -
  define s where "s = snd (run_ops proc_step [PCreate 1 0, PFork 1 2, PFork 1 3, PExit 3 7] qos_proc_reset)"
  have inv: "proc_inv s" unfolding s_def by (rule proc_sim.sim_invar) (rule proc_inv_reset)
  have c: "fst (qos_proc_wait 1 (-1) 0 s) = 3" "fst (snd (qos_proc_wait 1 (-1) 0 s)) = Some 7" unfolding s_def by code_simp+
  have "k = 3" if "sint k = 3" for k :: u32
  proof -
    have "k = word_of_int (sint k)" by simp
    then show ?thesis unfolding that by simp
  qed
  with proc_wait_any [OF inv, of 1 0] c show ?thesis
    unfolding Let_def s_def [symmetric] using inv by (auto split: prod.splits if_splits)
qed

text \<open>
  C34. \<open>SIGKILL\<close> cannot be escaped. In a well-formed table a process cannot handle, ignore or
  block it; once it is sent, the process is no longer alive after at most nine further calls of
  \<open>qos_proc_signal_next\<close>, whatever signals with lower numbers are pending.
\<close>

theorem sigkill_kills:
  assumes inv: "proc_inv s" and p: "procs s pid \<noteq> None"
  shows "\<exists>s'. qos_proc_signal_send pid 9 s = (0, s') \<and>
    (\<exists>k \<le> 9. \<not> qos_proc_alive pid (((\<lambda>s. snd (qos_proc_signal_next pid s)) ^^ k) s')) \<and>
    (\<forall>h. h \<noteq> QOS_SIG_DFL \<longrightarrow> qos_proc_signal_set_handler pid 9 h s' = (-1, s')) \<and>
    (\<forall>m q. procs (snd (qos_proc_signal_set_mask pid m s')) pid = Some q \<longrightarrow> \<not> bit (a_blocked q) QOS_SIGKILL)"
proof -
  obtain s' where s': "qos_proc_signal_send pid 9 s = (fst (proc_spec (PSend pid 9) (procs s)), s')" "proc_inv s'"
    "procs s' = snd (proc_spec (PSend pid 9) (procs s))"
    using proc_step_refines [OF inv, of "PSend pid 9"] by auto
  have v: "signum_valid 9" by (simp add: signum_valid_def)
  obtain q where q: "procs s pid = Some q" using p by blast
  then have r: "fst (proc_spec (PSend pid 9) (procs s)) = 0"
    "procs s' pid = Some (q\<lparr>a_pending := a_pending q OR signum_bit 9\<rparr>)"
    using v s'(3) by (simp_all add: proc_upd_def)
  let ?q = "q\<lparr>a_pending := a_pending q OR signum_bit 9\<rparr>"
  have "bit (a_pending ?q) 9" by (simp add: bit_or_iff bit_signum_bit)
  moreover have "card {n. n < 9 \<and> deliverable ?q n \<and> 0 < n} \<le> card {1..<9::nat}" by (rule card_mono) auto
  ultimately obtain k where k: "k \<le> 9" "a_exited (((\<lambda>p. snd (next_signal p)) ^^ k) ?q)"
    using sigkill_rounds [of ?q 8] proc_handlers_inv [OF s'(2) r(2)] by auto
  have "\<not> qos_proc_alive pid (((\<lambda>s. snd (qos_proc_signal_next pid s)) ^^ k) s')"
    using signal_next_iterate [OF s'(2) r(2), of k] k(2) by (simp add: qos_proc_alive_procs)
  moreover have "qos_proc_signal_set_handler pid 9 h s' = (-1, s')" if "h \<noteq> 0" for h
    using that by (simp add: qos_proc_signal_set_handler_def split: option.splits)
  moreover have "\<not> bit (a_blocked x) 9" if "procs (snd (qos_proc_signal_set_mask pid m s')) pid = Some x" for m x
  proof -
    obtain t where "qos_proc_signal_set_mask pid m s' = (fst (proc_spec (PMask pid m) (procs s')), t)"
      "procs t = snd (proc_spec (PMask pid m) (procs s'))"
      using proc_step_refines [OF s'(2), of "PMask pid m"] by auto
    then show ?thesis using that r(2) by (auto simp: proc_upd_def bit_simps bit_unmaskable)
  qed
  ultimately show ?thesis using s'(1) r(1) k(1) by auto
qed

theorem sigkill_kills_witness:
  "let s = snd (run_ops proc_step [PCreate 5 0, PHandler 5 3 0x4000, PSend 5 3] qos_proc_reset) in
   proc_inv s \<and> procs s 5 \<noteq> None \<and>
   (\<exists>s'. qos_proc_signal_send 5 9 s = (0, s') \<and> (\<exists>k \<le> 9. \<not> qos_proc_alive 5 (((\<lambda>s. snd (qos_proc_signal_next 5 s)) ^^ k) s')))"
proof -
  define s where "s = snd (run_ops proc_step [PCreate 5 0, PHandler 5 3 0x4000, PSend 5 3] qos_proc_reset)"
  have inv: "proc_inv s" unfolding s_def by (rule proc_sim.sim_invar) (rule proc_inv_reset)
  have "find_pid 5 s = Some 0" unfolding s_def by code_simp
  then have p: "procs s 5 \<noteq> None" using procs_find(2) [of s 5] by simp
  from sigkill_kills [OF inv p] inv p show ?thesis unfolding Let_def s_def [symmetric] by blast
qed

text \<open>
  The working directory set is the one read back. \<open>qos_proc_cwd_set\<close> accepts exactly the absolute paths
  shorter than 128 characters; a later \<open>qos_proc_cwd_get\<close> with room for the path and its terminating zero
  returns it, and fails with less room. The name of the process reads back as its identifier.
\<close>

lemma proc_cwd_roundtrip:
  assumes inv: "proc_inv s" and i: "find_pid pid s = Some i"
  shows "(\<exists>s'. qos_proc_cwd_set pid (Some path) s = (if path \<noteq> [] \<and> hd path = CHR ''/'' \<and> length path < 128 then 0 else -1, s') \<and>
      (path \<noteq> [] \<and> hd path = CHR ''/'' \<and> length path < 128 \<longrightarrow> qos_proc_cwd_get pid True n s' =
        (if unat n \<le> length path then (-1, None) else (int (length path), Some path)))) \<and>
    qos_proc_name_get pid True n s = (if unat n \<le> 5 + length (dec_string pid) then (-1, None)
      else (5 + int (length (dec_string pid)), Some (''proc-'' @ dec_string pid))) \<and> dec_read 0 (dec_string pid) = pid"
proof (intro conjI)
  let ?p = "g_procs s i"
  have p: "p_used ?p" "p_pid ?p = pid" "slot_ok ?p" by (rule slot_upd_facts [OF inv i])+
  have n0: "n = 0 \<Longrightarrow> unat n \<le> k" for k by simp
  show "\<exists>s'. qos_proc_cwd_set pid (Some path) s = (if path \<noteq> [] \<and> hd path = CHR ''/'' \<and> length path < 128 then 0 else -1, s') \<and>
      (path \<noteq> [] \<and> hd path = CHR ''/'' \<and> length path < 128 \<longrightarrow> qos_proc_cwd_get pid True n s' =
        (if unat n \<le> length path then (-1, None) else (int (length path), Some path)))"
  proof (cases "path \<noteq> [] \<and> hd path = CHR ''/'' \<and> length path < 128")
    case False
    then show ?thesis using i by (auto simp: qos_proc_cwd_set_def cwd_set_idx_def)
  next
    case ok: True
    let ?q = "?p\<lparr>p_cwd := path, p_cwd_len := word_of_nat (length path)\<rparr>"
    have set: "qos_proc_cwd_set pid (Some path) s = (0, set_proc i ?q s)"
      using i ok by (auto simp: qos_proc_cwd_set_def cwd_set_idx_def)
    have l: "unat (word_of_nat (length path) :: u8) = length path" "length path < 256" using ok unat_cwd_len by auto
    have "slot_ok ?q" using p(3) ok l by (simp add: slot_ok_def)
    then have "find_pid pid (set_proc i ?q s) = Some i" using proc_replace(3) [OF inv i, where p = ?q and q = pid] p i by simp
    then have "qos_proc_cwd_get pid True n (set_proc i ?q s) =
        (if unat n \<le> length path then (-1, None) else (int (length path), Some path))"
      using name_copy_len(1) [OF l, of n] name_copy_len(2) [OF l] n0 by (auto simp: qos_proc_cwd_get_def)
    then show ?thesis using set ok by auto
  qed
  have l: "unat (p_name_len ?p) = length (proc_name pid)" "length (proc_name pid) < 256" "p_name ?p = proc_name pid"
    using p proc_name_room(2) [of pid] by (auto simp: slot_ok_def)
  show "qos_proc_name_get pid True n s = (if unat n \<le> 5 + length (dec_string pid) then (-1, None)
      else (5 + int (length (dec_string pid)), Some (''proc-'' @ dec_string pid)))"
    using i name_copy_len(1) [OF l(1,2), of n] name_copy_len(2) [OF l(1,2)] n0 l(3) by (auto simp: qos_proc_name_get_def proc_name_def)
qed (rule dec_read_dec_string)

end
