(* ===== verification/Softirq.thy ===== *)
theory Softirq
  imports Prelude
begin

text \<open>
  The state of the deferred-work components (\<^verbatim>\<open>irq/softirq.c\<close>, \<^verbatim>\<open>timer/timer.c\<close>,
  \<^verbatim>\<open>workqueue/workqueue.c\<close>, \<^verbatim>\<open>net/napi.c\<close>, \<^verbatim>\<open>kthread/kthread.c\<close> under \<^verbatim>\<open>src/c-os/kernel\<close>) and the
  software interrupts of \<^verbatim>\<open>irq/softirq.c\<close>.

  A function pointer and a \<open>void *\<close> are addresses (0 is null). Code behind a pointer is an argument of
  the definitions that call it and may change the whole state \<open>'w deferred\<close>, whose field \<open>world\<close>
  stands for everything outside these components. The handler table of the software interrupts
  holds the kernel's own handlers (\<open>TimerH\<close>, \<open>NapiH\<close>, \<open>WorkH\<close>) or an address (\<open>UserH\<close>); the argument
  \<open>call\<close> runs a handler and returns \<open>None\<close> when the handler never returns.
\<close>

section \<open>State\<close>

type_synonym ptr = u64

datatype softirq_fn = TimerH | NapiH | WorkH | UserH ptr

record timer_entry =
  t_used :: bool
  t_periodic :: bool
  t_pending :: bool
  t_expires :: u64
  t_interval :: u32
  t_callback :: ptr
  t_ctx :: ptr

record work_entry =
  w_used :: bool
  w_pending :: bool
  w_id :: u32
  w_fn :: ptr
  w_arg :: ptr

record napi =
  np_used :: bool
  np_scheduled :: bool
  np_id :: u32
  np_weight :: u32
  np_poll :: ptr
  np_ctx :: ptr
  np_run_count :: u32

record kthread =
  kt_used :: bool
  kt_runnable :: bool
  kt_tid :: u32
  kt_entry :: ptr
  kt_arg :: ptr
  kt_run_count :: u32
  kt_name :: string
  kt_name_len :: u8

record 'w deferred =
  g_handlers :: "softirq_fn option arr"
  g_handler_ctx :: "ptr arr"
  g_pending_mask :: u32
  g_timers :: "timer_entry arr"
  g_jiffies :: u64
  g_entries :: "work_entry arr"
  g_queue :: "u16 arr"
  g_qhead :: u16
  g_qtail :: u16
  g_qcount :: u16
  g_next_id :: u32
  g_completed :: u32
  g_napi :: "napi arr"
  g_next_napi_id :: u32
  g_threads :: "kthread arr"
  g_next_tid :: u32
  g_cursor :: u32
  g_current_tid :: u32
  world :: 'w

section \<open>Model\<close>

abbreviation (input) QOS_SOFTIRQ_MAX :: nat where "QOS_SOFTIRQ_MAX \<equiv> 8"
abbreviation (input) QOS_SOFTIRQ_TIMER :: u32 where "QOS_SOFTIRQ_TIMER \<equiv> 0"
abbreviation (input) QOS_SOFTIRQ_NET_RX :: u32 where "QOS_SOFTIRQ_NET_RX \<equiv> 1"
abbreviation (input) QOS_SOFTIRQ_WORKQUEUE :: u32 where "QOS_SOFTIRQ_WORKQUEUE \<equiv> 2"

definition vector_valid :: "u32 \<Rightarrow> bool" where
  "vector_valid vector \<longleftrightarrow> unat vector < QOS_SOFTIRQ_MAX"

definition qos_softirq_reset :: "'w deferred \<Rightarrow> 'w deferred" where
  "qos_softirq_reset s = s\<lparr>g_handlers := (\<lambda>_. None), g_handler_ctx := (\<lambda>_. 0), g_pending_mask := 0\<rparr>"

definition qos_softirq_register :: "u32 \<Rightarrow> softirq_fn option \<Rightarrow> ptr \<Rightarrow> 'w deferred \<Rightarrow> int \<times> 'w deferred" where
  "qos_softirq_register vector handler ctx s =
     (if \<not> vector_valid vector \<or> handler = None then (-1, s)
      else (0, s\<lparr>g_handlers := (g_handlers s)(unat vector := handler),
                 g_handler_ctx := (g_handler_ctx s)(unat vector := ctx)\<rparr>))"

definition qos_softirq_raise :: "u32 \<Rightarrow> 'w deferred \<Rightarrow> int \<times> 'w deferred" where
  "qos_softirq_raise vector s =
     (if \<not> vector_valid vector then (-1, s)
      else (0, s\<lparr>g_pending_mask := g_pending_mask s OR push_bit (unat vector) 1\<rparr>))"

definition qos_softirq_pending_mask :: "'w deferred \<Rightarrow> u32" where
  "qos_softirq_pending_mask s = g_pending_mask s"

text \<open>
  One pass of the outer loop: the inner loop finds the lowest pending vector below 8; the result is
  the state and whether a handler called. A mask with no bit below 8 makes the pass do nothing.
\<close>

definition softirq_pass ::
  "(softirq_fn \<Rightarrow> ptr \<Rightarrow> 'w deferred \<Rightarrow> 'w deferred option) \<Rightarrow> 'w deferred \<Rightarrow> (bool \<times> 'w deferred) option" where
  "softirq_pass call s =
     (case scan (\<lambda>i. g_pending_mask s AND push_bit i 1 \<noteq> 0) 0 QOS_SOFTIRQ_MAX of
        None \<Rightarrow> Some (False, s)
      | Some i \<Rightarrow>
          let fn = g_handlers s i; ctx = g_handler_ctx s i;
              s1 = s\<lparr>g_pending_mask := g_pending_mask s AND NOT (push_bit i 1)\<rparr> in
          case fn of None \<Rightarrow> Some (False, s1) | Some f \<Rightarrow> map_option (Pair True) (call f ctx s1))"

partial_function (option) softirq_loop ::
  "(softirq_fn \<Rightarrow> ptr \<Rightarrow> 'w deferred \<Rightarrow> 'w deferred option) \<Rightarrow> u32 \<Rightarrow> 'w deferred \<Rightarrow> (u32 \<times> 'w deferred) option" where
  "softirq_loop call handled s =
     (if g_pending_mask s \<noteq> 0 then
        case softirq_pass call s of
          None \<Rightarrow> None
        | Some (called, s1) \<Rightarrow> softirq_loop call (if called then handled + 1 else handled) s1
      else Some (handled, s))"

declare softirq_loop.simps [code]

definition qos_softirq_run ::
  "(softirq_fn \<Rightarrow> ptr \<Rightarrow> 'w deferred \<Rightarrow> 'w deferred option) \<Rightarrow> 'w deferred \<Rightarrow> (u32 \<times> 'w deferred) option" where
  "qos_softirq_run call s = softirq_loop call 0 s"

definition softirq_init :: "'w deferred \<Rightarrow> 'w deferred" where
  "softirq_init s = qos_softirq_reset s"

section \<open>Specification\<close>

text \<open>Only the vectors below 8 are ever pending.\<close>

definition softirq_inv :: "'w deferred \<Rightarrow> bool" where
  "softirq_inv s \<longleftrightarrow> unat (g_pending_mask s) < 2 ^ QOS_SOFTIRQ_MAX"

definition pending_vectors :: "'w deferred \<Rightarrow> nat list" where
  "pending_vectors s = filter (bit (g_pending_mask s)) [0..<QOS_SOFTIRQ_MAX]"

text \<open>The pending vectors that have a handler.\<close>

definition due_vectors :: "'w deferred \<Rightarrow> nat list" where
  "due_vectors s = filter (\<lambda>i. g_handlers s i \<noteq> None) (pending_vectors s)"

text \<open>Handlers that return and neither raise software interrupts nor register handlers.\<close>

definition quiet_call :: "(softirq_fn \<Rightarrow> ptr \<Rightarrow> 'w deferred \<Rightarrow> 'w deferred option) \<Rightarrow> bool" where
  "quiet_call call \<longleftrightarrow> (\<forall>f p s. \<exists>s'. call f p s = Some s' \<and> g_pending_mask s' = g_pending_mask s \<and>
     g_handlers s' = g_handlers s \<and> g_handler_ctx s' = g_handler_ctx s)"

text \<open>Vector \<open>i\<close> is acknowledged and its handler, if any, runs.\<close>

definition serve :: "(softirq_fn \<Rightarrow> ptr \<Rightarrow> 'w deferred \<Rightarrow> 'w deferred option) \<Rightarrow> nat \<Rightarrow> 'w deferred \<Rightarrow> 'w deferred" where
  "serve call i s =
     (let s1 = s\<lparr>g_pending_mask := g_pending_mask s AND NOT (push_bit i 1)\<rparr> in
      case g_handlers s i of None \<Rightarrow> s1 | Some f \<Rightarrow> the (call f (g_handler_ctx s i) s1))"

text \<open>The static storage at load time, and a handler that only notes that it was called.\<close>

definition deferred_zero :: "'w \<Rightarrow> 'w deferred" where
  "deferred_zero w = \<lparr>g_handlers = (\<lambda>_. None), g_handler_ctx = (\<lambda>_. 0), g_pending_mask = 0,
     g_timers = (\<lambda>_. \<lparr>t_used = False, t_periodic = False, t_pending = False, t_expires = 0, t_interval = 0,
       t_callback = 0, t_ctx = 0\<rparr>), g_jiffies = 0,
     g_entries = (\<lambda>_. \<lparr>w_used = False, w_pending = False, w_id = 0, w_fn = 0, w_arg = 0\<rparr>),
     g_queue = (\<lambda>_. 0), g_qhead = 0, g_qtail = 0, g_qcount = 0, g_next_id = 1, g_completed = 0,
     g_napi = (\<lambda>_. \<lparr>np_used = False, np_scheduled = False, np_id = 0, np_weight = 0, np_poll = 0, np_ctx = 0,
       np_run_count = 0\<rparr>), g_next_napi_id = 1,
     g_threads = (\<lambda>_. \<lparr>kt_used = False, kt_runnable = False, kt_tid = 0, kt_entry = 0, kt_arg = 0,
       kt_run_count = 0, kt_name = [], kt_name_len = 0\<rparr>), g_next_tid = 1, g_cursor = 0, g_current_tid = 0,
     world = w\<rparr>"

definition log_call :: "softirq_fn \<Rightarrow> ptr \<Rightarrow> softirq_fn list deferred \<Rightarrow> softirq_fn list deferred option" where
  "log_call f p s = Some (s\<lparr>world := world s @ [f]\<rparr>)"

section \<open>Library\<close>

lemma bit_test: "(m :: u32) AND push_bit i 1 \<noteq> 0 \<longleftrightarrow> bit m i"
proof -
  have "m AND push_bit i 1 = (if bit m i then push_bit i 1 else 0)"
    by (rule bit_word_eqI) (auto simp: bit_simps)
  moreover have "bit m i \<Longrightarrow> push_bit i (1 :: u32) \<noteq> 0"
    using bit_imp_le_length [of m i] by (simp add: push_bit_eq_mult)
  ultimately show ?thesis by auto
qed

lemma bit_clear: "bit ((m :: u32) AND NOT (push_bit i 1)) j \<longleftrightarrow> bit m j \<and> j \<noteq> i"
  by (auto simp: bit_simps dest: bit_imp_le_length)

lemma softirq_mask_bits: "softirq_inv s \<longleftrightarrow> (\<forall>i. bit (g_pending_mask s) i \<longrightarrow> i < QOS_SOFTIRQ_MAX)"
proof -
  have "softirq_inv s \<longleftrightarrow> take_bit 8 (g_pending_mask s) = g_pending_mask s"
    using mod_less [of "unat (g_pending_mask s)" 256] mod_less_divisor [of 256 "unat (g_pending_mask s)"]
    by (auto simp: softirq_inv_def take_bit_eq_mod word_unat_eq_iff unat_mod_distrib simp del: mod_less_divisor)
  also have "\<dots> \<longleftrightarrow> (\<forall>i. bit (g_pending_mask s) i \<longrightarrow> i < 8)"
    by (metis bit_take_bit_iff bit_eq_iff)
  finally show ?thesis .
qed

lemma softirq_mask_zero: "softirq_inv s \<Longrightarrow> g_pending_mask s = 0 \<longleftrightarrow> pending_vectors s = []"
  by (auto simp: softirq_mask_bits pending_vectors_def filter_empty_conv bit_eq_iff)

lemma softirq_pass_serve:
  assumes "pending_vectors s = i # is" "quiet_call call"
  shows "softirq_pass call s = Some (g_handlers s i \<noteq> None, serve call i s)"
proof -
  have "scan (\<lambda>i. g_pending_mask s AND push_bit i 1 \<noteq> 0) 0 8 = Some i"
    using assms(1) unfolding bit_test scan_filter by (simp add: pending_vectors_def)
  then show ?thesis
    using assms(2) unfolding quiet_call_def
    by (auto simp: softirq_pass_def serve_def Let_def split: option.splits) (metis option.sel)
qed

lemma serve_quiet:
  assumes "quiet_call call"
  shows "g_pending_mask (serve call i s) = g_pending_mask s AND NOT (push_bit i 1)"
    "g_handlers (serve call i s) = g_handlers s"
proof -
  let ?s1 = "s\<lparr>g_pending_mask := g_pending_mask s AND NOT (push_bit i 1)\<rparr>"
  obtain s' where s': "call (the (g_handlers s i)) (g_handler_ctx s i) ?s1 = Some s'"
    "g_pending_mask s' = g_pending_mask ?s1" "g_handlers s' = g_handlers ?s1"
    using assms unfolding quiet_call_def by blast
  then show "g_pending_mask (serve call i s) = g_pending_mask s AND NOT (push_bit i 1)"
    "g_handlers (serve call i s) = g_handlers s"
    by (auto simp: serve_def Let_def split: option.splits)
qed

lemma serve_pending:
  assumes "pending_vectors s = i # is" "quiet_call call"
  shows "pending_vectors (serve call i s) = is" "softirq_inv s \<Longrightarrow> softirq_inv (serve call i s)"
    "due_vectors s = (if g_handlers s i \<noteq> None then [i] else []) @ due_vectors (serve call i s)"
proof -
  show p: "pending_vectors (serve call i s) = is"
    using filter_drop_first [OF assms(1) [unfolded pending_vectors_def] distinct_upt]
    unfolding pending_vectors_def serve_quiet [OF assms(2)] bit_clear [abs_def] .
  show "softirq_inv (serve call i s)" if "softirq_inv s"
    using that unfolding softirq_mask_bits serve_quiet [OF assms(2)] bit_clear by blast
  show "due_vectors s = (if g_handlers s i \<noteq> None then [i] else []) @ due_vectors (serve call i s)"
    by (simp add: due_vectors_def p assms(1) serve_quiet [OF assms(2)])
qed

lemma softirq_loop_quiet:
  assumes "quiet_call call" "softirq_inv s" "pending_vectors s = is"
  shows "softirq_loop call n s = Some (n + word_of_nat (length (due_vectors s)), fold (serve call) is s) \<and>
    g_pending_mask (fold (serve call) is s) = 0"
  using assms
proof (induction "is" arbitrary: s n)
  case Nil
  then have "g_pending_mask s = 0" by (simp add: softirq_mask_zero)
  with Nil show ?case by (subst softirq_loop.simps) (simp add: due_vectors_def)
next
  case (Cons i js)
  have "g_pending_mask s \<noteq> 0" using Cons.prems by (simp add: softirq_mask_zero)
  then have "softirq_loop call n s =
      softirq_loop call (if g_handlers s i \<noteq> None then n + 1 else n) (serve call i s)"
    using softirq_pass_serve [OF Cons.prems(3,1)] by (subst softirq_loop.simps) simp
  then show ?case
    using Cons.IH [OF Cons.prems(1) serve_pending(2) [OF Cons.prems(3,1,2)] serve_pending(1) [OF Cons.prems(3,1)]]
      serve_pending(3) [OF Cons.prems(3,1)] by simp
qed

lemma softirq_raise_inv:
  assumes "softirq_inv s"
  shows "softirq_inv (snd (qos_softirq_raise v s))"
    "vector_valid v \<Longrightarrow> set (pending_vectors (snd (qos_softirq_raise v s))) = insert (unat v) (set (pending_vectors s))"
proof -
  have b: "bit (g_pending_mask s OR push_bit (unat v) 1) j \<longleftrightarrow> bit (g_pending_mask s) j \<or> j = unat v" if "unat v < 8" for j
    using that by (auto simp: bit_simps)
  show "softirq_inv (snd (qos_softirq_raise v s))"
    using assms b by (auto simp: qos_softirq_raise_def vector_valid_def softirq_mask_bits)
  show "set (pending_vectors (snd (qos_softirq_raise v s))) = insert (unat v) (set (pending_vectors s))" if "vector_valid v"
    using that b by (auto simp: qos_softirq_raise_def vector_valid_def pending_vectors_def simp del: upt_rec_numeral)
qed

section \<open>Properties\<close>

text \<open>
  C26. Software interrupts are drained, lowest vector first. When the handlers return and raise no
  further interrupts, \<open>qos_softirq_run\<close> returns; it has served the pending vectors in increasing
  order, each once and acknowledged before its handler runs, nothing is pending afterwards, and the
  result counts the handlers that ran.
\<close>

theorem softirq_run_drains:
  assumes "quiet_call call" "softirq_inv s"
  shows "qos_softirq_run call s =
      Some (word_of_nat (length (due_vectors s)), fold (serve call) (pending_vectors s) s) \<and>
    qos_softirq_pending_mask (fold (serve call) (pending_vectors s) s) = 0 \<and>
    sorted_wrt (<) (pending_vectors s) \<and> set (pending_vectors s) = {i. bit (g_pending_mask s) i}"
proof -
  have "sorted_wrt (<) (pending_vectors s)"
    unfolding pending_vectors_def by (intro sorted_wrt_filter sorted_wrt_upt)
  moreover have "set (pending_vectors s) = {i. bit (g_pending_mask s) i}"
    using assms(2) by (auto simp: softirq_mask_bits pending_vectors_def simp del: upt_rec_numeral)
  ultimately show ?thesis
    using softirq_loop_quiet [OF assms refl] by (simp add: qos_softirq_run_def qos_softirq_pending_mask_def)
qed

theorem softirq_run_drains_witness:
  "let s = (deferred_zero ([] :: softirq_fn list))\<lparr>g_handlers := (\<lambda>i. if i = 0 then Some TimerH else if i = 2 then Some WorkH else None),
         g_pending_mask := 7\<rparr> in
   quiet_call log_call \<and> softirq_inv s \<and>
   map_option (\<lambda>(n, s'). (n, world s')) (qos_softirq_run log_call s) = Some (2, [TimerH, WorkH])"
proof -
  let ?s = "(deferred_zero ([] :: softirq_fn list))\<lparr>g_handlers := (\<lambda>i. if i = 0 then Some TimerH else if i = 2 then Some WorkH else None),
         g_pending_mask := 7\<rparr>"
  have q: "quiet_call log_call" by (simp add: quiet_call_def log_call_def)
  have inv: "softirq_inv ?s" by (simp add: softirq_inv_def)
  have p: "pending_vectors ?s = [0, 1, 2]" by code_simp
  then have "due_vectors ?s = [0, 2]" unfolding due_vectors_def by simp
  then show ?thesis
    using softirq_run_drains [OF q inv] q inv unfolding p Let_def
    by (simp add: serve_def log_call_def deferred_zero_def)
qed

end
