(* ===== verification/Timer.thy ===== *)
theory Timer
  imports Softirq
begin

text \<open>
  The timers of \<^verbatim>\<open>src/c-os/kernel/timer/timer.c\<close>. A callback is the argument \<open>cb\<close>, applied to the
  callback address and its context; it may change the whole state. The loop that moves a periodic
  timer past the current time can run for ever when the 64-bit time is about to wrap around, so it
  is a partial function and the handler returns an option.
\<close>

section \<open>Model\<close>

abbreviation (input) QOS_TIMER_MAX :: nat where "QOS_TIMER_MAX \<equiv> 128"

type_synonym 'w callback = "ptr \<Rightarrow> ptr \<Rightarrow> 'w deferred \<Rightarrow> 'w deferred"

definition timer_id_valid :: "int \<Rightarrow> bool" where
  "timer_id_valid timer_id \<longleftrightarrow> timer_id > 0 \<and> timer_id \<le> int QOS_TIMER_MAX"

definition set_timer :: "nat \<Rightarrow> timer_entry \<Rightarrow> 'w deferred \<Rightarrow> 'w deferred" where
  "set_timer i t s = s\<lparr>g_timers := (g_timers s)(i := t)\<rparr>"

text \<open>\<^verbatim>\<open>while (t->expires <= now) t->expires += (uint64_t)t->interval;\<close>\<close>

partial_function (option) timer_catch_up :: "u64 \<Rightarrow> u32 \<Rightarrow> u64 \<Rightarrow> u64 option" where
  "timer_catch_up expires interval now =
     (if expires \<le> now then timer_catch_up (expires + ucast interval) interval now else Some expires)"

declare timer_catch_up.simps [code]

text \<open>The body of the loop of \<open>timer_softirq_handler\<close> for entry \<open>i\<close>.\<close>

definition timer_fire :: "'w callback \<Rightarrow> u64 \<Rightarrow> nat \<Rightarrow> 'w deferred \<Rightarrow> 'w deferred option" where
  "timer_fire cb now i s =
     (let t = g_timers s i in
      if t_used t \<and> t_pending t \<and> t_expires t \<le> now then
        let s1 = set_timer i (t\<lparr>t_pending := False\<rparr>) s;
            s2 = (if t_callback t \<noteq> 0 then cb (t_callback t) (t_ctx t) s1 else s1);
            t2 = g_timers s2 i in
        if t_used t2 then
          if t_periodic t2 \<and> t_interval t2 \<noteq> 0 then
            map_option (\<lambda>e. set_timer i (t2\<lparr>t_expires := e\<rparr>) s2)
              (timer_catch_up (t_expires t2) (t_interval t2) now)
          else Some (set_timer i (t2\<lparr>t_used := False, t_callback := 0, t_ctx := 0, t_interval := 0,
                 t_expires := 0\<rparr>) s2)
        else Some s2
      else Some s)"

function timer_loop :: "'w callback \<Rightarrow> u64 \<Rightarrow> nat \<Rightarrow> 'w deferred \<Rightarrow> 'w deferred option" where
  "timer_loop cb now i s =
     (if i < QOS_TIMER_MAX then
        case timer_fire cb now i s of None \<Rightarrow> None | Some s1 \<Rightarrow> timer_loop cb now (Suc i) s1
      else Some s)"
  by pat_completeness auto
termination
  by (relation "measure (\<lambda>(cb, now, i, s). QOS_TIMER_MAX - i)") auto

declare timer_loop.simps [simp del]

definition timer_softirq_handler :: "'w callback \<Rightarrow> 'w deferred \<Rightarrow> 'w deferred option" where
  "timer_softirq_handler cb s = timer_loop cb (g_jiffies s) 0 s"

definition timer0 :: timer_entry where
  "timer0 = \<lparr>t_used = False, t_periodic = False, t_pending = False, t_expires = 0, t_interval = 0,
     t_callback = 0, t_ctx = 0\<rparr>"

definition qos_timer_reset :: "'w deferred \<Rightarrow> 'w deferred" where
  "qos_timer_reset s = s\<lparr>g_timers := (\<lambda>_. timer0), g_jiffies := 0\<rparr>"

definition qos_timer_jiffies :: "'w deferred \<Rightarrow> u64" where
  "qos_timer_jiffies s = g_jiffies s"

definition qos_timer_add :: "u32 \<Rightarrow> u32 \<Rightarrow> ptr \<Rightarrow> ptr \<Rightarrow> 'w deferred \<Rightarrow> int \<times> 'w deferred" where
  "qos_timer_add delay_ticks interval_ticks callback ctx s =
     (if delay_ticks = 0 \<or> callback = 0 then (-1, s)
      else case find_free QOS_TIMER_MAX t_used (g_timers s) of
        None \<Rightarrow> (-1, s)
      | Some i \<Rightarrow>
          (int (i + 1),
           set_timer i \<lparr>t_used = True, t_periodic = (interval_ticks \<noteq> 0), t_pending = False,
             t_expires = g_jiffies s + ucast delay_ticks, t_interval = interval_ticks,
             t_callback = callback, t_ctx = ctx\<rparr> s))"

definition qos_timer_cancel :: "int \<Rightarrow> 'w deferred \<Rightarrow> int \<times> 'w deferred" where
  "qos_timer_cancel timer_id s =
     (if \<not> timer_id_valid timer_id then (-1, s)
      else let idx = nat (timer_id - 1) in
        if \<not> t_used (g_timers s idx) then (-1, s) else (0, set_timer idx timer0 s))"

text \<open>The entries the loop of \<open>qos_timer_tick\<close> marks, at time \<open>now\<close>.\<close>

definition timer_expired :: "u64 \<Rightarrow> timer_entry \<Rightarrow> bool" where
  "timer_expired now t \<longleftrightarrow> t_used t \<and> \<not> t_pending t \<and> t_expires t \<le> now"

definition qos_timer_tick :: "u32 \<Rightarrow> 'w deferred \<Rightarrow> 'w deferred" where
  "qos_timer_tick elapsed_ticks s =
     (if elapsed_ticks = 0 then s
      else let s1 = s\<lparr>g_jiffies := g_jiffies s + ucast elapsed_ticks\<rparr>;
               s2 = s1\<lparr>g_timers := (\<lambda>i. if i < QOS_TIMER_MAX \<and> timer_expired (g_jiffies s1) (g_timers s1 i)
                        then (g_timers s1 i)\<lparr>t_pending := True\<rparr> else g_timers s1 i)\<rparr>;
               need_softirq = (\<exists>i<QOS_TIMER_MAX. timer_expired (g_jiffies s1) (g_timers s1 i)) in
        if need_softirq then snd (qos_softirq_raise QOS_SOFTIRQ_TIMER s2) else s2)"

definition qos_timer_active_count :: "'w deferred \<Rightarrow> u32" where
  "qos_timer_active_count s = word_of_nat (slot_count (\<lambda>i. t_used (g_timers s i)) QOS_TIMER_MAX)"

definition qos_timer_pending_count :: "'w deferred \<Rightarrow> u32" where
  "qos_timer_pending_count s =
     word_of_nat (slot_count (\<lambda>i. t_used (g_timers s i) \<and> t_pending (g_timers s i)) QOS_TIMER_MAX)"

definition timer_init :: "'w deferred \<Rightarrow> 'w deferred" where
  "timer_init s = snd (qos_softirq_register QOS_SOFTIRQ_TIMER (Some TimerH) 0 (qos_timer_reset s))"

section \<open>Specification\<close>

text \<open>A callback that acts on the world outside the deferred-work components only.\<close>

definition world_cb :: "(ptr \<Rightarrow> ptr \<Rightarrow> 'w \<Rightarrow> 'w) \<Rightarrow> 'w callback" where
  "world_cb act f p s = s\<lparr>world := act f p (world s)\<rparr>"

definition timer_due :: "u64 \<Rightarrow> timer_entry \<Rightarrow> bool" where
  "timer_due now t \<longleftrightarrow> t_used t \<and> t_pending t \<and> t_expires t \<le> now"

text \<open>The first time after \<open>now\<close> that is a whole number of intervals after the expiry.\<close>

definition next_expiry :: "u64 \<Rightarrow> timer_entry \<Rightarrow> u64" where
  "next_expiry now t =
     word_of_nat (unat (t_expires t) +
       ((unat now - unat (t_expires t)) div unat (t_interval t) + 1) * unat (t_interval t))"

text \<open>An entry after the handler ran at time \<open>now\<close>.\<close>

definition timer_after :: "u64 \<Rightarrow> timer_entry \<Rightarrow> timer_entry" where
  "timer_after now t =
     (if \<not> timer_due now t then t
      else if t_periodic t \<and> t_interval t \<noteq> 0 then t\<lparr>t_pending := False, t_expires := next_expiry now t\<rparr>
      else t\<lparr>t_pending := False, t_used := False, t_callback := 0, t_ctx := 0, t_interval := 0, t_expires := 0\<rparr>)"

text \<open>A callback that leaves the timer table alone; it may use the rest of the kernel.\<close>

definition keeps_timers :: "'w callback \<Rightarrow> bool" where
  "keeps_timers cb \<longleftrightarrow> (\<forall>f p s. g_timers (cb f p s) = g_timers s)"

text \<open>One timer served: its mark is cleared, its callback runs, and then its entry is moved on or freed.\<close>

definition serve_timer :: "'w callback \<Rightarrow> u64 \<Rightarrow> nat \<Rightarrow> 'w deferred \<Rightarrow> 'w deferred" where
  "serve_timer cb now i s =
     (let t = g_timers s i;
          s1 = set_timer i (t\<lparr>t_pending := False\<rparr>) s;
          s2 = (if t_callback t \<noteq> 0 then cb (t_callback t) (t_ctx t) s1 else s1) in
      set_timer i (timer_after now t) s2)"

text \<open>The time is far enough from wrapping around for every active periodic timer.\<close>

definition timers_far :: "u64 \<Rightarrow> timer_entry arr \<Rightarrow> bool" where
  "timers_far now g \<longleftrightarrow> (\<forall>i<QOS_TIMER_MAX. t_used (g i) \<and> t_periodic (g i) \<longrightarrow> unat now + unat (t_interval (g i)) < 2 ^ 64)"

section \<open>Library\<close>

lemma timer_catch_up_next:
  assumes "interval \<noteq> 0" "unat now + unat interval < 2 ^ 64" "expires \<le> now"
  shows "timer_catch_up expires interval now = Some (word_of_nat (unat expires +
    ((unat now - unat expires) div unat interval + 1) * unat interval))"
  using assms(3)
proof (induction "unat now - unat expires" arbitrary: expires rule: less_induct)
  case less
  have i: "0 < unat interval" using assms(1) by (simp add: unat_gt_0)
  have e: "unat (expires + ucast interval) = unat expires + unat interval"
    using less.prems assms(2) by (simp add: unat_word_ariths word_le_nat_alt unat_ucast_u64)
  have step: "timer_catch_up expires interval now = timer_catch_up (expires + ucast interval) interval now"
    using less.prems by (subst timer_catch_up.simps) simp
  show ?case
  proof (cases "expires + ucast interval \<le> now")
    case True
    then have le: "unat expires + unat interval \<le> unat now" by (simp add: word_le_nat_alt e)
    then have d: "(unat now - unat expires) div unat interval =
        Suc ((unat now - (unat expires + unat interval)) div unat interval)"
      using i by (subst div_if) (auto simp: diff_diff_add)
    have "timer_catch_up (expires + ucast interval) interval now = Some (word_of_nat (unat expires + unat interval +
        ((unat now - (unat expires + unat interval)) div unat interval + 1) * unat interval))"
      using less.hyps [OF _ True] le i by (simp add: e)
    then show ?thesis unfolding step d by (simp only: add_mult_distrib mult_1 Suc_eq_plus1 add.assoc add.commute add.left_commute)
  next
    case False
    then have lt: "unat now - unat expires < unat interval"
      using less.prems by (simp add: word_le_nat_alt e)
    have "timer_catch_up (expires + ucast interval) interval now = Some (expires + ucast interval)"
      using False by (subst timer_catch_up.simps) simp
    moreover have "expires + ucast interval = word_of_nat (unat expires + unat interval)"
      by (simp flip: e)
    moreover have "(unat now - unat expires) div unat interval = 0" using lt by simp
    ultimately show ?thesis by (simp only: step add_0 mult_1)
  qed
qed

lemma timer_fire_skip: "\<not> timer_due now (g_timers s i) \<Longrightarrow> timer_fire cb now i s = Some s"
  unfolding timer_fire_def timer_due_def Let_def by (simp only: if_False)

lemma set_timer_twice: "set_timer i e (set_timer i d s) = set_timer i e s"
  by (simp add: set_timer_def)

lemma serve_timer_timers:
  "keeps_timers cb \<Longrightarrow> g_timers (serve_timer cb now i s) = (g_timers s)(i := timer_after now (g_timers s i))"
  by (simp add: serve_timer_def set_timer_def keeps_timers_def Let_def)

lemma timer_fire_serve:
  assumes cb: "keeps_timers cb" and due: "timer_due now (g_timers s i)"
    and far: "t_periodic (g_timers s i) \<Longrightarrow> unat now + unat (t_interval (g_timers s i)) < 2 ^ 64"
  shows "timer_fire cb now i s = Some (serve_timer cb now i s)"
proof -
  let ?t = "g_timers s i"
  let ?s1 = "set_timer i (?t\<lparr>t_pending := False\<rparr>) s"
  let ?s2 = "if t_callback ?t \<noteq> 0 then cb (t_callback ?t) (t_ctx ?t) ?s1 else ?s1"
  have d: "t_used ?t" "t_pending ?t" "t_expires ?t \<le> now" using due by (simp_all add: timer_due_def)
  have t2: "g_timers ?s2 i = ?t\<lparr>t_pending := False\<rparr>" using cb by (simp add: keeps_timers_def set_timer_def)
  have sv: "serve_timer cb now i s = set_timer i (timer_after now ?t) ?s2" by (simp only: serve_timer_def Let_def)
  show ?thesis
  proof (cases "t_periodic ?t \<and> t_interval ?t \<noteq> 0")
    case True
    then have "timer_catch_up (t_expires ?t) (t_interval ?t) now = Some (next_expiry now ?t)"
      unfolding next_expiry_def using timer_catch_up_next [OF _ far d(3)] by blast
    then show ?thesis using True due d unfolding timer_fire_def Let_def t2 sv by (simp add: timer_after_def)
  next
    case False
    then have n: "(t_periodic (?t\<lparr>t_pending := False\<rparr>) \<and> t_interval (?t\<lparr>t_pending := False\<rparr>) \<noteq> 0) = False"
      "(t_periodic ?t \<and> t_interval ?t \<noteq> 0) = False" by auto
    show ?thesis using due d unfolding timer_fire_def Let_def t2 n sv timer_after_def by simp
  qed
qed

lemma timers_far_serve:
  "keeps_timers cb \<Longrightarrow> timers_far now (g_timers s) \<Longrightarrow> timers_far now (g_timers (serve_timer cb now i s))"
  by (auto simp: serve_timer_timers timers_far_def timer_after_def)

lemma timer_loop_serve:
  assumes "keeps_timers cb" "timers_far now (g_timers s)" "i \<le> 128"
  shows "timer_loop cb now i s = Some (fold (serve_timer cb now) (filter (\<lambda>j. timer_due now (g_timers s j)) [i..<128]) s)"
  using assms(2,3)
proof (induction "128 - i" arbitrary: i s)
  case 0
  then show ?case by (subst timer_loop.simps) simp
next
  case (Suc d)
  have i: "i < 128" using Suc.hyps(2) by simp
  then have c: "[i..<128] = i # [Suc i..<128]" by (simp add: upt_conv_Cons)
  show ?case
  proof (cases "timer_due now (g_timers s i)")
    case True
    let ?s = "serve_timer cb now i s"
    have "timer_loop cb now i s = timer_loop cb now (Suc i) ?s"
      using i True Suc.prems(1) timer_fire_serve [OF assms(1) True]
      by (subst timer_loop.simps) (simp add: timers_far_def timer_due_def)
    also have "\<dots> = Some (fold (serve_timer cb now) (filter (\<lambda>j. timer_due now (g_timers ?s j)) [Suc i..<128]) ?s)"
      using Suc.hyps i Suc.prems(1) by (intro Suc.hyps(1) timers_far_serve assms(1)) simp_all
    also have "filter (\<lambda>j. timer_due now (g_timers ?s j)) [Suc i..<128] = filter (\<lambda>j. timer_due now (g_timers s j)) [Suc i..<128]"
      by (rule filter_cong) (simp_all add: serve_timer_timers [OF assms(1)])
    finally show ?thesis using True by (simp add: c)
  next
    case False
    then have "timer_loop cb now i s = timer_loop cb now (Suc i) s"
      using i by (subst timer_loop.simps) (simp add: timer_fire_skip)
    then show ?thesis using False i Suc.hyps Suc.prems(1) by (simp add: c)
  qed
qed

lemma fold_serve_timers:
  assumes "keeps_timers cb" "distinct is"
  shows "g_timers (fold (serve_timer cb now) is s) j = (if j \<in> set is then timer_after now (g_timers s j) else g_timers s j)"
  using assms(2) by (induction "is" arbitrary: s) (auto simp: serve_timer_timers [OF assms(1)])

lemma next_expiry_arith:
  fixes n e i :: nat
  assumes "0 < i" "e \<le> n"
  shows "n < e + ((n - e) div i + 1) * i" "e + ((n - e) div i + 1) * i \<le> n + i"
proof -
  have "e + ((n - e) div i + 1) * i = e + (n - e) div i * i + i" by simp
  moreover have "(n - e) div i * i + (n - e) mod i = n - e" by (rule div_mult_mod_eq)
  ultimately show "n < e + ((n - e) div i + 1) * i" "e + ((n - e) div i + 1) * i \<le> n + i"
    using assms(2) mod_less_divisor [OF assms(1), of "n - e"] by linarith+
qed

lemma next_expiry_unat:
  assumes "t_interval t \<noteq> 0" "unat now + unat (t_interval t) < 2 ^ 64" "t_expires t \<le> now"
  shows "unat (next_expiry now t) = unat (t_expires t) +
    ((unat now - unat (t_expires t)) div unat (t_interval t) + 1) * unat (t_interval t)"
proof -
  have "0 < unat (t_interval t)" "unat (t_expires t) \<le> unat now"
    using assms(1,3) by (simp_all add: unat_gt_0 word_le_nat_alt)
  from next_expiry_arith(2) [OF this] show ?thesis
    unfolding next_expiry_def using assms(2) by (intro unat_u64_of_nat) simp
qed

lemma next_expiry_later:
  assumes "t_interval t \<noteq> 0" "unat now + unat (t_interval t) < 2 ^ 64" "t_expires t \<le> now"
  shows "now < next_expiry now t" "unat (next_expiry now t) \<le> unat now + unat (t_interval t)"
proof -
  have "0 < unat (t_interval t)" "unat (t_expires t) \<le> unat now"
    using assms(1,3) by (simp_all add: unat_gt_0 word_le_nat_alt)
  from next_expiry_arith [OF this] show "now < next_expiry now t"
    "unat (next_expiry now t) \<le> unat now + unat (t_interval t)"
    by (simp_all only: word_less_nat_alt next_expiry_unat [OF assms])
qed

lemma timer_after_not_overdue:
  assumes "unat now + unat (t_interval t) < 2 ^ 64" "t_pending t \<or> now < t_expires t"
  shows "t_used (timer_after now t) \<Longrightarrow> now < t_expires (timer_after now t)"
  using assms next_expiry_later(1) [of t now]
  by (auto simp: timer_after_def timer_due_def split: if_splits)

lemma timer_catch_up_later:
  assumes "timer_catch_up e i now = Some y"
  shows "now < y"
  by (rule timer_catch_up.raw_induct [where P = "\<lambda>e i now y. now < y", OF _ assms]) (auto split: if_splits)

lemma timer_catch_up_stuck: "timer_catch_up e i (- 1) = None"
  using timer_catch_up_later [of e i "- 1"] word_order.extremum
  by (cases "timer_catch_up e i (- 1)") (auto simp: not_less [symmetric])

lemma tick_timers:
  assumes "n \<noteq> 0"
  shows "g_jiffies (qos_timer_tick n s) = g_jiffies s + ucast n" "world (qos_timer_tick n s) = world s"
    "g_timers (qos_timer_tick n s) = (\<lambda>i. if i < 128 \<and> timer_expired (g_jiffies s + ucast n) (g_timers s i)
       then (g_timers s i)\<lparr>t_pending := True\<rparr> else g_timers s i)"
    "(\<exists>i<128. timer_expired (g_jiffies s + ucast n) (g_timers s i)) \<Longrightarrow>
       bit (qos_softirq_pending_mask (qos_timer_tick n s)) 0"
  using assms by (auto simp: qos_timer_tick_def Let_def qos_softirq_raise_def vector_valid_def
      qos_softirq_pending_mask_def bit_simps fun_eq_iff)

section \<open>Properties\<close>

text \<open>
  C27. A tick and its software interrupt serve every due timer once. Let a tick by a non-zero number of
  ticks bring the time to \<open>now\<close>, let the callbacks leave the timer table alone (they may use the rest of
  the kernel), and let \<open>now\<close> plus the interval of any active periodic timer stay below 2^64. Then the timer
  interrupt is pending if a timer newly expired; the handler returns; it has served exactly the active timers
  whose expiry \<open>now\<close> has reached, each once and in slot order; a served periodic timer is armed
  for the first whole number of intervals after \<open>now\<close>, a served one-shot timer is freed, the other
  timers are unchanged, and no active timer is overdue.
\<close>

theorem timer_tick_serves_due:
  fixes s :: "'w deferred"
  assumes n: "n \<noteq> 0" and far: "timers_far (g_jiffies s + ucast n) (g_timers s)" and cb: "keeps_timers cb"
  defines "now \<equiv> g_jiffies s + ucast n"
  shows "\<exists>s2. timer_softirq_handler cb (qos_timer_tick n s) = Some s2 \<and>
    s2 = fold (serve_timer cb now) (filter (\<lambda>i. t_used (g_timers s i) \<and> t_expires (g_timers s i) \<le> now) [0..<QOS_TIMER_MAX])
      (qos_timer_tick n s) \<and>
    (\<forall>i<QOS_TIMER_MAX. g_timers s2 i = (if t_used (g_timers s i) \<and> t_expires (g_timers s i) \<le> now
      then timer_after now ((g_timers s i)\<lparr>t_pending := True\<rparr>) else g_timers s i)) \<and>
    (\<forall>i<QOS_TIMER_MAX. t_used (g_timers s2 i) \<longrightarrow> now < t_expires (g_timers s2 i)) \<and>
    ((\<exists>i<QOS_TIMER_MAX. timer_expired now (g_timers s i)) \<longrightarrow>
      bit (qos_softirq_pending_mask (qos_timer_tick n s)) 0)"
proof -
  let ?s1 = "qos_timer_tick n s" and ?D = "\<lambda>i. t_used (g_timers s i) \<and> t_expires (g_timers s i) \<le> now"
  note tk = tick_timers [OF n, of s, folded now_def]
  have due: "timer_due now (g_timers ?s1 i) \<longleftrightarrow> ?D i" "?D i \<Longrightarrow> g_timers ?s1 i = (g_timers s i)\<lparr>t_pending := True\<rparr>"
    "\<not> ?D i \<Longrightarrow> g_timers ?s1 i = g_timers s i" if "i < 128" for i
    using that by (auto simp: tk timer_due_def timer_expired_def)
  have far1: "timers_far now (g_timers ?s1)" using far by (auto simp: timers_far_def tk now_def)
  have filt: "filter (\<lambda>i. timer_due now (g_timers ?s1 i)) [0..<128] = filter ?D [0..<128]"
    by (rule filter_cong) (auto simp: due simp del: upt_rec_numeral)
  define s2 where "s2 = fold (serve_timer cb now) (filter ?D [0..<128]) ?s1"
  have run: "timer_softirq_handler cb ?s1 = Some s2"
    using timer_loop_serve [OF cb far1, of 0] unfolding timer_softirq_handler_def tk(1) filt s2_def by simp
  have g: "g_timers s2 i = (if ?D i then timer_after now ((g_timers s i)\<lparr>t_pending := True\<rparr>) else g_timers s i)" if "i < 128" for i
    using that due [OF that] unfolding s2_def
    by (subst fold_serve_timers [OF cb distinct_filter [OF distinct_upt]]) (auto simp del: upt_rec_numeral)
  have "now < t_expires (g_timers s2 i)" if i: "i < 128" "t_used (g_timers s2 i)" for i
  proof (cases "?D i")
    case True
    let ?t = "(g_timers s i)\<lparr>t_pending := True\<rparr>"
    have u: "t_used (timer_after now ?t)" using g [OF i(1)] True i(2) by simp
    then have "t_periodic ?t" using True by (auto simp: timer_after_def timer_due_def split: if_splits)
    then have "unat now + unat (t_interval ?t) < 2 ^ 64" using far True i(1) by (simp add: timers_far_def now_def)
    then show ?thesis using timer_after_not_overdue [OF _ _ u] g [OF i(1)] True by simp
  next
    case False
    then show ?thesis using g [OF i(1)] i(2) by auto
  qed
  then show ?thesis using run s2_def g tk(4) by blast
qed

text \<open>
  Two timers, a tick of 12: the first is due and periodic. Its callback notes the call and schedules the
  receive interrupt.
\<close>

theorem timer_tick_serves_due_witness:
  "let s = snd (qos_timer_add 20 0 200 2 (snd (qos_timer_add 5 3 100 1 (deferred_zero ([] :: (ptr \<times> ptr) list)))));
       cb = (\<lambda>f p s. snd (qos_softirq_raise 1 (s\<lparr>world := world s @ [(f, p)]\<rparr>))) in
   timers_far (g_jiffies s + ucast (12 :: u32)) (g_timers s) \<and> keeps_timers cb \<and>
   (\<exists>s2. timer_softirq_handler cb (qos_timer_tick 12 s) = Some s2 \<and>
     world s2 = [(100, 1)] \<and> t_expires (g_timers s2 0) = 14 \<and> 12 < t_expires (g_timers s2 1))"
proof -
  define s where "s = snd (qos_timer_add 20 0 200 2 (snd (qos_timer_add 5 3 100 1 (deferred_zero ([] :: (ptr \<times> ptr) list)))))"
  define cb :: "(ptr \<times> ptr) list callback" where "cb = (\<lambda>f p s. snd (qos_softirq_raise 1 (s\<lparr>world := world s @ [(f, p)]\<rparr>)))"
  have far: "timers_far (g_jiffies s + ucast (12 :: u32)) (g_timers s)"
    by (simp add: s_def timers_far_def qos_timer_add_def find_free_def scan_eval deferred_zero_def set_timer_def)
  have k: "keeps_timers cb" by (simp add: keeps_timers_def cb_def qos_softirq_raise_def)
  have due: "filter (\<lambda>i. t_used (g_timers s i) \<and> t_expires (g_timers s i) \<le> g_jiffies s + ucast (12 :: u32)) [0..<128] = [0]"
    unfolding s_def by code_simp
  have w: "world (fold (serve_timer cb (g_jiffies s + ucast (12 :: u32))) [0] (qos_timer_tick 12 s)) = [(100, 1)]"
    unfolding s_def cb_def by code_simp
  have t: "t_used (g_timers s 0)" "t_expires (g_timers s 0) \<le> g_jiffies s + ucast (12 :: u32)"
    "t_expires (timer_after (g_jiffies s + ucast (12 :: u32)) ((g_timers s 0)\<lparr>t_pending := True\<rparr>)) = 14"
    "t_used (g_timers s 1)" "\<not> t_expires (g_timers s 1) \<le> g_jiffies s + ucast (12 :: u32)" "g_jiffies s = 0"
    unfolding s_def by code_simp+
  obtain s2 where s2: "timer_softirq_handler cb (qos_timer_tick 12 s) = Some s2"
    "s2 = fold (serve_timer cb (g_jiffies s + ucast (12 :: u32))) [0] (qos_timer_tick 12 s)"
    "\<And>i. i < 128 \<Longrightarrow> g_timers s2 i = (if t_used (g_timers s i) \<and> t_expires (g_timers s i) \<le> g_jiffies s + ucast (12 :: u32)
      then timer_after (g_jiffies s + ucast (12 :: u32)) ((g_timers s i)\<lparr>t_pending := True\<rparr>) else g_timers s i)"
    "\<And>i. i < 128 \<Longrightarrow> t_used (g_timers s2 i) \<Longrightarrow> g_jiffies s + ucast (12 :: u32) < t_expires (g_timers s2 i)"
    using timer_tick_serves_due [of 12 s cb, OF _ far k] unfolding due by auto
  have "t_expires (g_timers s2 0) = 14" "12 < t_expires (g_timers s2 1)" using s2(3) [of 0] s2(3,4) [of 1] t by auto
  then show ?thesis using s2(1,2) w far k unfolding Let_def s_def [symmetric] cb_def [symmetric] by auto
qed

text \<open>
  C28. A periodic timer is moved to the first expiry after the current time that is a whole number of
  intervals later. The loop returns whenever time plus interval does not wrap around, and the
  result lies after the current time by at most one interval.
\<close>

theorem timer_catch_up_returns:
  assumes "interval \<noteq> 0" "unat now + unat interval < 2 ^ 64" "expires \<le> now"
  shows "\<exists>e. timer_catch_up expires interval now = Some e \<and> now < e \<and>
    unat e \<le> unat now + unat interval \<and> (unat e - unat expires) mod unat interval = 0"
proof -
  let ?t = "timer0\<lparr>t_expires := expires, t_interval := interval\<rparr>"
  have t: "t_interval ?t \<noteq> 0" "unat now + unat (t_interval ?t) < 2 ^ 64" "t_expires ?t \<le> now"
    using assms by simp_all
  have e: "timer_catch_up expires interval now = Some (next_expiry now ?t)"
    using timer_catch_up_next [OF assms] unfolding next_expiry_def by simp
  note l = next_expiry_later [OF t]
  have "unat (next_expiry now ?t) = unat expires + ((unat now - unat expires) div unat interval + 1) * unat interval"
    using next_expiry_unat [OF t] by simp
  then have "(unat (next_expiry now ?t) - unat expires) mod unat interval = 0" by simp
  with e l show ?thesis by auto
qed

theorem timer_catch_up_returns_witness: "\<exists>e. timer_catch_up 5 3 12 = Some e \<and> 12 < e \<and> unat e \<le> 15"
proof -
  have "(3 :: u32) \<noteq> 0" "unat (12 :: u64) + unat (3 :: u32) < 2 ^ 64" "(5 :: u64) \<le> 12" by simp_all
  from timer_catch_up_returns [OF this] show ?thesis by auto
qed

text \<open>
  C29. Adding and cancelling. \<open>qos_timer_add\<close> fails, changing nothing, exactly for a zero delay, a null
  callback or when all 128 entries are active; otherwise it returns a fresh valid identifier with
  the entry armed for the current time plus the delay. Cancelling the returned identifier succeeds
  and gives back a state with the same active timers as before.
\<close>

theorem timer_add_cancel:
  fixes s :: "'w deferred"
  assumes "qos_timer_add d iv c x s = (r, s')"
  shows "(if d = 0 \<or> c = 0 \<or> unat (qos_timer_active_count s) = QOS_TIMER_MAX then r = -1 \<and> s' = s
    else timer_id_valid r \<and> \<not> t_used (g_timers s (nat (r - 1))) \<and>
      g_timers s' (nat (r - 1)) = \<lparr>t_used = True, t_periodic = (iv \<noteq> 0), t_pending = False,
        t_expires = g_jiffies s + ucast d, t_interval = iv, t_callback = c, t_ctx = x\<rparr> \<and>
      qos_timer_active_count s' = qos_timer_active_count s + 1 \<and>
      fst (qos_timer_cancel r s') = 0 \<and>
      (\<forall>i. t_used (g_timers (snd (qos_timer_cancel r s')) i) = t_used (g_timers s i)) \<and>
      qos_timer_active_count (snd (qos_timer_cancel r s')) = qos_timer_active_count s)"
proof -
  have cnt: "unat (qos_timer_active_count q) = card (live QOS_TIMER_MAX t_used (g_timers q))" for q :: "'w deferred"
    using card_live_le [of QOS_TIMER_MAX t_used "g_timers q"]
    by (simp add: qos_timer_active_count_def slot_count_live unat_u32_of_nat)
  show ?thesis
  proof (cases "d = 0 \<or> c = 0 \<or> unat (qos_timer_active_count s) = QOS_TIMER_MAX")
    case True
    then have "d = 0 \<or> c = 0 \<or> find_free QOS_TIMER_MAX t_used (g_timers s) = None"
      unfolding cnt find_free_None .
    then have "qos_timer_add d iv c x s = (-1, s)" by (auto simp: qos_timer_add_def)
    with True assms show ?thesis by simp
  next
    case False
    then obtain i where f: "find_free QOS_TIMER_MAX t_used (g_timers s) = Some i"
      unfolding cnt find_free_None [symmetric] by auto
    note i = find_free_Some [OF f]
    let ?t = "\<lparr>t_used = True, t_periodic = (iv \<noteq> 0), t_pending = False, t_expires = g_jiffies s + ucast d,
      t_interval = iv, t_callback = c, t_ctx = x\<rparr>"
    have r: "r = int i + 1" "s' = set_timer i ?t s" using assms f False by (auto simp: qos_timer_add_def)
    have n: "nat (r - 1) = i" "timer_id_valid r" using r i by (auto simp: timer_id_valid_def)
    have c: "qos_timer_cancel r s' = (0, set_timer i timer0 s')"
      using n r by (simp add: qos_timer_cancel_def set_timer_def)
    have used: "t_used (g_timers (set_timer i timer0 s') j) = t_used (g_timers s j)" for j
      using i by (simp add: r set_timer_def timer0_def)
    then have "qos_timer_active_count (set_timer i timer0 s') = qos_timer_active_count s"
      by (simp add: qos_timer_active_count_def)
    moreover have "card (live QOS_TIMER_MAX t_used (g_timers s')) = Suc (card (live QOS_TIMER_MAX t_used (g_timers s)))"
      using i by (simp add: r set_timer_def card_live_insert)
    then have "qos_timer_active_count s' = qos_timer_active_count s + 1"
      by (simp add: qos_timer_active_count_def slot_count_live)
    ultimately show ?thesis using False n i used c by (simp add: r set_timer_def)
  qed
qed

theorem timer_add_cancel_witness:
  "\<exists>r s'. qos_timer_add 5 0 100 1 (deferred_zero ()) = (r, s') \<and> timer_id_valid r \<and> fst (qos_timer_cancel r s') = 0"
proof -
  obtain r s' where r: "qos_timer_add 5 0 100 1 (deferred_zero ()) = (r, s')" by fastforce
  have "unat (qos_timer_active_count (deferred_zero ())) = 0"
    by (simp add: qos_timer_active_count_def deferred_zero_def slot_count_card)
  with timer_add_cancel [OF r] r show ?thesis by simp
qed

end
