(* ===== verification/Workqueue.thy ===== *)
theory Workqueue
  imports Timer
begin

text \<open>
  The work queue of \<^verbatim>\<open>src/c-os/kernel/workqueue/workqueue.c\<close>: 128 entries and a ring of entry numbers.
  A work function is the argument \<open>cb\<close>, applied to the function address and its argument; it may
  enqueue more work, so the handler's loop is a partial function.

  The ring is an instance of the bounded queue interface; the main lemma says which work the
  handler runs and in which order.
\<close>

section \<open>Model\<close>

abbreviation (input) QOS_WORKQUEUE_MAX :: nat where "QOS_WORKQUEUE_MAX \<equiv> 128"

definition find_slot_by_id :: "u32 \<Rightarrow> 'w deferred \<Rightarrow> nat option" where
  "find_slot_by_id work_id s = find_key QOS_WORKQUEUE_MAX w_used w_id (g_entries s) work_id"

definition queue_push :: "u16 \<Rightarrow> 'w deferred \<Rightarrow> int \<times> 'w deferred" where
  "queue_push slot s =
     (if unat (g_qcount s) \<ge> QOS_WORKQUEUE_MAX then (-1, s)
      else (0, s\<lparr>g_queue := (g_queue s)(unat (g_qtail s) := slot),
                 g_qtail := word_of_nat ((unat (g_qtail s) + 1) mod QOS_WORKQUEUE_MAX),
                 g_qcount := g_qcount s + 1\<rparr>))"

text \<open>The option is the value stored through \<open>out_slot\<close>, which is never null.\<close>

definition queue_pop :: "'w deferred \<Rightarrow> u16 option \<times> 'w deferred" where
  "queue_pop s =
     (if g_qcount s = 0 then (None, s)
      else (Some (g_queue s (unat (g_qhead s))),
            s\<lparr>g_qhead := word_of_nat ((unat (g_qhead s) + 1) mod QOS_WORKQUEUE_MAX),
              g_qcount := g_qcount s - 1\<rparr>))"

definition work0 :: work_entry where
  "work0 = \<lparr>w_used = False, w_pending = False, w_id = 0, w_fn = 0, w_arg = 0\<rparr>"

definition set_work :: "nat \<Rightarrow> work_entry \<Rightarrow> 'w deferred \<Rightarrow> 'w deferred" where
  "set_work i e s = s\<lparr>g_entries := (g_entries s)(i := e)\<rparr>"

text \<open>The loop of \<open>workqueue_softirq_handler\<close>.\<close>

partial_function (option) wq_loop :: "'w callback \<Rightarrow> 'w deferred \<Rightarrow> 'w deferred option" where
  "wq_loop cb s =
     (if g_qcount s \<noteq> 0 then
        case queue_pop s of
          (None, s1) \<Rightarrow> Some s1
        | (Some slot, s1) \<Rightarrow>
            if unat slot \<ge> QOS_WORKQUEUE_MAX then wq_loop cb s1
            else let e = g_entries s1 (unat slot); s2 = set_work (unat slot) work0 s1 in
              if \<not> w_used e \<or> \<not> w_pending e \<or> w_fn e = 0 then wq_loop cb s2
              else let s3 = cb (w_fn e) (w_arg e) s2 in wq_loop cb (s3\<lparr>g_completed := g_completed s3 + 1\<rparr>)
      else Some s)"

declare wq_loop.simps [code]

definition workqueue_softirq_handler :: "'w callback \<Rightarrow> 'w deferred \<Rightarrow> 'w deferred option" where
  "workqueue_softirq_handler cb s = wq_loop cb s"

definition qos_workqueue_reset :: "'w deferred \<Rightarrow> 'w deferred" where
  "qos_workqueue_reset s = s\<lparr>g_entries := (\<lambda>_. work0), g_queue := (\<lambda>_. 0), g_qhead := 0, g_qtail := 0,
     g_qcount := 0, g_next_id := 1, g_completed := 0\<rparr>"

text \<open>The identifier given to a new entry, and the counter afterwards; 0 is skipped.\<close>

definition take_id :: "u32 \<Rightarrow> u32 \<times> u32" where
  "take_id n = (if n = 0 then (n + 1, n + 2) else (n, n + 1))"

text \<open>The option is the identifier the caller receives through \<open>out_work_id\<close>.\<close>

definition qos_workqueue_enqueue :: "ptr \<Rightarrow> ptr \<Rightarrow> 'w deferred \<Rightarrow> int \<times> u32 option \<times> 'w deferred" where
  "qos_workqueue_enqueue fn arg s =
     (if fn = 0 then (-1, None, s)
      else case find_free QOS_WORKQUEUE_MAX w_used (g_entries s) of
        None \<Rightarrow> (-1, None, s)
      | Some i \<Rightarrow>
          let (wid, next) = take_id (g_next_id s);
              s1 = set_work i \<lparr>w_used = True, w_pending = True, w_id = wid, w_fn = fn, w_arg = arg\<rparr>
                     (s\<lparr>g_next_id := next\<rparr>);
              (r, s2) = queue_push (word_of_nat i) s1 in
          if r \<noteq> 0 then (-1, None, set_work i work0 s2)
          else (0, Some wid, snd (qos_softirq_raise QOS_SOFTIRQ_WORKQUEUE s2)))"

definition qos_workqueue_cancel :: "u32 \<Rightarrow> 'w deferred \<Rightarrow> int \<times> 'w deferred" where
  "qos_workqueue_cancel work_id s =
     (if work_id = 0 then (-1, s)
      else case find_slot_by_id work_id s of
        None \<Rightarrow> (-1, s)
      | Some slot \<Rightarrow> (0, set_work slot work0 s))"

definition qos_workqueue_pending_count :: "'w deferred \<Rightarrow> u32" where
  "qos_workqueue_pending_count s =
     word_of_nat (slot_count (\<lambda>i. w_used (g_entries s i) \<and> w_pending (g_entries s i)) QOS_WORKQUEUE_MAX)"

definition qos_workqueue_completed_count :: "'w deferred \<Rightarrow> u32" where
  "qos_workqueue_completed_count s = g_completed s"

definition workqueue_init :: "'w deferred \<Rightarrow> 'w deferred" where
  "workqueue_init s = snd (qos_softirq_register QOS_SOFTIRQ_WORKQUEUE (Some WorkH) 0 (qos_workqueue_reset s))"

section \<open>Specification\<close>

definition wq_ring :: "'w deferred \<Rightarrow> u16 list" where
  "wq_ring s = ring_list QOS_WORKQUEUE_MAX (g_queue s) (unat (g_qhead s)) (unat (g_qcount s))"

definition wq_ring_inv :: "'w deferred \<Rightarrow> bool" where
  "wq_ring_inv s \<longleftrightarrow> unat (g_qhead s) < QOS_WORKQUEUE_MAX \<and> unat (g_qcount s) \<le> QOS_WORKQUEUE_MAX \<and>
     unat (g_qtail s) = (unat (g_qhead s) + unat (g_qcount s)) mod QOS_WORKQUEUE_MAX"

text \<open>Every entry in use holds pending work and its number is in the ring.\<close>

definition wq_inv :: "'w deferred \<Rightarrow> bool" where
  "wq_inv s \<longleftrightarrow> wq_ring_inv s \<and> (\<forall>x \<in> set (wq_ring s). unat x < QOS_WORKQUEUE_MAX) \<and>
     (\<forall>i < QOS_WORKQUEUE_MAX. w_used (g_entries s i) \<longrightarrow>
       w_pending (g_entries s i) \<and> w_fn (g_entries s i) \<noteq> 0 \<and> word_of_nat i \<in> set (wq_ring s))"

text \<open>The elements of a list without repetitions, in the order of their first occurrence.\<close>

fun firsts :: "'a list \<Rightarrow> 'a list" where
  "firsts [] = []"
| "firsts (x # xs) = x # filter (\<lambda>y. y \<noteq> x) (firsts xs)"

text \<open>The entries the handler runs, in order.\<close>

definition runnable :: "work_entry \<Rightarrow> bool" where
  "runnable e \<longleftrightarrow> w_used e \<and> w_pending e \<and> w_fn e \<noteq> 0"

definition wq_order :: "work_entry arr \<Rightarrow> u16 list \<Rightarrow> nat list" where
  "wq_order g xs = filter (\<lambda>i. runnable (g i)) (firsts (map unat xs))"

definition run_works :: "(ptr \<Rightarrow> ptr \<Rightarrow> 'w \<Rightarrow> 'w) \<Rightarrow> work_entry arr \<Rightarrow> nat list \<Rightarrow> 'w \<Rightarrow> 'w" where
  "run_works act g = fold (\<lambda>i. act (w_fn (g i)) (w_arg (g i)))"

section \<open>The ring\<close>

lemma unat_u16_of_nat: "n < 65536 \<Longrightarrow> unat (word_of_nat n :: u16) = n"
  by (simp add: unat_of_nat)

lemma unat_u16_pred: "(c :: u16) \<noteq> 0 \<Longrightarrow> unat (c - 1) = unat c - 1"
  by (simp add: unat_minus_one)

lemma length_wq_ring: "length (wq_ring s) = unat (g_qcount s)"
  by (simp add: wq_ring_def)

lemma wq_ring_empty: "wq_ring s = [] \<longleftrightarrow> g_qcount s = 0"
  using length_wq_ring [of s] by (metis length_0_conv unat_eq_zero)

lemma wq_push_ring:
  assumes inv: "wq_ring_inv s" and room: "unat (g_qcount s) < 128"
  shows "queue_push x s = (0, snd (queue_push x s))" "wq_ring_inv (snd (queue_push x s))"
    "wq_ring (snd (queue_push x s)) = wq_ring s @ [x]"
proof -
  have c: "unat (g_qcount s + 1) = Suc (unat (g_qcount s))" using room by (simp add: unat_word_ariths)
  have t: "unat (g_qtail s) = (unat (g_qhead s) + unat (g_qcount s)) mod 128" using inv by (simp add: wq_ring_inv_def)
  have m: "(unat (g_qtail s) + 1) mod 128 = (unat (g_qhead s) + Suc (unat (g_qcount s))) mod 128"
    unfolding t by (simp add: mod_simps)
  show "queue_push x s = (0, snd (queue_push x s))" using room by (simp add: queue_push_def)
  have "unat (word_of_nat ((unat (g_qtail s) + 1) mod 128) :: u16) = (unat (g_qtail s) + 1) mod 128"
    by (rule unat_u16_of_nat) (rule order.strict_trans [OF mod_less_divisor], simp_all)
  then show "wq_ring_inv (snd (queue_push x s))"
    using inv room c m by (simp add: queue_push_def wq_ring_inv_def)
  show "wq_ring (snd (queue_push x s)) = wq_ring s @ [x]"
    using room c ring_list_push [OF room t, of "g_queue s" x] by (simp add: queue_push_def wq_ring_def)
qed

lemma wq_pop_ring:
  assumes inv: "wq_ring_inv s" and xs: "wq_ring s = x # xs"
  shows "queue_pop s = (Some x, snd (queue_pop s))" "wq_ring_inv (snd (queue_pop s))"
    "wq_ring (snd (queue_pop s)) = xs" "g_qcount s \<noteq> 0"
proof -
  have n: "unat (g_qcount s) = Suc (length xs)" using arg_cong [OF xs, of length] by (simp add: wq_ring_def)
  then show c: "g_qcount s \<noteq> 0" by auto
  have h: "unat (g_qhead s) < 128" using inv by (simp add: wq_ring_inv_def)
  have r: "wq_ring s = g_queue s (unat (g_qhead s)) # ring_list 128 (g_queue s) ((unat (g_qhead s) + 1) mod 128) (length xs)"
    using ring_list_pop [OF _ h, of "g_queue s" "length xs"] by (simp add: wq_ring_def n)
  then show "queue_pop s = (Some x, snd (queue_pop s))" using xs c by (simp add: queue_pop_def)
  have u: "unat (word_of_nat ((unat (g_qhead s) + 1) mod 128) :: u16) = (unat (g_qhead s) + 1) mod 128"
    by (rule unat_u16_of_nat) (rule order.strict_trans [OF mod_less_divisor], simp_all)
  have c1: "unat (g_qcount s - 1) = length xs" using unat_u16_pred [OF c] n by simp
  show "wq_ring (snd (queue_pop s)) = xs" using r xs c u c1 by (simp add: queue_pop_def wq_ring_def)
  have "((unat (g_qhead s) + 1) mod 128 + length xs) mod 128 = (unat (g_qhead s) + unat (g_qcount s)) mod 128"
    by (simp add: n mod_simps)
  then show "wq_ring_inv (snd (queue_pop s))"
    using inv c u c1 n by (simp add: queue_pop_def wq_ring_inv_def)
qed

interpretation wq_fifo: bounded_fifo QOS_WORKQUEUE_MAX "\<lambda>_. True" queue_push queue_pop wq_ring wq_ring_inv
proof (unfold_locales, goal_cases)
  case (1 q x)
  then have "unat (g_qcount q) < 128" by (simp add: wq_ring_def)
  from wq_push_ring [OF 1(1) this, of x] show ?case by blast
next
  case (2 q x)
  then show ?case by (simp add: queue_push_def wq_ring_def)
next
  case (3 q x xs)
  from wq_pop_ring [OF 3] show ?case by blast
next
  case (4 q)
  then show ?case by (simp add: queue_pop_def wq_ring_empty)
next
  case (5 q)
  then show ?case by (simp add: wq_ring_def wq_ring_inv_def)
qed

section \<open>The handler\<close>

lemma wq_order_Cons:
  "wq_order g (x # xs) = (if runnable (g (unat x)) then [unat x] else []) @ wq_order (g(unat x := work0)) xs"
proof -
  have "runnable ((g(unat x := work0)) i) \<longleftrightarrow> i \<noteq> unat x \<and> runnable (g i)" for i
    by (simp add: runnable_def work0_def)
  then show ?thesis by (simp add: wq_order_def conj_commute)
qed

lemma firsts_set: "set (firsts xs) = set xs" "distinct (firsts xs)"
  by (induction xs) auto

lemma run_works_cong:
  "(\<And>i. i \<in> set is \<Longrightarrow> g i = h i) \<Longrightarrow> run_works act g is w = run_works act h is w"
  unfolding run_works_def by (intro fold_cong) auto

lemma run_works_order:
  "run_works act g (wq_order (g(i := work0)) xs) w = run_works act (g(i := work0)) (wq_order (g(i := work0)) xs) w"
  by (rule run_works_cong) (auto simp: wq_order_def runnable_def work0_def)

lemma set_work_ring [simp]: "wq_ring (set_work i e s) = wq_ring s" "wq_ring_inv (set_work i e s) = wq_ring_inv s"
  by (simp_all add: set_work_def wq_ring_def wq_ring_inv_def)

lemma queue_pop_fields [simp]: "g_entries (snd (queue_pop s)) = g_entries s" "world (snd (queue_pop s)) = world s"
  "g_completed (snd (queue_pop s)) = g_completed s"
  by (simp_all add: queue_pop_def)

lemma wq_loop_step:
  assumes pop: "queue_pop s = (Some x, s1)" "g_qcount s \<noteq> 0" and x: "unat x < 128"
  defines "e \<equiv> g_entries s (unat x)"
  shows "wq_loop (world_cb act) s = wq_loop (world_cb act)
    (if runnable e then (set_work (unat x) work0 s1)\<lparr>world := act (w_fn e) (w_arg e) (world s), g_completed := g_completed s + 1\<rparr>
     else set_work (unat x) work0 s1)"
proof -
  have f: "g_entries s1 = g_entries s" "world s1 = world s" "g_completed s1 = g_completed s"
    using queue_pop_fields [of s] pop(1) by simp_all
  show ?thesis
  proof (cases "runnable e")
    case True
    then show ?thesis
      using pop x f by (subst wq_loop.simps) (simp add: world_cb_def Let_def runnable_def set_work_def e_def)
  next
    case False
    then have "\<not> w_used e \<or> \<not> w_pending e \<or> w_fn e = 0" by (simp add: runnable_def)
    then show ?thesis
      using pop x f False by (subst wq_loop.simps) (simp add: Let_def e_def)
  qed
qed

lemma wq_loop_world:
  assumes "wq_ring_inv s" "wq_ring s = xs" "\<And>x. x \<in> set xs \<Longrightarrow> unat x < 128"
  shows "\<exists>s'. wq_loop (world_cb act) s = Some s' \<and> g_qcount s' = 0 \<and>
    g_entries s' = (\<lambda>i. if i \<in> unat ` set xs then work0 else g_entries s i) \<and>
    world s' = run_works act (g_entries s) (wq_order (g_entries s) xs) (world s) \<and>
    g_completed s' = g_completed s + word_of_nat (length (wq_order (g_entries s) xs))"
  using assms
proof (induction xs arbitrary: s)
  case Nil
  then have "g_qcount s = 0" by (simp add: wq_ring_empty)
  then show ?case by (subst wq_loop.simps) (simp add: run_works_def wq_order_def)
next
  case (Cons x xs)
  note pop = wq_pop_ring [OF Cons.prems(1,2)]
  let ?e = "g_entries s (unat x)" and ?s1 = "snd (queue_pop s)"
  let ?s2 = "set_work (unat x) work0 ?s1"
  let ?s3 = "if runnable ?e then ?s2\<lparr>world := act (w_fn ?e) (w_arg ?e) (world s), g_completed := g_completed s + 1\<rparr> else ?s2"
  have "wq_loop (world_cb act) s = wq_loop (world_cb act) ?s3"
    using wq_loop_step [OF pop(1,4)] Cons.prems(3) [of x] by simp
  moreover have "wq_ring_inv ?s3" "wq_ring ?s3 = xs" using pop by (simp_all add: wq_ring_inv_def wq_ring_def set_work_def)
  ultimately obtain s' where s': "wq_loop (world_cb act) s = Some s'" "g_qcount s' = 0"
    "g_entries s' = (\<lambda>i. if i \<in> unat ` set xs then work0 else g_entries ?s3 i)"
    "world s' = run_works act (g_entries ?s3) (wq_order (g_entries ?s3) xs) (world ?s3)"
    "g_completed s' = g_completed ?s3 + word_of_nat (length (wq_order (g_entries ?s3) xs))"
    using Cons.IH [of ?s3] Cons.prems(3) by auto
  have g3: "g_entries ?s3 = (g_entries s)(unat x := work0)" by (simp add: set_work_def)
  have "world s' = run_works act (g_entries s) (wq_order (g_entries s) (x # xs)) (world s)"
    unfolding s'(4) g3 run_works_order [symmetric] by (simp add: wq_order_Cons run_works_def set_work_def)
  moreover have "g_completed s' = g_completed s + word_of_nat (length (wq_order (g_entries s) (x # xs)))"
    unfolding s'(5) g3 by (simp add: wq_order_Cons set_work_def)
  moreover have "g_entries s' = (\<lambda>i. if i \<in> unat ` set (x # xs) then work0 else g_entries s i)"
    unfolding s'(3) g3 by auto
  ultimately show ?case using s'(1,2) by blast
qed

section \<open>The invariant\<close>

lemma wq_set_work_fields: "g_entries (set_work i e s) = (g_entries s)(i := e)"
  by (simp add: set_work_def)

lemma wq_raise_fields [simp]:
  "g_entries (snd (qos_softirq_raise v s)) = g_entries s" "wq_ring (snd (qos_softirq_raise v s)) = wq_ring s"
  "wq_ring_inv (snd (qos_softirq_raise v s)) = wq_ring_inv s" "g_qcount (snd (qos_softirq_raise v s)) = g_qcount s"
  by (simp_all add: qos_softirq_raise_def wq_ring_def wq_ring_inv_def)

lemma wq_push_fields [simp]: "g_entries (snd (queue_push x s)) = g_entries s"
  by (simp add: queue_push_def)

lemma wq_inv_clear: "wq_inv s \<Longrightarrow> wq_inv (set_work i work0 s)"
  by (auto simp: wq_inv_def wq_set_work_fields work0_def)

lemma wq_enqueue_shape:
  fixes s :: "'w deferred" and arg :: ptr
  assumes inv: "wq_inv s" and fn: "fn \<noteq> 0" and free: "find_free QOS_WORKQUEUE_MAX w_used (g_entries s) = Some i"
  defines "wid \<equiv> fst (take_id (g_next_id s))"
  defines "e \<equiv> \<lparr>w_used = True, w_pending = True, w_id = wid, w_fn = fn, w_arg = arg\<rparr>"
  shows "unat (g_qcount s) < 128 \<Longrightarrow> \<exists>s'. qos_workqueue_enqueue fn arg s = (0, Some wid, s') \<and>
      g_entries s' = (g_entries s)(i := e) \<and> wq_ring s' = wq_ring s @ [word_of_nat i] \<and> wq_ring_inv s' \<and>
      bit (g_pending_mask s') 2"
    "\<not> unat (g_qcount s) < 128 \<Longrightarrow> \<exists>s'. qos_workqueue_enqueue fn arg s = (-1, None, s') \<and>
      g_entries s' = (g_entries s)(i := work0) \<and> wq_ring s' = wq_ring s \<and> wq_ring_inv s'"
proof -
  let ?s1 = "set_work i e (s\<lparr>g_next_id := snd (take_id (g_next_id s))\<rparr>)"
  have r: "wq_ring ?s1 = wq_ring s" "wq_ring_inv ?s1" "g_qcount ?s1 = g_qcount s" "g_entries ?s1 = (g_entries s)(i := e)"
    using inv by (simp_all add: wq_inv_def wq_ring_def wq_ring_inv_def set_work_def)
  have q: "qos_workqueue_enqueue fn arg s = (case queue_push (word_of_nat i) ?s1 of (r, s2) \<Rightarrow>
      if r \<noteq> 0 then (-1, None, set_work i work0 s2)
      else (0, Some wid, snd (qos_softirq_raise QOS_SOFTIRQ_WORKQUEUE s2)))"
    using fn free by (simp add: qos_workqueue_enqueue_def e_def wid_def split_beta Let_def)
  show "\<exists>s'. qos_workqueue_enqueue fn arg s = (0, Some wid, s') \<and>
      g_entries s' = (g_entries s)(i := e) \<and> wq_ring s' = wq_ring s @ [word_of_nat i] \<and> wq_ring_inv s' \<and>
      bit (g_pending_mask s') 2" if room: "unat (g_qcount s) < 128"
  proof -
    have "unat (g_qcount ?s1) < 128" using room r by simp
    note p = wq_push_ring [OF r(2) this, of "word_of_nat i"]
    let ?s2 = "snd (queue_push (word_of_nat i) ?s1)"
    have "qos_workqueue_enqueue fn arg s = (0, Some wid, snd (qos_softirq_raise QOS_SOFTIRQ_WORKQUEUE ?s2))"
      unfolding q by (subst p(1)) simp
    moreover have "bit (g_pending_mask (snd (qos_softirq_raise QOS_SOFTIRQ_WORKQUEUE ?s2))) 2"
      by (simp add: qos_softirq_raise_def vector_valid_def bit_simps)
    ultimately show ?thesis using p(2,3) r by simp
  qed
  show "\<exists>s'. qos_workqueue_enqueue fn arg s = (-1, None, s') \<and>
      g_entries s' = (g_entries s)(i := work0) \<and> wq_ring s' = wq_ring s \<and> wq_ring_inv s'"
    if full: "\<not> unat (g_qcount s) < 128"
  proof -
    have "queue_push (word_of_nat i) ?s1 = (-1, ?s1)" using full r by (simp add: queue_push_def)
    then have "qos_workqueue_enqueue fn arg s = (-1, None, set_work i work0 ?s1)" unfolding q by simp
    then show ?thesis using r by (simp add: wq_set_work_fields)
  qed
qed

lemma wq_inv_enqueue: "wq_inv s \<Longrightarrow> wq_inv (snd (snd (qos_workqueue_enqueue fn arg s)))"
proof (cases "fn = 0 \<or> find_free QOS_WORKQUEUE_MAX w_used (g_entries s) = None")
  case True
  moreover assume "wq_inv s"
  ultimately show ?thesis by (auto simp: qos_workqueue_enqueue_def)
next
  case False
  then obtain i where fn: "fn \<noteq> 0" and i: "find_free QOS_WORKQUEUE_MAX w_used (g_entries s) = Some i" by auto
  assume inv: "wq_inv s"
  have "i < 128" using find_free_Some [OF i] by simp
  then have u: "unat (word_of_nat i :: u16) < 128" by (simp add: unat_u16_of_nat)
  show ?thesis
  proof (cases "unat (g_qcount s) < 128")
    case True
    from wq_enqueue_shape(1) [OF inv fn i this, of arg] u inv fn
    show ?thesis by (auto simp: wq_inv_def split: if_splits)
  next
    case False
    from wq_enqueue_shape(2) [OF inv fn i this, of arg] inv
    show ?thesis by (auto simp: wq_inv_def work0_def split: if_splits)
  qed
qed

lemma wq_inv_cancel: "wq_inv s \<Longrightarrow> wq_inv (snd (qos_workqueue_cancel wid s))"
  by (auto simp: qos_workqueue_cancel_def wq_inv_clear split: option.splits)

lemma wq_inv_reset: "wq_inv (qos_workqueue_reset s)"
  by (auto simp: wq_inv_def qos_workqueue_reset_def wq_ring_inv_def wq_ring_def work0_def)

lemma wq_order_inv:
  assumes "wq_inv s"
  shows "distinct (wq_order (g_entries s) (wq_ring s))"
    "set (wq_order (g_entries s) (wq_ring s)) = {i. i < 128 \<and> w_used (g_entries s i)}"
    "unat ` set (wq_ring s) \<subseteq> {..<128}"
proof -
  show b: "unat ` set (wq_ring s) \<subseteq> {..<128}" using assms by (auto simp: wq_inv_def)
  show "distinct (wq_order (g_entries s) (wq_ring s))" by (simp add: wq_order_def firsts_set)
  have "i \<in> unat ` set (wq_ring s)" if "i < 128" "w_used (g_entries s i)" for i
  proof -
    have "word_of_nat i \<in> set (wq_ring s)" using assms that by (simp add: wq_inv_def)
    then show ?thesis using that(1) by (intro image_eqI [of _ _ "word_of_nat i"]) (simp_all add: unat_u16_of_nat)
  qed
  then show "set (wq_order (g_entries s) (wq_ring s)) = {i. i < 128 \<and> w_used (g_entries s i)}"
    using assms b by (auto simp: wq_order_def firsts_set wq_inv_def runnable_def)
qed

lemma wq_pending_zero:
  assumes "\<And>i. i < 128 \<Longrightarrow> \<not> w_used (g_entries s i)"
  shows "qos_workqueue_pending_count s = 0"
proof -
  have E: "{i. i < 128 \<and> w_used (g_entries s i) \<and> w_pending (g_entries s i)} = {}" using assms by auto
  show ?thesis unfolding qos_workqueue_pending_count_def slot_count_card E by simp
qed

section \<open>Properties\<close>

text \<open>
  C30. Every piece of queued work runs exactly once. Queueing and cancelling keep the queue
  well formed. From a well-formed queue the handler, with work functions that do not touch the
  queue, returns; it has run each queued and not cancelled piece of work exactly once, in the order
  in which the slots first occur in the ring, counted the completions, and left nothing pending.
\<close>

theorem wq_handler_runs_pending:
  assumes inv: "wq_inv s"
  defines "order \<equiv> wq_order (g_entries s) (wq_ring s)"
  shows "\<exists>s'. workqueue_softirq_handler (world_cb act) s = Some s' \<and>
    world s' = run_works act (g_entries s) order (world s) \<and>
    distinct order \<and> set order = {i. i < QOS_WORKQUEUE_MAX \<and> w_used (g_entries s i)} \<and>
    qos_workqueue_completed_count s' = qos_workqueue_completed_count s + word_of_nat (length order) \<and>
    qos_workqueue_pending_count s' = 0 \<and> wq_ring s' = [] \<and>
    wq_inv (snd (snd (qos_workqueue_enqueue fn arg s))) \<and> wq_inv (snd (qos_workqueue_cancel wid s))"
proof -
  obtain s' where s': "wq_loop (world_cb act) s = Some s'" "g_qcount s' = 0"
    "g_entries s' = (\<lambda>i. if i \<in> unat ` set (wq_ring s) then work0 else g_entries s i)"
    "world s' = run_works act (g_entries s) order (world s)"
    "g_completed s' = g_completed s + word_of_nat (length order)"
    using wq_loop_world [of s "wq_ring s" act] inv by (auto simp: wq_inv_def order_def)
  have "\<not> w_used (g_entries s' i)" if "i < 128" for i
  proof (cases "i \<in> unat ` set (wq_ring s)")
    case True
    then show ?thesis by (simp add: s'(3) work0_def)
  next
    case False
    then have "i \<notin> set order" by (auto simp: order_def wq_order_def firsts_set)
    then show ?thesis using False that wq_order_inv(2) [OF inv] by (simp add: s'(3) order_def)
  qed
  then have "qos_workqueue_pending_count s' = 0" by (rule wq_pending_zero)
  then show ?thesis
    using s' wq_order_inv [OF inv] wq_inv_enqueue [OF inv] wq_inv_cancel [OF inv]
    by (simp add: workqueue_softirq_handler_def qos_workqueue_completed_count_def wq_ring_empty order_def)
qed

text \<open>The work a history of three enqueues and one cancellation leaves: the first was cancelled.\<close>

theorem wq_handler_runs_pending_witness:
  "let s1 = snd (snd (qos_workqueue_enqueue 101 1 (qos_workqueue_reset (deferred_zero ([] :: (ptr \<times> ptr) list)))));
       s2 = snd (snd (qos_workqueue_enqueue 102 2 s1)); s3 = snd (qos_workqueue_cancel 1 s2);
       s4 = snd (snd (qos_workqueue_enqueue 103 3 s3)) in
   wq_inv s4 \<and> (\<exists>s'. workqueue_softirq_handler (world_cb (\<lambda>f p w. w @ [(f, p)])) s4 = Some s' \<and>
     world s' = [(103, 3), (102, 2)])"
proof -
  define s0 where "s0 = qos_workqueue_reset (deferred_zero ([] :: (ptr \<times> ptr) list))"
  define s4 where "s4 = snd (snd (qos_workqueue_enqueue 103 3 (snd (qos_workqueue_cancel 1 (snd (snd
    (qos_workqueue_enqueue 102 2 (snd (snd (qos_workqueue_enqueue 101 1 s0)))))))))) "
  have inv: "wq_inv s4"
    unfolding s4_def s0_def by (intro wq_inv_enqueue wq_inv_cancel wq_inv_reset)
  have o4: "wq_order (g_entries s4) (wq_ring s4) = [0, 1]" unfolding s4_def s0_def by code_simp
  have w: "map (\<lambda>i. (w_fn (g_entries s4 i), w_arg (g_entries s4 i))) [0, 1] = [(103, 3), (102, 2)]" "world s4 = []"
    unfolding s4_def s0_def by code_simp+
  show ?thesis
    using wq_handler_runs_pending [OF inv, of "\<lambda>f p w. w @ [(f, p)]" 0 0 0] inv w
    unfolding Let_def s0_def [symmetric] s4_def [symmetric] o4 by (auto simp: run_works_def)
qed

text \<open>
  C31. Cancelled work keeps its place in the ring. When a piece of work is enqueued and then cancelled
  the same work is pending as before, but the ring is one entry longer. Once the ring holds 128
  entries \<open>qos_workqueue_enqueue\<close> fails even if no work is pending at all.
\<close>

theorem wq_cancel_keeps_ring_entry:
  assumes inv: "wq_inv s" and q: "qos_workqueue_enqueue fn arg s = (0, Some wid, s1)"
    and fresh: "\<And>i. i < QOS_WORKQUEUE_MAX \<Longrightarrow> w_used (g_entries s i) \<Longrightarrow> w_id (g_entries s i) \<noteq> wid"
  shows "\<exists>s2. qos_workqueue_cancel wid s1 = (0, s2) \<and>
    (\<forall>i < QOS_WORKQUEUE_MAX. w_used (g_entries s2 i) = w_used (g_entries s i)) \<and>
    unat (g_qcount s2) = Suc (unat (g_qcount s)) \<and>
    (unat (g_qcount s2) = QOS_WORKQUEUE_MAX \<longrightarrow> (\<forall>f a. fst (qos_workqueue_enqueue f a s2) = -1))"
proof -
  have fn: "fn \<noteq> 0" using q by (auto simp: qos_workqueue_enqueue_def)
  obtain i where i: "find_free QOS_WORKQUEUE_MAX w_used (g_entries s) = Some i"
    using q by (auto simp: qos_workqueue_enqueue_def split: if_splits option.splits)
  note il = find_free_Some [OF i]
  have room: "unat (g_qcount s) < 128" using wq_enqueue_shape(2) [OF inv fn i, of arg] q by auto
  have wid: "wid = fst (take_id (g_next_id s))" and s1: "g_entries s1 = (g_entries s)(i :=
      \<lparr>w_used = True, w_pending = True, w_id = wid, w_fn = fn, w_arg = arg\<rparr>)"
    "wq_ring s1 = wq_ring s @ [word_of_nat i]"
    using wq_enqueue_shape(1) [OF inv fn i room, of arg] q by auto
  have "wid \<noteq> 0" by (simp add: wid take_id_def)
  moreover have "find_slot_by_id wid s1 = Some i"
    using il fresh by (auto simp: find_slot_by_id_def find_key_def scan_Some_iff s1(1))
  ultimately have c: "qos_workqueue_cancel wid s1 = (0, set_work i work0 s1)" by (simp add: qos_workqueue_cancel_def)
  have n: "unat (g_qcount (set_work i work0 s1)) = Suc (unat (g_qcount s))"
    using arg_cong [OF s1(2), of length] by (simp add: length_wq_ring set_work_def)
  have "fst (qos_workqueue_enqueue f a s2) = -1" if full: "unat (g_qcount s2) = 128" for f a and s2 :: "'a deferred"
    using full by (auto simp: qos_workqueue_enqueue_def queue_push_def set_work_def Let_def split_beta split: option.splits)
  then show ?thesis using c n il by (auto simp: wq_set_work_fields s1(1) work0_def)
qed

theorem wq_cancel_keeps_ring_entry_witness:
  "let s = qos_workqueue_reset (deferred_zero ()); s1 = snd (snd (qos_workqueue_enqueue 101 1 s)) in
   qos_workqueue_enqueue 101 1 s = (0, Some 1, s1) \<and>
   unat (g_qcount (snd (qos_workqueue_cancel 1 s1))) = 1"
proof -
  let ?s = "qos_workqueue_reset (deferred_zero ())"
  have inv: "wq_inv ?s" by (rule wq_inv_reset)
  have i: "find_free QOS_WORKQUEUE_MAX w_used (g_entries ?s) = Some 0"
    by (simp add: find_free_def scan_eval qos_workqueue_reset_def work0_def)
  have c: "g_qcount ?s = 0" "fst (take_id (g_next_id ?s)) = 1"
    by (simp_all add: qos_workqueue_reset_def take_id_def)
  then obtain s1 where q: "qos_workqueue_enqueue 101 1 ?s = (0, Some 1, s1)"
    using wq_enqueue_shape(1) [OF inv _ i, of 101 1] by auto
  have "unat (g_qcount (snd (qos_workqueue_cancel 1 s1))) = 1"
    using wq_cancel_keeps_ring_entry [OF inv q] c by (auto simp: qos_workqueue_reset_def work0_def)
  with q show ?thesis by (simp add: Let_def)
qed

end
