(* ===== verification/Napi.thy ===== *)
theory Napi
  imports Workqueue
begin

text \<open>
  The polled network receivers of \<^verbatim>\<open>src/c-os/kernel/net/napi.c\<close>. The poll function is the argument
  \<open>poll\<close>, applied to its address, its context and the budget; it returns the work it did and may
  change the whole state.
\<close>

section \<open>Model\<close>

abbreviation (input) QOS_NAPI_MAX :: nat where "QOS_NAPI_MAX \<equiv> 32"

type_synonym 'w napi_poll = "ptr \<Rightarrow> ptr \<Rightarrow> u32 \<Rightarrow> 'w deferred \<Rightarrow> u32 \<times> 'w deferred"

definition find_slot :: "u32 \<Rightarrow> 'w deferred \<Rightarrow> nat option" where
  "find_slot napi_id s = find_key QOS_NAPI_MAX np_used np_id (g_napi s) napi_id"

definition set_napi :: "nat \<Rightarrow> napi \<Rightarrow> 'w deferred \<Rightarrow> 'w deferred" where
  "set_napi i e s = s\<lparr>g_napi := (g_napi s)(i := e)\<rparr>"

text \<open>The body of the loop of \<open>napi_softirq_handler\<close> for instance \<open>i\<close>; the flag is \<open>need_reschedule\<close>.\<close>

definition napi_poll_slot :: "'w napi_poll \<Rightarrow> nat \<Rightarrow> bool \<times> 'w deferred \<Rightarrow> bool \<times> 'w deferred" where
  "napi_poll_slot poll i = (\<lambda>(need_reschedule, s).
     let e = g_napi s i in
     if np_used e \<and> np_scheduled e \<and> np_poll e \<noteq> 0 then
       let weight = (if np_weight e = 0 then 1 else np_weight e);
           (work, s1) = poll (np_poll e) (np_ctx e) weight s;
           s2 = set_napi i ((g_napi s1 i)\<lparr>np_run_count := np_run_count (g_napi s1 i) + 1\<rparr>) s1 in
       if work < weight then (need_reschedule, set_napi i ((g_napi s2 i)\<lparr>np_scheduled := False\<rparr>) s2)
       else (True, s2)
     else (need_reschedule, s))"

definition napi_softirq_handler :: "'w napi_poll \<Rightarrow> 'w deferred \<Rightarrow> 'w deferred" where
  "napi_softirq_handler poll s =
     (let (need_reschedule, s1) = fold (napi_poll_slot poll) [0..<QOS_NAPI_MAX] (False, s) in
      if need_reschedule then snd (qos_softirq_raise QOS_SOFTIRQ_NET_RX s1) else s1)"

definition napi0 :: napi where
  "napi0 = \<lparr>np_used = False, np_scheduled = False, np_id = 0, np_weight = 0, np_poll = 0, np_ctx = 0,
     np_run_count = 0\<rparr>"

definition qos_napi_reset :: "'w deferred \<Rightarrow> 'w deferred" where
  "qos_napi_reset s = s\<lparr>g_napi := (\<lambda>_. napi0), g_next_napi_id := 1\<rparr>"

definition qos_napi_register :: "u32 \<Rightarrow> ptr \<Rightarrow> ptr \<Rightarrow> 'w deferred \<Rightarrow> int \<times> u32 option \<times> 'w deferred" where
  "qos_napi_register weight poll ctx s =
     (if poll = 0 \<or> weight = 0 then (-1, None, s)
      else case find_free QOS_NAPI_MAX np_used (g_napi s) of
        None \<Rightarrow> (-1, None, s)
      | Some i \<Rightarrow>
          let (nid, next) = take_id (g_next_napi_id s) in
          (0, Some nid, set_napi i \<lparr>np_used = True, np_scheduled = False, np_id = nid, np_weight = weight,
             np_poll = poll, np_ctx = ctx, np_run_count = 0\<rparr> (s\<lparr>g_next_napi_id := next\<rparr>)))"

definition qos_napi_schedule :: "u32 \<Rightarrow> 'w deferred \<Rightarrow> int \<times> 'w deferred" where
  "qos_napi_schedule napi_id s =
     (case find_slot napi_id s of
        None \<Rightarrow> (-1, s)
      | Some i \<Rightarrow> qos_softirq_raise QOS_SOFTIRQ_NET_RX (set_napi i ((g_napi s i)\<lparr>np_scheduled := True\<rparr>) s))"

definition qos_napi_complete :: "u32 \<Rightarrow> 'w deferred \<Rightarrow> int \<times> 'w deferred" where
  "qos_napi_complete napi_id s =
     (case find_slot napi_id s of
        None \<Rightarrow> (-1, s)
      | Some i \<Rightarrow> (0, set_napi i ((g_napi s i)\<lparr>np_scheduled := False\<rparr>) s))"

definition qos_napi_pending_count :: "'w deferred \<Rightarrow> u32" where
  "qos_napi_pending_count s =
     word_of_nat (slot_count (\<lambda>i. np_used (g_napi s i) \<and> np_scheduled (g_napi s i)) QOS_NAPI_MAX)"

definition qos_napi_run_count :: "u32 \<Rightarrow> 'w deferred \<Rightarrow> u32" where
  "qos_napi_run_count napi_id s =
     (case find_slot napi_id s of None \<Rightarrow> 0 | Some i \<Rightarrow> np_run_count (g_napi s i))"

definition napi_init :: "'w deferred \<Rightarrow> 'w deferred" where
  "napi_init s = snd (qos_softirq_register QOS_SOFTIRQ_NET_RX (Some NapiH) 0 (qos_napi_reset s))"

section \<open>Specification\<close>

definition napi_ready :: "napi \<Rightarrow> bool" where
  "napi_ready e \<longleftrightarrow> np_used e \<and> np_scheduled e \<and> np_poll e \<noteq> 0"

definition napi_budget :: "napi \<Rightarrow> u32" where
  "napi_budget e = (if np_weight e = 0 then 1 else np_weight e)"

definition ready_slots :: "napi arr \<Rightarrow> nat list" where
  "ready_slots g = filter (\<lambda>i. napi_ready (g i)) [0..<QOS_NAPI_MAX]"

text \<open>A poll function that leaves the receivers and their interrupt alone; it may use the rest of the kernel.\<close>

definition keeps_napi :: "'w napi_poll \<Rightarrow> bool" where
  "keeps_napi poll \<longleftrightarrow> (\<forall>f p b s. g_napi (snd (poll f p b s)) = g_napi s \<and>
     bit (g_pending_mask (snd (poll f p b s))) 1 = bit (g_pending_mask s) 1)"

text \<open>An instance after a poll that did \<open>n\<close> units of work: it stays scheduled exactly when it used up its budget.\<close>

definition polled :: "u32 \<Rightarrow> napi \<Rightarrow> napi" where
  "polled n e = e\<lparr>np_run_count := np_run_count e + 1, np_scheduled := napi_budget e \<le> n\<rparr>"

text \<open>The instances of a list polled one after the other, each with its budget: the work each did.\<close>

fun poll_all :: "'w napi_poll \<Rightarrow> nat list \<Rightarrow> 'w deferred \<Rightarrow> (nat \<times> u32) list \<times> 'w deferred" where
  "poll_all poll [] s = ([], s)"
| "poll_all poll (i # is) s =
     (let e = g_napi s i;
          (n, s1) = poll (np_poll e) (np_ctx e) (napi_budget e) s;
          (rs, s2) = poll_all poll is (set_napi i (polled n e) s1) in ((i, n) # rs, s2))"

definition napi_after :: "napi arr \<Rightarrow> (nat \<times> u32) list \<Rightarrow> napi arr" where
  "napi_after g rs i = (case map_of rs i of None \<Rightarrow> g i | Some n \<Rightarrow> polled n (g i))"

text \<open>
  Instances have a poll function, and while one is scheduled the interrupt is pending; while the handler runs, the
  instances of \<open>N\<close> are excepted.
\<close>

definition napi_inv_but :: "nat set \<Rightarrow> 'w deferred \<Rightarrow> bool" where
  "napi_inv_but N s \<longleftrightarrow>
     (\<forall>i < QOS_NAPI_MAX. np_used (g_napi s i) \<longrightarrow> np_poll (g_napi s i) \<noteq> 0) \<and>
     (\<forall>i < QOS_NAPI_MAX. np_used (g_napi s i) \<longrightarrow> np_scheduled (g_napi s i) \<longrightarrow> i \<in> N \<or> bit (g_pending_mask s) 1)"

definition napi_inv :: "'w deferred \<Rightarrow> bool" where
  "napi_inv s \<longleftrightarrow>
     (\<forall>i < QOS_NAPI_MAX. np_used (g_napi s i) \<longrightarrow> np_poll (g_napi s i) \<noteq> 0) \<and>
     ((\<exists>i < QOS_NAPI_MAX. np_used (g_napi s i) \<and> np_scheduled (g_napi s i)) \<longrightarrow> bit (g_pending_mask s) 1)"

text \<open>Acknowledging the interrupt, as \<open>qos_softirq_run\<close> does before it calls the handler.\<close>

definition ack :: "nat \<Rightarrow> 'w deferred \<Rightarrow> 'w deferred" where
  "ack i s = s\<lparr>g_pending_mask := g_pending_mask s AND NOT (push_bit i 1)\<rparr>"

section \<open>Library\<close>

lemma napi_inv_but_none: "napi_inv_but {} s = napi_inv s"
  by (auto simp: napi_inv_but_def napi_inv_def)

lemma set_ready_slots: "set (ready_slots g) = {i. i < QOS_NAPI_MAX \<and> napi_ready (g i)}"
  by (auto simp: ready_slots_def)

lemma polled_sel [simp]: "np_used (polled n e) = np_used e" "np_poll (polled n e) = np_poll e"
  "np_scheduled (polled n e) = (napi_budget e \<le> n)" "napi_budget (polled n e) = napi_budget e"
  by (simp_all add: polled_def napi_budget_def)

lemma bit_or_2: "bit ((m :: u32) OR 2) j \<longleftrightarrow> bit m j \<or> j = 1"
proof -
  have "bit (2 :: u32) j \<longleftrightarrow> j = 1" using bit_push_bit_iff [of 1 "1 :: u32" j] by (auto simp: push_bit_eq_mult bit_simps)
  then show ?thesis by (simp add: bit_or_iff)
qed

lemma napi_raise_bit: "bit (g_pending_mask (snd (qos_softirq_raise 1 s))) 1"
  "g_napi (snd (qos_softirq_raise 1 s)) = g_napi s"
  by (simp_all add: qos_softirq_raise_def vector_valid_def bit_or_2)

lemma napi_ack: "g_napi (ack i s) = g_napi s" "world (ack i s) = world s" "\<not> bit (g_pending_mask (ack i s)) i"
  unfolding ack_def by (simp_all add: bit_clear del: push_bit_of_1)

lemma napi_slot_skip: "\<not> napi_ready (g_napi s i) \<Longrightarrow> napi_poll_slot poll i (need, s) = (need, s)"
  by (auto simp: napi_poll_slot_def napi_ready_def Let_def)

text \<open>The body of the loop for an instance that is due.\<close>

lemma napi_slot_ready:
  assumes "napi_ready (g_napi s i)" "poll (np_poll (g_napi s i)) (np_ctx (g_napi s i)) (napi_budget (g_napi s i)) s = (n, s1)"
  shows "napi_poll_slot poll i (need, s) =
    (need \<or> napi_budget (g_napi s i) \<le> n,
     set_napi i ((g_napi s1 i)\<lparr>np_run_count := np_run_count (g_napi s1 i) + 1,
       np_scheduled := np_scheduled (g_napi s1 i) \<and> napi_budget (g_napi s i) \<le> n\<rparr>) s1)"
proof -
  have same: "e\<lparr>np_run_count := c, np_scheduled := np_scheduled e\<rparr> = e\<lparr>np_run_count := c\<rparr>" for e c by (cases e) simp
  show ?thesis
    using assms unfolding napi_poll_slot_def napi_budget_def [symmetric]
    by (cases "n < napi_budget (g_napi s i)")
      (auto simp: napi_ready_def Let_def set_napi_def not_less not_le [symmetric] same)
qed

section \<open>Polls that leave the receivers alone\<close>

lemma poll_all_napi:
  assumes "keeps_napi poll" "distinct is" "poll_all poll is s = (rs, s')"
  shows "map fst rs = is" "g_napi s' = napi_after (g_napi s) rs"
    "bit (g_pending_mask s') 1 = bit (g_pending_mask s) 1"
proof -
  have "map fst rs = is \<and> g_napi s' = napi_after (g_napi s) rs \<and> bit (g_pending_mask s') 1 = bit (g_pending_mask s) 1"
    using assms(2,3)
  proof (induction "is" arbitrary: s rs)
    case Nil
    then show ?case by (simp add: napi_after_def fun_eq_iff)
  next
    case (Cons i js)
    obtain n s1 where a: "poll (np_poll (g_napi s i)) (np_ctx (g_napi s i)) (napi_budget (g_napi s i)) s = (n, s1)" by fastforce
    have k: "g_napi s1 = g_napi s" "bit (g_pending_mask s1) 1 = bit (g_pending_mask s) 1"
      using assms(1) a unfolding keeps_napi_def by (metis snd_conv)+
    let ?s2 = "set_napi i (polled n (g_napi s i)) s1"
    obtain rs1 where r: "rs = (i, n) # rs1" "poll_all poll js ?s2 = (rs1, s')"
      using Cons.prems(2) a by (auto simp: split_beta Let_def)
    note IH = Cons.IH [OF _ r(2)]
    have "set (map fst rs1) = set js" using IH Cons.prems(1) by simp
    then have "map_of rs1 i = None" using Cons.prems(1) by (simp add: map_of_eq_None_iff)
    then have "napi_after (g_napi ?s2) rs1 = napi_after (g_napi s) rs"
      by (auto simp: fun_eq_iff napi_after_def r(1) set_napi_def k split: option.splits)
    then show ?case using IH Cons.prems(1) k by (simp add: r(1)) (simp add: set_napi_def)
  qed
  then show "map fst rs = is" "g_napi s' = napi_after (g_napi s) rs" "bit (g_pending_mask s') 1 = bit (g_pending_mask s) 1"
    by blast+
qed

lemma napi_fold_poll_all:
  assumes k: "keeps_napi poll"
  shows "distinct is \<Longrightarrow> poll_all poll (filter (\<lambda>i. napi_ready (g_napi s i)) is) s = (rs, s') \<Longrightarrow>
    fold (napi_poll_slot poll) is (need, s) = (need \<or> (\<exists>(i, n) \<in> set rs. napi_budget (g_napi s i) \<le> n), s')"
proof (induction "is" arbitrary: need s rs)
  case (Cons i js)
  show ?case
  proof (cases "napi_ready (g_napi s i)")
    case False
    then show ?thesis using Cons.IH [of s rs need] Cons.prems by (simp add: napi_slot_skip)
  next
    case True
    obtain n s1 where a: "poll (np_poll (g_napi s i)) (np_ctx (g_napi s i)) (napi_budget (g_napi s i)) s = (n, s1)" by fastforce
    have k1: "g_napi s1 = g_napi s" using k a unfolding keeps_napi_def by (metis snd_conv)
    let ?s2 = "set_napi i (polled n (g_napi s i)) s1"
    have f: "filter (\<lambda>j. napi_ready (g_napi ?s2 j)) js = filter (\<lambda>j. napi_ready (g_napi s j)) js"
      using Cons.prems(1) by (auto simp: set_napi_def k1 intro: filter_cong)
    obtain rs1 where r: "rs = (i, n) # rs1" "poll_all poll (filter (\<lambda>j. napi_ready (g_napi ?s2 j)) js) ?s2 = (rs1, s')"
      using Cons.prems(2) True a unfolding f by (auto simp: split_beta Let_def)
    have "np_scheduled (g_napi s i)" using True by (simp add: napi_ready_def)
    then have st: "napi_poll_slot poll i (need, s) = (need \<or> napi_budget (g_napi s i) \<le> n, ?s2)"
      using napi_slot_ready [where poll = poll and need = need, OF True a] by (simp add: k1 polled_def)
    have "napi_budget (g_napi ?s2 j) = napi_budget (g_napi s j)" for j by (simp add: set_napi_def k1)
    then show ?thesis
      using Cons.IH [OF _ r(2), of "need \<or> napi_budget (g_napi s i) \<le> n"] Cons.prems(1) st by (simp add: r(1) disj_assoc)
  qed
qed simp

lemma napi_handler_poll_all:
  assumes "keeps_napi poll" "poll_all poll (ready_slots (g_napi s)) s = (rs, s1)"
  shows "napi_softirq_handler poll s =
    (if \<exists>(i, n) \<in> set rs. napi_budget (g_napi s i) \<le> n then snd (qos_softirq_raise 1 s1) else s1)"
proof -
  have "fold (napi_poll_slot poll) [0..<32] (False, s) = (False \<or> (\<exists>(i, n) \<in> set rs. napi_budget (g_napi s i) \<le> n), s1)"
    using assms(2) by (intro napi_fold_poll_all assms(1)) (simp_all only: ready_slots_def distinct_upt)
  then show ?thesis unfolding napi_softirq_handler_def by simp
qed

lemma napi_after_scheduled:
  assumes "map fst rs = ready_slots g" "i < QOS_NAPI_MAX" "\<And>i. i < QOS_NAPI_MAX \<Longrightarrow> np_used (g i) \<Longrightarrow> np_poll (g i) \<noteq> 0"
  shows "np_used (napi_after g rs i) = np_used (g i)"
    "np_used (g i) \<and> np_scheduled (napi_after g rs i) \<longleftrightarrow> (\<exists>n. (i, n) \<in> set rs \<and> napi_budget (g i) \<le> n)"
proof -
  have d: "distinct (map fst rs)" unfolding assms(1) ready_slots_def by (rule distinct_filter) (rule distinct_upt)
  have m: "map_of rs i = None \<longleftrightarrow> \<not> napi_ready (g i)"
    using assms(1,2) set_ready_slots [of g] by (metis (mono_tags, lifting) map_of_eq_None_iff mem_Collect_eq set_map)
  show "np_used (napi_after g rs i) = np_used (g i)" by (simp add: napi_after_def split: option.splits)
  show "np_used (g i) \<and> np_scheduled (napi_after g rs i) \<longleftrightarrow> (\<exists>n. (i, n) \<in> set rs \<and> napi_budget (g i) \<le> n)"
  proof (cases "map_of rs i")
    case None
    then have "\<not> (\<exists>n. (i, n) \<in> set rs)" by (force simp: map_of_eq_None_iff)
    then show ?thesis using None m assms(3) [OF assms(2)] by (auto simp: napi_after_def napi_ready_def)
  next
    case (Some n)
    then have "(i, k) \<in> set rs \<longleftrightarrow> k = n" for k using d by (metis map_of_eq_Some_iff option.inject)
    then show ?thesis using Some m by (auto simp: napi_after_def napi_ready_def)
  qed
qed

section \<open>The invariant\<close>

lemma napi_inv_ops:
  assumes "napi_inv_but N s"
  shows "napi_inv_but N (snd (snd (qos_napi_register weight p ctx s)))" "napi_inv_but N (snd (qos_napi_schedule nid s))"
    "napi_inv_but N (snd (qos_napi_complete nid s))"
proof -
  show "napi_inv_but N (snd (snd (qos_napi_register weight p ctx s)))"
    using assms by (auto simp: qos_napi_register_def napi_inv_but_def set_napi_def split_beta Let_def split: option.splits if_splits)
  show "napi_inv_but N (snd (qos_napi_schedule nid s))"
    using assms find_key_Some [of QOS_NAPI_MAX np_used np_id "g_napi s" nid]
    by (auto simp: qos_napi_schedule_def find_slot_def napi_inv_but_def napi_raise_bit [unfolded One_nat_def] set_napi_def
        split: option.splits)
  show "napi_inv_but N (snd (qos_napi_complete nid s))"
    using assms by (auto simp: qos_napi_complete_def napi_inv_but_def set_napi_def split: option.splits if_splits)
qed

lemma napi_inv_reset: "napi_inv (qos_napi_reset s)"
  by (simp add: napi_inv_def qos_napi_reset_def napi0_def)

text \<open>The handler with polls that keep the invariant for any exceptions: the exceptions are used up.\<close>

lemma napi_fold_inv:
  assumes P: "\<And>N f p b s. P s \<Longrightarrow> napi_inv_but N s \<Longrightarrow> P (snd (poll f p b s)) \<and> napi_inv_but N (snd (poll f p b s))"
    and Pset: "\<And>i e s. P s \<Longrightarrow> P (set_napi i e s)"
    and s: "P s" "napi_inv_but (if need then UNIV else {i..}) s" and i: "i \<le> QOS_NAPI_MAX"
  shows "case fold (napi_poll_slot poll) [i..<QOS_NAPI_MAX] (need, s) of (need', s') \<Rightarrow>
    P s' \<and> napi_inv_but (if need' then UNIV else {QOS_NAPI_MAX..}) s'"
  using s i
proof (induction "QOS_NAPI_MAX - i" arbitrary: i need s)
  case 0
  then show ?case by (auto split: if_splits)
next
  case (Suc d)
  have i: "i < 32" using Suc.hyps(2) by simp
  obtain need1 s1 where r: "napi_poll_slot poll i (need, s) = (need1, s1)" by fastforce
  have "P s1 \<and> napi_inv_but (if need1 then UNIV else {Suc i..}) s1"
  proof (cases "napi_ready (g_napi s i)")
    case False
    then have eq: "need1 = need" "s1 = s" using r by (simp_all add: napi_slot_skip)
    have "napi_inv_but {Suc i..} s" if "\<not> need" using Suc.prems(2) False that
      unfolding napi_inv_but_def napi_ready_def by (auto simp: Suc_le_eq le_less)
    then show ?thesis using Suc.prems(1,2) by (auto simp: eq)
  next
    case True
    obtain n t where a: "poll (np_poll (g_napi s i)) (np_ctx (g_napi s i)) (napi_budget (g_napi s i)) s = (n, t)" by fastforce
    have t: "P t" "napi_inv_but (if need then UNIV else {i..}) t" using P [OF Suc.prems(1,2)] a by (metis snd_conv)+
    have eq: "need1 = (need \<or> napi_budget (g_napi s i) \<le> n)"
      "s1 = set_napi i ((g_napi t i)\<lparr>np_run_count := np_run_count (g_napi t i) + 1,
         np_scheduled := np_scheduled (g_napi t i) \<and> napi_budget (g_napi s i) \<le> n\<rparr>) t"
      using napi_slot_ready [where poll = poll and need = need, OF True a] r by simp_all
    have "napi_inv_but (if need1 then UNIV else {Suc i..}) s1"
      using t(2) unfolding eq napi_inv_but_def by (auto simp: set_napi_def Suc_le_eq le_less)
    then show ?thesis using Pset t(1) unfolding eq by blast
  qed
  moreover have "[i..<32] = i # [Suc i..<32]" using i by (simp add: upt_conv_Cons)
  ultimately show ?case using Suc.hyps(1) [of "Suc i" s1 need1] Suc.hyps(2) i r by simp
qed

end
