(* ===== verification/Kthread.thy ===== *)
theory Kthread
  imports Napi
begin

text \<open>
  The kernel threads of \<^verbatim>\<open>src/c-os/kernel/kthread/kthread.c\<close>. A thread's entry function is the argument
  \<open>fn\<close>, applied to its address and its argument. A name is the bytes before the terminating zero.
\<close>

section \<open>Model\<close>

abbreviation (input) QOS_KTHREAD_MAX :: nat where "QOS_KTHREAD_MAX \<equiv> 64"
abbreviation (input) QOS_KTHREAD_NAME_MAX :: nat where "QOS_KTHREAD_NAME_MAX \<equiv> 32"

definition set_thread :: "nat \<Rightarrow> kthread \<Rightarrow> 'w deferred \<Rightarrow> 'w deferred" where
  "set_thread i t s = s\<lparr>g_threads := (g_threads s)(i := t)\<rparr>"

definition init_name_slot :: "nat \<Rightarrow> u32 \<Rightarrow> 'w deferred \<Rightarrow> 'w deferred" where
  "init_name_slot slot tid s =
     (let prefix = ''kthread-'';
          off = length prefix;
          (n, digits) = write_u32_ascii (QOS_KTHREAD_NAME_MAX - off) tid;
          off = off + n;
          off = (if off \<ge> QOS_KTHREAD_NAME_MAX then QOS_KTHREAD_NAME_MAX - 1 else off) in
      set_thread slot ((g_threads s slot)\<lparr>kt_name := take off (prefix @ digits), kt_name_len := word_of_nat off\<rparr>) s)"

definition find_slot_by_tid :: "u32 \<Rightarrow> 'w deferred \<Rightarrow> nat option" where
  "find_slot_by_tid tid s = find_key QOS_KTHREAD_MAX kt_used kt_tid (g_threads s) tid"

definition kthread0 :: kthread where
  "kthread0 = \<lparr>kt_used = False, kt_runnable = False, kt_tid = 0, kt_entry = 0, kt_arg = 0, kt_run_count = 0,
     kt_name = [], kt_name_len = 0\<rparr>"

definition qos_kthread_reset :: "'w deferred \<Rightarrow> 'w deferred" where
  "qos_kthread_reset s = s\<lparr>g_threads := (\<lambda>_. kthread0), g_next_tid := 1, g_cursor := 0, g_current_tid := 0\<rparr>"

definition qos_kthread_create :: "ptr \<Rightarrow> ptr \<Rightarrow> 'w deferred \<Rightarrow> int \<times> u32 option \<times> 'w deferred" where
  "qos_kthread_create entry arg s =
     (if entry = 0 then (-1, None, s)
      else case find_free QOS_KTHREAD_MAX kt_used (g_threads s) of
        None \<Rightarrow> (-1, None, s)
      | Some i \<Rightarrow>
          let (tid, next) = take_id (g_next_tid s);
              s1 = set_thread i ((g_threads s i)\<lparr>kt_used := True, kt_runnable := True, kt_tid := tid, kt_entry := entry,
                     kt_arg := arg, kt_run_count := 0\<rparr>) (s\<lparr>g_next_tid := next\<rparr>) in
          (0, Some tid, init_name_slot i tid s1))"

definition qos_kthread_wake :: "u32 \<Rightarrow> 'w deferred \<Rightarrow> int \<times> 'w deferred" where
  "qos_kthread_wake tid s =
     (case find_slot_by_tid tid s of
        None \<Rightarrow> (-1, s)
      | Some i \<Rightarrow> (0, set_thread i ((g_threads s i)\<lparr>kt_runnable := True\<rparr>) s))"

definition qos_kthread_stop :: "u32 \<Rightarrow> 'w deferred \<Rightarrow> int \<times> 'w deferred" where
  "qos_kthread_stop tid s =
     (case find_slot_by_tid tid s of
        None \<Rightarrow> (-1, s)
      | Some i \<Rightarrow> (0, set_thread i ((g_threads s i)\<lparr>kt_runnable := False\<rparr>) s))"

definition qos_kthread_count :: "'w deferred \<Rightarrow> u32" where
  "qos_kthread_count s = word_of_nat (slot_count (\<lambda>i. kt_used (g_threads s i)) QOS_KTHREAD_MAX)"

definition qos_kthread_run_count :: "u32 \<Rightarrow> 'w deferred \<Rightarrow> u32" where
  "qos_kthread_run_count tid s =
     (case find_slot_by_tid tid s of None \<Rightarrow> 0 | Some i \<Rightarrow> kt_run_count (g_threads s i))"

definition kt_ready :: "kthread \<Rightarrow> bool" where
  "kt_ready t \<longleftrightarrow> kt_used t \<and> kt_runnable t \<and> kt_entry t \<noteq> 0"

definition qos_kthread_run_next :: "'w callback \<Rightarrow> 'w deferred \<Rightarrow> u32 \<times> 'w deferred" where
  "qos_kthread_run_next fn s =
     (let idx = (\<lambda>scanned. unat (g_cursor s + word_of_nat scanned) mod QOS_KTHREAD_MAX) in
      case scan (\<lambda>scanned. kt_ready (g_threads s (idx scanned))) 0 QOS_KTHREAD_MAX of
        None \<Rightarrow> (0, s\<lparr>g_current_tid := 0\<rparr>)
      | Some k \<Rightarrow>
          let i = idx k; t = g_threads s i;
              s1 = set_thread i (t\<lparr>kt_run_count := kt_run_count t + 1\<rparr>) s;
              s2 = s1\<lparr>g_cursor := word_of_nat ((i + 1) mod QOS_KTHREAD_MAX), g_current_tid := kt_tid t\<rparr> in
          (kt_tid t, fn (kt_entry t) (kt_arg t) s2))"

definition qos_kthread_current_tid :: "'w deferred \<Rightarrow> u32" where
  "qos_kthread_current_tid s = g_current_tid s"

text \<open>The flag says that \<open>out\<close> is not null; the copied bytes are those before the zero.\<close>

definition qos_kthread_name_get :: "u32 \<Rightarrow> bool \<Rightarrow> u32 \<Rightarrow> 'w deferred \<Rightarrow> int \<times> string option" where
  "qos_kthread_name_get tid out out_len s =
     (case find_slot_by_tid tid s of
        None \<Rightarrow> (-1, None)
      | Some i \<Rightarrow>
          if \<not> out \<or> out_len = 0 then (-1, None)
          else let len = ucast (kt_name_len (g_threads s i)) :: u32 in
            if len + 1 > out_len then (-1, None)
            else (int (unat len), Some (take (unat len) (kt_name (g_threads s i)))))"

definition kthread_init :: "'w deferred \<Rightarrow> 'w deferred" where
  "kthread_init s = qos_kthread_reset s"

section \<open>Specification\<close>

text \<open>The runnable threads in the order in which they get their turn.\<close>

definition runq :: "'w deferred \<Rightarrow> nat list" where
  "runq s = filter (\<lambda>i. kt_ready (g_threads s i)) (rotate (unat (g_cursor s)) [0..<QOS_KTHREAD_MAX])"

definition thread_name :: "u32 \<Rightarrow> string" where
  "thread_name tid = ''kthread-'' @ dec_string tid"

definition kthread_inv :: "'w deferred \<Rightarrow> bool" where
  "kthread_inv s \<longleftrightarrow> unat (g_cursor s) < QOS_KTHREAD_MAX \<and>
     (\<forall>i < QOS_KTHREAD_MAX. kt_used (g_threads s i) \<longrightarrow> kt_entry (g_threads s i) \<noteq> 0 \<and> kt_tid (g_threads s i) \<noteq> 0 \<and>
        kt_name (g_threads s i) = thread_name (kt_tid (g_threads s i)) \<and>
        unat (kt_name_len (g_threads s i)) = length (thread_name (kt_tid (g_threads s i))))"

definition bump_runs :: "nat list \<Rightarrow> kthread arr \<Rightarrow> kthread arr" where
  "bump_runs is g i = (if i \<in> set is then (g i)\<lparr>kt_run_count := kt_run_count (g i) + 1\<rparr> else g i)"

definition run_threads :: "(ptr \<Rightarrow> ptr \<Rightarrow> 'w \<Rightarrow> 'w) \<Rightarrow> kthread arr \<Rightarrow> nat list \<Rightarrow> 'w \<Rightarrow> 'w" where
  "run_threads act g is w = fold (\<lambda>i. act (kt_entry (g i)) (kt_arg (g i))) is w"

section \<open>Library\<close>

lemma filter_rotate_next:
  assumes "k < length xs" "R (xs ! k)" "\<And>j. j < k \<Longrightarrow> \<not> R (xs ! j)"
  shows "filter R xs = xs ! k # filter R (drop (Suc k) xs)"
    "filter R (rotate (Suc k) xs) = filter R (drop (Suc k) xs) @ [xs ! k]"
proof -
  have z: "filter R (take k xs) = []" using assms(1,3) by (auto simp: filter_empty_conv in_set_conv_nth)
  show f: "filter R xs = xs ! k # filter R (drop (Suc k) xs)"
    using assms(1,2) z by (subst id_take_nth_drop [OF assms(1)]) simp
  have t: "filter R (take (Suc k) xs) = [xs ! k]" using assms(1,2) z by (simp add: take_Suc_conv_app_nth)
  show "filter R (rotate (Suc k) xs) = filter R (drop (Suc k) xs) @ [xs ! k]"
  proof (cases "Suc k = length xs")
    case True
    then show ?thesis using f by (simp add: rotate_drop_take)
  next
    case False
    then show ?thesis using assms(1) t by (simp add: rotate_drop_take)
  qed
qed

lemma kthread_index:
  assumes "unat c < 64" "k < 64"
  shows "unat (c + word_of_nat k :: u32) mod 64 = rotate (unat c) [0..<64] ! k"
proof -
  have "unat (c + word_of_nat k :: u32) = unat c + k"
    using assms by (simp add: unat_word_ariths unat_u32_of_nat)
  then show ?thesis using assms by (simp add: nth_rotate del: upt_rec_numeral)
qed

lemma kthread_rotate:
  assumes "c < 64" "k < 64"
  shows "rotate (((c + k) mod 64 + 1) mod 64) [0..<64] = rotate (Suc k) (rotate c [0..<64])"
proof -
  have "((c + k) mod 64 + 1) mod 64 = (Suc k + c) mod 64" by presburger
  then show ?thesis
    using rotate_conv_mod [of "Suc k + c" "[0..<64]"] by (simp add: rotate_rotate del: upt_rec_numeral)
qed

lemma distinct_runq: "distinct (runq s)"
  unfolding runq_def by (rule distinct_filter) (simp only: distinct_rotate distinct_upt)

lemma set_runq: "set (runq s) = {i. i < QOS_KTHREAD_MAX \<and> kt_ready (g_threads s i)}"
  unfolding runq_def by (auto simp del: upt_rec_numeral)

lemma kt_ready_run_count [simp]: "kt_ready (t\<lparr>kt_run_count := c\<rparr>) = kt_ready t"
  by (simp add: kt_ready_def)

text \<open>One turn: the head of the queue runs and goes to its end.\<close>

lemma kthread_turn:
  assumes c: "unat (g_cursor s) < QOS_KTHREAD_MAX" and q: "runq s = i # q"
  shows "\<exists>s'. qos_kthread_run_next (world_cb act) s = (kt_tid (g_threads s i), s') \<and> unat (g_cursor s') < QOS_KTHREAD_MAX \<and>
    g_threads s' = bump_runs [i] (g_threads s) \<and> world s' = act (kt_entry (g_threads s i)) (kt_arg (g_threads s i)) (world s) \<and>
    g_current_tid s' = kt_tid (g_threads s i) \<and> runq s' = q @ [i]"
proof -
  let ?L = "rotate (unat (g_cursor s)) [0..<64]"
  let ?R = "\<lambda>i. kt_ready (g_threads s i)"
  have L: "length ?L = 64" by simp
  have idx: "unat (g_cursor s + word_of_nat k) mod 64 = ?L ! k" if "k < 64" for k
    by (rule kthread_index [OF c that])
  have sc: "scan (\<lambda>k. ?R (unat (g_cursor s + word_of_nat k) mod 64)) 0 64 = scan (\<lambda>k. ?R (?L ! k)) 0 64"
    by (rule scan_cong) (simp only: idx)
  have "i \<in> set (filter ?R ?L)" using q unfolding runq_def by simp
  then have "i \<in> set ?L" "?R i" unfolding set_filter by blast+
  then obtain k where k: "scan (\<lambda>k. ?R (?L ! k)) 0 64 = Some k"
    unfolding in_set_conv_nth L by (cases "scan (\<lambda>k. ?R (?L ! k)) 0 64") (auto simp: scan_None_iff)
  then have k': "k < 64" "?R (?L ! k)" "\<And>j. j < k \<Longrightarrow> \<not> ?R (?L ! j)" by (auto simp: scan_Some_iff)
  note f = filter_rotate_next [of k ?L ?R, unfolded L, OF k']
  have i: "?L ! k = i" "filter ?R (drop (Suc k) ?L) = q" using f(1) q unfolding runq_def by simp_all
  have il: "i < 64" using set_runq [of s] q by auto
  have ik: "(unat (g_cursor s) + k) mod 64 = i" using c k'(1) i(1) by (simp add: nth_rotate del: upt_rec_numeral)
  define s' where "s' = (set_thread i ((g_threads s i)\<lparr>kt_run_count := kt_run_count (g_threads s i) + 1\<rparr>) s)
    \<lparr>g_cursor := word_of_nat ((i + 1) mod 64), g_current_tid := kt_tid (g_threads s i),
     world := act (kt_entry (g_threads s i)) (kt_arg (g_threads s i)) (world s)\<rparr>"
  have run: "qos_kthread_run_next (world_cb act) s = (kt_tid (g_threads s i), s')"
    unfolding qos_kthread_run_next_def Let_def sc k
    by (simp add: idx [OF k'(1)] i(1) s'_def world_cb_def set_thread_def del: upt_rec_numeral)
  have cur: "unat (g_cursor s') = (i + 1) mod 64" unfolding s'_def by (simp add: unat_u32_of_nat)
  have g: "g_threads s' = bump_runs [i] (g_threads s)" by (auto simp: s'_def set_thread_def bump_runs_def fun_eq_iff)
  have "(\<lambda>j. kt_ready (g_threads s' j)) = ?R" unfolding g by (auto simp: bump_runs_def fun_eq_iff)
  then have "runq s' = filter ?R (rotate (Suc k) ?L)"
    unfolding runq_def cur using kthread_rotate [OF c k'(1)] ik by simp
  then have "runq s' = q @ [i]" using f(2) i by simp
  then show ?thesis using run cur g by (intro exI [of _ s']) (simp add: s'_def set_thread_def)
qed

lemma kthread_turns:
  assumes "unat (g_cursor s) < QOS_KTHREAD_MAX" "runq s = xs @ ys"
  shows "\<exists>s'. run_ops (\<lambda>_ :: unit. qos_kthread_run_next (world_cb act)) (replicate (length xs) ()) s =
      (map (\<lambda>i. kt_tid (g_threads s i)) xs, s') \<and> unat (g_cursor s') < QOS_KTHREAD_MAX \<and>
    g_threads s' = bump_runs xs (g_threads s) \<and> world s' = run_threads act (g_threads s) xs (world s) \<and> runq s' = ys @ xs"
  using assms
proof (induction xs arbitrary: s ys)
  case Nil
  then show ?case by (auto simp: bump_runs_def run_threads_def fun_eq_iff)
next
  case (Cons i xs)
  from kthread_turn [of s i "xs @ ys" act] Cons.prems obtain s1 where
    s1: "qos_kthread_run_next (world_cb act) s = (kt_tid (g_threads s i), s1)" "unat (g_cursor s1) < QOS_KTHREAD_MAX"
      "g_threads s1 = bump_runs [i] (g_threads s)" "world s1 = act (kt_entry (g_threads s i)) (kt_arg (g_threads s i)) (world s)"
      "runq s1 = xs @ ys @ [i]"
    by auto
  have i: "i \<notin> set xs" using distinct_runq [of s] Cons.prems(2) by simp
  have g: "bump_runs xs (bump_runs [i] (g_threads s)) = bump_runs (i # xs) (g_threads s)"
    using i by (auto simp: bump_runs_def fun_eq_iff)
  have m: "map (\<lambda>j. kt_tid (bump_runs [i] (g_threads s) j)) xs = map (\<lambda>j. kt_tid (g_threads s j)) xs"
    by (simp add: bump_runs_def)
  have w: "run_threads act (bump_runs [i] (g_threads s)) xs = run_threads act (g_threads s) xs"
    unfolding run_threads_def using i by (intro ext fold_cong) (auto simp: bump_runs_def)
  have w2: "run_threads act (g_threads s) (i # xs) w0 = run_threads act (g_threads s) xs
      (act (kt_entry (g_threads s i)) (kt_arg (g_threads s i)) w0)" for w0
    by (simp add: run_threads_def)
  from Cons.IH [OF s1(2,5)] show ?case
    unfolding s1(3,4) g m w w2 [symmetric] using s1(1) by auto
qed

lemma thread_name_room: "write_u32_ascii 24 tid = (length (dec_string tid), dec_string tid)"
  "length (thread_name tid) \<le> 18" "8 < length (thread_name tid)"
  using length_dec_string [of tid] by (simp_all add: write_u32_ascii_room thread_name_def)

lemma init_name_slot_eq:
  "init_name_slot i tid s = set_thread i ((g_threads s i)\<lparr>kt_name := thread_name tid,
     kt_name_len := word_of_nat (length (thread_name tid))\<rparr>) s"
proof -
  have "\<not> 32 \<le> 8 + length (dec_string tid)" using length_dec_string(1) [of tid] by simp
  then show ?thesis unfolding init_name_slot_def by (simp add: thread_name_room thread_name_def)
qed

lemma unat_name_len: "unat (word_of_nat (length (thread_name tid)) :: u8) = length (thread_name tid)"
  using thread_name_room(2) [of tid] by (simp add: unat_of_nat)

lemma take_id_nonzero: "fst (take_id n) \<noteq> 0"
  by (simp add: take_id_def)

lemma kthread_inv_ops:
  assumes inv: "kthread_inv s"
  shows "kthread_inv (snd (snd (qos_kthread_create entry arg s)))" "kthread_inv (snd (qos_kthread_wake tid s))"
    "kthread_inv (snd (qos_kthread_stop tid s))" "kthread_inv (snd (qos_kthread_run_next (\<lambda>_ _ t. t) s))"
    "kthread_inv (snd (qos_kthread_run_next (world_cb act) s))"
proof -
  show "kthread_inv (snd (snd (qos_kthread_create entry arg s)))"
    using inv take_id_nonzero [of "g_next_tid s"]
    by (auto simp: qos_kthread_create_def kthread_inv_def init_name_slot_eq set_thread_def unat_name_len split_beta Let_def
        split: option.splits if_splits)
  show "kthread_inv (snd (qos_kthread_wake tid s))" "kthread_inv (snd (qos_kthread_stop tid s))"
    using inv by (auto simp: qos_kthread_wake_def qos_kthread_stop_def kthread_inv_def set_thread_def split: option.splits)
  show "kthread_inv (snd (qos_kthread_run_next (\<lambda>_ _ t. t) s))" "kthread_inv (snd (qos_kthread_run_next (world_cb act) s))"
    using inv by (auto simp: qos_kthread_run_next_def kthread_inv_def set_thread_def world_cb_def Let_def unat_u32_of_nat
        split: option.splits)
qed

lemma kthread_inv_reset: "kthread_inv (qos_kthread_reset s)"
  by (simp add: kthread_inv_def qos_kthread_reset_def kthread0_def)

section \<open>Properties\<close>

text \<open>
  C33. Kernel threads take turns. As many calls of \<open>qos_kthread_run_next\<close> as there are runnable
  threads run each of them exactly once, in slot order from the cursor on, count the runs, and leave
  the same turn order; with no runnable thread the call returns 0. (The entry functions act on the world
  outside the deferred-work components.)
\<close>

theorem kthread_round_robin:
  assumes inv: "kthread_inv s"
  shows "\<exists>s'. run_ops (\<lambda>_ :: unit. qos_kthread_run_next (world_cb act)) (replicate (length (runq s)) ()) s =
      (map (\<lambda>i. kt_tid (g_threads s i)) (runq s), s') \<and>
    distinct (runq s) \<and> set (runq s) = {i. i < QOS_KTHREAD_MAX \<and> kt_used (g_threads s i) \<and> kt_runnable (g_threads s i)} \<and>
    g_threads s' = bump_runs (runq s) (g_threads s) \<and> world s' = run_threads act (g_threads s) (runq s) (world s) \<and>
    runq s' = runq s \<and> kthread_inv s' \<and>
    (runq s = [] \<longrightarrow> qos_kthread_run_next (world_cb act) s = (0, s\<lparr>g_current_tid := 0\<rparr>))"
proof -
  have c: "unat (g_cursor s) < 64" using inv by (simp add: kthread_inv_def)
  obtain s' where s': "run_ops (\<lambda>_ :: unit. qos_kthread_run_next (world_cb act)) (replicate (length (runq s)) ()) s =
      (map (\<lambda>i. kt_tid (g_threads s i)) (runq s), s')" "unat (g_cursor s') < 64"
    "g_threads s' = bump_runs (runq s) (g_threads s)" "world s' = run_threads act (g_threads s) (runq s) (world s)"
    "runq s' = runq s"
    using kthread_turns [OF c, of "runq s" "[]" act] by auto
  have "set (runq s) = {i. i < 64 \<and> kt_used (g_threads s i) \<and> kt_runnable (g_threads s i)}"
    using inv by (auto simp: set_runq kt_ready_def kthread_inv_def)
  moreover have "kthread_inv s'" using inv s'(2) by (simp add: kthread_inv_def s'(3) bump_runs_def)
  moreover have "qos_kthread_run_next (world_cb act) s = (0, s\<lparr>g_current_tid := 0\<rparr>)" if "runq s = []"
  proof -
    have "\<not> kt_ready (g_threads s (n mod 64))" for n using that set_runq [of s] by auto
    then have "scan (\<lambda>k. kt_ready (g_threads s (unat (g_cursor s + word_of_nat k) mod 64))) 0 64 = None"
      by (simp add: scan_None_iff)
    then show ?thesis by (simp add: qos_kthread_run_next_def)
  qed
  ultimately show ?thesis using s' distinct_runq by blast
qed

text \<open>Three threads, the second stopped, after one turn: the third and then the first run.\<close>

theorem kthread_round_robin_witness:
  "let s0 = qos_kthread_reset (deferred_zero ([] :: ptr list));
       s1 = snd (snd (qos_kthread_create 100 0 s0)); s2 = snd (snd (qos_kthread_create 200 0 s1));
       s3 = snd (snd (qos_kthread_create 300 0 s2)); s4 = snd (qos_kthread_stop 2 s3);
       s = snd (qos_kthread_run_next (world_cb (\<lambda>f p l. l @ [f])) s4) in
   \<exists>s'. run_ops (\<lambda>_ :: unit. qos_kthread_run_next (world_cb (\<lambda>f p l. l @ [f]))) [(), ()] s = ([3, 1], s') \<and>
     world s' = [100, 300, 100]"
proof -
  define act :: "ptr \<Rightarrow> ptr \<Rightarrow> ptr list \<Rightarrow> ptr list" where "act = (\<lambda>f p l. l @ [f])"
  define s where "s = snd (qos_kthread_run_next (world_cb act) (snd (qos_kthread_stop 2 (snd (snd (qos_kthread_create 300 0
    (snd (snd (qos_kthread_create 200 0 (snd (snd (qos_kthread_create 100 0 (qos_kthread_reset (deferred_zero []))))))))))))))"
  have inv: "kthread_inv s" unfolding s_def by (intro kthread_inv_ops kthread_inv_reset)
  have q: "runq s = [2, 0]" unfolding s_def act_def by code_simp
  have t: "map (\<lambda>i. kt_tid (g_threads s i)) [2, 0] = [3, 1]" unfolding s_def act_def by code_simp
  have w: "run_threads act (g_threads s) [2, 0] (world s) = [100, 300, 100]" unfolding s_def act_def by code_simp
  show ?thesis
    using kthread_round_robin [OF inv, of act] unfolding Let_def act_def [symmetric] s_def [symmetric] q t w
    by (auto simp: numeral_2_eq_2)
qed

text \<open>
  A thread's name gives its identifier. For a live thread \<open>qos_kthread_name_get\<close> copies the
  prefix \<open>kthread-\<close> followed by decimal digits that read back as the identifier, whenever the
  buffer has room for them and the terminating zero; otherwise it fails.
\<close>

lemma kthread_name_roundtrip:
  assumes inv: "kthread_inv s" and live: "find_slot_by_tid tid s = Some i"
  shows "\<exists>digits. (\<forall>out_len. qos_kthread_name_get tid True out_len s =
      (if unat out_len \<le> 8 + length digits then (-1, None)
       else (8 + int (length digits), Some (''kthread-'' @ digits)))) \<and>
    dec_read 0 digits = tid \<and> (\<forall>c \<in> set digits. is_dec_digit c) \<and> length digits \<le> 10 \<and>
    qos_kthread_name_get tid False out_len s = (-1, None)"
proof -
  have i: "i < 64" "kt_used (g_threads s i)" "kt_tid (g_threads s i) = tid"
    using find_key_Some live by (metis find_slot_by_tid_def)+
  let ?n = "thread_name tid"
  have n: "kt_name (g_threads s i) = ?n" "unat (kt_name_len (g_threads s i)) = length ?n"
    using inv i by (auto simp: kthread_inv_def)
  have u: "unat (ucast (kt_name_len (g_threads s i)) :: u32) = length ?n"     using n(2) thread_name_room(2) [of tid] by (simp add: unsigned_ucast_eq take_bit_nat_eq_self)
  have lt: "ol < ucast (kt_name_len (g_threads s i)) + 1 \<longleftrightarrow> unat ol \<le> length ?n" for ol :: u32
  proof -
    have "unat (ucast (kt_name_len (g_threads s i)) + 1 :: u32) = Suc (length ?n)"
      using u thread_name_room(2) [of tid] by (simp add: unat_word_ariths)
    then show ?thesis by (auto simp: word_less_nat_alt)
  qed
  have "qos_kthread_name_get tid True ol s =
      (if unat ol \<le> 8 + length (dec_string tid) then (-1, None)
       else (8 + int (length (dec_string tid)), Some (''kthread-'' @ dec_string tid)))" for ol
    using live u n(1) lt [of ol] by (auto simp: qos_kthread_name_get_def thread_name_def)
  moreover have "qos_kthread_name_get tid False out_len s = (-1, None)" using live by (simp add: qos_kthread_name_get_def)
  ultimately show ?thesis
    using dec_read_dec_string dec_string_digits length_dec_string(1) by (intro exI [of _ "dec_string tid"]) blast
qed

end
