(* ===== verification/Interface.thy ===== *)
theory Interface
  imports Kthread
begin

text \<open>
  What code outside the deferred-work components (callbacks, work functions, thread entries, poll
  functions, handlers of other interrupts, drivers) can do to them. Their state is in static variables, so
  such code acts through their functions. \<open>iface\<close> is the relation of the states before and after any number
  of such calls; \<open>dinv\<close> is the invariant of the components, with exceptions for what a running handler still
  has to serve. Every call of the interface keeps \<open>dinv\<close> for any exceptions, so handlers may call outside
  code at any point; each handler, once it returns, has used up its exceptions.
\<close>

section \<open>Model\<close>

text \<open>The call \<open>fn(ctx)\<close> of \<open>qos_softirq_run\<close>, on the handlers of the kernel and those that others registered.\<close>

definition kernel_call :: "'w callback \<Rightarrow> 'w callback \<Rightarrow> 'w napi_poll \<Rightarrow> (ptr \<Rightarrow> ptr \<Rightarrow> 'w deferred \<Rightarrow> 'w deferred option) \<Rightarrow>
    softirq_fn \<Rightarrow> ptr \<Rightarrow> 'w deferred \<Rightarrow> 'w deferred option" where
  "kernel_call cb work poll user f ctx s =
     (case f of
        TimerH \<Rightarrow> timer_softirq_handler cb s
      | NapiH \<Rightarrow> Some (napi_softirq_handler poll s)
      | WorkH \<Rightarrow> workqueue_softirq_handler work s
      | UserH p \<Rightarrow> user p ctx s)"

text \<open>The calls \<open>qos_kernel_entry\<close> makes for these components, in its order.\<close>

definition deferred_init :: "'w deferred \<Rightarrow> 'w deferred" where
  "deferred_init s = workqueue_init (kthread_init (napi_init (timer_init (softirq_init s))))"

section \<open>Specification\<close>

text \<open>
  Calls of the interface, in any number and order. A turn of a kernel thread is its bookkeeping; what the
  thread's entry function then does is again a sequence of such calls. Left out are the functions that outside
  code has no reason to call while it is itself called: the tick of the clock, \<open>qos_softirq_run\<close>, the resets and
  initialisations, and the registration of a handler on the three vectors of the kernel. The kernel's
  handlers are static functions, so outside code registers handlers of its own only.
\<close>

inductive iface :: "'w deferred \<Rightarrow> 'w deferred \<Rightarrow> bool" for s0 where
  same: "iface s0 s0"
| world: "iface s0 s \<Longrightarrow> iface s0 (s\<lparr>world := w\<rparr>)"
| timer_add: "iface s0 s \<Longrightarrow> iface s0 (snd (qos_timer_add delay interval f p s))"
| timer_cancel: "iface s0 s \<Longrightarrow> iface s0 (snd (qos_timer_cancel tm s))"
| work_enqueue: "iface s0 s \<Longrightarrow> iface s0 (snd (snd (qos_workqueue_enqueue fn arg s)))"
| work_cancel: "iface s0 s \<Longrightarrow> iface s0 (snd (qos_workqueue_cancel wid s))"
| napi_register: "iface s0 s \<Longrightarrow> iface s0 (snd (snd (qos_napi_register weight f p s)))"
| napi_schedule: "iface s0 s \<Longrightarrow> iface s0 (snd (qos_napi_schedule nid s))"
| napi_complete: "iface s0 s \<Longrightarrow> iface s0 (snd (qos_napi_complete nid s))"
| thread_create: "iface s0 s \<Longrightarrow> iface s0 (snd (snd (qos_kthread_create entry arg s)))"
| thread_wake: "iface s0 s \<Longrightarrow> iface s0 (snd (qos_kthread_wake tid s))"
| thread_stop: "iface s0 s \<Longrightarrow> iface s0 (snd (qos_kthread_stop tid s))"
| thread_turn: "iface s0 s \<Longrightarrow> iface s0 (snd (qos_kthread_run_next (\<lambda>_ _ t. t) s))"
| raise: "iface s0 s \<Longrightarrow> iface s0 (snd (qos_softirq_raise v s))"
| register: "iface s0 s \<Longrightarrow> 2 < unat v \<Longrightarrow> iface s0 (snd (qos_softirq_register v (Some (UserH h)) ctx s))"

text \<open>Outside code that the components call.\<close>

definition iface_cb :: "'w callback \<Rightarrow> bool" where
  "iface_cb cb \<longleftrightarrow> (\<forall>f p s. iface s (cb f p s))"

definition iface_poll :: "'w napi_poll \<Rightarrow> bool" where
  "iface_poll poll \<longleftrightarrow> (\<forall>f p b s. iface s (snd (poll f p b s)))"

definition iface_handler :: "(ptr \<Rightarrow> ptr \<Rightarrow> 'w deferred \<Rightarrow> 'w deferred option) \<Rightarrow> bool" where
  "iface_handler user \<longleftrightarrow> (\<forall>h ctx s s'. user h ctx s = Some s' \<longrightarrow> iface s s')"

definition outside_code :: "'w callback \<Rightarrow> 'w callback \<Rightarrow> 'w napi_poll \<Rightarrow> (ptr \<Rightarrow> ptr \<Rightarrow> 'w deferred \<Rightarrow> 'w deferred option) \<Rightarrow> bool" where
  "outside_code cb work poll user \<longleftrightarrow> iface_cb cb \<and> iface_cb work \<and> iface_poll poll \<and> iface_handler user"

definition installed :: "'w deferred \<Rightarrow> bool" where
  "installed s \<longleftrightarrow> g_handlers s 0 = Some TimerH \<and> g_handlers s 1 = Some NapiH \<and> g_handlers s 2 = Some WorkH \<and>
     (\<forall>i f. 2 < i \<longrightarrow> g_handlers s i = Some f \<longrightarrow> f \<in> range UserH)"

text \<open>Whatever waits for a handler has its interrupt pending.\<close>

definition deferred_inv :: "'w deferred \<Rightarrow> bool" where
  "deferred_inv s \<longleftrightarrow> softirq_inv s \<and> installed s \<and> wq_inv s \<and> napi_inv s \<and> kthread_inv s \<and>
     (wq_ring s \<noteq> [] \<longrightarrow> bit (g_pending_mask s) 2) \<and>
     (\<forall>i < QOS_TIMER_MAX. t_used (g_timers s i) \<longrightarrow> t_pending (g_timers s i) \<longrightarrow>
        t_expires (g_timers s i) \<le> g_jiffies s \<and> bit (g_pending_mask s) 0)"

text \<open>The same except for the queued work if \<open>W\<close>, the receivers in \<open>N\<close> and the timers in \<open>T\<close>.\<close>

definition timers_ok :: "nat set \<Rightarrow> timer_entry arr \<Rightarrow> 'w deferred \<Rightarrow> bool" where
  "timers_ok T g s \<longleftrightarrow> (\<forall>i < QOS_TIMER_MAX. t_used (g i) \<longrightarrow> t_pending (g i) \<longrightarrow>
     t_expires (g i) \<le> g_jiffies s \<and> (i \<in> T \<or> bit (g_pending_mask s) 0))"

definition dinv :: "bool \<Rightarrow> nat set \<Rightarrow> nat set \<Rightarrow> 'w deferred \<Rightarrow> bool" where
  "dinv W N T s \<longleftrightarrow> softirq_inv s \<and> installed s \<and> wq_inv s \<and> napi_inv_but N s \<and> kthread_inv s \<and>
     (wq_ring s \<noteq> [] \<longrightarrow> W \<or> bit (g_pending_mask s) 2) \<and> timers_ok T (g_timers s) s"

text \<open>The part of the invariant that is not about receivers.\<close>

definition dinv_rest :: "'w deferred \<Rightarrow> bool" where
  "dinv_rest s \<longleftrightarrow> softirq_inv s \<and> installed s \<and> wq_inv s \<and> kthread_inv s \<and>
     (wq_ring s \<noteq> [] \<longrightarrow> bit (g_pending_mask s) 2) \<and> timers_ok {} (g_timers s) s"

section \<open>The operations keep the invariant\<close>

lemmas dinv_defs = dinv_def softirq_inv_def installed_def wq_inv_def wq_ring_inv_def wq_ring_def
  napi_inv_but_def kthread_inv_def timers_ok_def

lemma dinv_none: "dinv False {} {} s = deferred_inv s"
  by (simp add: dinv_def deferred_inv_def timers_ok_def napi_inv_but_none)

text \<open>Changing one component's fields leaves what the invariant says of the others.\<close>

lemma dinv_world: "dinv W N T (s\<lparr>world := w\<rparr>) = dinv W N T s"
  by (simp add: dinv_defs)

lemma dinv_timers: "dinv W N T s \<Longrightarrow> dinv W N T (s\<lparr>g_timers := g\<rparr>) = timers_ok T g s"
  by (simp add: dinv_defs timers_ok_def)

lemma dinv_jiffies: "dinv W N T s \<Longrightarrow> g_jiffies s \<le> n \<Longrightarrow> dinv W N T (s\<lparr>g_jiffies := n\<rparr>)"
  by (auto simp: dinv_defs)

lemma dinv_mask:
  assumes "dinv W N T s" "\<And>j. bit (g_pending_mask s) j \<Longrightarrow> bit m j" "\<And>j. bit m j \<Longrightarrow> j < QOS_SOFTIRQ_MAX"
  shows "dinv W N T (s\<lparr>g_pending_mask := m\<rparr>)"
proof -
  have "softirq_inv (s\<lparr>g_pending_mask := m\<rparr>)" using assms(3) by (simp add: softirq_mask_bits)
  moreover have "wq_inv (s\<lparr>g_pending_mask := m\<rparr>) = wq_inv s" "wq_ring (s\<lparr>g_pending_mask := m\<rparr>) = wq_ring s"
    "kthread_inv (s\<lparr>g_pending_mask := m\<rparr>) = kthread_inv s" "installed (s\<lparr>g_pending_mask := m\<rparr>) = installed s"
    by (simp_all add: installed_def wq_inv_def wq_ring_inv_def wq_ring_def kthread_inv_def)
  ultimately show ?thesis using assms(1,2) by (auto simp: dinv_def napi_inv_but_def timers_ok_def)
qed

lemma dinv_threads:
  assumes "dinv W N T s" "kthread_inv s'" "s' = s\<lparr>g_threads := g, g_next_tid := n, g_cursor := c, g_current_tid := t, world := w\<rparr>"
  shows "dinv W N T s'"
  using assms(1,2) unfolding assms(3) by (simp add: dinv_defs)

lemma dinv_napi:
  assumes "dinv W N T s" "napi_inv_but N s'" "s' = s\<lparr>g_napi := g, g_next_napi_id := n\<rparr>"
  shows "dinv W N T s'"
  using assms(1,2) unfolding assms(3) by (simp add: dinv_defs)

lemma raise_mask:
  "bit (g_pending_mask (snd (qos_softirq_raise v s))) j \<longleftrightarrow> bit (g_pending_mask s) j \<or> vector_valid v \<and> j = unat v"
proof -
  have "bit (g_pending_mask s OR push_bit (unat v) 1) j \<longleftrightarrow> bit (g_pending_mask s) j \<or> j = unat v" if "unat v < 8"
    using that by (auto simp: bit_simps)
  then show ?thesis by (auto simp: qos_softirq_raise_def vector_valid_def)
qed

lemma raise_shape: "snd (qos_softirq_raise v s) = s\<lparr>g_pending_mask := g_pending_mask (snd (qos_softirq_raise v s))\<rparr>"
  by (simp add: qos_softirq_raise_def)

lemma dinv_raise: "dinv W N T s \<Longrightarrow> dinv W N T (snd (qos_softirq_raise v s))"
  by (subst raise_shape, rule dinv_mask) (auto simp: raise_mask dinv_def softirq_mask_bits vector_valid_def)

lemma dinv_timer_ops:
  assumes "dinv W N T s"
  shows "dinv W N T (snd (qos_timer_add delay interval cb ctx s))" "dinv W N T (snd (qos_timer_cancel tm s))"
proof -
  have ok: "timers_ok T (g_timers s) s" using assms by (auto simp: dinv_def timers_ok_def)
  show "dinv W N T (snd (qos_timer_add delay interval cb ctx s))"
    using assms ok by (auto simp: qos_timer_add_def set_timer_def dinv_timers timers_ok_def split: option.splits)
  show "dinv W N T (snd (qos_timer_cancel tm s))"
    using assms ok by (auto simp: qos_timer_cancel_def set_timer_def dinv_timers timers_ok_def timer0_def Let_def)
qed

lemma dinv_tick:
  assumes inv: "dinv W N T s" and nowrap: "unat (g_jiffies s) + unat n < 2 ^ 64"
  shows "dinv W N T (qos_timer_tick n s)"
proof (cases "n = 0")
  case True
  then show ?thesis using inv by (simp add: qos_timer_tick_def)
next
  case False
  let ?now = "g_jiffies s + ucast n" and ?s1 = "s\<lparr>g_jiffies := g_jiffies s + ucast n\<rparr>"
  let ?g = "\<lambda>i. if i < 128 \<and> timer_expired ?now (g_timers s i) then (g_timers s i)\<lparr>t_pending := True\<rparr> else g_timers s i"
  have "g_jiffies s \<le> ?now"
    using nowrap by (simp add: word_le_nat_alt unat_word_ariths unat_ucast_u64)
  then have i1: "dinv W N T ?s1" using inv by (rule dinv_jiffies [rotated])
  show ?thesis
  proof (cases "\<exists>i<128. timer_expired ?now (g_timers s i)")
    case True
    let ?s2 = "snd (qos_softirq_raise 0 ?s1)"
    have i2: "dinv W N T ?s2" using i1 by (rule dinv_raise)
    have eq: "qos_timer_tick n s = ?s2\<lparr>g_timers := ?g\<rparr>"
      using False True by (cases s) (simp add: qos_timer_tick_def Let_def qos_softirq_raise_def vector_valid_def cong: if_cong)
    have b: "bit (g_pending_mask ?s2) 0" by (simp add: raise_mask vector_valid_def)
    have "g_jiffies ?s2 = ?now" by (simp add: qos_softirq_raise_def)
    moreover have "g_timers ?s2 = g_timers s" by (simp add: qos_softirq_raise_def)
    ultimately have "timers_ok T ?g ?s2"
      using i2 b by (auto simp: timers_ok_def dinv_def timer_expired_def)
    then show ?thesis unfolding eq dinv_timers [OF i2] .
  next
    case no: False
    then have g: "?g = g_timers s" by (auto simp: fun_eq_iff)
    have "qos_timer_tick n s = ?s1\<lparr>g_timers := ?g\<rparr>"
      using False no by (auto simp: qos_timer_tick_def Let_def cong: if_cong)
    also have "\<dots> = ?s1" unfolding g by simp
    finally show ?thesis using i1 by simp
  qed
qed

lemma dinv_napi_ops:
  assumes "dinv W N T s"
  shows "dinv W N T (snd (snd (qos_napi_register weight poll ctx s)))" "dinv W N T (snd (qos_napi_schedule nid s))"
    "dinv W N T (snd (qos_napi_complete nid s))"
proof -
  have n: "napi_inv_but N s" using assms by (simp add: dinv_def)
  have upd: "(s\<lparr>g_next_napi_id := k\<rparr>)\<lparr>g_napi := g\<rparr> = s\<lparr>g_napi := g, g_next_napi_id := k\<rparr>" for k g by (cases s) simp
  have upd2: "s\<lparr>g_napi := g\<rparr> = s\<lparr>g_napi := g, g_next_napi_id := g_next_napi_id s\<rparr>" for g by (cases s) simp
  show "dinv W N T (snd (snd (qos_napi_register weight poll ctx s)))"
    using napi_inv_ops(1) [OF n, of weight poll ctx] assms dinv_napi [OF assms _ upd]
    by (auto simp: qos_napi_register_def set_napi_def split_beta Let_def split: option.splits if_splits)
  show "dinv W N T (snd (qos_napi_complete nid s))"
    using napi_inv_ops(3) [OF n, of nid] assms dinv_napi [OF assms _ upd2]
    by (auto simp: qos_napi_complete_def set_napi_def split: option.splits)
  show "dinv W N T (snd (qos_napi_schedule nid s))"
  proof (cases "find_slot nid s")
    case None
    then show ?thesis using assms by (simp add: qos_napi_schedule_def)
  next
    case (Some i)
    let ?r = "snd (qos_softirq_raise 1 s)"
    have "snd (qos_napi_schedule nid s) =
        ?r\<lparr>g_napi := (g_napi s)(i := (g_napi s i)\<lparr>np_scheduled := True\<rparr>), g_next_napi_id := g_next_napi_id s\<rparr>"
      using Some by (cases s) (simp add: qos_napi_schedule_def set_napi_def qos_softirq_raise_def vector_valid_def)
    then show ?thesis by (rule dinv_napi [OF dinv_raise [OF assms] napi_inv_ops(2) [OF n]])
  qed
qed

lemma dinv_work:
  assumes "dinv W N T s" "wq_inv s'" "wq_ring s' \<noteq> [] \<Longrightarrow> W \<or> bit (g_pending_mask s) 2"
    "s' = s\<lparr>g_entries := e, g_queue := q, g_qhead := h, g_qtail := t, g_qcount := c, g_next_id := n, g_completed := d, world := w\<rparr>"
  shows "dinv W N T s'"
  using assms(1-3) unfolding assms(4) by (simp add: dinv_defs)

lemma dinv_work_ops:
  assumes inv: "dinv W N T s"
  shows "dinv W N T (snd (snd (qos_workqueue_enqueue fn arg s)))" "dinv W N T (snd (qos_workqueue_cancel wid s))"
proof -
  have w: "wq_inv s" "wq_ring s \<noteq> [] \<Longrightarrow> W \<or> bit (g_pending_mask s) 2" using inv by (simp_all add: dinv_def)
  show "dinv W N T (snd (snd (qos_workqueue_enqueue fn arg s)))"
  proof (cases "fn = 0 \<or> find_free QOS_WORKQUEUE_MAX w_used (g_entries s) = None")
    case True
    then show ?thesis using inv by (auto simp: qos_workqueue_enqueue_def)
  next
    case False
    then obtain i where i: "fn \<noteq> 0" "find_free QOS_WORKQUEUE_MAX w_used (g_entries s) = Some i" by auto
    let ?s' = "snd (snd (qos_workqueue_enqueue fn arg s))" and ?r = "snd (qos_softirq_raise 2 s)"
    show ?thesis
    proof (cases "unat (g_qcount s) < 128")
      case True
      then have "g_qcount s \<noteq> 128" "unat (g_qcount s) \<noteq> 128" by auto
      then have "?s' = ?r\<lparr>g_entries := g_entries ?s', g_queue := g_queue ?s', g_qhead := g_qhead ?s', g_qtail := g_qtail ?s',
          g_qcount := g_qcount ?s', g_next_id := g_next_id ?s', g_completed := g_completed ?s', world := world ?s'\<rparr>"
        using i True by (cases s) (simp add: qos_workqueue_enqueue_def queue_push_def set_work_def qos_softirq_raise_def
            vector_valid_def split_beta Let_def)
      then show ?thesis
        by (rule dinv_work [OF dinv_raise [OF inv] wq_inv_enqueue [OF w(1)], rotated])
          (simp add: raise_mask vector_valid_def)
    next
      case full: False
      have r: "wq_ring ?s' = wq_ring s" using wq_enqueue_shape(2) [OF w(1) i full, of arg] by auto
      have "?s' = s\<lparr>g_entries := g_entries ?s', g_queue := g_queue ?s', g_qhead := g_qhead ?s', g_qtail := g_qtail ?s',
          g_qcount := g_qcount ?s', g_next_id := g_next_id ?s', g_completed := g_completed ?s', world := world ?s'\<rparr>"
        using i full by (cases s) (simp add: qos_workqueue_enqueue_def queue_push_def set_work_def split_beta Let_def)
      then show ?thesis
        by (rule dinv_work [OF inv wq_inv_enqueue [OF w(1)], rotated]) (use r w(2) in simp)
    qed
  qed
  show "dinv W N T (snd (qos_workqueue_cancel wid s))"
  proof (cases "wid = 0 \<or> find_slot_by_id wid s = None")
    case True
    then show ?thesis using inv by (auto simp: qos_workqueue_cancel_def)
  next
    case False
    let ?s' = "snd (qos_workqueue_cancel wid s)"
    have eq: "?s' = s\<lparr>g_entries := g_entries ?s', g_queue := g_queue ?s', g_qhead := g_qhead ?s', g_qtail := g_qtail ?s',
          g_qcount := g_qcount ?s', g_next_id := g_next_id ?s', g_completed := g_completed ?s', world := world ?s'\<rparr>"
      using False by (cases s) (auto simp: qos_workqueue_cancel_def set_work_def)
    have "wq_ring ?s' = wq_ring s" using False by (auto simp: qos_workqueue_cancel_def)
    then show ?thesis using w(2) eq by (intro dinv_work [OF inv wq_inv_cancel [OF w(1)] _ eq]) simp
  qed
qed

lemma dinv_thread_ops:
  assumes inv: "dinv W N T s"
  shows "dinv W N T (snd (snd (qos_kthread_create entry arg s)))" "dinv W N T (snd (qos_kthread_wake tid s))"
    "dinv W N T (snd (qos_kthread_stop tid s))" "dinv W N T (snd (qos_kthread_run_next (\<lambda>_ _ t. t) s))"
proof -
  have k: "kthread_inv s" using inv by (simp add: dinv_def)
  note defs = set_thread_def split_beta Let_def
  have frame: "s' = s\<lparr>g_threads := g_threads s', g_next_tid := g_next_tid s', g_cursor := g_cursor s',
      g_current_tid := g_current_tid s', world := world s'\<rparr> \<Longrightarrow> kthread_inv s' \<Longrightarrow> dinv W N T s'" for s'
    by (rule dinv_threads [OF inv])
  show "dinv W N T (snd (snd (qos_kthread_create entry arg s)))"
    by (rule frame [OF _ kthread_inv_ops(1) [OF k]]) (cases s, simp add: qos_kthread_create_def init_name_slot_eq defs split: option.split)
  show "dinv W N T (snd (qos_kthread_wake tid s))"
    by (rule frame [OF _ kthread_inv_ops(2) [OF k]]) (cases s, simp add: qos_kthread_wake_def defs split: option.split)
  show "dinv W N T (snd (qos_kthread_stop tid s))"
    by (rule frame [OF _ kthread_inv_ops(3) [OF k]]) (cases s, simp add: qos_kthread_stop_def defs split: option.split)
  show "dinv W N T (snd (qos_kthread_run_next (\<lambda>_ _ t. t) s))"
    by (rule frame [OF _ kthread_inv_ops(4) [OF k]])
      (cases s, simp add: qos_kthread_run_next_def defs split: option.split)
qed

lemma dinv_register:
  assumes "dinv W N T s" "2 < unat v"
  shows "dinv W N T (snd (qos_softirq_register v (Some (UserH h)) ctx s))"
proof -
  have "installed (snd (qos_softirq_register v (Some (UserH h)) ctx s))"
    using assms by (auto simp: dinv_def installed_def qos_softirq_register_def)
  then show ?thesis using assms(1) by (simp add: qos_softirq_register_def dinv_defs)
qed

lemma deferred_inv_init: "deferred_inv (deferred_init s)"
  by (simp add: deferred_init_def workqueue_init_def kthread_init_def napi_init_def timer_init_def softirq_init_def
      qos_softirq_register_def vector_valid_def qos_workqueue_reset_def qos_kthread_reset_def qos_napi_reset_def
      qos_timer_reset_def qos_softirq_reset_def deferred_inv_def softirq_inv_def installed_def wq_inv_def wq_ring_inv_def
      wq_ring_def napi_inv_def kthread_inv_def timer0_def work0_def napi0_def kthread0_def)

section \<open>Outside code\<close>

lemma iface_dinv: "iface s s' \<Longrightarrow> dinv W N T s \<Longrightarrow> dinv W N T s'"
  by (induction rule: iface.induct)
    (simp_all add: dinv_world dinv_timer_ops dinv_work_ops dinv_napi_ops dinv_thread_ops dinv_raise dinv_register)

lemma iface_trans: "iface b c \<Longrightarrow> iface a b \<Longrightarrow> iface a c"
  by (induction rule: iface.induct) (auto intro: iface.intros)

lemmas clock_frame = qos_timer_add_def qos_timer_cancel_def set_timer_def timer0_def qos_workqueue_enqueue_def queue_push_def set_work_def
  qos_workqueue_cancel_def qos_napi_register_def qos_napi_schedule_def qos_napi_complete_def set_napi_def
  qos_kthread_create_def init_name_slot_eq qos_kthread_wake_def qos_kthread_stop_def qos_kthread_run_next_def set_thread_def
  qos_softirq_raise_def qos_softirq_register_def

text \<open>Only the tick of the clock moves the time and marks timers.\<close>

lemma iface_clock: "iface s s' \<Longrightarrow> g_jiffies s' = g_jiffies s \<and> (t_pending (g_timers s' i) \<longrightarrow> t_pending (g_timers s i))"
  by (induction rule: iface.induct) (auto simp: clock_frame split_beta Let_def split: option.splits if_splits)

lemma iface_thread_run: "iface_cb cb \<Longrightarrow> iface s (snd (qos_kthread_run_next cb s))"
proof -
  assume cb: "iface_cb cb"
  have "\<exists>e a. snd (qos_kthread_run_next cb s) = cb e a (snd (qos_kthread_run_next (\<lambda>_ _ t. t) s)) \<or>
      snd (qos_kthread_run_next cb s) = snd (qos_kthread_run_next (\<lambda>_ _ t. t) s)"
    by (auto simp: qos_kthread_run_next_def Let_def split: option.splits)
  then show ?thesis
    using cb iface_trans [OF _ iface.thread_turn [OF iface.same]] unfolding iface_cb_def
    by (metis iface.same iface.thread_turn)
qed

section \<open>The handlers\<close>

lemma ack_bit: "bit (g_pending_mask (ack i s)) j \<longleftrightarrow> bit (g_pending_mask s) j \<and> j \<noteq> i"
  unfolding ack_def by (simp add: bit_clear del: push_bit_of_1)

lemma ack_frame:
  "wq_inv (ack i s) = wq_inv s" "wq_ring (ack i s) = wq_ring s" "kthread_inv (ack i s) = kthread_inv s"
  "installed (ack i s) = installed s" "g_timers (ack i s) = g_timers s" "g_jiffies (ack i s) = g_jiffies s"
  "g_handlers (ack i s) = g_handlers s" "g_qcount (ack i s) = g_qcount s"
  by (simp_all add: ack_def wq_inv_def wq_ring_inv_def wq_ring_def kthread_inv_def installed_def)

text \<open>Acknowledging an interrupt excepts what its handler serves.\<close>

lemma dinv_ack:
  assumes "deferred_inv s"
  shows "dinv (i = 2) {j. i = 1} {j. i = 0} (ack i s)"
proof -
  have "softirq_inv (ack i s)" using assms by (auto simp: deferred_inv_def softirq_mask_bits ack_bit)
  then show ?thesis
    using assms by (auto simp: dinv_def deferred_inv_def ack_frame ack_bit timers_ok_def napi_inv_def napi_inv_but_def napi_ack)
qed

lemma timer_fire_inv:
  assumes cb: "iface_cb cb" and inv: "dinv W N {i..} s" and i: "i < QOS_TIMER_MAX"
    and run: "timer_fire cb (g_jiffies s) i s = Some s'"
  shows "dinv W N {Suc i..} s' \<and> g_jiffies s' = g_jiffies s"
proof (cases "timer_due (g_jiffies s) (g_timers s i)")
  case False
  then have "s' = s" using run by (simp add: timer_fire_skip)
  moreover have "\<not> (t_used (g_timers s i) \<and> t_pending (g_timers s i))"
    using inv i False by (auto simp: dinv_def timers_ok_def timer_due_def)
  ultimately show ?thesis using inv by (auto simp: dinv_def timers_ok_def Suc_le_eq le_less)
next
  case True
  let ?t = "g_timers s i"
  let ?s1 = "set_timer i (?t\<lparr>t_pending := False\<rparr>) s"
  let ?s2 = "if t_callback ?t \<noteq> 0 then cb (t_callback ?t) (t_ctx ?t) ?s1 else ?s1"
  have "dinv W N {i..} ?s1" using inv by (auto simp: set_timer_def dinv_timers) (auto simp: dinv_def timers_ok_def)
  then have "dinv W N {Suc i..} ?s1"
    by (auto simp: dinv_def timers_ok_def set_timer_def Suc_le_eq le_less)
  moreover have o: "iface ?s1 ?s2" using cb by (simp add: iface_cb_def iface.same)
  ultimately have d2: "dinv W N {Suc i..} ?s2" by (rule iface_dinv [rotated])
  have j: "g_jiffies ?s2 = g_jiffies s" "\<not> t_pending (g_timers ?s2 i)"
    using iface_clock [OF o, of i] by (auto simp: set_timer_def split: if_splits)
  have upd: "dinv W N {Suc i..} (set_timer i e ?s2) \<and> g_jiffies (set_timer i e ?s2) = g_jiffies s" if "\<not> t_pending e" for e
    using d2 that j(1) unfolding set_timer_def by (simp add: dinv_timers) (auto simp: dinv_def timers_ok_def)
  have due: "t_used ?t" "t_pending ?t" "t_expires ?t \<le> g_jiffies s" using True by (simp_all add: timer_due_def)
  have "s' = ?s2 \<or> (\<exists>e. \<not> t_pending e \<and> s' = set_timer i e ?s2)"
  proof (cases "t_used (g_timers ?s2 i)")
    case used: True
    show ?thesis
    proof (cases "t_periodic (g_timers ?s2 i) \<and> t_interval (g_timers ?s2 i) \<noteq> 0")
      case True
      then obtain e where "s' = set_timer i ((g_timers ?s2 i)\<lparr>t_expires := e\<rparr>) ?s2"
        using run due used unfolding timer_fire_def Let_def by auto
      then show ?thesis using j(2) by (intro disjI2 exI [of _ "(g_timers ?s2 i)\<lparr>t_expires := e\<rparr>"]) simp
    next
      case False
      let ?e = "(g_timers ?s2 i)\<lparr>t_used := False, t_callback := 0, t_ctx := 0, t_interval := 0, t_expires := 0\<rparr>"
      have "timer_fire cb (g_jiffies s) i s = Some (set_timer i ?e ?s2)"
        unfolding timer_fire_def Let_def using due used False by (simp only: simp_thms if_True if_False)
      then show ?thesis using run j(2) by (intro disjI2 exI [of _ ?e]) simp
    qed
  next
    case False
    have "timer_fire cb (g_jiffies s) i s = Some ?s2"
      unfolding timer_fire_def Let_def using due False by (simp only: simp_thms if_True if_False)
    then show ?thesis using run by simp
  qed
  then show ?thesis using upd d2 j(1) by auto
qed

lemma timer_loop_inv:
  assumes cb: "iface_cb cb"
  shows "dinv W N {i..} s \<Longrightarrow> i \<le> QOS_TIMER_MAX \<Longrightarrow> timer_loop cb (g_jiffies s) i s = Some s' \<Longrightarrow>
    dinv W N {} s' \<and> g_jiffies s' = g_jiffies s"
proof (induction "QOS_TIMER_MAX - i" arbitrary: i s)
  case 0
  then have "s' = s" by (subst (asm) timer_loop.simps) simp
  then show ?case using 0 by (auto simp: dinv_def timers_ok_def)
next
  case (Suc d)
  then have i: "i < 128" by simp
  then obtain s1 where s1: "timer_fire cb (g_jiffies s) i s = Some s1" "timer_loop cb (g_jiffies s) (Suc i) s1 = Some s'"
    using Suc.prems(3) by (subst (asm) timer_loop.simps) (auto split: option.splits)
  from timer_fire_inv [OF cb Suc.prems(1) i s1(1)] have "dinv W N {Suc i..} s1" "g_jiffies s1 = g_jiffies s" by simp_all
  then show ?case using Suc.hyps(1) [of "Suc i" s1] Suc.hyps(2) i s1(2) by simp
qed

lemma wq_inv_pop:
  assumes "wq_inv s" "wq_ring s = x # xs"
  shows "wq_inv (set_work (unat x) work0 (snd (queue_pop s)))"
proof -
  have r: "wq_ring_inv s" using assms(1) by (simp add: wq_inv_def)
  note pop = wq_pop_ring [OF r assms(2)]
  have "word_of_nat i \<in> set xs" if "i < 128" "i \<noteq> unat x" "w_used (g_entries s i)" for i
  proof -
    have "(word_of_nat i :: u16) \<noteq> x" using that(1,2) unat_u16_of_nat [of i] by auto
    then show ?thesis using assms that by (auto simp: wq_inv_def)
  qed
  then show ?thesis using assms pop(2,3) by (auto simp: wq_inv_def wq_set_work_fields work0_def)
qed

text \<open>One iteration of the work loop, up to the call of the work function, and the count after it.\<close>

lemma wq_iteration:
  assumes inv: "dinv True N T s" and ring: "wq_ring s = x # xs"
  obtains s1 where "queue_pop s = (Some x, s1)" "g_qcount s \<noteq> 0" "unat x < QOS_WORKQUEUE_MAX" "g_entries s1 = g_entries s"
    "dinv True N T (set_work (unat x) work0 s1)" "g_jiffies s1 = g_jiffies s"
proof -
  have wq: "wq_inv s" using inv by (simp add: dinv_def)
  have "wq_ring_inv s" using wq by (simp add: wq_inv_def)
  note pop = wq_pop_ring [OF this ring]
  obtain s1 where s1: "queue_pop s = (Some x, s1)" "snd (queue_pop s) = s1" using pop(1) by (metis snd_conv)
  let ?s2 = "set_work (unat x) work0 s1"
  have "?s2 = s\<lparr>g_entries := g_entries ?s2, g_queue := g_queue ?s2, g_qhead := g_qhead ?s2, g_qtail := g_qtail ?s2,
      g_qcount := g_qcount ?s2, g_next_id := g_next_id ?s2, g_completed := g_completed ?s2, world := world ?s2\<rparr>"
    unfolding s1(2) [symmetric] by (cases s) (simp add: queue_pop_def set_work_def)
  moreover have "wq_inv ?s2" using wq_inv_pop [OF wq ring] unfolding s1(2) .
  ultimately have "dinv True N T ?s2" by (intro dinv_work [OF inv]) simp_all
  moreover have "g_entries s1 = g_entries s" "g_jiffies s1 = g_jiffies s"
    unfolding s1(2) [symmetric] by (simp_all add: queue_pop_def)
  moreover have "unat x < 128" using wq ring by (simp add: wq_inv_def)
  ultimately show thesis using that s1(1) pop(4) by blast
qed

lemma dinv_completed: "dinv W N T s \<Longrightarrow> dinv W N T (s\<lparr>g_completed := n\<rparr>)"
  by (simp add: dinv_defs)

lemma wq_loop_inv:
  assumes "wq_loop work s = Some s'" "iface_cb work" "dinv True N T s"
  shows "dinv False N T s' \<and> g_jiffies s' = g_jiffies s"
proof -
  have "iface_cb work \<longrightarrow> dinv True N T s \<longrightarrow> dinv False N T s' \<and> g_jiffies s' = g_jiffies s"
  proof (rule wq_loop.raw_induct [where P = "\<lambda>work s s'. iface_cb work \<longrightarrow> dinv True N T s \<longrightarrow> dinv False N T s' \<and> g_jiffies s' = g_jiffies s", OF _ assms(1)], intro impI)
    fix loop :: "'a callback \<Rightarrow> 'a deferred \<Rightarrow> 'a deferred option" and work :: "'a callback" and s s' :: "'a deferred"
    assume IH: "\<And>work s s'. loop work s = Some s' \<Longrightarrow> iface_cb work \<longrightarrow> dinv True N T s \<longrightarrow> dinv False N T s' \<and> g_jiffies s' = g_jiffies s"
      and work: "iface_cb work" and inv: "dinv True N T s"
      and eq: "(if g_qcount s \<noteq> 0 then
        case queue_pop s of
          (None, s1) \<Rightarrow> Some s1
        | (Some slot, s1) \<Rightarrow>
            if unat slot \<ge> QOS_WORKQUEUE_MAX then loop work s1
            else let e = g_entries s1 (unat slot); s2 = set_work (unat slot) work0 s1 in
              if \<not> w_used e \<or> \<not> w_pending e \<or> w_fn e = 0 then loop work s2
              else let s3 = work (w_fn e) (w_arg e) s2 in loop work (s3\<lparr>g_completed := g_completed s3 + 1\<rparr>)
      else Some s) = Some s'"
    show "dinv False N T s' \<and> g_jiffies s' = g_jiffies s"
    proof (cases "wq_ring s")
      case Nil
      then show ?thesis using eq inv by (simp add: wq_ring_empty dinv_def)
    next
      case (Cons x xs)
      from wq_iteration [OF inv Cons] obtain s1 where s1: "queue_pop s = (Some x, s1)" "g_qcount s \<noteq> 0" "unat x < 128"
        "g_entries s1 = g_entries s" and d2: "dinv True N T (set_work (unat x) work0 s1)" and j1: "g_jiffies s1 = g_jiffies s" .
      let ?e = "g_entries s (unat x)" and ?s2 = "set_work (unat x) work0 s1"
      have j2: "g_jiffies ?s2 = g_jiffies s" using j1 by (simp add: set_work_def)
      show ?thesis
      proof (cases "runnable ?e")
        case True
        let ?s3 = "work (w_fn ?e) (w_arg ?e) ?s2"
        have "loop work (?s3\<lparr>g_completed := g_completed ?s3 + 1\<rparr>) = Some s'"
          using eq s1(2-4) True unfolding s1(1) by (auto simp: runnable_def Let_def)
        moreover have o: "iface ?s2 ?s3" using work by (simp add: iface_cb_def)
        moreover have "g_jiffies ?s3 = g_jiffies s" using iface_clock [OF o] j2 by simp
        ultimately show ?thesis using IH work dinv_completed [OF iface_dinv [OF o d2]] by auto
      next
        case False
        then have "\<not> w_used ?e \<or> \<not> w_pending ?e \<or> w_fn ?e = 0" by (simp add: runnable_def)
        then have "loop work ?s2 = Some s'" using eq s1(2-4) unfolding s1(1) by (auto simp: Let_def)
        then show ?thesis using IH work d2 j2 by auto
      qed
    qed
  qed
  then show ?thesis using assms(2,3) by blast
qed

lemma dinv_split: "dinv False N {} s \<longleftrightarrow> dinv_rest s \<and> napi_inv_but N s"
  by (auto simp: dinv_def dinv_rest_def)

lemma dinv_rest_set_napi: "dinv_rest s \<Longrightarrow> dinv_rest (set_napi i e s)"
  by (simp add: dinv_rest_def set_napi_def softirq_inv_def installed_def wq_inv_def wq_ring_inv_def wq_ring_def kthread_inv_def timers_ok_def)

lemma napi_handler_inv:
  fixes s :: "'w deferred"
  assumes poll: "iface_poll poll" and inv: "dinv False UNIV {} s"
  shows "deferred_inv (napi_softirq_handler poll s) \<and> g_jiffies (napi_softirq_handler poll s) = g_jiffies s"
proof -
  define P where "P t \<longleftrightarrow> dinv_rest t \<and> g_jiffies t = g_jiffies s" for t :: "'w deferred"
  obtain need s1 where r: "fold (napi_poll_slot poll) [0..<32] (False, s) = (need, s1)" by fastforce
  have p: "P (snd (poll f p b s)) \<and> napi_inv_but N (snd (poll f p b s))" if "P s" "napi_inv_but N s" for N f p b s
  proof -
    have o: "iface s (snd (poll f p b s))" using poll by (simp add: iface_poll_def)
    show ?thesis using that iface_clock [OF o] iface_dinv [OF o, of False N "{}"] by (simp add: P_def dinv_split)
  qed
  have u: "P (set_napi i e t)" if "P t" for i e t using that dinv_rest_set_napi [of t] by (simp add: P_def) (simp add: set_napi_def)
  have d: "P s" "napi_inv_but (if False then UNIV else {0..}) s" using inv by (simp_all add: dinv_split atLeast_0 P_def)
  have "P s1 \<and> napi_inv_but (if need then UNIV else {32..}) s1"
    using napi_fold_inv [of P poll, OF p u d le0] unfolding r by simp
  then have "dinv False (if need then UNIV else {32..}) {} s1" "g_jiffies s1 = g_jiffies s" by (simp_all add: dinv_split P_def)
  moreover from this have "deferred_inv (if need then snd (qos_softirq_raise 1 s1) else s1)"
    using dinv_raise [of False UNIV "{}" s1 1] napi_raise_bit(1) [of s1]
    by (auto simp: dinv_none [symmetric] dinv_def napi_inv_but_def)
  ultimately show ?thesis unfolding napi_softirq_handler_def r by (simp add: qos_softirq_raise_def)
qed

section \<open>The interrupt loop\<close>

lemma handler_inv:
  assumes out: "outside_code cb work poll user" and inv: "deferred_inv s"
    and f: "g_handlers s i = Some f" and run: "kernel_call cb work poll user f ctx (ack i s) = Some s'"
  shows "deferred_inv s' \<and> g_jiffies s' = g_jiffies s"
proof -
  have o: "iface_cb cb" "iface_cb work" "iface_poll poll" "iface_handler user" using out by (simp_all add: outside_code_def)
  note d = dinv_ack [OF inv, of i]
  have h: "i = 0 \<Longrightarrow> f = TimerH" "i = 1 \<Longrightarrow> f = NapiH" "i = 2 \<Longrightarrow> f = WorkH" "2 < i \<Longrightarrow> \<exists>h. f = UserH h"
    using inv f by (auto simp: deferred_inv_def installed_def)
  consider "i = 0" | "i = 1" | "i = 2" | "2 < i" by linarith
  then show ?thesis
  proof cases
    case 1
    then have "dinv False {} {0..} (ack i s)" using d by (simp add: atLeast_0)
    from timer_loop_inv [OF o(1) this le0] run 1 h(1) show ?thesis
      by (simp add: kernel_call_def timer_softirq_handler_def dinv_none ack_frame)
  next
    case 2
    then show ?thesis using napi_handler_inv [OF o(3), of "ack i s"] d run h(2) by (auto simp: kernel_call_def ack_frame)
  next
    case 3
    then have "dinv True {} {} (ack i s)" using d by simp
    then show ?thesis using wq_loop_inv [OF _ o(2), of "ack i s" s' "{}" "{}"] run 3 h(3)
      by (auto simp: kernel_call_def workqueue_softirq_handler_def dinv_none ack_frame)
  next
    case 4
    then have "deferred_inv (ack i s)" using d by (simp add: dinv_none)
    moreover obtain h where "f = UserH h" using h(4) [OF 4] ..
    then have u: "iface (ack i s) s'" using run o(4) unfolding iface_handler_def by (auto simp: kernel_call_def)
    ultimately show ?thesis using iface_dinv [OF u, of False "{}" "{}"] iface_clock [OF u] by (simp add: dinv_none ack_frame)
  qed
qed

lemma pass_first:
  assumes "pending_vectors s = i # is"
  shows "softirq_pass call s = (case g_handlers s i of None \<Rightarrow> Some (False, ack i s)
      | Some f \<Rightarrow> map_option (Pair True) (call f (g_handler_ctx s i) (ack i s)))"
proof -
  have "scan (\<lambda>i. g_pending_mask s AND push_bit i 1 \<noteq> 0) 0 8 = Some i"
    using assms unfolding bit_test scan_filter by (simp add: pending_vectors_def)
  then show "softirq_pass call s = (case g_handlers s i of None \<Rightarrow> Some (False, ack i s)
      | Some f \<Rightarrow> map_option (Pair True) (call f (g_handler_ctx s i) (ack i s)))"
    unfolding softirq_pass_def ack_def Let_def by simp
qed

lemma pass_inv:
  assumes out: "outside_code cb work poll user" and inv: "deferred_inv s"
    and m: "g_pending_mask s \<noteq> 0" and run: "softirq_pass (kernel_call cb work poll user) s = Some (c, s')"
  shows "deferred_inv s' \<and> g_jiffies s' = g_jiffies s"
proof -
  have "softirq_inv s" using inv by (simp add: deferred_inv_def)
  then obtain i "is" where p: "pending_vectors s = i # is" using m softirq_mask_zero by (cases "pending_vectors s") auto
  show ?thesis
  proof (cases "g_handlers s i")
    case None
    have "2 < i" using None inv by (cases "i = 0 \<or> i = 1 \<or> i = 2") (auto simp: deferred_inv_def installed_def)
    then show ?thesis using None run dinv_ack [OF inv, of i] unfolding pass_first [OF p] by (auto simp: dinv_none ack_frame)
  next
    case (Some f)
    then show ?thesis using run handler_inv [OF out inv Some] unfolding pass_first [OF p] by auto
  qed
qed

lemma softirq_run_inv:
  assumes out: "outside_code cb work poll user"
    and run: "softirq_loop (kernel_call cb work poll user) n s = Some (m, s')" and inv: "deferred_inv s"
  shows "deferred_inv s'"
proof -
  let ?call = "kernel_call cb work poll user"
  let ?P = "\<lambda>call (n :: u32) s y. call = ?call \<longrightarrow> deferred_inv s \<longrightarrow> deferred_inv (snd y)"
  have "?P ?call n s (m, s')"
  proof (rule softirq_loop.raw_induct [where P = ?P, OF _ run], intro impI)
    fix loop call and n :: u32 and s y
    assume IH: "\<And>call n s y. loop call n s = Some y \<Longrightarrow> call = ?call \<longrightarrow> deferred_inv s \<longrightarrow> deferred_inv (snd y)"
      and c: "call = ?call" and inv: "deferred_inv s"
      and eq: "(if g_pending_mask s \<noteq> 0 then
        case softirq_pass call s of
          None \<Rightarrow> None
        | Some (called, s1) \<Rightarrow> loop call (if called then n + 1 else n) s1
      else Some (n, s)) = Some y"
    show "deferred_inv (snd y)"
    proof (cases "g_pending_mask s = 0")
      case True
      then show ?thesis using eq inv by auto
    next
      case False
      then obtain d s1 where s1: "softirq_pass ?call s = Some (d, s1)" "loop ?call (if d then n + 1 else n) s1 = Some y"
        using eq c by (auto split: option.splits)
      from pass_inv [OF out inv False s1(1)] show ?thesis using IH [OF s1(2)] by simp
    qed
  qed
  then show ?thesis using inv by simp
qed

end
