(* ===== verification/Deferred.thy ===== *)
theory Deferred
  imports Interface
begin

text \<open>
  Timers, work queue, polled receivers, kernel threads and software interrupts together: the states they
  reach while outside code (callbacks, work functions, polls, thread entries, other handlers) uses
  their interface, when a run of the software interrupts returns, and that no scheduled receiver is
  forgotten.
\<close>

section \<open>Specification\<close>

text \<open>
  What happens to the components: outside code acts through the interface (\<open>iface\<close>), both on its own and
  when it is called by \<open>qos_kthread_run_next\<close> or by \<open>qos_softirq_run\<close>, where it may be different code each
  time; and the clock ticks, without wrapping around.
\<close>

inductive dstep :: "'w deferred \<Rightarrow> 'w deferred \<Rightarrow> bool" where
  outside: "iface s s' \<Longrightarrow> dstep s s'"
| tick: "unat (g_jiffies s) + unat n < 2 ^ 64 \<Longrightarrow> dstep s (qos_timer_tick n s)"
| thread_run: "iface_cb entry \<Longrightarrow> dstep s (snd (qos_kthread_run_next entry s))"
| run: "outside_code cb work poll user \<Longrightarrow> qos_softirq_run (kernel_call cb work poll user) s = Some (n, s') \<Longrightarrow> dstep s s'"

inductive reach :: "'w deferred \<Rightarrow> bool" where
  init: "reach (deferred_init s)"
| step: "reach s \<Longrightarrow> dstep s s' \<Longrightarrow> reach s'"

text \<open>
  When called code feeds itself without end, \<open>qos_softirq_run\<close> does not return. A call \<open>settles\<close> at vector \<open>v\<close> if it
  does not add to the backlog, a number that the world determines (waiting packets, for instance), and either
  takes something off it or raises interrupts above \<open>v\<close> only.
\<close>

definition settles :: "('w \<Rightarrow> nat) \<Rightarrow> nat \<Rightarrow> 'w deferred \<Rightarrow> 'w deferred \<Rightarrow> bool" where
  "settles backlog v s s' \<longleftrightarrow> backlog (world s') < backlog (world s) \<or>
     backlog (world s') = backlog (world s) \<and> (\<forall>j \<le> v. bit (g_pending_mask s') j \<longrightarrow> bit (g_pending_mask s) j)"

text \<open>
  Outside code that drains: callbacks of timers settle at vector 0 (so they may queue work and schedule receivers), polls at
  vector 1 and take something off the backlog if they use up their budget, work functions at vector 2 and
  queue more work only if they take something off the backlog, and the handlers of others return and
  settle at vector 7.
\<close>

definition drains :: "('w \<Rightarrow> nat) \<Rightarrow> 'w callback \<Rightarrow> 'w callback \<Rightarrow> 'w napi_poll \<Rightarrow>
    (ptr \<Rightarrow> ptr \<Rightarrow> 'w deferred \<Rightarrow> 'w deferred option) \<Rightarrow> bool" where
  "drains backlog cb work poll user \<longleftrightarrow>
     (\<forall>f p s. settles backlog 0 s (cb f p s)) \<and>
     (\<forall>f p s. settles backlog 2 s (work f p s) \<and>
        (g_qcount s < g_qcount (work f p s) \<longrightarrow> backlog (world (work f p s)) < backlog (world s))) \<and>
     (\<forall>f p b s. settles backlog 1 s (snd (poll f p b s)) \<and>
        (0 < b \<and> b \<le> fst (poll f p b s) \<longrightarrow> backlog (world (snd (poll f p b s))) < backlog (world s))) \<and>
     (\<forall>h ctx s. \<exists>s'. user h ctx s = Some s' \<and> settles backlog 7 s s')"

text \<open>The pending vectors as one number in which a vector outweighs all higher vectors together.\<close>

definition load :: "'w deferred \<Rightarrow> nat" where
  "load s = (\<Sum>j \<in> set (pending_vectors s). 2 ^ (7 - j))"

section \<open>The invariant\<close>

lemma dstep_inv: "dstep s s' \<Longrightarrow> deferred_inv s \<Longrightarrow> deferred_inv s'"
proof (induction rule: dstep.induct)
  case (outside s s')
  then show ?case using iface_dinv [of s s' False "{}" "{}"] by (simp add: dinv_none)
next
  case (tick s n)
  then show ?case using dinv_tick [of False "{}" "{}" s n] by (simp add: dinv_none)
next
  case (thread_run entry s)
  then show ?case using iface_dinv [OF iface_thread_run [OF thread_run.hyps], of False "{}" "{}"] by (simp add: dinv_none)
next
  case (run cb work poll user s n s')
  then show ?case using softirq_run_inv [of cb work poll user 0 s n s'] by (simp add: qos_softirq_run_def)
qed

lemma reach_inv: "reach s \<Longrightarrow> deferred_inv s"
  by (induction rule: reach.induct) (auto intro: deferred_inv_init dstep_inv)

section \<open>The handlers return\<close>

lemma settles_refl: "world s' = world s \<Longrightarrow> g_pending_mask s' = g_pending_mask s \<Longrightarrow> settles backlog v s s'"
  by (simp add: settles_def)

lemma settles_trans: "settles backlog v s t \<Longrightarrow> settles backlog v t u \<Longrightarrow> settles backlog v s u"
  unfolding settles_def by fastforce

lemma timer_catch_up_some:
  assumes "i \<noteq> 0" "unat now + 2 ^ 32 \<le> 2 ^ 64"
  shows "\<exists>y. timer_catch_up e i now = Some y"
proof (cases "e \<le> now")
  case True
  have "unat now + unat i < 2 ^ 64" using assms(2) unat_u32_lt [of i] by simp
  then show ?thesis using timer_catch_up_next [OF assms(1) _ True] by blast
next
  case False
  then show ?thesis by (subst timer_catch_up.simps) simp
qed

lemma set_timer_settles: "settles backlog v s (set_timer i e s)"
  by (rule settles_refl) (simp_all add: set_timer_def)

lemma timer_fire_returns:
  assumes cb: "\<And>f p s. settles backlog v s (cb f p s)" and far: "unat now + 2 ^ 32 \<le> 2 ^ 64"
  shows "\<exists>s'. timer_fire cb now i s = Some s' \<and> settles backlog v s s'"
proof (cases "timer_due now (g_timers s i)")
  case False
  then show ?thesis using timer_fire_skip settles_refl by blast
next
  case True
  let ?t = "g_timers s i"
  let ?s1 = "set_timer i (?t\<lparr>t_pending := False\<rparr>) s"
  let ?s2 = "if t_callback ?t \<noteq> 0 then cb (t_callback ?t) (t_ctx ?t) ?s1 else ?s1"
  have s2: "settles backlog v s ?s2" using settles_trans [OF set_timer_settles cb] set_timer_settles by auto
  have upd: "settles backlog v s (set_timer i e ?s2)" for e by (rule settles_trans [OF s2 set_timer_settles])
  have due: "t_used ?t" "t_pending ?t" "t_expires ?t \<le> now" using True by (simp_all add: timer_due_def)
  consider (none) "\<not> t_used (g_timers ?s2 i)"
    | (once) "t_used (g_timers ?s2 i)" "\<not> (t_periodic (g_timers ?s2 i) \<and> t_interval (g_timers ?s2 i) \<noteq> 0)"
    | (periodic) "t_used (g_timers ?s2 i)" "t_periodic (g_timers ?s2 i)" "t_interval (g_timers ?s2 i) \<noteq> 0" by blast
  then show ?thesis
  proof cases
    case none
    then show ?thesis using s2 due unfolding timer_fire_def Let_def by (simp only: simp_thms if_True if_False) blast
  next
    case once
    then show ?thesis using upd due unfolding timer_fire_def Let_def by (simp only: simp_thms if_True if_False) blast
  next
    case periodic
    obtain y where "timer_catch_up (t_expires (g_timers ?s2 i)) (t_interval (g_timers ?s2 i)) now = Some y"
      using timer_catch_up_some [OF periodic(3) far] by blast
    then show ?thesis
      using upd due periodic unfolding timer_fire_def Let_def by (simp only: simp_thms if_True option.map) blast
  qed
qed

lemma timer_loop_returns:
  assumes cb: "\<And>f p s. settles backlog v s (cb f p s)" and far: "unat now + 2 ^ 32 \<le> 2 ^ 64"
  shows "\<exists>s'. timer_loop cb now i s = Some s' \<and> settles backlog v s s'"
proof (induction "QOS_TIMER_MAX - i" arbitrary: i s)
  case 0
  then show ?case by (subst timer_loop.simps) (simp add: settles_refl)
next
  case (Suc d)
  obtain s1 where s1: "timer_fire cb now i s = Some s1" "settles backlog v s s1"
    using timer_fire_returns [of backlog v cb, OF cb far] by blast
  have "d = 128 - Suc i" using Suc.hyps(2) by simp
  from Suc.hyps(1) [OF this, of s1] obtain s' where "timer_loop cb now (Suc i) s1 = Some s'" "settles backlog v s1 s'" by blast
  then show ?case using s1 settles_trans Suc.hyps(2) by (subst timer_loop.simps) auto
qed

lemma wq_loop_returns:
  assumes work: "\<And>f p s. settles backlog v s (work f p s)"
    and less: "\<And>f p s. g_qcount s < g_qcount (work f p s) \<Longrightarrow> backlog (world (work f p s)) < backlog (world s)"
  shows "\<exists>s'. wq_loop work s = Some s' \<and> settles backlog v s s'"
proof (induction "(backlog (world s), unat (g_qcount s))" arbitrary: s
    rule: wf_induct_rule [OF wf_lex_prod [OF wf_less_than wf_less_than]])
  case (1 s)
  show ?case
  proof (cases "g_qcount s = 0")
    case True
    then show ?thesis by (subst wq_loop.simps) (simp add: settles_refl)
  next
    case False
    obtain x s1 where s1: "queue_pop s = (Some x, s1)" "world s1 = world s" "g_pending_mask s1 = g_pending_mask s"
      "unat (g_qcount s1) < unat (g_qcount s)"
      using False unat_u16_pred [OF False] by (auto simp: queue_pop_def unat_gt_0)
    let ?e = "g_entries s1 (unat x)" and ?s2 = "set_work (unat x) work0 s1"
    let ?s3 = "work (w_fn ?e) (w_arg ?e) ?s2"
    have s2: "world ?s2 = world s" "g_pending_mask ?s2 = g_pending_mask s" "g_qcount ?s2 = g_qcount s1"
      using s1 by (simp_all add: set_work_def)
    have step: "wq_loop work s = (if unat x \<ge> 128 then wq_loop work s1 else if runnable ?e
        then wq_loop work (?s3\<lparr>g_completed := g_completed ?s3 + 1\<rparr>) else wq_loop work ?s2)"
      using False s1(1) by (subst wq_loop.simps) (auto simp: Let_def runnable_def)
    have IH: "\<exists>s'. wq_loop work t = Some s' \<and> settles backlog v s s'"
      if "settles backlog v s t" "backlog (world t) < backlog (world s) \<or> unat (g_qcount t) < unat (g_qcount s)" for t
    proof -
      have "\<exists>s'. wq_loop work t = Some s' \<and> settles backlog v t s'" by (rule 1) (use that in \<open>auto simp: settles_def\<close>)
      then show ?thesis using that(1) settles_trans by blast
    qed
    have "settles backlog v s ?s3" using work [of ?s2] s2 by (simp add: settles_def)
    then have 3: "settles backlog v s (?s3\<lparr>g_completed := n\<rparr>)" for n by (simp add: settles_def)
    have "backlog (world ?s3) < backlog (world s) \<or> unat (g_qcount ?s3) < unat (g_qcount s)"
      using less [of ?s2] s1(4) s2 by (cases "g_qcount ?s2 < g_qcount ?s3") (auto simp: word_less_nat_alt)
    moreover have "settles backlog v s s1" "settles backlog v s ?s2" using s1 s2 by (simp_all add: settles_refl)
    ultimately show ?thesis unfolding step using IH [of s1] IH [of ?s2] IH [OF 3] s1(4) s2(3) by auto
  qed
qed

lemma napi_budget_pos: "0 < napi_budget e"
  by (simp add: napi_budget_def word_gt_0)

lemma napi_fold_settles:
  assumes poll: "\<And>f p b s. settles backlog v s (snd (poll f p b s))"
    and full: "\<And>f p b s. 0 < b \<Longrightarrow> b \<le> fst (poll f p b s) \<Longrightarrow> backlog (world (snd (poll f p b s))) < backlog (world s)"
  shows "case fold (napi_poll_slot poll) xs (need, s) of (need', s') \<Rightarrow>
    settles backlog v s s' \<and> (need' \<longrightarrow> need \<or> backlog (world s') < backlog (world s))"
proof (induction xs arbitrary: need s)
  case (Cons i js)
  obtain need1 s1 where r: "napi_poll_slot poll i (need, s) = (need1, s1)" by fastforce
  have "settles backlog v s s1 \<and> (need1 \<longrightarrow> need \<or> backlog (world s1) < backlog (world s))"
  proof (cases "napi_ready (g_napi s i)")
    case False
    then show ?thesis using r by (simp add: napi_slot_skip settles_refl)
  next
    case True
    obtain n t where a: "poll (np_poll (g_napi s i)) (np_ctx (g_napi s i)) (napi_budget (g_napi s i)) s = (n, t)" by fastforce
    have "settles backlog v s t" "napi_budget (g_napi s i) \<le> n \<Longrightarrow> backlog (world t) < backlog (world s)"
      using poll full [OF napi_budget_pos] a by (metis fst_conv snd_conv)+
    then show ?thesis
      using napi_slot_ready [where poll = poll and need = need, OF True a] r by (auto simp: set_napi_def settles_def)
  qed
  then show ?case using Cons.IH [where need = need1 and s = s1] settles_trans r by (auto simp: settles_def split: prod.splits)
qed (simp add: settles_refl)

section \<open>The interrupt loop returns\<close>

lemma pending_first:
  assumes "pending_vectors s = i # is" "bit (g_pending_mask s) j" "j \<le> i"
  shows "j = i"
proof -
  have "sorted_wrt (<) (i # is)" unfolding assms(1) [symmetric] pending_vectors_def by (intro sorted_wrt_filter sorted_wrt_upt)
  moreover have "set (i # is) = {j. j < 8 \<and> bit (g_pending_mask s) j}"
    unfolding assms(1) [symmetric] pending_vectors_def by (auto simp del: upt_rec_numeral)
  moreover have "i \<in> set (i # is)" by simp
  ultimately have "j \<in> set (i # is)" "\<And>k. k \<in> set is \<Longrightarrow> i < k" using assms(2,3) by auto
  then show ?thesis using assms(3) by fastforce
qed

lemma load_less:
  assumes "pending_vectors s = i # is" "\<And>j. j \<le> i \<Longrightarrow> \<not> bit (g_pending_mask s') j"
  shows "load s' < load s"
proof -
  have i: "i \<in> set (pending_vectors s)" unfolding assms(1) by simp
  then have "i < 8" unfolding pending_vectors_def by (simp del: upt_rec_numeral)
  have "(\<Sum>j \<in> {Suc k..<8}. 2 ^ (7 - j)) < (2 :: nat) ^ (7 - k)" if "k < 8" for k
  proof -
    have "\<forall>k \<in> set [0..<8]. (\<Sum>j \<in> set [Suc k..<8]. 2 ^ (7 - j)) < (2 :: nat) ^ (7 - k)" by code_simp
    then show ?thesis using that by (metis atLeast0LessThan lessThan_iff set_upt)
  qed
  moreover have "load s' \<le> (\<Sum>j \<in> {Suc i..<8}. 2 ^ (7 - j))"
    unfolding load_def using assms(2) by (intro sum_mono2)
      (auto simp: pending_vectors_def Suc_le_eq not_le [symmetric] simp del: upt_rec_numeral)
  moreover have "2 ^ (7 - i) \<le> load s" unfolding load_def using i by (intro member_le_sum) auto
  ultimately show ?thesis using \<open>i < 8\<close> by (meson le_less_trans less_le_trans)
qed

lemma handler_returns:
  assumes d: "drains backlog cb work poll user" and inv: "deferred_inv s" and far: "unat (g_jiffies s) + 2 ^ 32 \<le> 2 ^ 64"
    and p: "pending_vectors s = i # is" and f: "g_handlers s i = Some f"
  shows "\<exists>s'. kernel_call cb work poll user f ctx (ack i s) = Some s' \<and> settles backlog i (ack i s) s'"
proof -
  have h: "i = 0 \<Longrightarrow> f = TimerH" "i = 1 \<Longrightarrow> f = NapiH" "i = 2 \<Longrightarrow> f = WorkH" "2 < i \<Longrightarrow> \<exists>h. f = UserH h"
    using inv f by (auto simp: deferred_inv_def installed_def)
  have "i \<in> set (pending_vectors s)" unfolding p by simp
  then have i8: "i < 8" unfolding pending_vectors_def by (simp del: upt_rec_numeral)
  consider "i = 0" | "i = 1" | "i = 2" | "2 < i" by linarith
  then show ?thesis
  proof cases
    case 1
    have "unat (g_jiffies (ack i s)) + 2 ^ 32 \<le> 2 ^ 64" using far by (simp only: ack_frame)
    from timer_loop_returns [of backlog 0 cb, OF _ this, of 0 "ack i s"] d h(1) [OF 1] 1 show ?thesis
      by (auto simp: drains_def kernel_call_def timer_softirq_handler_def)
  next
    case 2
    obtain need s1 where r: "fold (napi_poll_slot poll) [0..<32] (False, ack i s) = (need, s1)" by fastforce
    have "settles backlog 1 (ack i s) s1 \<and> (need \<longrightarrow> False \<or> backlog (world s1) < backlog (world (ack i s)))"
      using napi_fold_settles [of backlog 1 poll, where xs = "[0..<32]" and need = False and s = "ack i s"] d unfolding r drains_def by auto
    then show ?thesis
      using h(2) [OF 2] 2 r by (auto simp: kernel_call_def napi_softirq_handler_def settles_def qos_softirq_raise_def vector_valid_def)
  next
    case 3
    from wq_loop_returns [of backlog 2 work "ack i s"] d h(3) [OF 3] 3 show ?thesis
      by (auto simp: drains_def kernel_call_def workqueue_softirq_handler_def)
  next
    case 4
    then obtain h where "f = UserH h" using h(4) by blast
    moreover obtain s' where "user h ctx (ack i s) = Some s'" "settles backlog 7 (ack i s) s'" using d unfolding drains_def by blast
    ultimately show ?thesis using i8 by (auto simp: kernel_call_def settles_def)
  qed
qed

text \<open>One pass of the loop keeps the invariant and the time, and leaves less to do.\<close>

lemma pass_returns:
  assumes d: "drains backlog cb work poll user"
    and out: "outside_code cb work poll user"
    and inv: "deferred_inv s" and far: "unat (g_jiffies s) + 2 ^ 32 \<le> 2 ^ 64" and p: "pending_vectors s = i # is"
  shows "\<exists>c s'. softirq_pass (kernel_call cb work poll user) s = Some (c, s') \<and> deferred_inv s' \<and> g_jiffies s' = g_jiffies s \<and>
    (backlog (world s') < backlog (world s) \<or> backlog (world s') = backlog (world s) \<and> load s' < load s)"
proof -
  have "g_pending_mask s \<noteq> 0" using p inv by (auto simp: deferred_inv_def softirq_mask_zero)
  note keep = pass_inv [OF out inv this]
  have low: "\<not> bit (g_pending_mask (ack i s)) j" if "j \<le> i" for j
    using that pending_first [OF p, of j] by (auto simp: ack_bit)
  show ?thesis
  proof (cases "g_handlers s i")
    case None
    then have r: "softirq_pass (kernel_call cb work poll user) s = Some (False, ack i s)" by (simp add: pass_first [OF p])
    then show ?thesis using keep load_less [OF p low] by (auto simp: napi_ack)
  next
    case (Some f)
    obtain s' where s': "kernel_call cb work poll user f (g_handler_ctx s i) (ack i s) = Some s'" "settles backlog i (ack i s) s'"
      using handler_returns [OF d inv far p Some] by blast
    then have r: "softirq_pass (kernel_call cb work poll user) s = Some (True, s')" using Some by (simp add: pass_first [OF p])
    have "backlog (world s') = backlog (world s) \<Longrightarrow> load s' < load s"
      using s'(2) low by (intro load_less [OF p]) (auto simp: settles_def napi_ack)
    then show ?thesis using r keep s'(2) by (auto simp: settles_def napi_ack)
  qed
qed

lemma deferred_loop:
  assumes d: "drains backlog cb work poll user"
    and out: "outside_code cb work poll user"
  shows "deferred_inv s \<Longrightarrow> unat (g_jiffies s) + 2 ^ 32 \<le> 2 ^ 64 \<Longrightarrow>
    \<exists>m s'. softirq_loop (kernel_call cb work poll user) n s = Some (m, s') \<and> deferred_inv s' \<and>
      g_pending_mask s' = 0 \<and> backlog (world s') \<le> backlog (world s)"
proof (induction "(backlog (world s), load s)" arbitrary: n s
    rule: wf_induct_rule [OF wf_lex_prod [OF wf_less_than wf_less_than]])
  case (1 s n)
  show ?case
  proof (cases "pending_vectors s")
    case Nil
    then have "g_pending_mask s = 0" using 1(2) by (simp add: deferred_inv_def softirq_mask_zero)
    then show ?thesis using 1(2) by (subst softirq_loop.simps) simp
  next
    case (Cons i js)
    then have m: "g_pending_mask s \<noteq> 0" using 1(2) by (simp add: deferred_inv_def softirq_mask_zero)
    from pass_returns [OF d out 1(2,3) Cons] obtain c s1 where
      s1: "softirq_pass (kernel_call cb work poll user) s = Some (c, s1)" "deferred_inv s1" "g_jiffies s1 = g_jiffies s"
        "backlog (world s1) < backlog (world s) \<or> backlog (world s1) = backlog (world s) \<and> load s1 < load s" by blast
    then have lt: "((backlog (world s1), load s1), (backlog (world s), load s)) \<in> less_than <*lex*> less_than"
      "backlog (world s1) \<le> backlog (world s)" by auto
    have "unat (g_jiffies s1) + 2 ^ 32 \<le> 2 ^ 64" using 1(3) s1(3) by simp
    from 1(1) [OF lt(1) s1(2) this, of "if c then n + 1 else n"] lt(2) show ?thesis
      using m s1(1) by (subst softirq_loop.simps) (auto intro: order.trans)
  qed
qed

section \<open>Receivers\<close>

lemma napi_handler_exact:
  assumes n: "napi_inv s" and k: "keeps_napi poll"
  defines "s' \<equiv> napi_softirq_handler poll (ack 1 s)"
  shows "\<exists>rs s1. poll_all poll (ready_slots (g_napi s)) (ack 1 s) = (rs, s1) \<and> map fst rs = ready_slots (g_napi s) \<and>
    s' = (if \<exists>(i, n) \<in> set rs. napi_budget (g_napi s i) \<le> n then snd (qos_softirq_raise 1 s1) else s1) \<and>
    (\<forall>i < 32. np_used (g_napi s' i) \<and> np_scheduled (g_napi s' i) \<longleftrightarrow> (\<exists>n. (i, n) \<in> set rs \<and> napi_budget (g_napi s i) \<le> n)) \<and>
    (bit (g_pending_mask s') 1 \<longleftrightarrow> (\<exists>i < 32. np_used (g_napi s' i) \<and> np_scheduled (g_napi s' i)))"
proof -
  obtain rs s1 where r: "poll_all poll (ready_slots (g_napi s)) (ack 1 s) = (rs, s1)" by fastforce
  have d: "distinct (ready_slots (g_napi s))" unfolding ready_slots_def by (rule distinct_filter) (rule distinct_upt)
  note p = poll_all_napi [OF k d r, unfolded napi_ack]
  let ?full = "\<exists>(i, n) \<in> set rs. napi_budget (g_napi s i) \<le> n"
  have s': "s' = (if ?full then snd (qos_softirq_raise 1 s1) else s1)"
    using napi_handler_poll_all [OF k, of "ack 1 s" rs s1] r unfolding s'_def napi_ack by simp
  have g: "g_napi s' = napi_after (g_napi s) rs" using p(2) by (simp add: s' napi_raise_bit)
  have u: "i < 32 \<Longrightarrow> np_used (g_napi s i) \<Longrightarrow> np_poll (g_napi s i) \<noteq> 0" for i using n by (simp add: napi_inv_def)
  have sched: "np_used (g_napi s' i) \<and> np_scheduled (g_napi s' i) \<longleftrightarrow> (\<exists>n. (i, n) \<in> set rs \<and> napi_budget (g_napi s i) \<le> n)"
    if "i < 32" for i using napi_after_scheduled [OF p(1) that u] unfolding g by simp
  have lt: "i < 32" if "(i, n) \<in> set rs" for i n
    using that p(1) set_ready_slots [of "g_napi s"] by (metis (mono_tags, lifting) fst_conv image_eqI list.set_map mem_Collect_eq)
  have "bit (g_pending_mask s') 1 \<longleftrightarrow> ?full"
    using p(3) napi_ack(3) [of 1 s] napi_raise_bit(1) [of s1] by (simp add: s')
  also have "\<dots> \<longleftrightarrow> (\<exists>i < 32. np_used (g_napi s' i) \<and> np_scheduled (g_napi s' i))" using sched lt by blast
  finally show ?thesis using r p(1) s' sched by blast
qed

text \<open>
  Why outside code must not tick the clock while it is called: the tick marks the periodic timer whose callback is
  running, the handler then moves the expiry past the time, and the mark stays. The next run of the handler
  finds the timer not due, and from then on no tick raises the interrupt for it, however late.
\<close>

lemma timer_loop_idle: "(\<And>j. i \<le> j \<Longrightarrow> j < QOS_TIMER_MAX \<Longrightarrow> \<not> timer_due now (g_timers s j)) \<Longrightarrow> timer_loop cb now i s = Some s"
  by (induction "QOS_TIMER_MAX - i" arbitrary: i) (subst timer_loop.simps, simp add: timer_fire_skip)+

lemma tick_while_serving_stalls:
  "let cb = (\<lambda>f p. qos_timer_tick 1); s = ack 0 (qos_timer_tick 10 (snd (qos_timer_add 10 5 100 0 (deferred_zero ()))));
       s1 = the (timer_softirq_handler cb s); s2 = qos_timer_tick 1000 (ack 0 s1) in
   timer_softirq_handler cb (ack 0 s1) = Some (ack 0 s1) \<and> g_jiffies s2 = 1011 \<and> t_used (g_timers s2 0) \<and>
   t_expires (g_timers s2 0) = 15 \<and> qos_softirq_pending_mask s2 = 0"
proof -
  define s where "s = ack 0 (qos_timer_tick 10 (snd (qos_timer_add 10 5 100 0 (deferred_zero ()))))"
  define cb :: "unit callback" where "cb = (\<lambda>f p. qos_timer_tick 1)"
  define s1 where "s1 = the (timer_fire cb 10 0 s)"
  have f: "timer_fire cb 10 0 s \<noteq> None" "g_jiffies s = 10" unfolding cb_def s_def by code_simp+
  have t: "g_timers s1 0 = \<lparr>t_used = True, t_periodic = True, t_pending = True, t_expires = 15, t_interval = 5, t_callback = 100, t_ctx = 0\<rparr>"
    "g_jiffies s1 = 11" "g_pending_mask (ack 0 s1) = 0"
    unfolding s1_def cb_def s_def by code_simp+
  have "\<forall>j \<in> set [1..<128]. \<not> t_used (g_timers s1 j)" unfolding s1_def cb_def s_def by code_simp
  then have u: "\<not> t_used (g_timers s1 j)" if "j \<noteq> 0" "j < 128" for j using that by (simp del: upt_rec_numeral)
  have "timer_loop cb 10 1 s1 = Some s1" using u by (intro timer_loop_idle) (auto simp: timer_due_def)
  moreover have "timer_fire cb 10 0 s = Some s1" using f(1) by (simp add: s1_def)
  ultimately have h: "timer_softirq_handler cb s = Some s1"
    unfolding timer_softirq_handler_def f(2) by (subst timer_loop.simps) simp
  have "\<not> timer_due 11 (g_timers s1 j)" if "j < 128" for j using u [OF _ that] t(1) by (cases "j = 0") (auto simp: timer_due_def)
  then have idle: "timer_softirq_handler cb (ack 0 s1) = Some (ack 0 s1)"
    unfolding timer_softirq_handler_def ack_frame t(2) by (intro timer_loop_idle) (simp add: ack_frame)
  have "\<not> timer_expired 1011 (g_timers s1 j)" if "j < 128" for j
    using u [OF _ that] t(1) by (cases "j = 0") (auto simp: timer_expired_def)
  then have "qos_softirq_pending_mask (qos_timer_tick 1000 (ack 0 s1)) = 0" "g_timers (qos_timer_tick 1000 (ack 0 s1)) 0 = g_timers s1 0"
    "g_jiffies (qos_timer_tick 1000 (ack 0 s1)) = 1011"
    using t by (auto simp: qos_timer_tick_def Let_def ack_frame qos_softirq_pending_mask_def)
  then show ?thesis using idle t unfolding Let_def cb_def [symmetric] s_def [symmetric] h by simp
qed

section \<open>Properties\<close>

text \<open>
  C7. The deferred work drains. Let timers, work queue, receivers, threads and software interrupts be in a state
  they reach through the calls of their interface, in any order and also by the code they call, through ticks
  of a clock that does not wrap around, and through earlier runs of the software interrupts. Let the code that
  \<open>qos_softirq_run\<close> calls act on these components through their interface only, without ticking the clock or
  running the software interrupts itself, let the uptime be at least 2^32 ticks away from wrapping around, and
  let the called code drain: no call adds to a backlog that the world outside determines; a call that takes
  nothing off it raises only interrupts above the one being served; a work function that queues work
  and a poll that uses up its budget take something off it; other handlers return. Then \<open>qos_softirq_run\<close>
  returns, and afterwards no interrupt is pending, no work is queued, no receiver is scheduled, no timer waits for its
  callback, the components are well formed and the backlog is not larger. (Without draining the loop need not
  end: a work function that queues itself keeps it running.)
\<close>

theorem deferred_work_drains:
  assumes r: "reach s" and out: "outside_code cb work poll user" and d: "drains backlog cb work poll user"
    and far: "unat (g_jiffies s) + 2 ^ 32 \<le> 2 ^ 64"
  shows "\<exists>n s'. qos_softirq_run (kernel_call cb work poll user) s = Some (n, s') \<and>
    qos_softirq_pending_mask s' = 0 \<and> qos_workqueue_pending_count s' = 0 \<and> qos_napi_pending_count s' = 0 \<and>
    qos_timer_pending_count s' = 0 \<and> deferred_inv s' \<and> backlog (world s') \<le> backlog (world s)"
proof -
  obtain n s' where s': "softirq_loop (kernel_call cb work poll user) 0 s = Some (n, s')"
    "deferred_inv s'" "g_pending_mask s' = 0" "backlog (world s') \<le> backlog (world s)"
    using deferred_loop [OF d out reach_inv [OF r] far] by blast
  have ring: "wq_ring s' = []" "wq_inv s'" using s'(2,3) by (auto simp: deferred_inv_def)
  have "qos_workqueue_pending_count s' = 0"
    by (rule wq_pending_zero) (use ring in \<open>auto simp: wq_inv_def\<close>)
  moreover have N: "{i. i < 32 \<and> np_used (g_napi s' i) \<and> np_scheduled (g_napi s' i)} = {}"
    using s'(2,3) by (auto simp: deferred_inv_def napi_inv_def)
  have "qos_napi_pending_count s' = 0" unfolding qos_napi_pending_count_def slot_count_card N by simp
  moreover have T: "{i. i < 128 \<and> t_used (g_timers s' i) \<and> t_pending (g_timers s' i)} = {}"
    using s'(2,3) by (auto simp: deferred_inv_def)
  have "qos_timer_pending_count s' = 0" unfolding qos_timer_pending_count_def slot_count_card T by simp
  ultimately show ?thesis using s' by (auto simp: qos_softirq_run_def qos_softirq_pending_mask_def)
qed

text \<open>
  A world of 10 waiting packets: a receiver with budget 4 is scheduled and a timer is due, whose callback queues
  a piece of work. Three polls empty the backlog.
\<close>

theorem deferred_work_drains_witness:
  "let cb = (\<lambda>f p s. snd (snd (qos_workqueue_enqueue 300 0 s))); work = (\<lambda>f p s. s); user = (\<lambda>h ctx. Some);
       poll = (\<lambda>f p b s. (word_of_nat (min (unat b) (world s)), s\<lparr>world := world s - unat b\<rparr>));
       s0 = deferred_init (deferred_zero (10 :: nat)); s1 = snd (snd (qos_napi_register 4 100 0 s0));
       s2 = snd (qos_napi_schedule 1 s1); s3 = snd (qos_timer_add 2 0 200 0 s2); s = qos_timer_tick 3 s3 in
   reach s \<and> outside_code cb work poll user \<and> drains (\<lambda>w. w) cb work poll user \<and>
   (\<exists>n s'. qos_softirq_run (kernel_call cb work poll user) s = Some (n, s') \<and> qos_softirq_pending_mask s' = 0)"
proof -
  define cb :: "nat callback" where "cb = (\<lambda>f p s. snd (snd (qos_workqueue_enqueue 300 0 s)))"
  define work :: "nat callback" where "work = (\<lambda>f p s. s)"
  define user :: "ptr \<Rightarrow> ptr \<Rightarrow> nat deferred \<Rightarrow> nat deferred option" where "user = (\<lambda>h ctx. Some)"
  define poll :: "nat napi_poll" where
    "poll = (\<lambda>f p b s. (word_of_nat (min (unat b) (world s)), s\<lparr>world := world s - unat b\<rparr>))"
  define s3 where "s3 = snd (qos_timer_add 2 0 200 0 (snd (qos_napi_schedule 1 (snd (snd (qos_napi_register 4 100 0
    (deferred_init (deferred_zero (10 :: nat)))))))))"
  have j: "g_jiffies s3 = 0" "g_jiffies (qos_timer_tick 3 s3) = 3" unfolding s3_def by code_simp+
  have "iface (deferred_init (deferred_zero 10)) s3" unfolding s3_def by (intro iface.intros)
  then have "reach s3" by (rule reach.step [OF reach.init dstep.outside])
  then have r: "reach (qos_timer_tick 3 s3)" by (rule reach.step [OF _ dstep.tick]) (simp add: j)
  have out: "outside_code cb work poll user"
    unfolding outside_code_def iface_cb_def iface_poll_def iface_handler_def cb_def work_def poll_def user_def
    by (auto intro: iface.intros)
  have "unat (word_of_nat (min (unat b) w) :: u32) = min (unat b) w" for b :: u32 and w
    using unat_u32_lt [of b] by (intro unat_u32_of_nat) simp
  moreover have "settles (\<lambda>w. w) 0 s (snd (snd (qos_workqueue_enqueue f p s)))" for f p and s :: "nat deferred"
    by (auto simp: settles_def qos_workqueue_enqueue_def queue_push_def set_work_def qos_softirq_raise_def vector_valid_def bit_simps
        split_beta Let_def split: option.splits)
  ultimately have d: "drains (\<lambda>w. w) cb work poll user"
    unfolding drains_def cb_def work_def poll_def user_def by (auto simp: settles_def word_le_nat_alt word_less_nat_alt)
  have "unat (g_jiffies (qos_timer_tick 3 s3)) + 2 ^ 32 \<le> 2 ^ 64" by (simp add: j)
  from deferred_work_drains [OF r out d this] r out d show ?thesis
    unfolding Let_def cb_def [symmetric] work_def [symmetric] poll_def [symmetric] user_def [symmetric] s3_def [symmetric] by blast
qed

text \<open>
  C32. No scheduled receiver is forgotten. In a well-formed state the receive interrupt is pending while an instance is
  scheduled, and registering, scheduling and completing keep that. So does the handler, called after the
  interrupt is acknowledged, with poll functions that may themselves call every function of the interface,
  those of the receivers included. If the polls leave the receivers and their interrupt alone, the
  handler polls each scheduled instance once, in slot order and with its weight as the budget; exactly the
  instances that used up their budget stay scheduled, and the interrupt is pending again exactly when
  there is one.
\<close>

theorem napi_no_lost_work:
  assumes inv: "deferred_inv s" and poll: "iface_poll poll"
  defines "s' \<equiv> napi_softirq_handler poll (ack 1 s)"
  shows "napi_inv s \<and> napi_inv s' \<and> napi_inv (snd (snd (qos_napi_register weight f p s))) \<and>
    napi_inv (snd (qos_napi_schedule nid s)) \<and> napi_inv (snd (qos_napi_complete nid s)) \<and>
    (keeps_napi poll \<longrightarrow> (\<exists>rs s1. poll_all poll (ready_slots (g_napi s)) (ack 1 s) = (rs, s1) \<and>
      map fst rs = ready_slots (g_napi s) \<and>
      set (ready_slots (g_napi s)) = {i. i < QOS_NAPI_MAX \<and> np_used (g_napi s i) \<and> np_scheduled (g_napi s i)} \<and>
      s' = (if \<exists>(i, n) \<in> set rs. napi_budget (g_napi s i) \<le> n then snd (qos_softirq_raise QOS_SOFTIRQ_NET_RX s1) else s1) \<and>
      (\<forall>i < QOS_NAPI_MAX. np_used (g_napi s' i) \<and> np_scheduled (g_napi s' i) \<longleftrightarrow>
        (\<exists>n. (i, n) \<in> set rs \<and> napi_budget (g_napi s i) \<le> n)) \<and>
      (bit (g_pending_mask s') 1 \<longleftrightarrow> (\<exists>i < QOS_NAPI_MAX. np_used (g_napi s' i) \<and> np_scheduled (g_napi s' i)))))"
proof -
  have n: "napi_inv s" using inv by (simp add: deferred_inv_def)
  have "dinv False UNIV {} (ack 1 s)" using dinv_ack [OF inv, of 1] by simp
  from napi_handler_inv [OF poll this] have n': "napi_inv s'" by (simp add: deferred_inv_def s'_def)
  have "set (ready_slots (g_napi s)) = {i. i < 32 \<and> np_used (g_napi s i) \<and> np_scheduled (g_napi s i)}"
    using n by (auto simp: set_ready_slots napi_ready_def napi_inv_def)
  then show ?thesis using n n' napi_handler_exact [OF n, of poll, folded s'_def] napi_inv_ops [of "{}" s] unfolding napi_inv_but_none by blast
qed

text \<open>
  Two instances and polls that note the call: the first uses up its budget of 4, the second stops below its budget
  of 8. With polls that schedule the first instance again, the invariant still holds.
\<close>

theorem napi_no_lost_work_witness:
  "let s0 = deferred_init (deferred_zero ([] :: (ptr \<times> u32) list));
       s1 = snd (snd (qos_napi_register 4 100 0 s0)); s2 = snd (snd (qos_napi_register 8 200 0 s1));
       s3 = snd (qos_napi_schedule 1 s2); s = snd (qos_napi_schedule 2 s3);
       s' = napi_softirq_handler (\<lambda>f p b s. (5, s\<lparr>world := world s @ [(f, b)]\<rparr>)) (ack 1 s) in
   world s' = [(100, 4), (200, 8)] \<and> np_scheduled (g_napi s' 0) \<and> \<not> np_scheduled (g_napi s' 1) \<and>
   bit (g_pending_mask s') 1 \<and> napi_inv (napi_softirq_handler (\<lambda>f p b s. (0, snd (qos_napi_schedule 1 s))) (ack 1 s))"
proof -
  define poll :: "(ptr \<times> u32) list napi_poll" where "poll = (\<lambda>f p b s. (5, s\<lparr>world := world s @ [(f, b)]\<rparr>))"
  define again :: "(ptr \<times> u32) list napi_poll" where "again = (\<lambda>f p b s. (0, snd (qos_napi_schedule 1 s)))"
  define s where "s = snd (qos_napi_schedule 2 (snd (qos_napi_schedule 1 (snd (snd (qos_napi_register 8 200 0
    (snd (snd (qos_napi_register 4 100 0 (deferred_init (deferred_zero ([] :: (ptr \<times> u32) list))))))))))))"
  have "iface (deferred_init (deferred_zero [])) s" unfolding s_def by (intro iface.intros)
  then have inv: "deferred_inv s"
    using iface_dinv [of _ s False "{}" "{}"] deferred_inv_init [of "deferred_zero []"] by (simp add: dinv_none)
  have k: "keeps_napi poll" by (simp add: keeps_napi_def poll_def)
  have i: "iface_poll poll" "iface_poll again"
    unfolding iface_poll_def poll_def again_def by (auto intro: iface.intros)
  have r: "fst (poll_all poll (ready_slots (g_napi s)) (ack 1 s)) = [(0, 5), (1, 5)]"
    "world (snd (poll_all poll (ready_slots (g_napi s)) (ack 1 s))) = [(100, 4), (200, 8)]"
    "napi_budget (g_napi s 0) \<le> 5" "\<not> napi_budget (g_napi s 1) \<le> 5" "np_used (g_napi s 1)"
    unfolding s_def poll_def by code_simp+
  let ?s' = "napi_softirq_handler poll (ack 1 s)"
  obtain rs s1 where p: "poll_all poll (ready_slots (g_napi s)) (ack 1 s) = (rs, s1)"
    "?s' = (if \<exists>(i, n) \<in> set rs. napi_budget (g_napi s i) \<le> n then snd (qos_softirq_raise 1 s1) else s1)"
    "\<And>i. i < 32 \<Longrightarrow> np_used (g_napi ?s' i) \<and> np_scheduled (g_napi ?s' i) \<longleftrightarrow> (\<exists>n. (i, n) \<in> set rs \<and> napi_budget (g_napi s i) \<le> n)"
    "bit (g_pending_mask ?s') 1 \<longleftrightarrow> (\<exists>i < 32. np_used (g_napi ?s' i) \<and> np_scheduled (g_napi ?s' i))"
    using napi_no_lost_work [OF inv i(1), of 0 0 0 0] k by blast
  have rs: "rs = [(0, 5), (1, 5)]" "world s1 = [(100, 4), (200, 8)]" using r(1,2) p(1) by simp_all
  have "np_used (g_napi ?s' 0) \<and> np_scheduled (g_napi ?s' 0)" "\<not> (np_used (g_napi ?s' 1) \<and> np_scheduled (g_napi ?s' 1))"
    using p(3) [of 0] p(3) [of 1] r(3,4) by (auto simp: rs)
  moreover have "np_used (g_napi ?s' 1)" unfolding poll_def s_def by code_simp
  moreover have "world ?s' = [(100, 4), (200, 8)]" unfolding p(2) using rs(2) by (simp add: qos_softirq_raise_def)
  moreover have "bit (g_pending_mask ?s') 1" unfolding p(4) using calculation(1) by (intro exI [of _ 0]) simp
  moreover have "napi_inv (napi_softirq_handler again (ack 1 s))" using napi_no_lost_work [OF inv i(2), of 0 0 0 0] by blast
  ultimately show ?thesis
    unfolding Let_def poll_def [symmetric] again_def [symmetric] s_def [symmetric] by blast
qed

end
