(* ===== verification/Kstate.thy ===== *)
theory Kstate
  imports Shlib Vfs Sched Pmm Vmm Drivers Signals Deferred
begin

text \<open>
  The state of the whole kernel: the initialisation bits of \<^verbatim>\<open>src/c-os/kernel/init_state.c\<close> and one field per
  component; and the memory of the caller of a system call. That memory is flat: a byte for every 64-bit
  address, separate from the kernel's own tables. A C string ends at the first zero byte.
\<close>

section \<open>State\<close>

record 'w kernel =
  k_init :: u32
  k_pmm :: pmm
  k_vmm :: vmm
  k_sched :: sched
  k_vfs :: vfs
  k_net :: net
  k_drivers :: drivers
  k_proc :: proc_state
  k_def :: "'w deferred"
  k_sys :: syscall

type_synonym umem = "u64 \<Rightarrow> u8"

section \<open>Model\<close>

definition qos_kernel_state_reset :: "'w kernel \<Rightarrow> 'w kernel" where
  "qos_kernel_state_reset k = k\<lparr>k_init := 0\<rparr>"

definition qos_kernel_state_mark :: "u32 \<Rightarrow> 'w kernel \<Rightarrow> 'w kernel" where
  "qos_kernel_state_mark b k = k\<lparr>k_init := k_init k OR b\<rparr>"

definition qos_kernel_state_get :: "'w kernel \<Rightarrow> u32" where
  "qos_kernel_state_get k = k_init k"

definition qos_kernel_init_state :: "'w kernel \<Rightarrow> u32" where
  "qos_kernel_init_state k = qos_kernel_state_get k"

subsection \<open>The caller's memory\<close>

definition mem_bytes :: "umem \<Rightarrow> u64 \<Rightarrow> nat \<Rightarrow> bytes" where
  "mem_bytes m p n = map (\<lambda>i. m (p + word_of_nat i)) [0..<n]"

definition mem_store :: "u64 \<Rightarrow> bytes \<Rightarrow> umem \<Rightarrow> umem" where
  "mem_store p bs m = (\<lambda>a. if unat (a - p) < length bs then bs ! unat (a - p) else m a)"

text \<open>A pointer argument as a buffer or as a string; address 0 is the null pointer.\<close>

definition buf_at :: "umem \<Rightarrow> u64 \<Rightarrow> nat \<Rightarrow> bytes option" where
  "buf_at m p n = (if p = 0 then None else Some (mem_bytes m p n))"

definition str_len :: "umem \<Rightarrow> u64 \<Rightarrow> nat" where
  "str_len m p = (case scan (\<lambda>i. m (p + word_of_nat i) = 0) 0 (2 ^ 64) of Some n \<Rightarrow> n | None \<Rightarrow> 2 ^ 64)"

definition str_at :: "umem \<Rightarrow> u64 \<Rightarrow> cstr" where
  "str_at m p = (if p = 0 then None else Some (map (\<lambda>b. char_of (unat b)) (mem_bytes m p (str_len m p))))"

text \<open>Storing little-endian numbers.\<close>

definition le32 :: "u32 \<Rightarrow> bytes" where
  "le32 w = map (\<lambda>i. ucast (drop_bit (8 * i) w)) [0..<4]"

definition le64 :: "u64 \<Rightarrow> bytes" where
  "le64 w = map (\<lambda>i. ucast (drop_bit (8 * i) w)) [0..<8]"

section \<open>Lemmas\<close>

lemma length_mem_bytes [simp]: "length (mem_bytes m p n) = n"
  by (simp add: mem_bytes_def)

lemma mem_bytes_store:
  assumes "length bs \<le> 2 ^ 64"
  shows "mem_bytes (mem_store p bs m) p (length bs) = bs"
proof (rule nth_equalityI)
  fix i assume "i < length (mem_bytes (mem_store p bs m) p (length bs))"
  then have "i < length bs" by simp
  moreover from this assms have "unat (word_of_nat i :: u64) = i" by (intro unat_u64_of_nat) simp
  ultimately show "mem_bytes (mem_store p bs m) p (length bs) ! i = bs ! i"
    by (simp add: mem_bytes_def mem_store_def)
qed simp

lemma mem_store_Nil [simp]: "mem_store p [] m = m"
  by (simp add: mem_store_def)

end
