(* ===== verification/Sockcall.thy ===== *)
theory Sockcall
  imports Kstate
begin

text \<open>
  The socket calls of \<open>qos_syscall_dispatch\<close> in \<^verbatim>\<open>src/c-os/kernel/syscall/syscall.c\<close>: one definition per branch,
  with the branch's arguments after their conversion, the caller's memory and the kernel. The result is the
  returned value, the memory and the kernel.
\<close>

section \<open>Model\<close>

type_synonym 'w sysret = "int \<times> umem \<times> 'w kernel"

definition set_net :: "syscall \<Rightarrow> net \<Rightarrow> 'w kernel \<Rightarrow> 'w kernel" where
  "set_net s n k = k\<lparr>k_sys := s, k_net := n\<rparr>"

definition put_sock :: "nat \<Rightarrow> sock \<Rightarrow> syscall \<Rightarrow> syscall" where
  "put_sock fd q s = put_fd fd ((g_fds s fd)\<lparr>f_sock := q\<rparr>) s"

definition is_socket :: "nat \<Rightarrow> syscall \<Rightarrow> bool" where
  "is_socket fd s \<longleftrightarrow> fd_valid fd s \<and> f_kind (g_fds s fd) = QOS_FD_KIND_SOCKET"

text \<open>Reading from the canned reply of the host; the code of \<open>READ\<close> and of \<open>RECV\<close>.\<close>

definition host_stream_recv :: "nat \<Rightarrow> u64 \<Rightarrow> u32 \<Rightarrow> umem \<Rightarrow> 'w kernel \<Rightarrow> 'w sysret" where
  "host_stream_recv fd out len m k =
     (let q = f_sock (g_fds (k_sys k) fd); got = unat (s_stream_len q) in
      if got = 0 then (-1, m, k)
      else let copy_len = (if got > unat len then unat len else got);
               remain = got - copy_len in
        (int copy_len, mem_store out (take copy_len (s_stream_buf q)) m,
         k\<lparr>k_sys := put_sock fd (q\<lparr>s_stream_buf := take remain (drop copy_len (s_stream_buf q)) @
               replicate (QOS_NET_MAX_PACKET - remain) 0, s_stream_len := word_of_nat remain\<rparr>) (k_sys k)\<rparr>))"

definition is_host_stream :: "sock \<Rightarrow> bool" where
  "is_host_stream q \<longleftrightarrow> s_type q = QOS_SOCK_STREAM \<and> s_conn_id q < 0 \<and> s_rip q = QOS_NET_IPV4_GATEWAY"

text \<open>Taking the echo reply out of a raw socket.\<close>

definition raw_taken :: "sock \<Rightarrow> sock" where
  "raw_taken q = q\<lparr>s_raw_len := 0, s_raw_src_ip := 0, s_raw_buf := replicate QOS_NET_MAX_PACKET 0\<rparr>"

definition net_recv :: "u64 \<Rightarrow> u32 \<Rightarrow> umem \<Rightarrow> 'w kernel \<Rightarrow> 'w sysret" where
  "net_recv out len m k =
     (let (r, d, n) = qos_net_dequeue_packet True len (k_net k) in
      (r, (case d of None \<Rightarrow> m | Some bs \<Rightarrow> mem_store out bs m), k\<lparr>k_net := n\<rparr>))"

definition net_send :: "u64 \<Rightarrow> u32 \<Rightarrow> umem \<Rightarrow> 'w kernel \<Rightarrow> 'w sysret" where
  "net_send src len m k =
     (let (r, n) = qos_net_enqueue_packet (buf_at m src (unat len)) len (k_net k) in
      (if r = 0 then int (unat len) else -1, m, k\<lparr>k_net := n\<rparr>))"

text \<open>The socket branch of \<open>READ\<close>; \<open>out\<close> is not null.\<close>

definition read_socket :: "nat \<Rightarrow> u64 \<Rightarrow> u32 \<Rightarrow> umem \<Rightarrow> 'w kernel \<Rightarrow> 'w sysret" where
  "read_socket fd out len m k =
     (let q = f_sock (g_fds (k_sys k) fd) in
      if \<not> s_connected q \<or> len = 0 then (-1, m, k)
      else if is_host_stream q then host_stream_recv fd out len m k
      else if s_type q = QOS_SOCK_RAW then
        let got = s_raw_len q in
        if got = 0 \<or> ucast got > len then (-1, m, k)
        else (int (unat got), mem_store out (take (unat got) (s_raw_buf q)) m,
              k\<lparr>k_sys := put_sock fd (raw_taken q) (k_sys k)\<rparr>)
      else if s_type q = QOS_SOCK_DGRAM then
        if s_lport q = 0 then (-1, m, k)
        else let ((r, msg), n) = qos_net_udp_recv (s_lport q) True len (k_net k) in
          (r, (case msg of None \<Rightarrow> m | Some (_, _, bs) \<Rightarrow> mem_store out bs m), k\<lparr>k_net := n\<rparr>)
      else net_recv out len m k)"

text \<open>Echoing a packet through a raw socket, as \<open>WRITE\<close> and \<open>SEND\<close> do.\<close>

definition raw_echo :: "nat \<Rightarrow> u32 \<Rightarrow> u16 \<Rightarrow> u64 \<Rightarrow> u32 \<Rightarrow> umem \<Rightarrow> 'w kernel \<Rightarrow> 'w sysret" where
  "raw_echo fd remote_ip remote_port src len m k =
     (let q = f_sock (g_fds (k_sys k) fd) in
      if remote_ip = 0 \<or> unat len > QOS_NET_MAX_PACKET then (-1, m, k)
      else case qos_net_icmp_echo remote_ip (buf_at m src (unat len)) len True (word_of_nat QOS_NET_MAX_PACKET) of
        (got, Some reply, Some src_ip) \<Rightarrow>
          if got < 0 then (-1, m, k)
          else (int (unat len), m,
            k\<lparr>k_sys := put_sock fd (q\<lparr>s_rport := remote_port, s_rip := remote_ip,
                s_raw_buf := memcpy_to (s_raw_buf q) reply (nat got), s_raw_len := word_of_int got,
                s_raw_src_ip := src_ip\<rparr>) (k_sys k)\<rparr>)
      | _ \<Rightarrow> (-1, m, k))"

definition host_stream_send :: "nat \<Rightarrow> u64 \<Rightarrow> u32 \<Rightarrow> umem \<Rightarrow> 'w kernel \<Rightarrow> 'w sysret" where
  "host_stream_send fd src len m k =
     (let (r, s) = stream_host_response_prepare fd (buf_at m src (unat len)) len (k_sys k) in
      (if r \<noteq> 0 then -1 else int (unat len), m, k\<lparr>k_sys := s\<rparr>))"

text \<open>The socket branch of \<open>WRITE\<close>; \<open>src\<close> is not null.\<close>

definition write_socket :: "nat \<Rightarrow> u64 \<Rightarrow> u32 \<Rightarrow> umem \<Rightarrow> 'w kernel \<Rightarrow> 'w sysret" where
  "write_socket fd src len m k =
     (let q = f_sock (g_fds (k_sys k) fd) in
      if \<not> s_connected q \<or> len = 0 then (-1, m, k)
      else if is_host_stream q then host_stream_send fd src len m k
      else if s_type q = QOS_SOCK_RAW then raw_echo fd (s_rip q) (s_rport q) src len m k
      else if s_type q = QOS_SOCK_DGRAM then
        if s_lport q = 0 \<or> s_rport q = 0 \<or> s_rip q = 0 then (-1, m, k)
        else let (r, n) = qos_net_udp_send (s_lport q) QOS_NET_IPV4_LOCAL (s_rport q) (buf_at m src (unat len)) len (k_net k) in
          (r, m, k\<lparr>k_net := n\<rparr>)
      else net_send src len m k)"

definition sys_socket :: "u64 \<Rightarrow> u64 \<Rightarrow> umem \<Rightarrow> 'w kernel \<Rightarrow> 'w sysret" where
  "sys_socket a0 a1 m k =
     (if a0 \<noteq> 2 \<or> (a1 \<noteq> ucast QOS_SOCK_STREAM \<and> a1 \<noteq> ucast QOS_SOCK_DGRAM \<and> a1 \<noteq> ucast QOS_SOCK_RAW) then (-1, m, k)
      else case fd_alloc QOS_FD_KIND_SOCKET (k_sys k) of
        (None, s) \<Rightarrow> (-1, m, k)
      | (Some fd, s) \<Rightarrow> (int fd, m, k\<lparr>k_sys := put_sock fd ((f_sock (g_fds s fd))\<lparr>s_type := ucast a1\<rparr>) s\<rparr>))"

definition sys_bind :: "nat \<Rightarrow> u64 \<Rightarrow> u32 \<Rightarrow> umem \<Rightarrow> 'w kernel \<Rightarrow> 'w sysret" where
  "sys_bind fd addr len m k =
     (let s = k_sys k; q = f_sock (g_fds s fd) in
      if \<not> is_socket fd s \<or> s_bound q then (-1, m, k)
      else case parse_sockaddr (buf_at m addr 8) len True of
        None \<Rightarrow> (-1, m, k)
      | Some (port, ip) \<Rightarrow>
          let q1 = q\<lparr>s_bound := True, s_lport := port\<rparr> in
          if s_type q = QOS_SOCK_RAW then (0, m, k\<lparr>k_sys := put_sock fd q1 s\<rparr>)
          else let (r, s1) = socket_port_mark (s_type q) port s in
            if r \<noteq> 0 then (-1, m, k)
            else if s_type q = QOS_SOCK_DGRAM then
              let (b, n1) = qos_net_udp_bind port (k_net k) in
              if b \<noteq> 0 then (-1, m, set_net (socket_port_unmark (s_type q) port s1) n1 k)
              else (0, m, set_net (put_sock fd q1 s1) n1 k)
            else (0, m, k\<lparr>k_sys := put_sock fd q1 s1\<rparr>))"

definition sys_listen :: "nat \<Rightarrow> u64 \<Rightarrow> umem \<Rightarrow> 'w kernel \<Rightarrow> 'w sysret" where
  "sys_listen fd a1 m k =
     (let s = k_sys k; q = f_sock (g_fds s fd);
          backlog = (if unat (ucast a1 :: u32) > QOS_SOCK_PENDING_MAX then QOS_SOCK_PENDING_MAX else unat (ucast a1 :: u32)) in
      if \<not> is_socket fd s \<or> s_type q \<noteq> QOS_SOCK_STREAM \<or> \<not> s_bound q \<or> s_lport q = 0 \<or> a1 = 0 then (-1, m, k)
      else if backlog = 0 then (-1, m, k)
      else let (listener_id, n) = qos_net_tcp_listen (s_lport q) (k_net k) in
        if listener_id < 0 then (-1, m, k)
        else (0, m, set_net (put_sock fd (q\<lparr>s_listening := True, s_backlog := word_of_nat backlog\<rparr>) s) n k))"

text \<open>The address of the peer, written when both pointers are given and the caller's length is 16 at least.\<close>

definition accept_addr :: "u64 \<Rightarrow> u64 \<Rightarrow> u16 \<Rightarrow> u32 \<Rightarrow> umem \<Rightarrow> umem" where
  "accept_addr addr addrlen port ip m =
     (if addr \<noteq> 0 \<and> addrlen \<noteq> 0 then
        if (le_word (mem_bytes m addrlen 4) :: u32) \<ge> 16
        then mem_store addrlen (le32 16) (mem_store addr (write_sockaddr port ip) m)
        else mem_store addrlen (le32 0) m
      else if addrlen \<noteq> 0 then mem_store addrlen (le32 0) m
      else m)"

definition sys_accept :: "nat \<Rightarrow> u64 \<Rightarrow> u64 \<Rightarrow> umem \<Rightarrow> 'w kernel \<Rightarrow> 'w sysret" where
  "sys_accept fd a1 a2 m k =
     (let s = k_sys k; q = f_sock (g_fds s fd) in
      if \<not> is_socket fd s \<or> s_type q \<noteq> QOS_SOCK_STREAM \<or> \<not> s_listening q \<or> s_pending q = 0 then (-1, m, k)
      else case fd_alloc QOS_FD_KIND_SOCKET s of
        (None, s1) \<Rightarrow> (-1, m, k)
      | (Some newfd, s1) \<Rightarrow>
          (case socket_pending_pop fd s1 of
             (None, s2) \<Rightarrow> (case fd_clear newfd s2 (k_net k) of (s3, n3) \<Rightarrow> (-1, m, set_net s3 n3 k))
           | (Some (peer_port, peer_ip, peer_conn_id), s2) \<Rightarrow>
               let s3 = put_sock newfd ((f_sock (g_fds s2 newfd))\<lparr>s_bound := True, s_connected := True,
                          s_type := QOS_SOCK_STREAM, s_lport := s_lport (f_sock (g_fds s2 fd)), s_rport := peer_port,
                          s_rip := peer_ip, s_conn_id := peer_conn_id\<rparr>) s2;
                   s4 = put_sock fd ((f_sock (g_fds s3 fd))\<lparr>s_pending_rport := peer_port, s_pending_rip := peer_ip,
                          s_pending_conn_id := peer_conn_id\<rparr>) s3 in
               (int newfd, accept_addr a1 a2 peer_port peer_ip m, k\<lparr>k_sys := s4\<rparr>)))"

text \<open>\<open>(int16_t)conn_id\<close>\<close>

definition to_int16 :: "int \<Rightarrow> int" where
  "to_int16 c = sint (word_of_int c :: u16)"

definition find_listener :: "nat \<Rightarrow> u16 \<Rightarrow> syscall \<Rightarrow> nat option" where
  "find_listener fd remote_port s =
     scan (\<lambda>i. let r = g_fds s i; q = f_sock r in i \<noteq> fd \<and> fd_valid i s \<and> f_kind r = QOS_FD_KIND_SOCKET \<and>
       s_type q = QOS_SOCK_STREAM \<and> s_listening q \<and> s_lport q = remote_port) 0 QOS_FD_MAX"

definition connect_stream :: "nat \<Rightarrow> u16 \<Rightarrow> u32 \<Rightarrow> umem \<Rightarrow> 'w kernel \<Rightarrow> 'w sysret" where
  "connect_stream fd remote_port remote_ip m k =
     (let s = k_sys k; q = f_sock (g_fds s fd); local_port = s_lport q in
      case find_listener fd remote_port s of
        None \<Rightarrow>
          if remote_ip \<noteq> QOS_NET_IPV4_GATEWAY then (-1, m, k)
          else let (lp, s1) = (if local_port = 0 then socket_port_alloc QOS_SOCK_STREAM s else (local_port, s)) in
            if lp = 0 then (-1, m, k)
            else (0, m, k\<lparr>k_sys := put_sock fd (q\<lparr>s_bound := True, s_lport := lp, s_connected := True,
                   s_rport := remote_port, s_rip := remote_ip, s_conn_id := -1\<rparr>) s1\<rparr>)
      | Some listener \<Rightarrow>
          let lq = f_sock (g_fds s listener) in
          if s_backlog lq = 0 \<or> s_pending lq \<ge> s_backlog lq then (-1, m, k)
          else let (lp, s1) = (if local_port = 0 then socket_port_alloc QOS_SOCK_STREAM s else (local_port, s));
                   undo = (\<lambda>s'. if local_port = 0 then socket_port_unmark QOS_SOCK_STREAM lp s' else s') in
            if lp = 0 then (-1, m, k)
            else let (conn_id, n1) = qos_net_tcp_connect lp remote_ip remote_port (k_net k) in
              if conn_id < 0 then (-1, m, set_net (undo s1) n1 k)
              else let (r, n2) = qos_net_tcp_step conn_id QOS_TCP_EVT_RX_SYN_ACK n1 in
                if r \<noteq> 0 then (-1, m, set_net (undo s1) n2 k)
                else let s2 = put_sock fd (q\<lparr>s_bound := True, s_lport := lp, s_connected := True,
                                s_rport := remote_port, s_rip := remote_ip, s_conn_id := to_int16 conn_id\<rparr>) s1;
                         (p, s3) = socket_pending_push listener lp QOS_NET_IPV4_LOCAL (to_int16 conn_id) s2 in
                  if p \<noteq> 0 then (-1, m, set_net (undo s3) n2 k) else (0, m, set_net s3 n2 k))"

text \<open>An unbound datagram socket gets a free port, as in \<open>CONNECT\<close> and \<open>SEND\<close>: the port, 0 if there is none.\<close>

definition auto_bind :: "nat \<Rightarrow> 'w kernel \<Rightarrow> u16 \<times> 'w kernel" where
  "auto_bind fd k =
     (let q = f_sock (g_fds (k_sys k) fd) in
      if s_lport q \<noteq> 0 then (s_lport q, k)
      else let (lp, s1) = socket_port_alloc QOS_SOCK_DGRAM (k_sys k) in
        if lp = 0 then (0, k)
        else let (b, n1) = qos_net_udp_bind lp (k_net k) in
          if b \<noteq> 0 then (0, set_net (socket_port_unmark QOS_SOCK_DGRAM lp s1) n1 k)
          else (lp, set_net (put_sock fd (q\<lparr>s_bound := True, s_lport := lp\<rparr>) s1) n1 k))"

definition sys_connect :: "nat \<Rightarrow> u64 \<Rightarrow> u32 \<Rightarrow> umem \<Rightarrow> 'w kernel \<Rightarrow> 'w sysret" where
  "sys_connect fd addr len m k =
     (let s = k_sys k; q = f_sock (g_fds s fd) in
      if \<not> is_socket fd s then (-1, m, k)
      else case parse_sockaddr (buf_at m addr 8) len False of
        None \<Rightarrow> (-1, m, k)
      | Some (remote_port, remote_ip) \<Rightarrow>
          if s_type q = QOS_SOCK_STREAM then connect_stream fd remote_port remote_ip m k
          else if s_type q = QOS_SOCK_DGRAM then
            let (lp, k1) = auto_bind fd k in
            if lp = 0 then (-1, m, k1)
            else (0, m, k1\<lparr>k_sys := put_sock fd ((f_sock (g_fds (k_sys k1) fd))\<lparr>s_connected := True, s_rport := remote_port,
                   s_rip := remote_ip\<rparr>) (k_sys k1)\<rparr>)
          else if s_type q = QOS_SOCK_RAW then
            (0, m, k\<lparr>k_sys := put_sock fd (q\<lparr>s_bound := True, s_lport := (if s_lport q = 0 then 1 else s_lport q),
               s_connected := True, s_rport := remote_port, s_rip := remote_ip\<rparr>) s\<rparr>)
          else (-1, m, k))"

text \<open>Where a datagram or an echo goes: to the connected peer or to the address given.\<close>

definition send_target :: "sock \<Rightarrow> u64 \<Rightarrow> umem \<Rightarrow> (u16 \<times> u32) option" where
  "send_target q a3 m = (if s_connected q then Some (s_rport q, s_rip q) else parse_sockaddr (buf_at m a3 8) 16 False)"

definition sys_send :: "nat \<Rightarrow> u64 \<Rightarrow> u32 \<Rightarrow> u64 \<Rightarrow> umem \<Rightarrow> 'w kernel \<Rightarrow> 'w sysret" where
  "sys_send fd src len a3 m k =
     (let s = k_sys k; q = f_sock (g_fds s fd) in
      if \<not> is_socket fd s \<or> src = 0 \<or> len = 0 then (-1, m, k)
      else if s_type q = QOS_SOCK_STREAM \<and> \<not> s_connected q then (-1, m, k)
      else if s_type q = QOS_SOCK_RAW then
        (case send_target q a3 m of
           None \<Rightarrow> (-1, m, k)
         | Some (remote_port, remote_ip) \<Rightarrow> raw_echo fd remote_ip remote_port src len m k)
      else if s_type q = QOS_SOCK_DGRAM then
        (case send_target q a3 m of
           None \<Rightarrow> (-1, m, k)
         | Some (remote_port, remote_ip) \<Rightarrow>
             let (lp, k1) = auto_bind fd k in
             if lp = 0 then (-1, m, k1)
             else if remote_port = 0 \<or> remote_ip = 0 then (-1, m, k1)
             else let s1 = put_sock fd ((f_sock (g_fds (k_sys k1) fd))\<lparr>s_rport := remote_port, s_rip := remote_ip\<rparr>) (k_sys k1);
                      (r, n) = qos_net_udp_send lp QOS_NET_IPV4_LOCAL remote_port (buf_at m src (unat len)) len (k_net k1) in
               (r, m, set_net s1 n k1))
      else if is_host_stream q then host_stream_send fd src len m k
      else net_send src len m k)"

definition sys_recv :: "nat \<Rightarrow> u64 \<Rightarrow> u32 \<Rightarrow> u64 \<Rightarrow> umem \<Rightarrow> 'w kernel \<Rightarrow> 'w sysret" where
  "sys_recv fd out len a3 m k =
     (let s = k_sys k; q = f_sock (g_fds s fd);
          peer = (\<lambda>port ip m. if a3 = 0 then m else mem_store a3 (write_sockaddr port ip) m) in
      if \<not> is_socket fd s \<or> out = 0 \<or> len = 0 then (-1, m, k)
      else if s_type q = QOS_SOCK_STREAM \<and> \<not> s_connected q then (-1, m, k)
      else if s_type q = QOS_SOCK_RAW then
        let got = s_raw_len q in
        if got = 0 \<or> ucast got > len then (-1, m, k)
        else (int (unat got), peer 1 (s_raw_src_ip q) (mem_store out (take (unat got) (s_raw_buf q)) m),
              k\<lparr>k_sys := put_sock fd (raw_taken q) s\<rparr>)
      else if s_type q = QOS_SOCK_DGRAM then
        if s_lport q = 0 then (-1, m, k)
        else let ((r, msg), n) = qos_net_udp_recv (s_lport q) True len (k_net k) in
          if r < 0 then (-1, m, k\<lparr>k_net := n\<rparr>)
          else (r, (case msg of None \<Rightarrow> m | Some (src_ip, src_port, bs) \<Rightarrow> peer src_port src_ip (mem_store out bs m)),
                k\<lparr>k_net := n\<rparr>)
      else if is_host_stream q then host_stream_recv fd out len m k
      else net_recv out len m k)"

end
