(* ===== verification/Holding.thy ===== *)
theory Holding
  imports Sockcall
begin

text \<open>
  How the invariant of the descriptor tables survives the changes the system calls make: a descriptor that
  changes and holds at least what it held, a fresh descriptor, a network stack that changes elsewhere, a new
  file, a new pipe.
\<close>

section \<open>Specification\<close>

text \<open>The tables that calls on descriptors leave alone, and the paths of the files that have one.\<close>

definition sys_rest :: "syscall \<Rightarrow> call_slot arr \<times> u32 \<times> shlib_slot arr \<times> u32 \<times> module_slot arr \<times> u32" where
  "sys_rest s = (g_calls s, g_call_count s, g_shlibs s, g_shlib_next_handle s, g_modules s, g_module_next_id s)"

definition named :: "syscall \<Rightarrow> string set" where
  "named s = {p. p \<noteq> [] \<and> (\<exists>j < QOS_FILE_MAX. fl_used (g_files s j) \<and> fl_path (g_files s j) = p)}"

text \<open>A call on descriptors keeps their invariant, names no new file and changes nothing else.\<close>

definition keeps :: "'w kernel \<Rightarrow> 'w sysret \<Rightarrow> bool" where
  "keeps k r \<longleftrightarrow> (let k' = snd (snd r) in
     fd_inv (k_sys k) (k_net k) \<longrightarrow> fd_inv (k_sys k') (k_net k') \<and> named (k_sys k') \<subseteq> named (k_sys k) \<and>
     sys_rest (k_sys k') = sys_rest (k_sys k) \<and> k' = set_net (k_sys k') (k_net k') k)"

text \<open>A call that fails has no effect.\<close>

definition atomic :: "umem \<Rightarrow> 'w kernel \<Rightarrow> 'w sysret \<Rightarrow> bool" where
  "atomic m k r \<longleftrightarrow> (fst r = -1 \<longrightarrow> snd r = (m, k))"

text \<open>A socket whose port and role stay the same.\<close>

definition same_binding :: "sock \<Rightarrow> sock \<Rightarrow> bool" where
  "same_binding q q' \<longleftrightarrow> s_bound q' = s_bound q \<and> s_type q' = s_type q \<and> s_lport q' = s_lport q \<and> s_listening q' = s_listening q"

text \<open>A kernel with nothing open, for the witnesses.\<close>

definition idle_kernel :: "nat kernel" where
  "idle_kernel =
     \<lparr>k_init = 0, k_pmm = qos_pmm_reset, k_vmm = qos_vmm_reset, k_sched = qos_sched_reset, k_vfs = qos_vfs_reset,
      k_net = qos_net_reset, k_drivers = qos_drivers_reset, k_proc = qos_proc_reset, k_def = deferred_zero 0,
      k_sys = qos_syscall_reset\<rparr>"

section \<open>Descriptors that keep what they hold\<close>

lemma unat_u8_of_nat: "n < 256 \<Longrightarrow> unat (word_of_nat n :: u8) = n"
  by (simp add: unsigned_of_nat take_bit_nat_eq_self)

lemma held_grow: "fd < QOS_FD_MAX \<Longrightarrow> h (g fd) \<subseteq> h r \<Longrightarrow> held h (g(fd := r)) = held h g \<union> h r"
  by (auto simp: held_put held_split [of fd h g])

lemma fd_inv_grow:
  assumes inv: "fd_inv s n" and fd: "fd < QOS_FD_MAX"
    and s': "g_fds s' = (g_fds s)(fd := r)" "g_files s' = g_files s" "g_pipes s' = g_pipes s"
    and r: "f_used r" "fd_ok (g_files s) (g_pipes s) r"
    and grow: "holds_file (g_fds s fd) \<subseteq> holds_file r" "holds_pipe (g_fds s fd) \<subseteq> holds_pipe r"
      "holds_port (g_fds s fd) \<subseteq> holds_port r" "holds_listener (g_fds s fd) \<subseteq> holds_listener r"
    and marks: "\<And>t p. t \<noteq> QOS_SOCK_RAW \<Longrightarrow> marked t p s' \<longleftrightarrow> marked t p s \<or> (t, p) \<in> holds_port r"
    and udp: "\<And>p. udp_port_is_bound p n' \<longleftrightarrow> udp_port_is_bound p n \<or> (QOS_SOCK_DGRAM, p) \<in> holds_port r"
    and tcp: "\<And>p. tcp_listener_exists p n' \<longleftrightarrow> tcp_listener_exists p n \<or> p \<in> holds_listener r"
    and net: "net_inv n'"
  shows "fd_inv s' n'"
proof -
  have parts: "fds_inv s" "files_inv s" "pipes_inv s" "ports_inv s n" using inv by (auto simp: fd_inv_def)
  have h: "held holds_file (g_fds s') = held holds_file (g_fds s) \<union> holds_file r"
    "held holds_pipe (g_fds s') = held holds_pipe (g_fds s) \<union> holds_pipe r"
    "held holds_port (g_fds s') = held holds_port (g_fds s) \<union> holds_port r"
    "held holds_listener (g_fds s') = held holds_listener (g_fds s) \<union> holds_listener r"
    unfolding s' by (simp_all only: held_grow fd grow)
  have "fds_inv s'" using parts(1) r by (auto simp: fds_inv_def s')
  moreover have "files_inv s'" using parts(2) unfolding files_inv_def h by (auto simp: s' Let_def)
  moreover have "pipes_inv s'"
  proof -
    have "pi_used (g_pipes s j)" if "j \<in> holds_pipe r" for j using r(2) that by (simp add: fd_ok_def)
    then show ?thesis using parts(3) unfolding pipes_inv_def h by (auto simp: s' Let_def)
  qed
  moreover have "ports_inv s' n'" using parts(4) unfolding ports_inv_def h by (auto simp: marks udp tcp)
  ultimately show ?thesis using net by (simp add: fd_inv_def)
qed

text \<open>A descriptor whose data change, and nothing else.\<close>

lemma fd_inv_update:
  assumes "fd_inv s n" "fd < QOS_FD_MAX" "f_used r" "fd_ok (g_files s) (g_pipes s) r"
    "holds_file r = holds_file (g_fds s fd)" "holds_pipe r = holds_pipe (g_fds s fd)"
    "holds_port r = holds_port (g_fds s fd)" "holds_listener r = holds_listener (g_fds s fd)"
  shows "fd_inv (put_fd fd r s) n"
proof (rule fd_inv_grow [OF assms(1,2), where r = r])
  note old = assms(1) [unfolded fd_inv_def ports_inv_def]
  have in_held: "holds_port (g_fds s fd) \<subseteq> held holds_port (g_fds s)" "holds_listener (g_fds s fd) \<subseteq> held holds_listener (g_fds s)"
    using assms(2) by (auto intro: holds_heldI)
  show "marked t p (put_fd fd r s) \<longleftrightarrow> marked t p s \<or> (t, p) \<in> holds_port r" if "t \<noteq> QOS_SOCK_RAW" for t p
    using old that in_held(1) by (auto simp: assms(7))
  show "udp_port_is_bound p n \<longleftrightarrow> udp_port_is_bound p n \<or> (QOS_SOCK_DGRAM, p) \<in> holds_port r" for p
    using old in_held(1) by (auto simp: assms(7))
  show "tcp_listener_exists p n \<longleftrightarrow> tcp_listener_exists p n \<or> p \<in> holds_listener r" for p
    using old in_held(2) by (auto simp: assms(8))
qed (use assms in \<open>auto simp: fd_inv_def\<close>)

text \<open>A fresh descriptor that holds nothing.\<close>

lemma fd_inv_fresh:
  assumes "fd_inv s n" "fd < QOS_FD_MAX" "\<not> f_used (g_fds s fd)" "f_used r" "fd_ok (g_files s) (g_pipes s) r"
    "holds_file r = {}" "holds_pipe r = {}" "holds_port r = {}" "holds_listener r = {}"
  shows "fd_inv (put_fd fd r s) n"
  using assms by (intro fd_inv_update) (auto simp: holds_file_def holds_pipe_def holds_port_def holds_listener_def)

text \<open>The network stack changes, but not its ports.\<close>

lemma fd_inv_net:
  "fd_inv s n \<Longrightarrow> net_inv n' \<Longrightarrow> (\<And>p. udp_port_is_bound p n' = udp_port_is_bound p n) \<Longrightarrow>
     (\<And>p. tcp_listener_exists p n' = tcp_listener_exists p n) \<Longrightarrow> fd_inv s n'"
  by (auto simp: fd_inv_def ports_inv_def)

text \<open>The data of a file or of a pipe change.\<close>

lemma fd_inv_put_file:
  assumes inv: "fd_inv s n" and j: "j < QOS_FILE_MAX"
    and f: "length (fl_data f) = QOS_PIPE_CAP" "unat (fl_len f) \<le> QOS_PIPE_CAP" "length (fl_path f) < QOS_FILE_PATH_MAX"
      "drop (unat (fl_len f)) (fl_data f) = replicate (QOS_PIPE_CAP - unat (fl_len f)) 0" "\<not> fl_used f \<Longrightarrow> f = file0"
    and held: "fl_used f \<Longrightarrow> fl_path f = [] \<Longrightarrow> j \<in> held holds_file (g_fds s)" "j \<in> held holds_file (g_fds s) \<Longrightarrow> fl_used f"
    and path: "\<And>i. i < QOS_FILE_MAX \<Longrightarrow> i \<noteq> j \<Longrightarrow> fl_used (g_files s i) \<Longrightarrow> fl_used f \<Longrightarrow> fl_path f \<noteq> [] \<Longrightarrow> fl_path (g_files s i) \<noteq> fl_path f"
  shows "fd_inv (put_file j f s) n"
proof -
  have parts: "fds_inv s" "files_inv s" "pipes_inv s" "ports_inv s n" "net_inv n" using inv by (auto simp: fd_inv_def)
  have "files_inv (put_file j f s)"
    unfolding files_inv_def
  proof (intro conjI allI impI)
    fix i :: nat assume "i < 128"
    then show "let f' = g_files (put_file j f s) i in length (fl_data f') = 1024 \<and> unat (fl_len f') \<le> 1024 \<and>
        length (fl_path f') < 128 \<and> drop (unat (fl_len f')) (fl_data f') = replicate (1024 - unat (fl_len f')) 0 \<and>
        (fl_used f' \<longrightarrow> fl_path f' = [] \<longrightarrow> i \<in> held holds_file (g_fds (put_file j f s))) \<and> (\<not> fl_used f' \<longrightarrow> f' = file0)"
      using parts(2) f held(1) by (cases "i = j") (auto simp: files_inv_def Let_def)
  next
    fix a b :: nat assume ab: "a < 128" "b < 128"
    assume "fl_used (g_files (put_file j f s) a) \<and> fl_used (g_files (put_file j f s) b) \<and>
        fl_path (g_files (put_file j f s) a) = fl_path (g_files (put_file j f s) b) \<and> fl_path (g_files (put_file j f s) a) \<noteq> []"
    then show "a = b"
      using parts(2) ab path [of a] path [of b] unfolding files_inv_def by (cases "a = j"; cases "b = j") auto
  qed
  moreover have "fds_inv (put_file j f s)"
    using parts(1) held(2) holds_heldI [of _ j holds_file "g_fds s"] by (auto simp: fds_inv_def fd_ok_def)
  moreover have "pipes_inv (put_file j f s)" using parts(3) pipes_inv_cong [of "put_file j f s" s] by simp
  ultimately show ?thesis using parts(4,5) by (simp add: fd_inv_def ports_inv_def)
qed

lemma fd_inv_file:
  assumes "fd_inv s n" "j < QOS_FILE_MAX" "fl_used f = fl_used (g_files s j)" "fl_path f = fl_path (g_files s j)" "fl_used f"
    "length (fl_data f) = QOS_PIPE_CAP" "unat (fl_len f) \<le> QOS_PIPE_CAP"
    "drop (unat (fl_len f)) (fl_data f) = replicate (QOS_PIPE_CAP - unat (fl_len f)) 0"
  shows "fd_inv (put_file j f s) n"
proof (rule fd_inv_put_file)
  have inv: "files_inv s" using assms(1) by (simp add: fd_inv_def)
  then show "length (fl_path f) < 128" "fl_path f = [] \<Longrightarrow> j \<in> held holds_file (g_fds s)"
    using assms(2,3,4,5) by (auto simp: files_inv_def Let_def)
  show "fl_path (g_files s i) \<noteq> fl_path f" if "i < 128" "i \<noteq> j" "fl_used (g_files s i)" "fl_path f \<noteq> []" for i
    using inv that assms(2,3,4,5) unfolding files_inv_def by metis
qed (use assms in simp_all)

lemma fd_inv_pipe:
  assumes "fd_inv s n" "j < QOS_PIPE_MAX" "pi_used (g_pipes s j)" "pi_used q" "length (pi_buf q) = QOS_PIPE_CAP" "unat (pi_len q) \<le> QOS_PIPE_CAP"
  shows "fd_inv (put_pipe j q s) n"
proof -
  have parts: "fds_inv s" "files_inv s" "pipes_inv s" "ports_inv s n" "net_inv n" using assms(1) by (auto simp: fd_inv_def)
  have "pipes_inv (put_pipe j q s)" using parts(3) assms by (auto simp: pipes_inv_def Let_def)
  moreover have "fds_inv (put_pipe j q s)" using parts(1) assms(4) by (auto simp: fds_inv_def fd_ok_def)
  moreover have "files_inv (put_pipe j q s)" using parts(2) files_inv_cong [of "put_pipe j q s" s] by simp
  ultimately show ?thesis using parts(4,5) by (simp add: fd_inv_def ports_inv_def)
qed

section \<open>Calls that keep the invariant\<close>

lemma rest_put [simp]:
  "sys_rest (put_fd i r s) = sys_rest s" "sys_rest (put_file j f s) = sys_rest s" "sys_rest (put_pipe j q s) = sys_rest s"
  "sys_rest (put_sock i k s) = sys_rest s" "sys_rest (set_port_bitmap t b s) = sys_rest s"
  by (simp_all add: sys_rest_def put_fd_def put_file_def put_pipe_def put_sock_def set_port_bitmap_def)

lemma rest_ops [simp]:
  "sys_rest (snd (socket_port_mark t p s)) = sys_rest s" "sys_rest (socket_port_unmark t p s) = sys_rest s"
  "sys_rest (snd (socket_port_alloc t s)) = sys_rest s" "sys_rest (snd (fd_alloc kind s)) = sys_rest s"
  "sys_rest (snd (file_ensure path s)) = sys_rest s" "sys_rest (file_unlink_path path s) = sys_rest s"
  "sys_rest (snd (pipe_alloc s)) = sys_rest s" "sys_rest (fst (fd_clear fd s n)) = sys_rest s"
  "sys_rest (snd (socket_pending_push fd pp ip c s)) = sys_rest s" "sys_rest (snd (socket_pending_pop fd s)) = sys_rest s"
  by (auto simp: socket_port_mark_def socket_port_unmark_def socket_port_alloc_def fd_alloc_def file_ensure_def file_alloc_def
      file_unlink_path_def file_drop_def pipe_alloc_def fd_clear_def release_pipe_def release_file_def release_port_def
      socket_pending_push_def socket_pending_pop_def Let_def split: option.splits)

lemma named_cong: "g_files s' = g_files s \<Longrightarrow> named s' = named s"
  by (simp add: named_def)

lemma named_put [simp]: "named (put_fd i r s) = named s" "named (put_pipe j q s) = named s" "named (put_sock i k s) = named s"
  by (simp_all add: named_def put_sock_def)

lemma named_ports [simp]: "named (snd (socket_port_mark t p s)) = named s" "named (socket_port_unmark t p s) = named s"
  by (intro named_cong; simp)+

lemma keepsI:
  "(fd_inv (k_sys k) (k_net k) \<Longrightarrow> fd_inv s n \<and> named s \<subseteq> named (k_sys k)) \<Longrightarrow> sys_rest s = sys_rest (k_sys k) \<Longrightarrow>
     keeps k (r, m', set_net s n k)"
  by (simp add: keeps_def set_net_def)

lemma set_net_sys: "k\<lparr>k_sys := s\<rparr> = set_net s (k_net k) k" and set_net_net: "k\<lparr>k_net := n\<rparr> = set_net (k_sys k) n k"
  by (simp_all add: set_net_def)

lemma set_net_sel [simp]: "k_sys (set_net s n k) = s" "k_net (set_net s n k) = n" "set_net s' n' (set_net s n k) = set_net s' n' k"
  by (simp_all add: set_net_def)

lemma keeps_assume: "(fd_inv (k_sys k) (k_net k) \<Longrightarrow> keeps k r) \<Longrightarrow> keeps k r"
  by (auto simp: keeps_def Let_def)

lemma keeps_same [simp]: "keeps k (r, m', k)"
  by (simp add: keeps_def set_net_def)

lemma keeps_if [intro]: "(b \<Longrightarrow> keeps k x) \<Longrightarrow> (\<not> b \<Longrightarrow> keeps k y) \<Longrightarrow> keeps k (if b then x else y)"
  by simp

lemma keeps_sys:
  "(fd_inv (k_sys k) (k_net k) \<Longrightarrow> fd_inv s (k_net k)) \<Longrightarrow> named s \<subseteq> named (k_sys k) \<Longrightarrow> sys_rest s = sys_rest (k_sys k) \<Longrightarrow>
     keeps k (r, m', k\<lparr>k_sys := s\<rparr>)"
  unfolding set_net_sys by (rule keepsI) auto

lemma keeps_net: "(fd_inv (k_sys k) (k_net k) \<Longrightarrow> fd_inv (k_sys k) n) \<Longrightarrow> keeps k (r, m', k\<lparr>k_net := n\<rparr>)"
  unfolding set_net_net by (rule keepsI) auto

text \<open>The tables after a reset.\<close>

lemma fd_inv_reset: "fd_inv qos_syscall_reset qos_net_reset"
proof -
  have h: "held holds_file (g_fds qos_syscall_reset) = {}" "held holds_pipe (g_fds qos_syscall_reset) = {}"
      "held holds_port (g_fds qos_syscall_reset) = {}" "held holds_listener (g_fds qos_syscall_reset) = {}"
    by (simp_all add: held_def qos_syscall_reset_def holds_file_def holds_pipe_def holds_port_def holds_listener_def fd0_def)
  have "fds_inv qos_syscall_reset" "files_inv qos_syscall_reset" "pipes_inv qos_syscall_reset"
    unfolding fds_inv_def files_inv_def pipes_inv_def h by (simp_all add: qos_syscall_reset_def fd0_def file0_def pipe0_def)
  moreover have "ports_inv qos_syscall_reset qos_net_reset"
    unfolding ports_inv_def h by (auto simp: marked_def qos_syscall_reset_def socket_port_bitmap_def udp_port_is_bound_def
        tcp_listener_exists_def qos_net_reset_def scan_None_iff split: option.splits)
  moreover have "net_inv qos_net_reset"
    using net_reset_inv udp_reset_inv tcp_reset_inv by (simp add: net_inv_def listeners_inv_def qos_net_reset_def)
  ultimately show ?thesis by (simp add: fd_inv_def)
qed

lemma idle_fd_inv: "fd_inv (k_sys idle_kernel) (k_net idle_kernel)"
  using fd_inv_reset by (simp add: idle_kernel_def)

end
