(* ===== verification/Sockinv.thy ===== *)
theory Sockinv
  imports Holding
begin

text \<open>
  The socket calls keep the invariant of the descriptors and of the network stack, and fail without effect.
\<close>

section \<open>The network stack under the socket calls\<close>

lemma net_inv_packets:
  assumes "net_inv n" "packets_inv n'" "n' = n\<lparr>g_packets := a, g_head := b, g_tail := c, g_pcount := d\<rparr>"
  shows "net_inv n'"
  using assms by (simp add: net_inv_def arp_inv_def udp_inv_def dg_list_def tcp_inv_def listeners_inv_def)

lemma fd_inv_packets:
  assumes "fd_inv s n" "packets_inv n'" "n' = n\<lparr>g_packets := a, g_head := b, g_tail := c, g_pcount := d\<rparr>"
  shows "fd_inv s n'"
  using assms net_inv_packets [OF _ assms(2,3)]
  by (intro fd_inv_net [OF assms(1)]) (auto simp: fd_inv_def udp_port_is_bound_def tcp_listener_exists_def)

lemma fd_inv_enqueue:
  assumes "fd_inv s n" "unat len \<le> length d"
  shows "fd_inv s (snd (qos_net_enqueue_packet (Some d) len n))"
proof (cases "len = 0 \<or> unat len > 1500 \<or> unat (g_pcount n) \<ge> 32")
  case True
  then have "qos_net_enqueue_packet (Some d) len n = (-1, n)" by (auto simp: qos_net_enqueue_packet_def)
  then show ?thesis using assms(1) by simp
next
  case False
  have "packets_inv n" using assms(1) by (simp add: fd_inv_def net_inv_def)
  then obtain n' where n': "qos_net_enqueue_packet (Some d) len n = (0, n')" "packets_inv n'"
    using packets_push [of n len d] False assms(2) by auto
  from n'(1) False have eq: "n' = n\<lparr>g_packets := g_packets n', g_head := g_head n', g_tail := g_tail n', g_pcount := g_pcount n'\<rparr>"
    by (auto simp: qos_net_enqueue_packet_def Let_def)
  have "fd_inv s n'" by (rule fd_inv_packets [OF assms(1) n'(2) eq])
  then show ?thesis using n'(1) by simp
qed

lemma fd_inv_dequeue:
  assumes "fd_inv s n"
  shows "fd_inv s (snd (snd (qos_net_dequeue_packet True cap n)))"
proof (cases "cap = 0 \<or> packets n = []")
  case True
  then have "qos_net_dequeue_packet True cap n = (-1, None, n)"
    by (auto simp: qos_net_dequeue_packet_def packets_def ring_list_def unat_eq_0)
  then show ?thesis using assms by simp
next
  case False
  then obtain x xs where xs: "packets n = x # xs" by (cases "packets n") auto
  have "packets_inv n" using assms(1) by (simp add: fd_inv_def net_inv_def)
  then obtain n' where n': "qos_net_dequeue_packet True cap n = (if unat cap < length x then (-1, None, n) else (int (length x), Some x, n'))"
    "packets_inv n'"
    using packets_pop [OF _ xs] False by blast
  show ?thesis
  proof (cases "unat cap < length x")
    case False
    with n' have q: "qos_net_dequeue_packet True cap n = (int (length x), Some x, n')" by simp
    then have eq: "n' = n\<lparr>g_packets := g_packets n', g_head := g_head n', g_tail := g_tail n', g_pcount := g_pcount n'\<rparr>"
      by (auto simp: qos_net_dequeue_packet_def Let_def split: if_splits)
    have "fd_inv s n'" by (rule fd_inv_packets [OF assms(1) n'(2) eq])
    then show ?thesis using q by simp
  qed (use n' assms in simp)
qed

lemma net_inv_datagrams:
  assumes "net_inv n" "udp_inv n'" "n' = n\<lparr>g_udp_datagrams := a, g_udp_count := b\<rparr>"
  shows "net_inv n'"
  using assms by (simp add: net_inv_def arp_inv_def packets_inv_def tcp_inv_def listeners_inv_def)

lemma fd_inv_datagrams:
  assumes "fd_inv s n" "udp_inv n'" "n' = n\<lparr>g_udp_datagrams := g_udp_datagrams n', g_udp_count := g_udp_count n'\<rparr>"
  shows "fd_inv s n'"
proof (rule fd_inv_net [OF assms(1)])
  show "net_inv n'" using net_inv_datagrams [OF _ assms(2,3)] assms(1) by (simp add: fd_inv_def)
  show "udp_port_is_bound p n' = udp_port_is_bound p n" "tcp_listener_exists p n' = tcp_listener_exists p n" for p
    by (subst assms(3), simp add: udp_port_is_bound_def tcp_listener_exists_def)+
qed

lemma udp_send_step:
  "length d = unat len \<Longrightarrow> qos_net_udp_send sp ip dp (Some d) len n = (let ((r, _), n') = udp_step (Send sp ip dp d) n in (r, n'))"
proof -
  assume "length d = unat len"
  moreover have "unat len < 2 ^ 32" by (rule order.strict_trans2 [OF unsigned_less]) simp
  ultimately show ?thesis by (simp add: Let_def split: prod.splits)
qed

lemma udp_refines_inv: "udp_refines x n \<Longrightarrow> udp_inv (snd (udp_step x n))"
  by (auto simp: udp_refines_def simp del: udp_step.simps udp_spec.simps)

lemma fd_inv_udp_send:
  assumes "fd_inv s n" "length d = unat len"
  shows "fd_inv s (snd (qos_net_udp_send sp ip dp (Some d) len n))"
proof (rule fd_inv_datagrams [OF assms(1)])
  have "udp_inv n" using assms(1) by (simp add: fd_inv_def net_inv_def)
  then have "udp_inv (snd (udp_step (Send sp ip dp d) n))" by (intro udp_refines_inv udp_refines_send)
  then show "udp_inv (snd (qos_net_udp_send sp ip dp (Some d) len n))"
    unfolding udp_send_step [OF assms(2)] by (simp add: split_beta Let_def del: udp_step.simps)
qed (auto simp: qos_net_udp_send_def Let_def)

lemma fd_inv_udp_recv:
  assumes "fd_inv s n"
  shows "fd_inv s (snd (qos_net_udp_recv p True cap n))"
proof (rule fd_inv_datagrams [OF assms])
  have "udp_inv n" using assms(1) by (simp add: fd_inv_def net_inv_def)
  then show "udp_inv (snd (qos_net_udp_recv p True cap n))" using udp_refines_inv [OF udp_refines_recv, of n p cap] by simp
qed (auto simp: qos_net_udp_recv_def Let_def split: option.splits)

lemma fd_inv_tcp:
  assumes "fd_inv s n" "g_tcp_listeners (snd (tcp_step x n)) = g_tcp_listeners n"
  shows "fd_inv s (snd (tcp_step x n))"
proof (rule fd_inv_net [OF assms(1)])
  have l: "listeners_inv (snd (tcp_step x n)) = listeners_inv n" by (simp only: listeners_inv_def assms(2))
  show "net_inv (snd (tcp_step x n))" using assms(1) by (intro net_inv_tcp) (auto simp: fd_inv_def net_inv_def l)
  show "udp_port_is_bound p (snd (tcp_step x n)) = udp_port_is_bound p n" for p by (rule udp_bound_tcp)
  show "tcp_listener_exists p (snd (tcp_step x n)) = tcp_listener_exists p n" for p by (simp only: tcp_listener_exists_def assms(2))
qed

lemma fd_inv_tcp_connect: "fd_inv s n \<Longrightarrow> fd_inv s (snd (qos_net_tcp_connect lp ip rp n))"
  using fd_inv_tcp [of s n "Connect lp ip rp"] by (simp add: qos_net_tcp_connect_def split: option.splits)

lemma fd_inv_tcp_event: "fd_inv s n \<Longrightarrow> fd_inv s (snd (qos_net_tcp_step c e n))"
  using fd_inv_tcp [of s n "Step c e"] by (simp add: qos_net_tcp_step_def set_conn_def Let_def split: option.splits)

section \<open>Reading and writing sockets\<close>

lemma socketD:
  assumes "fd_inv s n" "is_socket fd s"
  shows "fd < QOS_FD_MAX" "f_used (g_fds s fd)" "f_kind (g_fds s fd) = QOS_FD_KIND_SOCKET" "sock_ok (f_sock (g_fds s fd))"
    "fd_ok (g_files s) (g_pipes s) (g_fds s fd)"
  using assms by (auto simp: is_socket_def fd_valid_def fd_inv_def fds_inv_def fd_ok_def split: if_splits)

lemma holds_f_sock [simp]: "holds_file (r\<lparr>f_sock := q\<rparr>) = holds_file r" "holds_pipe (r\<lparr>f_sock := q\<rparr>) = holds_pipe r"
  by (simp_all add: holds_file_def holds_pipe_def)

lemma fd_inv_put_sock:
  assumes inv: "fd_inv s n" and fd: "is_socket fd s" and q: "sock_ok q"
    "s_bound q = s_bound (f_sock (g_fds s fd))" "s_type q = s_type (f_sock (g_fds s fd))"
    "s_lport q = s_lport (f_sock (g_fds s fd))" "s_listening q = s_listening (f_sock (g_fds s fd))"
  shows "fd_inv (put_sock fd q s) n"
  unfolding put_sock_def
proof (rule fd_inv_update [OF inv])
  note d = socketD [OF inv fd]
  show "fd < 256" "f_used ((g_fds s fd)\<lparr>f_sock := q\<rparr>)" using d by simp_all
  show "fd_ok (g_files s) (g_pipes s) ((g_fds s fd)\<lparr>f_sock := q\<rparr>)" using d(5) q(1) by (simp add: fd_ok_def)
qed (use q in \<open>simp_all add: holds_port_def holds_listener_def\<close>)

lemma keeps_put_sock:
  assumes "is_socket fd (k_sys k)" "sock_ok (f_sock (g_fds (k_sys k) fd)) \<Longrightarrow> sock_ok q"
    "s_bound q = s_bound (f_sock (g_fds (k_sys k) fd))" "s_type q = s_type (f_sock (g_fds (k_sys k) fd))"
    "s_lport q = s_lport (f_sock (g_fds (k_sys k) fd))" "s_listening q = s_listening (f_sock (g_fds (k_sys k) fd))"
  shows "keeps k (r, m', k\<lparr>k_sys := put_sock fd q (k_sys k)\<rparr>)"
  using assms by (intro keeps_sys fd_inv_put_sock) (auto dest: socketD(4))

lemma host_stream_recv_keeps:
  assumes "is_socket fd (k_sys k)"
  shows "keeps k (host_stream_recv fd out len m k)"
proof -
  let ?q = "f_sock (g_fds (k_sys k) fd)"
  define c where "c = (if unat (s_stream_len ?q) > unat len then unat len else unat (s_stream_len ?q))"
  define w :: nat where "w = unat (s_stream_len ?q) - c"
  have "sock_ok (?q\<lparr>s_stream_buf := take w (drop c (s_stream_buf ?q)) @ replicate (1500 - w) 0, s_stream_len := word_of_nat w\<rparr>)"
    if "sock_ok ?q"
  proof -
    have b: "length (s_stream_buf ?q) = 1500" "unat (s_stream_len ?q) \<le> 1500" using that by (auto simp: sock_ok_def)
    then have "length (take w (drop c (s_stream_buf ?q)) @ replicate (1500 - w) 0) = 1500" by (simp add: w_def)
    moreover have "unat (word_of_nat w :: u16) = w" using b by (intro unat_u16_of_nat) (simp add: w_def)
    ultimately show ?thesis using that b by (auto simp: sock_ok_def pending_ok_def w_def)
  qed
  then have "keeps k (int c, mem_store out (take c (s_stream_buf ?q)) m, k\<lparr>k_sys := put_sock fd
      (?q\<lparr>s_stream_buf := take w (drop c (s_stream_buf ?q)) @ replicate (1500 - w) 0, s_stream_len := word_of_nat w\<rparr>) (k_sys k)\<rparr>)"
    by (intro keeps_put_sock assms) simp_all
  then show ?thesis by (simp add: host_stream_recv_def Let_def c_def w_def)
qed

lemma raw_taken_keeps:
  assumes "is_socket fd (k_sys k)"
  shows "keeps k (r, m', k\<lparr>k_sys := put_sock fd (raw_taken (f_sock (g_fds (k_sys k) fd))) (k_sys k)\<rparr>)"
  by (rule keeps_put_sock [OF assms]) (auto simp: raw_taken_def sock_ok_def pending_ok_def)

lemma net_recv_keeps: "keeps k (net_recv out len m k)"
  unfolding net_recv_def by (auto simp: Let_def split_beta intro!: keeps_net fd_inv_dequeue)

lemma net_send_keeps: "keeps k (net_send src len m k)"
  unfolding net_send_def
  by (cases "src = 0") (auto simp: Let_def split_beta buf_at_def qos_net_enqueue_packet_def [of None] intro!: keeps_net fd_inv_enqueue)

lemma udp_recv_keeps: "keeps k (r, m', k\<lparr>k_net := snd (qos_net_udp_recv p True cap (k_net k))\<rparr>)"
  by (intro keeps_net fd_inv_udp_recv)

lemma read_socket_keeps:
  assumes "is_socket fd (k_sys k)"
  shows "keeps k (read_socket fd out len m k)"
  unfolding read_socket_def Let_def
  by (auto simp: split_beta intro!: host_stream_recv_keeps raw_taken_keeps net_recv_keeps udp_recv_keeps assms)

lemma raw_echo_keeps:
  assumes "is_socket fd (k_sys k)"
  shows "keeps k (raw_echo fd ip port src len m k)"
proof -
  let ?q = "f_sock (g_fds (k_sys k) fd)" and ?e = "qos_net_icmp_echo ip (buf_at m src (unat len)) len True (word_of_nat 1500)"
  show ?thesis
  proof (cases "ip = 0 \<or> unat len > 1500 \<or> fst ?e < 0")
    case True
    then show ?thesis by (auto simp: raw_echo_def Let_def split: prod.splits option.splits)
  next
    case False
    then obtain reply where e: "?e = (int (unat len), Some reply, Some ip)" "length reply = unat len"
      by (auto simp: qos_net_icmp_echo_def buf_at_def split: if_splits)
    let ?q1 = "?q\<lparr>s_rport := port, s_rip := ip, s_raw_buf := memcpy_to (s_raw_buf ?q) reply (unat len),
      s_raw_len := word_of_int (int (unat len)), s_raw_src_ip := ip\<rparr>"
    have "sock_ok ?q1" if "sock_ok ?q"
    proof -
      have "unat (word_of_nat (unat len) :: u16) = unat len" using False by (intro unat_u16_of_nat) simp
      then show ?thesis using that False e(2) by (auto simp: sock_ok_def pending_ok_def memcpy_to_def)
    qed
    then have "keeps k (int (unat len), m, k\<lparr>k_sys := put_sock fd ?q1 (k_sys k)\<rparr>)" by (intro keeps_put_sock assms) simp_all
    then show ?thesis using False e(1) by (simp add: raw_echo_def Let_def)
  qed
qed

lemma length_k_resp: "length k_resp = 42"
  by (simp add: k_resp_def)

lemma host_stream_send_keeps:
  assumes "is_socket fd (k_sys k)"
  shows "keeps k (host_stream_send fd src len m k)"
proof -
  let ?q = "f_sock (g_fds (k_sys k) fd)"
  let ?q1 = "?q\<lparr>s_stream_buf := memcpy_to (s_stream_buf ?q) k_resp 42, s_stream_len := 42\<rparr>"
  have "sock_ok ?q1" if "sock_ok ?q" using that by (auto simp: sock_ok_def pending_ok_def memcpy_to_def length_k_resp)
  then have "keeps k (r, m, k\<lparr>k_sys := put_sock fd ?q1 (k_sys k)\<rparr>)" for r by (intro keeps_put_sock assms) simp_all
  then show ?thesis
    by (simp add: host_stream_send_def stream_host_response_prepare_def length_k_resp Let_def put_sock_def split: option.splits)
qed

lemma udp_send_keeps:
  "keeps k (r, m', k\<lparr>k_net := snd (qos_net_udp_send sp ip dp (buf_at m src (unat len)) len (k_net k))\<rparr>)"
  by (cases "src = 0")
    (auto simp: buf_at_def qos_net_udp_send_def [of _ _ _ None] intro!: keeps_net fd_inv_udp_send)

lemma write_socket_keeps:
  assumes "is_socket fd (k_sys k)"
  shows "keeps k (write_socket fd src len m k)"
  unfolding write_socket_def Let_def
  by (auto simp: split_beta intro!: host_stream_send_keeps raw_echo_keeps net_send_keeps udp_send_keeps assms)

section \<open>Making sockets\<close>

lemma fd_alloc_cases:
  obtains "fd_alloc kind s = (None, s)"
  | fd where "fd < QOS_FD_MAX" "\<not> f_used (g_fds s fd)" "fd_alloc kind s = (Some fd, put_fd fd (fd0\<lparr>f_used := True, f_kind := kind\<rparr>) s)"
  by (cases "find_free QOS_FD_MAX f_used (g_fds s)") (auto simp: fd_alloc_def dest: find_free_Some)

lemma put_put_fd [simp]: "put_fd i r (put_fd i r' s) = put_fd i r s"
  by (simp add: put_fd_def)

lemma sock0_ok: "t \<in> {QOS_SOCK_STREAM, QOS_SOCK_DGRAM, QOS_SOCK_RAW} \<Longrightarrow> sock_ok (sock0\<lparr>s_type := t\<rparr>)"
  by (auto simp: sock_ok_def pending_ok_def sock0_def)

lemma sys_socket_keeps: "keeps k (sys_socket a0 a1 m k)"
proof (cases "a0 \<noteq> 2 \<or> (a1 \<noteq> 1 \<and> a1 \<noteq> 2 \<and> a1 \<noteq> 3)")
  case False
  then have t: "(ucast a1 :: u8) \<in> {1, 2, 3}" by auto
  show ?thesis
  proof (cases rule: fd_alloc_cases [of QOS_FD_KIND_SOCKET "k_sys k"])
    case (2 fd)
    let ?r = "fd0\<lparr>f_used := True, f_kind := QOS_FD_KIND_SOCKET, f_sock := sock0\<lparr>s_type := ucast a1\<rparr>\<rparr>"
    have "fd_inv (put_fd fd ?r (k_sys k)) (k_net k)" if "fd_inv (k_sys k) (k_net k)"
      using that 2 sock0_ok [OF t]
      by (intro fd_inv_fresh) (auto simp: fd_ok_def holds_file_def holds_pipe_def holds_port_def holds_listener_def fd0_def sock0_def)
    then have "keeps k (int fd, m, k\<lparr>k_sys := put_fd fd ?r (k_sys k)\<rparr>)" by (intro keeps_sys) auto
    then show ?thesis using False 2 by (simp add: sys_socket_def put_sock_def fd0_def)
  qed (use False in \<open>simp add: sys_socket_def\<close>)
qed (auto simp: sys_socket_def)

text \<open>A socket gets a port, in the bitmaps and in the network stack.\<close>

lemma fd_inv_bound:
  assumes inv: "fd_inv s n" and fd: "is_socket fd s" and unbound: "\<not> s_bound (f_sock (g_fds s fd))"
    and s': "g_fds s' = (g_fds s)(fd := (g_fds s fd)\<lparr>f_sock := q\<rparr>)" "g_files s' = g_files s" "g_pipes s' = g_pipes s"
    and q: "s_bound q" "s_lport q = p" "s_type q = t" "s_listening q = s_listening (f_sock (g_fds s fd))" "sock_ok q"
    and marks: "\<And>t' x. t' \<noteq> QOS_SOCK_RAW \<Longrightarrow> marked t' x s' \<longleftrightarrow> marked t' x s \<or> (t' = t \<and> x = p)"
    and udp: "\<And>x. udp_port_is_bound x n' \<longleftrightarrow> udp_port_is_bound x n \<or> (t = QOS_SOCK_DGRAM \<and> x = p)"
    and tcp: "\<And>x. tcp_listener_exists x n' = tcp_listener_exists x n" and net: "net_inv n'"
  shows "fd_inv s' n'"
proof -
  note d = socketD [OF inv fd]
  have l: "\<not> s_listening (f_sock (g_fds s fd))" using d(4) unbound by (auto simp: sock_ok_def)
  show ?thesis
  proof (rule fd_inv_grow [OF inv d(1) s'])
    show "f_used ((g_fds s fd)\<lparr>f_sock := q\<rparr>)" using d by simp
    show "fd_ok (g_files s) (g_pipes s) ((g_fds s fd)\<lparr>f_sock := q\<rparr>)" using d(5) q(5) by (simp add: fd_ok_def)
    show "tcp_listener_exists x n' \<longleftrightarrow> tcp_listener_exists x n \<or> x \<in> holds_listener ((g_fds s fd)\<lparr>f_sock := q\<rparr>)" for x
      using l q(4) tcp by (simp add: holds_listener_def)
  qed (use d l unbound q net marks udp in \<open>auto simp: holds_port_def holds_listener_def\<close>)
qed

lemma net_inv_bind:
  assumes "net_inv n" "qos_net_udp_bind p n = (0, n')"
  shows "net_inv n'" "udp_port_is_bound x n' \<longleftrightarrow> udp_port_is_bound x n \<or> x = p" "tcp_listener_exists x n' = tcp_listener_exists x n"
proof -
  have eq: "n' = n\<lparr>g_udp_ports := g_udp_ports n'\<rparr>"
    using assms(2) by (auto simp: qos_net_udp_bind_def split: if_splits option.splits)
  have u: "udp_inv n' \<and> (\<forall>q. udp_port_is_bound q n' \<longleftrightarrow> udp_port_is_bound q n \<or> q = p)"
    using udp_bind_bound [OF _ assms(2)] assms(1) by (auto simp: net_inv_def)
  then show "udp_port_is_bound x n' \<longleftrightarrow> udp_port_is_bound x n \<or> x = p" by blast
  show "tcp_listener_exists x n' = tcp_listener_exists x n" by (subst eq) (simp add: tcp_listener_exists_def)
  show "net_inv n'"
    by (rule net_inv_frame [of _ n]) (use assms(1) u in \<open>auto simp: net_inv_def, (subst eq, simp add: packets_inv_def listeners_inv_def)+\<close>)
qed

lemma sock_ok_bound:
  "sock_ok q \<Longrightarrow> p \<noteq> 0 \<Longrightarrow> s_type q \<noteq> QOS_SOCK_RAW \<longrightarrow> port_ok (s_type q) p \<Longrightarrow> sock_ok (q\<lparr>s_bound := True, s_lport := p\<rparr>)"
  by (auto simp: sock_ok_def pending_ok_def port_ok_def)

lemma port_ok_nonzero: "port_ok t p \<Longrightarrow> p \<noteq> 0"
  by (auto simp: port_ok_def)

lemma parse_port: "parse_sockaddr b len any = Some (port, ip) \<Longrightarrow> port \<noteq> 0 \<and> (\<not> any \<longrightarrow> ip \<noteq> 0)"
  by (auto simp: parse_sockaddr_def Let_def split: option.splits if_splits)

text \<open>Taking a free port for a socket: the three places in the code that do so.\<close>

lemma fd_inv_take_port:
  assumes inv: "fd_inv s n" and fd: "is_socket fd s" and unbound: "\<not> s_bound (f_sock (g_fds s fd))"
    and t: "s_type (f_sock (g_fds s fd)) = t" and p: "port_ok t p" "\<not> marked t p s"
    and q: "s_bound q" "s_lport q = p" "s_type q = t" "s_listening q = s_listening (f_sock (g_fds s fd))" "sock_ok q"
    and n': "t = QOS_SOCK_DGRAM \<and> qos_net_udp_bind p n = (0, n') \<or> t \<noteq> QOS_SOCK_DGRAM \<and> n' = n"
  shows "fd_inv (put_sock fd q (snd (socket_port_mark t p s))) n'"
proof (rule fd_inv_bound [OF inv fd unbound _ _ _ q])
  have net: "net_inv n" using inv by (simp add: fd_inv_def)
  show "marked t' x (put_sock fd q (snd (socket_port_mark t p s))) \<longleftrightarrow> marked t' x s \<or> t' = t \<and> x = p" for t' x
    using marked_mark [OF p] by (simp add: put_sock_def)
  show "udp_port_is_bound x n' \<longleftrightarrow> udp_port_is_bound x n \<or> t = QOS_SOCK_DGRAM \<and> x = p" "tcp_listener_exists x n' = tcp_listener_exists x n" for x
    using n' net_inv_bind [OF net, of p n'] by auto
  show "net_inv n'" using n' net net_inv_bind(1) [OF net] by auto
qed (simp_all add: put_sock_def)

lemma port_mark_ok:
  "socket_port_mark t p s = (0, s1) \<longleftrightarrow> port_ok t p \<and> \<not> marked t p s \<and> s1 = snd (socket_port_mark t p s)"
  "socket_port_mark t p s = (r, s1) \<Longrightarrow> r \<noteq> 0 \<Longrightarrow> r = -1 \<and> s1 = s"
proof -
  have ok: "fst (socket_port_mark t p s) = 0" if "port_ok t p \<and> \<not> marked t p s"
    by (subst port_mark_cases, subst if_P [OF that]) simp
  have bad: "socket_port_mark t p s = (-1, s)" if "\<not> (port_ok t p \<and> \<not> marked t p s)"
    by (subst port_mark_cases, subst if_not_P [OF that]) simp
  show "socket_port_mark t p s = (0, s1) \<longleftrightarrow> port_ok t p \<and> \<not> marked t p s \<and> s1 = snd (socket_port_mark t p s)"
    using ok bad by (cases "port_ok t p \<and> \<not> marked t p s") (auto simp: prod_eq_iff)
  show "r = -1 \<and> s1 = s" if "socket_port_mark t p s = (r, s1)" "r \<noteq> 0"
    using that ok bad by (cases "port_ok t p \<and> \<not> marked t p s") auto
qed

lemma udp_bind_fail: "qos_net_udp_bind p n = (b, n') \<Longrightarrow> b \<noteq> 0 \<Longrightarrow> n' = n"
  by (auto simp: qos_net_udp_bind_def split: if_splits option.splits)

lemma set_net_id [simp]: "set_net (k_sys k) (k_net k) k = k"
  by (simp add: set_net_def)

lemma sys_bind_cases:
  fixes k :: "'w kernel" and fd :: nat
  defines "s \<equiv> k_sys k" and "q \<equiv> f_sock (g_fds (k_sys k) fd)"
  obtains (fail) "sys_bind fd addr len m k = (-1, m, k)"
  | (raw) p where "is_socket fd s" "\<not> s_bound q" "p \<noteq> 0" "s_type q = QOS_SOCK_RAW"
      "sys_bind fd addr len m k = (0, m, set_net (put_sock fd (q\<lparr>s_bound := True, s_lport := p\<rparr>) s) (k_net k) k)"
  | (port) p n' where "is_socket fd s" "\<not> s_bound q" "p \<noteq> 0" "port_ok (s_type q) p" "\<not> marked (s_type q) p s"
      "s_type q = QOS_SOCK_DGRAM \<and> qos_net_udp_bind p (k_net k) = (0, n') \<or> s_type q \<noteq> QOS_SOCK_DGRAM \<and> n' = k_net k"
      "sys_bind fd addr len m k =
         (0, m, set_net (put_sock fd (q\<lparr>s_bound := True, s_lport := p\<rparr>) (snd (socket_port_mark (s_type q) p s))) n' k)"
proof (cases "is_socket fd s \<and> \<not> s_bound q \<and> parse_sockaddr (buf_at m addr 8) len True \<noteq> None")
  case False
  then show thesis
    by (intro fail) (cases "parse_sockaddr (buf_at m addr 8) len True", auto simp: sys_bind_def Let_def s_def q_def)
next
  case True
  then obtain p ip where a: "parse_sockaddr (buf_at m addr 8) len True = Some (p, ip)" by auto
  then have p0: "p \<noteq> 0" using parse_port by blast
  obtain r s1 where mk: "socket_port_mark (s_type q) p s = (r, s1)" by fastforce
  obtain b n1 where b: "qos_net_udp_bind p (k_net k) = (b, n1)" by fastforce
  have eq: "sys_bind fd addr len m k =
      (if s_type q = QOS_SOCK_RAW then (0, m, set_net (put_sock fd (q\<lparr>s_bound := True, s_lport := p\<rparr>) s) (k_net k) k)
       else if r \<noteq> 0 then (-1, m, k)
       else if s_type q = QOS_SOCK_DGRAM then
         if b \<noteq> 0 then (-1, m, set_net (socket_port_unmark (s_type q) p s1) n1 k)
         else (0, m, set_net (put_sock fd (q\<lparr>s_bound := True, s_lport := p\<rparr>) s1) n1 k)
       else (0, m, set_net (put_sock fd (q\<lparr>s_bound := True, s_lport := p\<rparr>) s1) (k_net k) k))"
    using True a mk b unfolding s_def q_def sys_bind_def by (simp add: Let_def set_net_sys)
  show thesis
  proof (cases "s_type q = QOS_SOCK_RAW \<or> r \<noteq> 0")
    case True': True
    with eq True p0 show thesis by (cases "s_type q = QOS_SOCK_RAW") (auto intro: fail raw)
  next
    case False
    with mk have ok: "port_ok (s_type q) p" "\<not> marked (s_type q) p s" "s1 = snd (socket_port_mark (s_type q) p s)"
      using port_mark_ok(1) [of "s_type q" p s s1] by auto
    show thesis
    proof (cases "s_type q = QOS_SOCK_DGRAM \<and> b \<noteq> 0")
      case True'': True
      then have "n1 = k_net k" using udp_bind_fail b by blast
      then have "sys_bind fd addr len m k = (-1, m, k)"
        using eq False True'' unmark_mark [OF ok(1,2)] ok(3) by (simp add: s_def)
      then show thesis by (rule fail)
    next
      case False': False
      have "sys_bind fd addr len m k = (0, m, set_net (put_sock fd (q\<lparr>s_bound := True, s_lport := p\<rparr>) s1)
          (if s_type q = QOS_SOCK_DGRAM then n1 else k_net k) k)"
        using eq False False' by simp
      with True p0 ok b False' show thesis
        by (intro port [of p "if s_type q = QOS_SOCK_DGRAM then n1 else k_net k"]) auto
    qed
  qed
qed

lemma sys_bind_keeps: "keeps k (sys_bind fd addr len m k)"
proof (cases rule: sys_bind_cases [where k = k and fd = fd and addr = addr and len = len and m = m])
  case (raw p)
  let ?q = "f_sock (g_fds (k_sys k) fd)"
  have "fd_inv (put_sock fd (?q\<lparr>s_bound := True, s_lport := p\<rparr>) (k_sys k)) (k_net k)" if inv: "fd_inv (k_sys k) (k_net k)"
    by (rule fd_inv_bound [OF inv raw(1,2)])
      (use inv raw sock_ok_bound [OF socketD(4) [OF inv raw(1)] raw(3)] in \<open>auto simp: put_sock_def fd_inv_def\<close>)
  then show ?thesis unfolding raw(5) by (intro keepsI) simp_all
next
  case (port p n')
  let ?q = "f_sock (g_fds (k_sys k) fd)" and ?s1 = "snd (socket_port_mark (s_type (f_sock (g_fds (k_sys k) fd))) p (k_sys k))"
  have "fd_inv (put_sock fd (?q\<lparr>s_bound := True, s_lport := p\<rparr>) ?s1) n'" if inv: "fd_inv (k_sys k) (k_net k)"
    using sock_ok_bound [OF socketD(4) [OF inv port(1)] port(3)] port(4)
    by (intro fd_inv_take_port [OF inv port(1,2) refl port(4,5)]) (use port(6) in auto)
  then show ?thesis unfolding port(7) by (intro keepsI) simp_all
qed simp

lemma sys_bind_atomic: "atomic m k (sys_bind fd addr len m k)"
  by (cases rule: sys_bind_cases [where k = k and fd = fd and addr = addr and len = len and m = m]) (auto simp: atomic_def)

section \<open>Listening and accepting\<close>

lemma sys_listen_cases:
  fixes k :: "'w kernel" and fd :: nat
  defines "s \<equiv> k_sys k" and "q \<equiv> f_sock (g_fds (k_sys k) fd)"
  obtains (fail) "sys_listen fd a1 m k = (-1, m, k)"
  | (listen) r n b where "is_socket fd s" "s_type q = QOS_SOCK_STREAM" "s_bound q" "b \<le> QOS_SOCK_PENDING_MAX" "b \<noteq> 0"
      "qos_net_tcp_listen (s_lport q) (k_net k) = (r, n)" "r \<ge> 0"
      "sys_listen fd a1 m k = (0, m, set_net (put_sock fd (q\<lparr>s_listening := True, s_backlog := word_of_nat b\<rparr>) s) n k)"
proof -
  define b where "b = (if unat (ucast a1 :: u32) > 16 then 16 else unat (ucast a1 :: u32))"
  obtain r n where l: "qos_net_tcp_listen (s_lport q) (k_net k) = (r, n)" by fastforce
  define bad where "bad \<longleftrightarrow> \<not> is_socket fd s \<or> s_type q \<noteq> QOS_SOCK_STREAM \<or> \<not> s_bound q \<or> s_lport q = 0 \<or> a1 = 0 \<or> b = 0 \<or> r < 0"
  have eq: "sys_listen fd a1 m k = (if bad then (-1, m, k)
      else (0, m, set_net (put_sock fd (q\<lparr>s_listening := True, s_backlog := word_of_nat b\<rparr>) s) n k))"
    unfolding sys_listen_def Let_def s_def [symmetric] q_def [folded s_def, symmetric] b_def [symmetric] l
    by (simp add: bad_def)
  show thesis
  proof (cases bad)
    case False
    then show thesis by (intro listen [of b r n]) (use l eq in \<open>auto simp: bad_def b_def\<close>)
  qed (use eq fail in simp)
qed

lemma fd_inv_holds:
  assumes "fd_inv s n" "i < QOS_FD_MAX"
  shows "(t, p) \<in> holds_port (g_fds s i) \<Longrightarrow> t \<noteq> QOS_SOCK_RAW \<Longrightarrow> marked t p s"
    "(QOS_SOCK_DGRAM, p) \<in> holds_port (g_fds s i) \<Longrightarrow> udp_port_is_bound p n"
    "p \<in> holds_listener (g_fds s i) \<Longrightarrow> tcp_listener_exists p n"
  using assms holds_heldI [OF assms(2)] by (simp_all add: fd_inv_def ports_inv_def)

lemma sys_listen_keeps: "keeps k (sys_listen fd a1 m k)"
proof (cases rule: sys_listen_cases [where k = k and fd = fd and ?a1.0 = a1 and m = m])
  case (listen r n b)
  let ?s = "k_sys k"
  let ?q = "f_sock (g_fds ?s fd)"
  let ?q1 = "?q\<lparr>s_listening := True, s_backlog := word_of_nat b\<rparr>"
  have "fd_inv (put_sock fd ?q1 ?s) n" if inv: "fd_inv ?s (k_net k)"
    unfolding put_sock_def
  proof (rule fd_inv_grow [OF inv])
    note d = socketD [OF inv listen(1)]
    have net: "net_inv (k_net k)" "listeners_inv (k_net k)" using inv by (auto simp: fd_inv_def net_inv_def)
    have l: "tcp_listener_exists x n \<longleftrightarrow> tcp_listener_exists x (k_net k) \<or> x = s_lport ?q" "listeners_inv n" for x
      using tcp_listen_exists [OF net(2) listen(6)] listen(7) by auto
    have n: "n = snd (tcp_step (Listen (s_lport ?q)) (k_net k))" using listen(6) by simp
    have "unat (word_of_nat b :: u8) = b" using listen(4) by (intro unat_u8_of_nat) simp
    then have "sock_ok ?q1" using d(4) listen(2-4) by (auto simp: sock_ok_def pending_ok_def)
    then show "fd_ok (g_files ?s) (g_pipes ?s) ((g_fds ?s fd)\<lparr>f_sock := ?q1\<rparr>)" using d(5) by (simp add: fd_ok_def)
    show "net_inv n" unfolding n by (rule net_inv_tcp [OF net(1)]) (use l(2) n in simp)
    show "tcp_listener_exists x n \<longleftrightarrow> tcp_listener_exists x (k_net k) \<or> x \<in> holds_listener ((g_fds ?s fd)\<lparr>f_sock := ?q1\<rparr>)" for x
      using l(1) d listen(2) by (simp add: holds_listener_def)
    have same: "holds_port ((g_fds ?s fd)\<lparr>f_sock := ?q1\<rparr>) = holds_port (g_fds ?s fd)" by (simp add: holds_port_def)
    show "marked t x (put_fd fd ((g_fds ?s fd)\<lparr>f_sock := ?q1\<rparr>) ?s) \<longleftrightarrow>
        marked t x ?s \<or> (t, x) \<in> holds_port ((g_fds ?s fd)\<lparr>f_sock := ?q1\<rparr>)" if "t \<noteq> QOS_SOCK_RAW" for t x
      unfolding same using fd_inv_holds(1) [OF inv d(1)] that by auto
    show "udp_port_is_bound x n \<longleftrightarrow> udp_port_is_bound x (k_net k) \<or> (QOS_SOCK_DGRAM, x) \<in> holds_port ((g_fds ?s fd)\<lparr>f_sock := ?q1\<rparr>)" for x
      unfolding same n udp_bound_tcp using fd_inv_holds(2) [OF inv d(1)] by auto
    show "fd < 256" "f_used ((g_fds ?s fd)\<lparr>f_sock := ?q1\<rparr>)" using d by simp_all
    show "holds_port (g_fds ?s fd) \<subseteq> holds_port ((g_fds ?s fd)\<lparr>f_sock := ?q1\<rparr>)" by (simp add: same)
    show "holds_listener (g_fds ?s fd) \<subseteq> holds_listener ((g_fds ?s fd)\<lparr>f_sock := ?q1\<rparr>)" by (auto simp: holds_listener_def)
  qed simp_all
  then show ?thesis unfolding listen(8) by (intro keepsI) simp_all
qed simp

lemma sys_listen_atomic: "atomic m k (sys_listen fd a1 m k)"
  by (cases rule: sys_listen_cases [where k = k and fd = fd and ?a1.0 = a1 and m = m]) (auto simp: atomic_def)

text \<open>The ring of pending connections.\<close>

lemma pending_pop_cases:
  assumes "fd < QOS_FD_MAX" "s_pending (f_sock (g_fds s fd)) \<noteq> 0"
  obtains x q where "socket_pending_pop fd s = (Some x, put_sock fd q s)" "same_binding (f_sock (g_fds s fd)) q"
    "sock_ok (f_sock (g_fds s fd)) \<Longrightarrow> sock_ok q"
proof -
  let ?k = "f_sock (g_fds s fd)"
  let ?h = "unat (s_pending_head ?k)" and ?c = "unat (s_pending ?k)"
  let ?k1 = "?k\<lparr>s_q_rport := (s_q_rport ?k)(?h := 0), s_q_rip := (s_q_rip ?k)(?h := 0), s_q_conn_id := (s_q_conn_id ?k)(?h := -1),
    s_pending_head := word_of_nat ((?h + 1) mod 16), s_pending := s_pending ?k - 1\<rparr>"
  define q where "q = (if s_pending ?k1 = 0 then ?k1\<lparr>s_pending_head := 0, s_pending_tail := 0\<rparr> else ?k1)"
  have "sock_ok q" if ok: "sock_ok ?k"
  proof -
    have c: "?c \<noteq> 0" "?c \<le> 16" "?h < 16" "unat (s_pending_tail ?k) = (?h + ?c) mod 16"
      using ok assms(2) by (auto simp: sock_ok_def pending_ok_def unat_eq_0)
    then have p: "unat (s_pending ?k - 1) = ?c - 1" by (subst unat_sub) (simp_all add: word_le_nat_alt)
    have h: "unat (word_of_nat ((?h + 1) mod 16) :: u8) = (?h + 1) mod 16"
      by (rule unat_u8_of_nat) (rule order.strict_trans [of _ 16], simp_all)
    have "((?h + 1) mod 16 + (?c - 1)) mod 16 = (?h + 1 + (?c - 1)) mod 16" by (rule mod_add_left_eq)
    also have "?h + 1 + (?c - 1) = ?h + ?c" using c(1) by simp
    finally have t: "((?h + 1) mod 16 + (?c - 1)) mod 16 = (?h + ?c) mod 16" .
    have "pending_ok q"
    proof (cases "s_pending ?k - 1 = 0")
      case False
      have "(?h + 1) mod 16 < 16" by simp
      with False c(2,4) p t h show ?thesis unfolding pending_ok_def by (simp add: q_def)
    qed (simp add: q_def pending_ok_def)
    moreover have sel: "s_type q = s_type ?k" "s_bound q = s_bound ?k" "s_lport q = s_lport ?k" "s_listening q = s_listening ?k"
      "s_connected q = s_connected ?k" "s_backlog q = s_backlog ?k" "s_stream_buf q = s_stream_buf ?k" "s_stream_len q = s_stream_len ?k"
      "s_raw_buf q = s_raw_buf ?k" "s_raw_len q = s_raw_len ?k" by (simp_all add: q_def)
    ultimately show ?thesis using ok unfolding sock_ok_def sel by blast
  qed
  moreover have "same_binding ?k q" by (simp add: same_binding_def q_def)
  moreover have "socket_pending_pop fd s = (Some (s_q_rport ?k ?h, s_q_rip ?k ?h, s_q_conn_id ?k ?h), put_sock fd q s)"
    using assms by (simp add: socket_pending_pop_def Let_def q_def put_sock_def)
  ultimately show thesis using that by blast
qed

lemma pending_push_cases:
  assumes "fd < QOS_FD_MAX" "unat (s_pending (f_sock (g_fds s fd))) < QOS_SOCK_PENDING_MAX"
  obtains q where "socket_pending_push fd pp ip c s = (0, put_sock fd q s)" "same_binding (f_sock (g_fds s fd)) q"
    "sock_ok (f_sock (g_fds s fd)) \<Longrightarrow> sock_ok q"
proof -
  let ?k = "f_sock (g_fds s fd)"
  let ?t = "unat (s_pending_tail ?k)" and ?c = "unat (s_pending ?k)"
  define q where "q = ?k\<lparr>s_q_rport := (s_q_rport ?k)(?t := pp), s_q_rip := (s_q_rip ?k)(?t := ip), s_q_conn_id := (s_q_conn_id ?k)(?t := c),
    s_pending_tail := word_of_nat ((?t + 1) mod 16), s_pending := s_pending ?k + 1\<rparr>"
  have "sock_ok q" if ok: "sock_ok ?k"
  proof -
    have p: "unat (s_pending ?k + 1) = Suc ?c" using assms(2) by (simp add: unat_word_ariths)
    have t: "unat (word_of_nat ((?t + 1) mod 16) :: u8) = (?t + 1) mod 16"
      by (rule unat_u8_of_nat) (rule order.strict_trans [of _ 16], simp_all)
    have "?t = (unat (s_pending_head ?k) + ?c) mod 16" using ok by (auto simp: sock_ok_def pending_ok_def)
    then have "(?t + 1) mod 16 = (unat (s_pending_head ?k) + Suc ?c) mod 16" by (simp add: mod_simps)
    then show ?thesis using ok p t assms(2) by (auto simp: q_def sock_ok_def pending_ok_def)
  qed
  moreover have "same_binding ?k q" by (simp add: same_binding_def q_def)
  moreover have "socket_pending_push fd pp ip c s = (0, put_sock fd q s)"
    using assms by (simp add: socket_pending_push_def Let_def q_def put_sock_def)
  ultimately show thesis using that by blast
qed

text \<open>A fresh descriptor for a socket whose port another descriptor holds already.\<close>

lemma fd_inv_share:
  assumes inv: "fd_inv s n" and new: "newfd < QOS_FD_MAX" "\<not> f_used (g_fds s newfd)"
    and r: "f_used r" "fd_ok (g_files s) (g_pipes s) r"
    and old: "i < QOS_FD_MAX" "holds_file r \<subseteq> holds_file (g_fds s i)" "holds_pipe r \<subseteq> holds_pipe (g_fds s i)"
      "holds_port r \<subseteq> holds_port (g_fds s i)" "holds_listener r \<subseteq> holds_listener (g_fds s i)"
  shows "fd_inv (put_fd newfd r s) n"
proof (rule fd_inv_grow [OF inv new(1) _ _ _ r])
  note h = fd_inv_holds [OF inv old(1)]
  show "marked t p (put_fd newfd r s) \<longleftrightarrow> marked t p s \<or> (t, p) \<in> holds_port r" if "t \<noteq> QOS_SOCK_RAW" for t p
    using h(1) [of t p] old(4) that by auto
  show "udp_port_is_bound p n \<longleftrightarrow> udp_port_is_bound p n \<or> (QOS_SOCK_DGRAM, p) \<in> holds_port r" for p
    using h(2) [of p] old(4) by auto
  show "tcp_listener_exists p n \<longleftrightarrow> tcp_listener_exists p n \<or> p \<in> holds_listener r" for p
    using h(3) [of p] old(5) by auto
  show "net_inv n" using inv by (simp add: fd_inv_def)
qed (use new(2) in \<open>auto simp: holds_file_def holds_pipe_def holds_port_def holds_listener_def\<close>)

lemma put_fd_commute: "i \<noteq> j \<Longrightarrow> put_fd i r (put_fd j r' s) = put_fd j r' (put_fd i r s)"
  by (simp add: put_fd_def fun_upd_twist)

lemma fd_inv_rebind:
  "fd_inv s n \<Longrightarrow> is_socket fd s \<Longrightarrow> same_binding (f_sock (g_fds s fd)) q \<Longrightarrow> (sock_ok (f_sock (g_fds s fd)) \<Longrightarrow> sock_ok q) \<Longrightarrow>
     fd_inv (put_sock fd q s) n"
  by (rule fd_inv_put_sock) (auto simp: same_binding_def dest: socketD(4))

lemma sys_accept_cases:
  fixes k :: "'w kernel" and fd :: nat
  defines "s \<equiv> k_sys k" and "q \<equiv> f_sock (g_fds (k_sys k) fd)"
  obtains (fail) "sys_accept fd a1 a2 m k = (-1, m, k)"
  | (accept) new q1 q2 m' where "is_socket fd s" "s_type q = QOS_SOCK_STREAM" "new < QOS_FD_MAX" "\<not> f_used (g_fds s new)"
      "same_binding q q1" "sock_ok q \<Longrightarrow> sock_ok q1" "s_bound q2" "s_type q2 = QOS_SOCK_STREAM" "s_lport q2 = s_lport q"
      "\<not> s_listening q2" "sock_ok q \<Longrightarrow> s_bound q \<Longrightarrow> sock_ok q2" "s_listening q"
      "sys_accept fd a1 a2 m k = (int new, m', k\<lparr>k_sys :=
         put_fd new (fd0\<lparr>f_used := True, f_kind := QOS_FD_KIND_SOCKET, f_sock := q2\<rparr>) (put_sock fd q1 s)\<rparr>)"
proof (cases "is_socket fd s \<and> s_type q = QOS_SOCK_STREAM \<and> s_listening q \<and> s_pending q \<noteq> 0")
  case True
  then have fd: "fd < QOS_FD_MAX" "f_used (g_fds s fd)" by (auto simp: is_socket_def fd_valid_def)
  show thesis
  proof (cases rule: fd_alloc_cases [of QOS_FD_KIND_SOCKET s])
    case 1
    then show thesis using True by (intro fail) (simp add: sys_accept_def Let_def s_def q_def)
  next
    case (2 new)
    let ?fresh = "fd0\<lparr>f_used := True, f_kind := QOS_FD_KIND_SOCKET\<rparr>"
    have ne: "new \<noteq> fd" using 2 fd by auto
    have "s_pending (f_sock (g_fds (put_fd new ?fresh s) fd)) \<noteq> 0" using True ne by (simp add: q_def s_def)
    with fd(1) obtain x q' where pop: "socket_pending_pop fd (put_fd new ?fresh s) = (Some x, put_sock fd q' (put_fd new ?fresh s))"
      and q': "same_binding q q'" "sock_ok q \<Longrightarrow> sock_ok q'"
      using ne by (elim pending_pop_cases [of fd "put_fd new ?fresh s"]) (auto simp: q_def s_def)
    obtain pp ip c where x: "x = (pp, ip, c)" by (cases x)
    let ?q1 = "q'\<lparr>s_pending_rport := pp, s_pending_rip := ip, s_pending_conn_id := c\<rparr>"
    let ?q2 = "sock0\<lparr>s_bound := True, s_connected := True, s_type := QOS_SOCK_STREAM, s_lport := s_lport q, s_rport := pp,
      s_rip := ip, s_conn_id := c\<rparr>"
    have "sys_accept fd a1 a2 m k = (int new, accept_addr a1 a2 pp ip m, k\<lparr>k_sys :=
         put_fd new (fd0\<lparr>f_used := True, f_kind := QOS_FD_KIND_SOCKET, f_sock := ?q2\<rparr>) (put_sock fd ?q1 s)\<rparr>)"
      using True 2(3) pop x ne q'(1) unfolding sys_accept_def Let_def s_def [symmetric] q_def [folded s_def, symmetric]
      by (simp add: put_sock_def put_fd_commute [of new fd] same_binding_def fd0_def sock0_def)
    moreover have "sock_ok ?q1" if "sock_ok q" using q'(2) [OF that] by (auto simp: sock_ok_def pending_ok_def)
    moreover have "sock_ok ?q2" if "sock_ok q" "s_bound q"
      using that True by (auto simp: sock_ok_def pending_ok_def sock0_def)
    ultimately show thesis
      using True 2(1,2) q'(1) by (intro accept [of new ?q1 ?q2]) (auto simp: same_binding_def sock0_def)
  qed
next
  case False
  then show thesis by (intro fail) (auto simp: sys_accept_def Let_def s_def q_def)
qed

lemma sys_accept_keeps: "keeps k (sys_accept fd a1 a2 m k)"
proof (cases rule: sys_accept_cases [where k = k and fd = fd and ?a1.0 = a1 and ?a2.0 = a2 and m = m])
  case (accept new q1 q2 m')
  let ?s = "put_sock fd q1 (k_sys k)" and ?r = "fd0\<lparr>f_used := True, f_kind := QOS_FD_KIND_SOCKET, f_sock := q2\<rparr>"
  have "fd_inv (put_fd new ?r ?s) (k_net k)" if inv: "fd_inv (k_sys k) (k_net k)"
  proof (rule fd_inv_share [where i = fd])
    note d = socketD [OF inv accept(1)]
    show "fd_inv ?s (k_net k)" by (rule fd_inv_rebind [OF inv accept(1,5,6)])
    have ne: "new \<noteq> fd" using accept(4) d(2) by auto
    show "new < 256" "\<not> f_used (g_fds ?s new)" using accept(3,4) ne by (simp_all add: put_sock_def)
    have b: "s_bound (f_sock (g_fds (k_sys k) fd))" using d(4) accept(12) by (auto simp: sock_ok_def)
    show "f_used ?r" "fd < 256" using d by simp_all
    show "fd_ok (g_files ?s) (g_pipes ?s) ?r"
      using accept(11) [OF d(4) b] by (simp add: fd_ok_def holds_file_def holds_pipe_def)
    show "holds_port ?r \<subseteq> holds_port (g_fds ?s fd)"
      using d accept(2,5,8,9) b by (simp add: holds_port_def put_sock_def same_binding_def)
  qed (use accept(10) in \<open>simp_all add: holds_file_def holds_pipe_def holds_listener_def\<close>)
  then show ?thesis unfolding accept(13) by (intro keeps_sys) auto
qed simp

lemma sys_accept_atomic: "atomic m k (sys_accept fd a1 a2 m k)"
  by (cases rule: sys_accept_cases [where k = k and fd = fd and ?a1.0 = a1 and ?a2.0 = a2 and m = m]) (auto simp: atomic_def)

section \<open>Connecting\<close>

lemma tcp_connect_fail: "qos_net_tcp_connect lp ip rp n = (c, n1) \<Longrightarrow> c < 0 \<Longrightarrow> n1 = n"
  by (auto simp: qos_net_tcp_connect_def split: if_splits option.splits)

lemma tcp_connect_established:
  assumes "qos_net_tcp_connect lp ip rp n = (c, n1)" "c \<ge> 0"
  obtains n2 where "qos_net_tcp_step c QOS_TCP_EVT_RX_SYN_ACK n1 = (0, n2)"
proof -
  obtain i where i: "find_free QOS_NET_TCP_MAX_CONNS c_used (g_tcp_conns n) = Some i" "c = int i"
    "c_used (g_tcp_conns n1 i)" "c_state (g_tcp_conns n1 i) = SYN_SENT"
    using assms by (auto simp: qos_net_tcp_connect_def split: if_splits option.splits)
  then have "conn_valid c n1" using find_free_Some [OF i(1)] by (simp add: conn_valid_def)
  then show thesis using that i by (simp add: qos_net_tcp_step_def Let_def)
qed

lemma port_alloc_ok:
  assumes "t = QOS_SOCK_STREAM \<or> t = QOS_SOCK_DGRAM" "socket_port_alloc t s = (lp, s1)"
  shows "lp \<noteq> 0 \<Longrightarrow> s1 = snd (socket_port_mark t lp s) \<and> port_ok t lp \<and> \<not> marked t lp s" "lp = 0 \<Longrightarrow> s1 = s"
  by (rule port_alloc_cases [OF assms(1), of s], use assms(2) in auto)+

text \<open>The local port of a stream socket: its own, or a free one that can be given back.\<close>

lemma stream_port:
  assumes inv: "fd_inv s n" and fd: "is_socket fd s" and t: "s_type (f_sock (g_fds s fd)) = QOS_SOCK_STREAM"
    and lp: "(if s_lport (f_sock (g_fds s fd)) = 0 then socket_port_alloc QOS_SOCK_STREAM s
      else (s_lport (f_sock (g_fds s fd)), s)) = (lp, s1)" and nz: "lp \<noteq> 0"
  shows "(if s_lport (f_sock (g_fds s fd)) = 0 then socket_port_unmark QOS_SOCK_STREAM lp s1 else s1) = s"
    "s_bound q \<Longrightarrow> s_lport q = lp \<Longrightarrow> s_type q = QOS_SOCK_STREAM \<Longrightarrow> s_listening q = s_listening (f_sock (g_fds s fd)) \<Longrightarrow>
      sock_ok q \<Longrightarrow> fd_inv (put_sock fd q s1) n"
    "port_ok QOS_SOCK_STREAM lp" "g_fds s1 = g_fds s" "named s1 = named s" "sys_rest s1 = sys_rest s"
proof -
  let ?q = "f_sock (g_fds s fd)"
  have ok: "sock_ok ?q" by (rule socketD(4) [OF inv fd])
  have all: "(if s_lport ?q = 0 then socket_port_unmark 1 lp s1 else s1) = s \<and>
      (s_bound q \<longrightarrow> s_lport q = lp \<longrightarrow> s_type q = 1 \<longrightarrow> s_listening q = s_listening ?q \<longrightarrow> sock_ok q \<longrightarrow> fd_inv (put_sock fd q s1) n) \<and>
      port_ok 1 lp \<and> g_fds s1 = g_fds s \<and> named s1 = named s \<and> sys_rest s1 = sys_rest s"
  proof (cases "s_lport ?q = 0")
    case True
    have alloc: "socket_port_alloc QOS_SOCK_STREAM s = (lp, s1)" using lp True by simp
    have p: "s1 = snd (socket_port_mark QOS_SOCK_STREAM lp s)" "port_ok QOS_SOCK_STREAM lp" "\<not> marked QOS_SOCK_STREAM lp s"
      using port_alloc_ok [OF _ alloc] nz by simp_all
    have unb: "\<not> s_bound ?q" using ok True by (simp add: sock_ok_def)
    show ?thesis
      using True unmark_mark [OF p(2,3)] p(1,2) fd_inv_take_port [OF inv fd unb t p(2,3)] by simp
  next
    case False
    have s1: "s1 = s" "lp = s_lport ?q" using lp False by (auto split: if_splits)
    have b: "s_bound ?q" using ok False by (simp add: sock_ok_def)
    have "port_ok 1 lp" using ok b t s1(2) by (auto simp: sock_ok_def port_ok_def)
    moreover have "fd_inv (put_sock fd q s1) n"
      if "s_bound q" "s_lport q = lp" "s_type q = 1" "s_listening q = s_listening ?q" "sock_ok q"
      unfolding s1(1) using that b t s1(2) by (intro fd_inv_put_sock [OF inv fd]) simp_all
    ultimately show ?thesis
      using False s1(1) by simp
  qed
  then show "(if s_lport ?q = 0 then socket_port_unmark QOS_SOCK_STREAM lp s1 else s1) = s" "port_ok QOS_SOCK_STREAM lp"
    "g_fds s1 = g_fds s" "named s1 = named s" "sys_rest s1 = sys_rest s" by blast+
  show "fd_inv (put_sock fd q s1) n"
    if "s_bound q" "s_lport q = lp" "s_type q = QOS_SOCK_STREAM" "s_listening q = s_listening ?q" "sock_ok q"
    using all that by blast
qed


lemma find_listener_Some:
  "find_listener fd rp s = Some i \<Longrightarrow> i \<noteq> fd \<and> is_socket i s \<and> i < QOS_FD_MAX"
  by (auto simp: find_listener_def scan_Some_iff Let_def is_socket_def)

lemma sock_ok_connected:
  assumes "sock_ok q" "s_type q = t" "t \<noteq> QOS_SOCK_RAW \<longrightarrow> port_ok t lp" "lp \<noteq> 0"
  shows "sock_ok (q\<lparr>s_bound := True, s_lport := lp, s_connected := True, s_rport := rp, s_rip := ip, s_conn_id := c\<rparr>)"
  using assms by (auto simp: sock_ok_def pending_ok_def port_ok_def)

lemma connect_stream_cases:
  fixes k :: "'w kernel" and fd :: nat
  defines "s \<equiv> k_sys k" and "q \<equiv> f_sock (g_fds (k_sys k) fd)"
  assumes inv: "fd_inv s (k_net k)" and fd: "is_socket fd s" and t: "s_type q = QOS_SOCK_STREAM"
  obtains (fail) "connect_stream fd rp ip m k = (-1, m, k)"
  | (host) lp s1 where "fd_inv (put_sock fd (q\<lparr>s_bound := True, s_lport := lp, s_connected := True, s_rport := rp, s_rip := ip,
        s_conn_id := -1\<rparr>) s1) (k_net k)" "named s1 = named s" "sys_rest s1 = sys_rest s"
      "connect_stream fd rp ip m k = (0, m, k\<lparr>k_sys := put_sock fd (q\<lparr>s_bound := True, s_lport := lp, s_connected := True,
        s_rport := rp, s_rip := ip, s_conn_id := -1\<rparr>) s1\<rparr>)"
  | (peer) s3 n2 where "fd_inv s3 n2" "named s3 = named s" "sys_rest s3 = sys_rest s"
      "connect_stream fd rp ip m k = (0, m, set_net s3 n2 k)"
proof -
  have ok: "sock_ok q" using socketD(4) [OF inv fd] by (simp add: q_def s_def)
  obtain lp s1 where lp: "(if s_lport q = 0 then socket_port_alloc QOS_SOCK_STREAM s else (s_lport q, s)) = (lp, s1)" by fastforce
  note sp = stream_port [OF inv fd, folded s_def, of lp s1, unfolded s_def, folded q_def, folded s_def, OF t lp]
  define conn where "conn c = q\<lparr>s_bound := True, s_lport := lp, s_connected := True, s_rport := rp, s_rip := ip, s_conn_id := c\<rparr>" for c
  have conn: "fd_inv (put_sock fd (conn c) s1) (k_net k)" if "lp \<noteq> 0" for c
    using sp(2) [OF that, of "conn c"] sp(3) [OF that] sock_ok_connected [OF ok t] that t by (simp add: conn_def)
  show thesis
  proof (cases "find_listener fd rp s")
    case None
    then have eq: "connect_stream fd rp ip m k = (if ip \<noteq> QOS_NET_IPV4_GATEWAY \<or> lp = 0 then (-1, m, k)
        else (0, m, k\<lparr>k_sys := put_sock fd (conn (-1)) s1\<rparr>))"
      using lp unfolding connect_stream_def Let_def s_def [symmetric] q_def [folded s_def, symmetric] by (simp add: conn_def)
    show thesis
    proof (cases "ip \<noteq> QOS_NET_IPV4_GATEWAY \<or> lp = 0")
      case False
      then show thesis using conn [of "-1"] eq sp(5,6) by (intro host [of lp s1]) (simp_all add: conn_def)
    qed (use eq fail in simp)
  next
    case (Some l)
    note l = find_listener_Some [OF Some]
    let ?lq = "f_sock (g_fds s l)"
    show thesis
    proof (cases "s_backlog ?lq = 0 \<or> s_pending ?lq \<ge> s_backlog ?lq \<or> lp = 0")
      case True
      then show thesis using Some lp unfolding connect_stream_def Let_def s_def [symmetric] q_def [folded s_def, symmetric]
        by (intro fail) (auto simp: connect_stream_def Let_def s_def [symmetric] q_def [folded s_def, symmetric])
    next
      case False
      then have lp0: "lp \<noteq> 0" by simp
      obtain c n1 where c: "qos_net_tcp_connect lp ip rp (k_net k) = (c, n1)" by fastforce
      show thesis
      proof (cases "c < 0")
        case True
        then have "n1 = k_net k" using tcp_connect_fail c by blast
        then have "connect_stream fd rp ip m k = (-1, m, k)"
          using Some False lp c True sp(1) [OF lp0]
          unfolding connect_stream_def Let_def s_def [symmetric] q_def [folded s_def, symmetric] by (simp add: s_def)
        then show thesis by (rule fail)
      next
        case cn: False
        then obtain n2 where n2: "qos_net_tcp_step c QOS_TCP_EVT_RX_SYN_ACK n1 = (0, n2)" using tcp_connect_established [OF c] by auto
        have inv2: "fd_inv (put_sock fd (conn (to_int16 c)) s1) n2"
          using fd_inv_tcp_event [OF fd_inv_tcp_connect [OF conn [OF lp0, of "to_int16 c"], of lp ip rp], of c QOS_TCP_EVT_RX_SYN_ACK] c n2 by simp
        have gl: "g_fds (put_sock fd (conn (to_int16 c)) s1) l = g_fds s l" using l sp(4) [OF lp0] by (simp add: put_sock_def)
        have lok: "sock_ok ?lq" using socketD(4) [OF inv] l by simp
        have "unat (s_pending ?lq) < 16" using False lok by (auto simp: sock_ok_def word_le_nat_alt)
        then obtain ql where push: "socket_pending_push l lp QOS_NET_IPV4_LOCAL (to_int16 c) (put_sock fd (conn (to_int16 c)) s1) =
              (0, put_sock l ql (put_sock fd (conn (to_int16 c)) s1))" "same_binding ?lq ql" "sock_ok ql"
          using pending_push_cases [of l "put_sock fd (conn (to_int16 c)) s1" lp QOS_NET_IPV4_LOCAL "to_int16 c"] l gl lok by metis
        have sl: "is_socket l (put_sock fd (conn (to_int16 c)) s1)"
          using l gl by (simp add: is_socket_def fd_valid_def)
        have "fd_inv (put_sock l ql (put_sock fd (conn (to_int16 c)) s1)) n2"
          by (rule fd_inv_rebind [OF inv2 sl]) (use push gl in auto)
        moreover have "connect_stream fd rp ip m k = (0, m, set_net (put_sock l ql (put_sock fd (conn (to_int16 c)) s1)) n2 k)"
          using Some False lp c cn n2 push(1)
          unfolding connect_stream_def Let_def s_def [symmetric] q_def [folded s_def, symmetric] by (simp add: conn_def)
        ultimately show thesis using sp(5,6) [OF lp0] by (intro peer) simp_all
      qed
    qed
  qed
qed

text \<open>The port of a datagram socket: its own, or a free one that is bound for it.\<close>

lemma auto_bind_cases:
  fixes k :: "'w kernel" and fd :: nat
  defines "s \<equiv> k_sys k" and "q \<equiv> f_sock (g_fds (k_sys k) fd)"
  assumes inv: "fd_inv s (k_net k)" and fd: "is_socket fd s" and t: "s_type q = QOS_SOCK_DGRAM"
  obtains (fail) "auto_bind fd k = (0, k)"
  | (bound) lp s1 n1 where "lp \<noteq> 0" "fd_inv s1 n1" "is_socket fd s1" "f_sock (g_fds s1 fd) = q\<lparr>s_bound := True, s_lport := lp\<rparr>"
      "named s1 = named s" "sys_rest s1 = sys_rest s" "port_ok QOS_SOCK_DGRAM lp" "auto_bind fd k = (lp, set_net s1 n1 k)"
proof (cases "s_lport q = 0")
  case False
  have ok: "sock_ok q" using socketD(4) [OF inv fd] by (simp add: q_def s_def)
  then have "q\<lparr>s_bound := True, s_lport := s_lport q\<rparr> = q" "port_ok QOS_SOCK_DGRAM (s_lport q)"
    using False t by (auto simp: sock_ok_def port_ok_def)
  then show thesis
    using bound [of "s_lport q" s "k_net k"] inv fd False by (simp add: auto_bind_def Let_def q_def s_def)
next
  case True
  have ok: "sock_ok q" and unb: "\<not> s_bound q" using socketD(4) [OF inv fd] True by (auto simp: q_def s_def sock_ok_def)
  obtain lp s1 where alloc: "socket_port_alloc QOS_SOCK_DGRAM s = (lp, s1)" by fastforce
  obtain b n1 where b: "qos_net_udp_bind lp (k_net k) = (b, n1)" by fastforce
  have eq: "auto_bind fd k = (if lp = 0 then (0, k) else if b \<noteq> 0 then (0, set_net (socket_port_unmark QOS_SOCK_DGRAM lp s1) n1 k)
      else (lp, set_net (put_sock fd (q\<lparr>s_bound := True, s_lport := lp\<rparr>) s1) n1 k))"
    using True alloc b unfolding auto_bind_def Let_def s_def [symmetric] q_def [folded s_def, symmetric] by simp
  show thesis
  proof (cases "lp = 0")
    case False
    have p: "s1 = snd (socket_port_mark QOS_SOCK_DGRAM lp s)" "port_ok QOS_SOCK_DGRAM lp" "\<not> marked QOS_SOCK_DGRAM lp s"
      using port_alloc_ok [OF _ alloc] False by simp_all
    show thesis
    proof (cases "b = 0")
      case ok0: True
      let ?q1 = "q\<lparr>s_bound := True, s_lport := lp\<rparr>"
      have "fd_inv (put_sock fd ?q1 s1) n1"
        unfolding p(1) using sock_ok_bound [OF ok False] t p(2) b ok0
        by (intro fd_inv_take_port [OF inv fd _ _ p(2,3)]) (use unb t in \<open>auto simp: q_def s_def\<close>)
      then show thesis
        using eq False ok0 p fd
        by (intro bound [of lp "put_sock fd ?q1 s1" n1]) (auto simp: put_sock_def is_socket_def fd_valid_def)
    next
      case bad: False
      then have "n1 = k_net k" using udp_bind_fail b by blast
      then have "auto_bind fd k = (0, k)" using eq False bad unmark_mark [OF p(2,3)] p(1) by (simp add: s_def)
      then show thesis by (rule fail)
    qed
  qed (use eq fail in simp)
qed

lemma sys_connect_cases:
  fixes k :: "'w kernel"
  assumes "fd_inv (k_sys k) (k_net k)"
  obtains (fail) "sys_connect fd addr len m k = (-1, m, k)"
  | (connect) s1 n1 where "fd_inv s1 n1" "named s1 = named (k_sys k)" "sys_rest s1 = sys_rest (k_sys k)"
      "sys_connect fd addr len m k = (0, m, set_net s1 n1 k)"
proof (cases "is_socket fd (k_sys k) \<and> parse_sockaddr (buf_at m addr 8) len False \<noteq> None")
  case True
  then have fd: "is_socket fd (k_sys k)" by simp
  let ?q = "f_sock (g_fds (k_sys k) fd)"
  obtain rp ip where a: "parse_sockaddr (buf_at m addr 8) len False = Some (rp, ip)" using True by auto
  have "s_type ?q = QOS_SOCK_STREAM \<or> s_type ?q = QOS_SOCK_DGRAM \<or> s_type ?q = QOS_SOCK_RAW"
    using socketD(4) [OF assms fd] by (simp add: sock_ok_def)
  then show thesis
  proof (elim disjE)
    assume t: "s_type ?q = QOS_SOCK_STREAM"
    then have eq: "sys_connect fd addr len m k = connect_stream fd rp ip m k" using fd a by (simp add: sys_connect_def Let_def)
    show thesis
    proof (cases rule: connect_stream_cases [OF assms fd t, of rp ip m])
      case (2 lp s1)
      then show thesis using eq by (intro connect) (auto simp: set_net_sys)
    qed (use eq fail connect in auto)
  next
    assume t: "s_type ?q = QOS_SOCK_DGRAM"
    show thesis
    proof (cases rule: auto_bind_cases [OF assms fd t])
      case 1
      then show thesis using fd a t by (intro fail) (simp add: sys_connect_def Let_def)
    next
      case (2 lp s1 n1)
      let ?q1 = "?q\<lparr>s_bound := True, s_lport := lp, s_connected := True, s_rport := rp, s_rip := ip\<rparr>"
      have "sock_ok (f_sock (g_fds s1 fd))" using socketD(4) [OF 2(2,3)] .
      then have "sock_ok ?q1" using 2(4) by (auto simp: sock_ok_def pending_ok_def)
      then have "fd_inv (put_sock fd ?q1 s1) n1" using 2(4) by (intro fd_inv_put_sock [OF 2(2,3)]) simp_all
      moreover have "sys_connect fd addr len m k = (0, m, set_net (put_sock fd ?q1 s1) n1 k)"
        using fd a t 2(1,4,8) by (simp add: sys_connect_def Let_def set_net_sys)
      ultimately show thesis using 2(5,6) by (intro connect) auto
    qed
  next
    assume t: "s_type ?q = QOS_SOCK_RAW"
    let ?q1 = "?q\<lparr>s_bound := True, s_lport := (if s_lport ?q = 0 then 1 else s_lport ?q), s_connected := True, s_rport := rp, s_rip := ip\<rparr>"
    have ok: "sock_ok ?q" by (rule socketD(4) [OF assms fd])
    then have ok1: "sock_ok ?q1" using t by (auto simp: sock_ok_def pending_ok_def)
    have "fd_inv (put_sock fd ?q1 (k_sys k)) (k_net k)"
    proof (cases "s_bound ?q")
      case True
      then show ?thesis using ok ok1 by (intro fd_inv_put_sock [OF assms fd]) (auto simp: sock_ok_def)
    next
      case False
      show ?thesis
        by (rule fd_inv_bound [OF assms fd False, where q = ?q1]) (use assms t ok1 in \<open>auto simp: put_sock_def fd_inv_def\<close>)
    qed
    moreover have "sys_connect fd addr len m k = (0, m, set_net (put_sock fd ?q1 (k_sys k)) (k_net k) k)"
      using fd a t by (simp add: sys_connect_def Let_def set_net_sys)
    ultimately show thesis by (intro connect) auto
  qed
qed (cases "parse_sockaddr (buf_at m addr 8) len False", use fail in \<open>auto simp: sys_connect_def Let_def\<close>)

lemma sys_connect_keeps: "keeps k (sys_connect fd addr len m k)"
proof (rule keeps_assume)
  assume inv: "fd_inv (k_sys k) (k_net k)"
  show ?thesis
  proof (cases rule: sys_connect_cases [OF inv, of fd addr len m])
    case (2 s1 n1)
    then show ?thesis by (simp add: keepsI)
  qed simp
qed

lemma sys_connect_atomic: "fd_inv (k_sys k) (k_net k) \<Longrightarrow> atomic m k (sys_connect fd addr len m k)"
  by (cases rule: sys_connect_cases [of k fd addr len m]) (auto simp: atomic_def)

section \<open>Sending and receiving\<close>

lemma send_dgram_keeps:
  assumes inv: "fd_inv (k_sys k) (k_net k)" and fd: "is_socket fd (k_sys k)" and t: "s_type (f_sock (g_fds (k_sys k) fd)) = QOS_SOCK_DGRAM"
    and src: "src \<noteq> 0" and target: "send_target (f_sock (g_fds (k_sys k) fd)) a3 m = Some (rp, ip)" and len: "len \<noteq> 0"
  shows "keeps k (sys_send fd src len a3 m k)"
proof (cases rule: auto_bind_cases [OF inv fd t])
  case 1
  then show ?thesis using assms by (simp add: sys_send_def Let_def)
next
  case (2 lp s1 n1)
  let ?q = "f_sock (g_fds s1 fd)" and ?b = "mem_bytes m src (unat len)"
  let ?s2 = "put_sock fd (?q\<lparr>s_rport := rp, s_rip := ip\<rparr>) s1"
  have "sock_ok (?q\<lparr>s_rport := rp, s_rip := ip\<rparr>)" using socketD(4) [OF 2(2,3)] by (auto simp: sock_ok_def pending_ok_def)
  then have i: "fd_inv ?s2 n1" by (intro fd_inv_put_sock [OF 2(2,3)]) simp_all
  have i2: "fd_inv ?s2 (snd (qos_net_udp_send lp QOS_NET_IPV4_LOCAL rp (Some ?b) len n1))" by (rule fd_inv_udp_send [OF i]) simp
  have eq: "sys_send fd src len a3 m k = (if rp = 0 \<or> ip = 0 then (-1, m, set_net s1 n1 k)
      else (fst (qos_net_udp_send lp QOS_NET_IPV4_LOCAL rp (Some ?b) len n1), m,
        set_net ?s2 (snd (qos_net_udp_send lp QOS_NET_IPV4_LOCAL rp (Some ?b) len n1)) k))"
    using assms 2(1,8) by (simp add: sys_send_def Let_def buf_at_def split_beta)
  show ?thesis unfolding eq by (intro keeps_if keepsI) (use 2(2,5,6) i2 in simp_all)
qed

lemma sys_send_keeps: "keeps k (sys_send fd src len a3 m k)"
proof (rule keeps_assume)
  assume inv: "fd_inv (k_sys k) (k_net k)"
  let ?q = "f_sock (g_fds (k_sys k) fd)"
  show ?thesis
  proof (cases "is_socket fd (k_sys k) \<and> src \<noteq> 0 \<and> len \<noteq> 0")
    case True
    show ?thesis
    proof (cases "s_type ?q = QOS_SOCK_DGRAM")
      case dgram: True
      show ?thesis
      proof (cases "send_target ?q a3 m")
        case None
        then show ?thesis using True dgram by (simp add: sys_send_def Let_def)
      next
        case (Some a)
        then show ?thesis using True dgram send_dgram_keeps [OF inv] by (cases a) auto
      qed
    next
      case False
      show ?thesis
        using True False unfolding sys_send_def Let_def
        by (auto split: option.splits intro!: raw_echo_keeps host_stream_send_keeps net_send_keeps)
    qed
  qed (auto simp: sys_send_def Let_def)
qed

lemma sys_recv_keeps: "keeps k (sys_recv fd out len a3 m k)"
  unfolding sys_recv_def Let_def
  by (auto simp: split_beta intro!: raw_taken_keeps udp_recv_keeps host_stream_recv_keeps net_recv_keeps)

text \<open>Failing without effect.\<close>

lemma atomic_same [simp]: "atomic m k (r, m, k)"
  by (simp add: atomic_def)

lemma atomic_ok [simp]: "0 \<le> r \<Longrightarrow> atomic m k (r, m', k')"
  by (simp add: atomic_def)

lemma atomic_if [intro]: "(b \<Longrightarrow> atomic m k x) \<Longrightarrow> (\<not> b \<Longrightarrow> atomic m k y) \<Longrightarrow> atomic m k (if b then x else y)"
  by simp

lemma udp_recv_fail:
  "fst (fst (qos_net_udp_recv p True cap n)) < 0 \<Longrightarrow> qos_net_udp_recv p True cap n = ((-1, None), n)"
  by (auto simp: qos_net_udp_recv_def Let_def split: if_splits option.splits)

lemma host_stream_recv_atomic: "atomic m k (host_stream_recv fd out len m k)"
  by (auto simp: host_stream_recv_def Let_def)

lemma net_recv_atomic: "atomic m k (net_recv out len m k)"
  by (auto simp: net_recv_def qos_net_dequeue_packet_def Let_def)

lemma net_send_atomic: "atomic m k (net_send src len m k)"
  by (auto simp: net_send_def qos_net_enqueue_packet_def Let_def split: option.splits)

lemma read_socket_atomic: "atomic m k (read_socket fd out len m k)"
proof -
  have udp: "atomic m k (fst (fst u), case snd (fst u) of None \<Rightarrow> m | Some (_, _, bs) \<Rightarrow> mem_store out bs m, k\<lparr>k_net := snd u\<rparr>)"
    if "u = qos_net_udp_recv p True len (k_net k)" for u p
    using udp_recv_fail [of p len "k_net k"] that by (cases "fst (fst u) < 0") (auto simp: atomic_def)
  show ?thesis
    unfolding read_socket_def Let_def
    by (auto simp: split_beta intro!: host_stream_recv_atomic net_recv_atomic udp [OF refl])
qed

lemma raw_echo_atomic: "atomic m k (raw_echo fd ip port src len m k)"
  by (auto simp: raw_echo_def Let_def split: option.splits prod.splits)

lemma host_stream_send_atomic: "atomic m k (host_stream_send fd src len m k)"
  by (auto simp: host_stream_send_def stream_host_response_prepare_def Let_def split: option.splits)

lemma udp_send_fail: "fst (qos_net_udp_send sp ip dp b len n) < 0 \<Longrightarrow> qos_net_udp_send sp ip dp b len n = (-1, n)"
  by (auto simp: qos_net_udp_send_def Let_def split: if_splits option.splits)

lemma write_socket_atomic: "atomic m k (write_socket fd src len m k)"
proof -
  have udp: "atomic m k (fst u, m, k\<lparr>k_net := snd u\<rparr>)" if "u = qos_net_udp_send sp ip dp b len (k_net k)" for u sp ip dp b
    using udp_send_fail [of sp ip dp b len "k_net k"] that by (cases "fst u < 0") (auto simp: atomic_def)
  show ?thesis
    unfolding write_socket_def Let_def
    by (auto simp: split_beta intro!: host_stream_send_atomic net_send_atomic raw_echo_atomic udp [OF refl])
qed

lemma sys_recv_atomic: "atomic m k (sys_recv fd out len a3 m k)"
  unfolding sys_recv_def Let_def
  by (auto simp: split_beta intro!: host_stream_recv_atomic net_recv_atomic dest!: udp_recv_fail)

lemma sys_socket_atomic: "atomic m k (sys_socket a0 a1 m k)"
  by (auto simp: sys_socket_def split: prod.splits option.splits)

end
