(* ===== verification/Procfs.thy ===== *)
theory Procfs
  imports Kstate
begin

text \<open>
  The synthetic files of \<^verbatim>\<open>src/c-os/kernel/syscall/syscall.c\<close>: the paths under \<open>/proc\<close> and the text behind
  each, rendered from the counters and tables of the kernel.

  A render function takes the capacity and the pair of the output buffer (\<open>None\<close> for a null pointer) and the
  offset so far; each call of one in the code is an item of a list here, in the same order.
\<close>

section \<open>Model\<close>

abbreviation (input) QOS_PROC_FD_MEMINFO :: u8 where "QOS_PROC_FD_MEMINFO \<equiv> 1"
abbreviation (input) QOS_PROC_FD_STATUS :: u8 where "QOS_PROC_FD_STATUS \<equiv> 2"
abbreviation (input) QOS_PROC_FD_KERNEL_STATUS :: u8 where "QOS_PROC_FD_KERNEL_STATUS \<equiv> 3"
abbreviation (input) QOS_PROC_FD_NET_DEV :: u8 where "QOS_PROC_FD_NET_DEV \<equiv> 4"
abbreviation (input) QOS_PROC_FD_SYSCALLS :: u8 where "QOS_PROC_FD_SYSCALLS \<equiv> 5"
abbreviation (input) QOS_PROC_FD_UPTIME :: u8 where "QOS_PROC_FD_UPTIME \<equiv> 6"
abbreviation (input) QOS_PROC_FD_RUNTIME_MAP :: u8 where "QOS_PROC_FD_RUNTIME_MAP \<equiv> 7"

subsection \<open>Paths\<close>

text \<open>The kind and the process identifier stored through the out-pointers, \<open>None\<close> for \<open>-1\<close>.\<close>

definition proc_path_kind :: "cstr \<Rightarrow> (u8 \<times> u32) option" where
  "proc_path_kind path =
     (case path of
        None \<Rightarrow> None
      | Some p \<Rightarrow>
          if p = ''/proc/meminfo'' then Some (QOS_PROC_FD_MEMINFO, 0)
          else if p = ''/proc/kernel/status'' then Some (QOS_PROC_FD_KERNEL_STATUS, 0)
          else if p = ''/proc/net/dev'' then Some (QOS_PROC_FD_NET_DEV, 0)
          else if p = ''/proc/syscalls'' then Some (QOS_PROC_FD_SYSCALLS, 0)
          else if p = ''/proc/uptime'' then Some (QOS_PROC_FD_UPTIME, 0)
          else if p = ''/proc/runtime/map'' then Some (QOS_PROC_FD_RUNTIME_MAP, 0)
          else if take 6 p \<noteq> ''/proc/'' then None
          else if length p \<le> 6 + 7 then None
          else if drop (length p - 7) p \<noteq> ''/status'' then None
          else let digits = take (length p - 7 - 6) (drop 6 p) in
            if \<not> list_all is_dec_digit digits then None
            else let pid = dec_read 0 digits in
              if pid = 0 then None else Some (QOS_PROC_FD_STATUS, pid))"

subsection \<open>Rendering\<close>

text \<open>The loop that stores characters from position \<open>pos\<close> on, leaving the last byte of \<open>cap\<close> alone.\<close>

fun render_loop :: "u32 \<Rightarrow> u32 \<Rightarrow> string \<Rightarrow> bytes \<Rightarrow> bytes" where
  "render_loop cap pos [] b = b"
| "render_loop cap pos (c # cs) b =
     render_loop cap (pos + 1) cs (if pos + 1 < cap then b[unat pos := of_char c] else b)"

type_synonym render_state = "bytes option \<times> u32"

definition render_append_text :: "u32 \<Rightarrow> cstr \<Rightarrow> render_state \<Rightarrow> render_state" where
  "render_append_text cap text st =
     (case text of
        None \<Rightarrow> st
      | Some t \<Rightarrow> (map_option (render_loop cap (snd st) t) (fst st), snd st + word_of_nat (length t)))"

text \<open>The digits in \<open>tmp\<close> are stored in reverse, which is the order of \<open>dec_string\<close>.\<close>

definition render_append_u32 :: "u32 \<Rightarrow> u32 \<Rightarrow> render_state \<Rightarrow> render_state" where
  "render_append_u32 cap v st =
     (if v = 0 then render_append_text cap (Some ''0'') st
      else let digits = rev (dec_tmp 16 v) in
        (map_option (render_loop cap (snd st) digits) (fst st), snd st + word_of_nat (length digits)))"

definition hex_char :: "nat \<Rightarrow> char" where
  "hex_char d = ''0123456789abcdef'' ! d"

fun hex_tmp :: "nat \<Rightarrow> u32 \<Rightarrow> string" where
  "hex_tmp 0 v = []"
| "hex_tmp (Suc k) v = (if v = 0 then [] else hex_char (unat (v AND 0xF)) # hex_tmp k (drop_bit 4 v))"

definition render_append_u32_hex :: "u32 \<Rightarrow> u32 \<Rightarrow> render_state \<Rightarrow> render_state" where
  "render_append_u32_hex cap v st =
     (if v = 0 then render_append_text cap (Some ''0'') st
      else let digits = rev (hex_tmp 8 v) in
        (map_option (render_loop cap (snd st) digits) (fst st), snd st + word_of_nat (length digits)))"

definition render_append_u64_hex_fixed :: "u32 \<Rightarrow> u64 \<Rightarrow> nat \<Rightarrow> render_state \<Rightarrow> render_state" where
  "render_append_u64_hex_fixed cap v digits0 st =
     (let digits = (if digits0 > 16 then 16 else digits0);
          text = map (\<lambda>i. hex_char (unat (drop_bit ((digits - 1 - i) * 4) v AND 0xF))) [0..<digits] in
      (map_option (render_loop cap (snd st) text) (fst st), snd st + word_of_nat digits))"

datatype render_call = Txt string | Dec u32 | Hex u32 | Hex64 u64

fun render_one :: "u32 \<Rightarrow> render_call \<Rightarrow> render_state \<Rightarrow> render_state" where
  "render_one cap (Txt t) = render_append_text cap (Some t)"
| "render_one cap (Dec v) = render_append_u32 cap v"
| "render_one cap (Hex v) = render_append_u32_hex cap v"
| "render_one cap (Hex64 v) = render_append_u64_hex_fixed cap v 16"

subsection \<open>The files\<close>

abbreviation (input) tab :: string where "tab \<equiv> [CHR 0x09]"
abbreviation (input) nl :: string where "nl \<equiv> [CHR 0x0A]"

definition calls_meminfo :: "'w kernel \<Rightarrow> render_call list" where
  "calls_meminfo k =
     [Txt (''MemTotal:'' @ tab), Dec (qos_pmm_total_pages (k_pmm k) * 4), Txt ('' kB'' @ nl @ ''MemFree:'' @ tab),
      Dec (qos_pmm_free_pages (k_pmm k) * 4), Txt ('' kB'' @ nl @ ''ProcCount:'' @ tab), Dec (qos_proc_count (k_proc k)), Txt nl]"

definition calls_kernel_status :: "'w kernel \<Rightarrow> render_call list" where
  "calls_kernel_status k =
     [Txt (''InitState:'' @ tab), Dec (qos_kernel_init_state k), Txt (nl @ ''PmmTotal:'' @ tab), Dec (qos_pmm_total_pages (k_pmm k)),
      Txt (nl @ ''PmmFree:'' @ tab), Dec (qos_pmm_free_pages (k_pmm k)), Txt (nl @ ''SchedCount:'' @ tab), Dec (qos_sched_count (k_sched k)),
      Txt (nl @ ''VfsCount:'' @ tab), Dec (qos_vfs_count (k_vfs k)), Txt (nl @ ''NetQueue:'' @ tab), Dec (qos_net_queue_len (k_net k)),
      Txt (nl @ ''Drivers:'' @ tab), Dec (qos_drivers_count (k_drivers k)), Txt (nl @ ''Syscalls:'' @ tab), Dec (g_call_count (k_sys k)),
      Txt (nl @ ''ProcCount:'' @ tab), Dec (qos_proc_count (k_proc k)), Txt nl]"

definition calls_net_dev :: "'w kernel \<Rightarrow> render_call list" where
  "calls_net_dev k =
     [Txt (''Inter-|   Receive                 |  Transmit'' @ nl), Txt '' eth0: '', Dec (qos_net_queue_len (k_net k)),
      Txt '' packets              '', Dec (qos_net_queue_len (k_net k)), Txt ('' packets'' @ nl)]"

definition calls_syscalls :: "'w kernel \<Rightarrow> render_call list" where
  "calls_syscalls k = [Txt (''SyscallCount:'' @ tab), Dec (g_call_count (k_sys k)), Txt nl]"

text \<open>A name, \<open>none\<close> if there is none; the buffers are as large as the names can be.\<close>

definition name_or_none :: "int \<times> string option \<Rightarrow> string" where
  "name_or_none r = (case snd r of None \<Rightarrow> ''none'' | Some t \<Rightarrow> if fst r < 0 \<or> t = [] then ''none'' else t)"

text \<open>The body of the loops over the mappings of an address space, after the given prefix.\<close>

definition calls_mapping :: "render_call list \<Rightarrow> u32 \<Rightarrow> vmm \<Rightarrow> nat \<Rightarrow> render_call list" where
  "calls_mapping pre asid v idx =
     (case qos_vmm_mapping_get_as asid (word_of_nat idx) True v of
        (r, Some (va, pa, flags)) \<Rightarrow>
          if r = 0 then pre @ [Txt ''Map'', Dec (word_of_nat idx), Txt ('':'' @ tab @ ''0x''), Hex64 va, Txt ''->0x'', Hex64 pa,
            Txt '' f=0x'', Hex flags, Txt nl] else []
      | (_, None) \<Rightarrow> [])"

definition calls_mappings :: "render_call list \<Rightarrow> u32 \<Rightarrow> vmm \<Rightarrow> render_call list" where
  "calls_mappings pre asid v = concat (map (calls_mapping pre asid v) [0..<unat (qos_vmm_mapping_count_as asid v)])"

text \<open>The body of the loop over the processes for the \<open>seen\<close>-th live one.\<close>

definition calls_process :: "'w kernel \<Rightarrow> u32 \<Rightarrow> u32 \<Rightarrow> nat \<times> u32 \<Rightarrow> render_call list" where
  "calls_process k current_pid asid sp =
     (let (seen, pidx) = sp in
      [Txt ''Proc'', Dec (word_of_nat seen), Txt ('':'' @ tab @ ''pid=''), Dec pidx, Txt '' name='',
       Txt (name_or_none (qos_proc_name_get pidx True 32 (k_proc k))), Txt '' maps='',
       Dec (qos_vmm_mapping_count_as pidx (k_vmm k))] @
      (if pidx = current_pid then [Txt '' current''] else []) @ (if pidx = asid then [Txt '' asid''] else []) @ [Txt nl] @
      calls_mappings [Txt ''  P'', Dec pidx] pidx (k_vmm k))"

definition live_pids :: "proc_state \<Rightarrow> u32 list" where
  "live_pids s = filter (\<lambda>pid. qos_proc_alive pid s) (map (\<lambda>pslot. word_of_nat pslot + 1) [0..<255])"

definition calls_runtime_map :: "'w kernel \<Rightarrow> render_call list" where
  "calls_runtime_map k =
     (let current_pid = qos_sched_current (k_sched k);
          current_tid = qos_kthread_current_tid (k_def k);
          asid = qos_vmm_get_asid (k_vmm k) in
      [Txt (''CurrentPid:'' @ tab), Dec current_pid, Txt (nl @ ''CurrentProc:'' @ tab),
       Txt (name_or_none (if current_pid \<noteq> 0 then qos_proc_name_get current_pid True 32 (k_proc k) else (-1, None))),
       Txt (nl @ ''CurrentTid:'' @ tab), Dec current_tid, Txt (nl @ ''CurrentThread:'' @ tab),
       Txt (name_or_none (if current_tid \<noteq> 0 then qos_kthread_name_get current_tid True 32 (k_def k) else (-1, None))),
       Txt (nl @ ''CurrentAsid:'' @ tab), Dec asid, Txt (nl @ ''Mappings:'' @ tab), Dec (qos_vmm_mapping_count_as asid (k_vmm k)),
       Txt (nl @ ''Processes:'' @ tab), Dec (qos_proc_count (k_proc k)), Txt nl] @
      calls_mappings [] asid (k_vmm k) @
      concat (map (calls_process k current_pid asid) (List.enumerate 0 (live_pids (k_proc k)))))"

definition calls_status :: "'w kernel \<Rightarrow> u32 \<Rightarrow> render_call list" where
  "calls_status k pid =
     [Txt (''Pid:'' @ tab), Dec pid, Txt (nl @ ''State:'' @ tab),
      Txt (if qos_proc_alive pid (k_proc k) then ''Running'' else ''Zombie''), Txt nl]"

definition proc_calls :: "u8 \<Rightarrow> u32 \<Rightarrow> 'w kernel \<Rightarrow> render_call list option" where
  "proc_calls kind pid k =
     (if kind = QOS_PROC_FD_MEMINFO then Some (calls_meminfo k)
      else if kind = QOS_PROC_FD_KERNEL_STATUS then Some (calls_kernel_status k)
      else if kind = QOS_PROC_FD_NET_DEV then Some (calls_net_dev k)
      else if kind = QOS_PROC_FD_SYSCALLS then Some (calls_syscalls k)
      else if kind = QOS_PROC_FD_UPTIME then Some [Txt (''0.00 0.00'' @ nl)]
      else if kind = QOS_PROC_FD_RUNTIME_MAP then Some (calls_runtime_map k)
      else if kind = QOS_PROC_FD_STATUS then Some (calls_status k pid)
      else None)"

text \<open>The result and the output buffer.\<close>

definition proc_fd_render :: "nat \<Rightarrow> bytes option \<Rightarrow> u32 \<Rightarrow> 'w kernel \<Rightarrow> u32 \<times> bytes option" where
  "proc_fd_render fd out cap k =
     (let r = g_fds (k_sys k) fd in
      if fd \<ge> QOS_FD_MAX \<or> f_kind r \<noteq> QOS_FD_KIND_PROC then (0, out)
      else case proc_calls (f_proc_kind r) (f_proc_pid r) k of
        None \<Rightarrow> (0, out)
      | Some cs \<Rightarrow>
          let (out1, total) = fold (render_one cap) cs (out, 0) in
          case out1 of
            None \<Rightarrow> (total, out1)
          | Some b \<Rightarrow>
              if cap = 0 then (total, out1)
              else let copy_len = (if total > cap then cap else total) in
                (total, Some (if copy_len > 0 then if copy_len = cap then b[unat (cap - 1) := 0] else b[unat copy_len := 0] else b)))"

end
