(* ===== verification/Filecall.thy ===== *)
theory Filecall
  imports Sockcall Procfs
begin

text \<open>
  The calls of \<open>qos_syscall_dispatch\<close> in \<^verbatim>\<open>src/c-os/kernel/syscall/syscall.c\<close> on descriptors, files, pipes, paths
  and memory mappings.

  The buffer \<open>tmp\<close> into which \<open>READ\<close> renders a file of \<open>/proc\<close> lies on the stack and is not initialised; \<open>stk\<close>
  gives the bytes of the stack from its first byte on, those behind the buffer included.
\<close>

section \<open>Model\<close>

type_synonym stack = "nat \<Rightarrow> u8"

subsection \<open>Opening and closing\<close>

definition sys_open :: "u64 \<Rightarrow> umem \<Rightarrow> 'w kernel \<Rightarrow> 'w sysret" where
  "sys_open a0 m k =
     (case str_at m a0 of
        None \<Rightarrow> (-1, m, k)
      | Some path \<Rightarrow>
          if qos_vfs_exists (Some path) (k_vfs k) = 0 then
            (case proc_path_kind (Some path) of
               None \<Rightarrow> (-1, m, k)
             | Some (proc_kind, proc_pid) \<Rightarrow>
                 if proc_kind = QOS_PROC_FD_STATUS \<and> \<not> qos_proc_alive proc_pid (k_proc k) then (-1, m, k)
                 else case fd_alloc QOS_FD_KIND_PROC (k_sys k) of
                   (None, s) \<Rightarrow> (-1, m, k)
                 | (Some fd, s) \<Rightarrow>
                     (int fd, m, k\<lparr>k_sys := put_fd fd ((g_fds s fd)\<lparr>f_proc_kind := proc_kind, f_proc_pid := proc_pid\<rparr>) s\<rparr>))
          else case fd_alloc QOS_FD_KIND_VFS (k_sys k) of
            (None, s) \<Rightarrow> (-1, m, k)
          | (Some fd, s) \<Rightarrow>
              (case file_ensure path s of
                 (None, s1) \<Rightarrow> (case fd_clear fd s1 (k_net k) of (s2, n2) \<Rightarrow> (-1, m, set_net s2 n2 k))
               | (Some file_id, s1) \<Rightarrow>
                   (int fd, m, k\<lparr>k_sys := put_fd fd ((g_fds s1 fd)\<lparr>f_file_id := word_of_nat file_id\<rparr>) s1\<rparr>)))"

definition sys_close :: "nat \<Rightarrow> umem \<Rightarrow> 'w kernel \<Rightarrow> 'w sysret" where
  "sys_close fd m k =
     (if \<not> fd_valid fd (k_sys k) then (-1, m, k)
      else case fd_clear fd (k_sys k) (k_net k) of (s, n) \<Rightarrow> (0, m, set_net s n k))"

text \<open>\<open>DUP2\<close> copies every array entry of the old descriptor.\<close>

definition sys_dup2 :: "nat \<Rightarrow> nat \<Rightarrow> umem \<Rightarrow> 'w kernel \<Rightarrow> 'w sysret" where
  "sys_dup2 oldfd newfd m k =
     (if \<not> fd_valid oldfd (k_sys k) \<or> newfd \<ge> QOS_FD_MAX then (-1, m, k)
      else if oldfd = newfd then (int newfd, m, k)
      else let (s, n) = (if fd_valid newfd (k_sys k) then fd_clear newfd (k_sys k) (k_net k) else (k_sys k, k_net k)) in
        (int newfd, m, set_net (put_fd newfd ((g_fds s oldfd)\<lparr>f_used := True\<rparr>) s) n k))"

subsection \<open>Reading\<close>

definition read_proc :: "stack \<Rightarrow> nat \<Rightarrow> u64 \<Rightarrow> u32 \<Rightarrow> umem \<Rightarrow> 'w kernel \<Rightarrow> 'w sysret" where
  "read_proc stk fd out len m k =
     (let r = g_fds (k_sys k) fd;
          offset = ucast (f_offset r) :: u32;
          (total, tmp) = proc_fd_render fd (Some (map stk [0..<2048])) 2048 k;
          copy_len = (if total - offset > len then len else total - offset) in
      if offset \<ge> total then (0, m, k)
      else if copy_len = 0 then (0, m, k)
      else (int (unat copy_len),
            mem_store out (map (\<lambda>i. if i < 2048 then the tmp ! i else stk i) [unat offset..<unat offset + unat copy_len]) m,
            k\<lparr>k_sys := put_fd fd (r\<lparr>f_offset := ucast (offset + copy_len)\<rparr>) (k_sys k)\<rparr>))"

definition read_vfs :: "nat \<Rightarrow> u64 \<Rightarrow> u32 \<Rightarrow> umem \<Rightarrow> 'w kernel \<Rightarrow> 'w sysret" where
  "read_vfs fd out len m k =
     (let s = k_sys k; r = g_fds s fd; file_id = unat (f_file_id r); f = g_files s file_id;
          offset = ucast (f_offset r) :: u32 in
      if file_id \<ge> QOS_FILE_MAX \<or> \<not> fl_used f then (-1, m, k)
      else if offset \<ge> ucast (fl_len f) then (0, m, k)
      else let avail = ucast (fl_len f) - offset;
               copy_len = (if len < avail then len else avail) in
        if copy_len = 0 then (0, m, k)
        else (int (unat copy_len), mem_store out (take (unat copy_len) (drop (unat offset) (fl_data f))) m,
              k\<lparr>k_sys := put_fd fd (r\<lparr>f_offset := ucast (offset + copy_len)\<rparr>) s\<rparr>))"

definition read_pipe :: "nat \<Rightarrow> u64 \<Rightarrow> u32 \<Rightarrow> umem \<Rightarrow> 'w kernel \<Rightarrow> 'w sysret" where
  "read_pipe fd out len m k =
     (let s = k_sys k; pipe_id = unat (f_pipe_id (g_fds s fd)); p = g_pipes s pipe_id in
      if pipe_id \<ge> QOS_PIPE_MAX \<or> \<not> pi_used p \<or> pi_len p = 0 then (-1, m, k)
      else let copy_len = (if ucast (pi_len p) > len then unat len else unat (pi_len p)) in
        if copy_len = 0 then (0, m, k)
        else (int copy_len, mem_store out (take copy_len (pi_buf p)) m,
              k\<lparr>k_sys := put_pipe pipe_id (p\<lparr>pi_buf :=
                  (if copy_len < unat (pi_len p) then memcpy_to (pi_buf p) (drop copy_len (pi_buf p)) (unat (pi_len p) - copy_len)
                   else pi_buf p), pi_len := word_of_nat (unat (pi_len p) - copy_len)\<rparr>) s\<rparr>))"

definition sys_read :: "stack \<Rightarrow> nat \<Rightarrow> u64 \<Rightarrow> u32 \<Rightarrow> umem \<Rightarrow> 'w kernel \<Rightarrow> 'w sysret" where
  "sys_read stk fd out len m k =
     (let kind = f_kind (g_fds (k_sys k) fd) in
      if \<not> fd_valid fd (k_sys k) \<or> out = 0 then (-1, m, k)
      else if kind = QOS_FD_KIND_PROC then read_proc stk fd out len m k
      else if kind = QOS_FD_KIND_VFS then read_vfs fd out len m k
      else if kind = QOS_FD_KIND_PIPE_R then read_pipe fd out len m k
      else if kind = QOS_FD_KIND_SOCKET then read_socket fd out len m k
      else (-1, m, k))"

subsection \<open>Writing\<close>

definition write_vfs :: "nat \<Rightarrow> u64 \<Rightarrow> u32 \<Rightarrow> umem \<Rightarrow> 'w kernel \<Rightarrow> 'w sysret" where
  "write_vfs fd src len m k =
     (let s = k_sys k; r = g_fds s fd; file_id = unat (f_file_id r); f = g_files s file_id;
          offset = ucast (f_offset r) :: u32 in
      if file_id \<ge> QOS_FILE_MAX \<or> \<not> fl_used f then (-1, m, k)
      else if unat offset \<ge> QOS_PIPE_CAP then (-1, m, k)
      else let write_len = (if unat len > QOS_PIPE_CAP - unat offset then QOS_PIPE_CAP - unat offset else unat len) in
        if write_len = 0 then (0, m, k)
        else let bs = mem_bytes m src write_len; off = unat offset + write_len;
                 data = take (unat offset) (fl_data f) @ bs @ drop off (fl_data f);
                 flen = (if off > unat (fl_len f) then word_of_nat off else fl_len f) in
          (int write_len, m,
           k\<lparr>k_sys := put_file file_id (f\<lparr>fl_data := data, fl_len := flen\<rparr>) (put_fd fd (r\<lparr>f_offset := word_of_nat off\<rparr>) s)\<rparr>))"

definition write_pipe :: "nat \<Rightarrow> u64 \<Rightarrow> u32 \<Rightarrow> umem \<Rightarrow> 'w kernel \<Rightarrow> 'w sysret" where
  "write_pipe fd src len m k =
     (let s = k_sys k; pipe_id = unat (f_pipe_id (g_fds s fd)); p = g_pipes s pipe_id in
      if pipe_id \<ge> QOS_PIPE_MAX \<or> \<not> pi_used p \<or> len > word_of_nat QOS_PIPE_CAP - ucast (pi_len p) then (-1, m, k)
      else (int (unat len), m,
            k\<lparr>k_sys := put_pipe pipe_id (p\<lparr>pi_buf := take (unat (pi_len p)) (pi_buf p) @ mem_bytes m src (unat len) @
                drop (unat (pi_len p) + unat len) (pi_buf p), pi_len := word_of_nat (unat (pi_len p) + unat len)\<rparr>) s\<rparr>))"

definition sys_write :: "nat \<Rightarrow> u64 \<Rightarrow> u32 \<Rightarrow> umem \<Rightarrow> 'w kernel \<Rightarrow> 'w sysret" where
  "sys_write fd src len m k =
     (let kind = f_kind (g_fds (k_sys k) fd) in
      if \<not> fd_valid fd (k_sys k) \<or> src = 0 then (-1, m, k)
      else if kind = QOS_FD_KIND_PROC then (-1, m, k)
      else if kind = QOS_FD_KIND_VFS then write_vfs fd src len m k
      else if kind = QOS_FD_KIND_PIPE_W then write_pipe fd src len m k
      else if kind = QOS_FD_KIND_SOCKET then write_socket fd src len m k
      else (-1, m, k))"

subsection \<open>Offsets, pipes and directories\<close>

abbreviation (input) INT64_MAX :: int where "INT64_MAX \<equiv> 2 ^ 63 - 1"
abbreviation (input) INT64_MIN :: int where "INT64_MIN \<equiv> - (2 ^ 63)"

text \<open>The base that \<open>whence\<close> selects.\<close>

definition seek_base :: "nat \<Rightarrow> u32 \<Rightarrow> 'w kernel \<Rightarrow> int option" where
  "seek_base fd whence k =
     (let s = k_sys k; r = g_fds s fd in
      if whence = 0 then Some 0
      else if whence = 1 then Some (sint (f_offset r))
      else if whence = 2 then
        if f_kind r = QOS_FD_KIND_PROC then Some (int (unat (fst (proc_fd_render fd None 0 k))))
        else let file_id = unat (f_file_id r) in
          if file_id \<ge> QOS_FILE_MAX \<or> \<not> fl_used (g_files s file_id) then None
          else Some (int (unat (fl_len (g_files s file_id))))
      else None)"

definition sys_lseek :: "nat \<Rightarrow> u64 \<Rightarrow> u32 \<Rightarrow> umem \<Rightarrow> 'w kernel \<Rightarrow> 'w sysret" where
  "sys_lseek fd a1 whence m k =
     (let s = k_sys k; r = g_fds s fd; offset = sint a1 in
      if \<not> fd_valid fd s \<or> (f_kind r \<noteq> QOS_FD_KIND_VFS \<and> f_kind r \<noteq> QOS_FD_KIND_PROC) then (-1, m, k)
      else case seek_base fd whence k of
        None \<Rightarrow> (-1, m, k)
      | Some base \<Rightarrow>
          if (offset > 0 \<and> base > INT64_MAX - offset) \<or> (offset < 0 \<and> base < INT64_MIN - offset) then (-1, m, k)
          else if base + offset < 0 then (-1, m, k)
          else (base + offset, m, k\<lparr>k_sys := put_fd fd (r\<lparr>f_offset := word_of_int (base + offset)\<rparr>) s\<rparr>))"

definition sys_pipe :: "u64 \<Rightarrow> umem \<Rightarrow> 'w kernel \<Rightarrow> 'w sysret" where
  "sys_pipe a0 m k =
     (if a0 = 0 then (-1, m, k)
      else case pipe_alloc (k_sys k) of
        (None, s) \<Rightarrow> (-1, m, k)
      | (Some pipe_id, s) \<Rightarrow>
          let drop_pipe = (\<lambda>s. put_pipe pipe_id ((g_pipes s pipe_id)\<lparr>pi_used := False\<rparr>) s) in
          (case fd_alloc QOS_FD_KIND_PIPE_R s of
             (None, s1) \<Rightarrow> (-1, m, k\<lparr>k_sys := drop_pipe s1\<rparr>)
           | (Some rfd, s1) \<Rightarrow>
               (case fd_alloc QOS_FD_KIND_PIPE_W s1 of
                  (None, s2) \<Rightarrow> (case fd_clear rfd s2 (k_net k) of (s3, n3) \<Rightarrow> (-1, m, set_net (drop_pipe s3) n3 k))
                | (Some wfd, s2) \<Rightarrow>
                    let s3 = put_fd rfd ((g_fds s2 rfd)\<lparr>f_pipe_id := word_of_nat pipe_id\<rparr>) s2;
                        s4 = put_fd wfd ((g_fds s3 wfd)\<lparr>f_pipe_id := word_of_nat pipe_id\<rparr>) s3 in
                    (0, mem_store a0 (le32 (word_of_nat rfd) @ le32 (word_of_nat wfd)) m, k\<lparr>k_sys := s4\<rparr>))))"

definition sys_getdents :: "nat \<Rightarrow> u64 \<Rightarrow> u64 \<Rightarrow> umem \<Rightarrow> 'w kernel \<Rightarrow> 'w sysret" where
  "sys_getdents fd a1 a2 m k =
     (if \<not> fd_valid fd (k_sys k) \<or> f_kind (g_fds (k_sys k) fd) \<noteq> QOS_FD_KIND_VFS \<or> a1 = 0 then (-1, m, k)
      else if a2 < 4 then (-1, m, k)
      else let count = qos_vfs_count (k_vfs k) in (int (unat count), mem_store a1 (le32 count) m, k))"

definition sys_stat :: "u64 \<Rightarrow> u64 \<Rightarrow> umem \<Rightarrow> 'w kernel \<Rightarrow> 'w sysret" where
  "sys_stat a0 a1 m k =
     (let store = (\<lambda>path type. if a1 = 0 then m else mem_store a1 (le64 (word_of_nat (length path)) @ le64 type) m) in
      case str_at m a0 of
        None \<Rightarrow> (-1, m, k)
      | Some path \<Rightarrow>
          if qos_vfs_exists (Some path) (k_vfs k) = 0 then
            (case proc_path_kind (Some path) of
               None \<Rightarrow> (-1, m, k)
             | Some (proc_kind, proc_pid) \<Rightarrow>
                 if proc_kind = QOS_PROC_FD_STATUS \<and> \<not> qos_proc_alive proc_pid (k_proc k) then (-1, m, k)
                 else (0, store path 2, k))
          else (0, store path 1, k))"

definition sys_mkdir :: "u64 \<Rightarrow> umem \<Rightarrow> 'w kernel \<Rightarrow> 'w sysret" where
  "sys_mkdir a0 m k =
     (let path = str_at m a0 in
      if path = None then (-1, m, k)
      else if qos_vfs_fs_kind path = QOS_VFS_FS_PROCFS then (-1, m, k)
      else let (r, v) = qos_vfs_create path (k_vfs k) in (if r = 0 then 0 else -1, m, k\<lparr>k_vfs := v\<rparr>))"

definition sys_unlink :: "u64 \<Rightarrow> umem \<Rightarrow> 'w kernel \<Rightarrow> 'w sysret" where
  "sys_unlink a0 m k =
     (let path = str_at m a0 in
      if path = None then (-1, m, k)
      else if qos_vfs_fs_kind path = QOS_VFS_FS_PROCFS then (-1, m, k)
      else let (r, v) = qos_vfs_remove path (k_vfs k) in
        if r \<noteq> 0 then (-1, m, k\<lparr>k_vfs := v\<rparr>)
        else (0, m, k\<lparr>k_vfs := v, k_sys := file_unlink_path (the path) (k_sys k)\<rparr>))"

definition sys_chdir :: "u32 \<Rightarrow> u64 \<Rightarrow> umem \<Rightarrow> 'w kernel \<Rightarrow> 'w sysret" where
  "sys_chdir pid a1 m k =
     (let path = str_at m a1 in
      if path = None then (-1, m, k)
      else if qos_vfs_exists path (k_vfs k) = 0 then (-1, m, k)
      else let (r, p) = qos_proc_cwd_set pid path (k_proc k) in (if r = 0 then 0 else -1, m, k\<lparr>k_proc := p\<rparr>))"

definition sys_getcwd :: "u32 \<Rightarrow> u64 \<Rightarrow> u32 \<Rightarrow> umem \<Rightarrow> 'w kernel \<Rightarrow> 'w sysret" where
  "sys_getcwd pid a1 len m k =
     (if a1 = 0 then (fst (qos_proc_cwd_get pid True (word_of_nat QOS_PROC_CWD_MAX) (k_proc k)), m, k)
      else let (r, t) = qos_proc_cwd_get pid True len (k_proc k) in
        (r, (case t of None \<Rightarrow> m | Some path \<Rightarrow> mem_store a1 (map of_char path @ [0]) m), k))"

subsection \<open>Memory mappings\<close>

text \<open>
  The loops run over the pages of \<open>[va, va + len)\<close>, \<open>i\<close> of them done; a page is 4096 bytes and \<open>n\<close> is the number
  of pages still to do, \<open>len\<close> rounded up in all. For a length within a page of \<open>2 ^ 64\<close> the loop of the code has
  no such end, but the first page that finds no free slot ends it: an address space has 2048.
\<close>

fun unmap_back :: "u64 \<Rightarrow> nat \<Rightarrow> vmm \<Rightarrow> vmm" where
  "unmap_back va 0 v = v"
| "unmap_back va (Suc i) v = unmap_back va i (snd (qos_vmm_unmap (va + word_of_nat i * QOS_PAGE_SIZE) v))"

fun mmap_loop :: "u64 \<Rightarrow> u32 \<Rightarrow> nat \<Rightarrow> nat \<Rightarrow> vmm \<Rightarrow> bool \<times> vmm" where
  "mmap_loop va flags i 0 v = (True, v)"
| "mmap_loop va flags i (Suc n) v =
     (let page = va + word_of_nat i * QOS_PAGE_SIZE; (r, v1) = qos_vmm_map page page flags v in
      if r \<noteq> 0 then (False, unmap_back va i v1) else mmap_loop va flags (Suc i) n v1)"

fun munmap_loop :: "u64 \<Rightarrow> nat \<Rightarrow> nat \<Rightarrow> vmm \<Rightarrow> bool \<times> vmm" where
  "munmap_loop va i 0 v = (True, v)"
| "munmap_loop va i (Suc n) v =
     (let (r, v1) = qos_vmm_unmap (va + word_of_nat i * QOS_PAGE_SIZE) v in
      if r \<noteq> 0 then (False, v1) else munmap_loop va (Suc i) n v1)"

definition page_count :: "u64 \<Rightarrow> nat" where
  "page_count len = (unat len + 4095) div 4096"

definition sys_mmap :: "u64 \<Rightarrow> u64 \<Rightarrow> u32 \<Rightarrow> umem \<Rightarrow> 'w kernel \<Rightarrow> 'w sysret" where
  "sys_mmap va len flags0 m k =
     (if va = 0 \<or> len = 0 then (-1, m, k)
      else let flags = (if flags0 = 0 then 1 else flags0);
               (ok, v) = mmap_loop va flags 0 (page_count len) (k_vmm k) in
        (if ok then sint va else -1, m, k\<lparr>k_vmm := v\<rparr>))"

definition sys_munmap :: "u64 \<Rightarrow> u64 \<Rightarrow> umem \<Rightarrow> 'w kernel \<Rightarrow> 'w sysret" where
  "sys_munmap va len m k =
     (if va = 0 \<or> len = 0 then (-1, m, k)
      else let (ok, v) = munmap_loop va 0 (page_count len) (k_vmm k) in
        (if ok then 0 else -1, m, k\<lparr>k_vmm := v\<rparr>))"

end
