(* ===== verification/Fileinv.thy ===== *)
theory Fileinv
  imports Sockinv Filecall
begin

text \<open>
  The calls on descriptors, files and pipes keep the invariant of the descriptors and fail without effect.
\<close>

section \<open>Slots\<close>

lemma fdD:
  assumes "fd_inv s n" "fd_valid fd s"
  shows "fd < QOS_FD_MAX" "f_used (g_fds s fd)" "fd_ok (g_files s) (g_pipes s) (g_fds s fd)"
  using assms by (auto simp: fd_valid_def fd_inv_def fds_inv_def split: if_splits)

lemma fd_unused: "fd_inv s n \<Longrightarrow> fd < QOS_FD_MAX \<Longrightarrow> \<not> f_used (g_fds s fd) \<Longrightarrow> g_fds s fd = fd0"
  by (auto simp: fd_inv_def fds_inv_def split: if_splits)

lemma pipe_unused: "fd_inv s n \<Longrightarrow> j < QOS_PIPE_MAX \<Longrightarrow> \<not> pi_used (g_pipes s j) \<Longrightarrow> g_pipes s j = pipe0"
  by (auto simp: fd_inv_def pipes_inv_def Let_def)

lemma pipe_held: "fd_inv s n \<Longrightarrow> j < QOS_PIPE_MAX \<Longrightarrow> pi_used (g_pipes s j) \<longleftrightarrow> j \<in> held holds_pipe (g_fds s)"
  by (auto simp: fd_inv_def pipes_inv_def Let_def)

lemma pipeD: "fd_inv s n \<Longrightarrow> j < QOS_PIPE_MAX \<Longrightarrow> length (pi_buf (g_pipes s j)) = QOS_PIPE_CAP \<and> unat (pi_len (g_pipes s j)) \<le> QOS_PIPE_CAP"
  by (auto simp: fd_inv_def pipes_inv_def Let_def)

lemma fileD:
  "fd_inv s n \<Longrightarrow> j < QOS_FILE_MAX \<Longrightarrow> length (fl_data (g_files s j)) = QOS_PIPE_CAP \<and> unat (fl_len (g_files s j)) \<le> QOS_PIPE_CAP \<and>
     drop (unat (fl_len (g_files s j))) (fl_data (g_files s j)) = replicate (QOS_PIPE_CAP - unat (fl_len (g_files s j))) 0"
  by (auto simp: fd_inv_def files_inv_def Let_def)

lemma fd_file_used: "fd_inv s n \<Longrightarrow> j \<in> held holds_file (g_fds s) \<Longrightarrow> fl_used (g_files s j)"
  by (auto simp: fd_inv_def fds_inv_def held_def fd_ok_def split: if_splits)

lemma put_fd_id: "g_fds s fd = r \<Longrightarrow> put_fd fd r s = s"
  by (auto simp: put_fd_def fun_upd_triv)

lemma put_pipe_id: "g_pipes s j = q \<Longrightarrow> put_pipe j q s = s"
  by (auto simp: put_pipe_def fun_upd_triv)

lemma put_pipe_put [simp]: "put_pipe j q (put_pipe j q' s) = put_pipe j q s"
  by (simp add: put_pipe_def)

lemma put_pipe_fd: "put_pipe j q (put_fd i r s) = put_fd i r (put_pipe j q s)"
  by (simp add: put_pipe_def put_fd_def)

lemma put_fd_pipe_fd [simp]: "put_fd i r (put_pipe j q (put_fd i r' s)) = put_fd i r (put_pipe j q s)"
  by (simp add: put_pipe_fd)

lemma holds_f_offset [simp]:
  "holds_file (r\<lparr>f_offset := x\<rparr>) = holds_file r" "holds_pipe (r\<lparr>f_offset := x\<rparr>) = holds_pipe r"
  "holds_port (r\<lparr>f_offset := x\<rparr>) = holds_port r" "holds_listener (r\<lparr>f_offset := x\<rparr>) = holds_listener r"
  by (simp_all add: holds_file_def holds_pipe_def holds_port_def holds_listener_def)

lemma fd_inv_offset:
  assumes "fd_inv s n" "fd_valid fd s"
  shows "fd_inv (put_fd fd ((g_fds s fd)\<lparr>f_offset := x\<rparr>) s) n"
proof (rule fd_inv_update [OF assms(1)])
  note d = fdD [OF assms]
  show "fd < 256" "f_used ((g_fds s fd)\<lparr>f_offset := x\<rparr>)" using d by simp_all
  show "fd_ok (g_files s) (g_pipes s) ((g_fds s fd)\<lparr>f_offset := x\<rparr>)" using d(3) by (simp add: fd_ok_def)
qed simp_all

section \<open>Closing and duplicating\<close>

lemma named_clear: "named (fst (fd_clear fd s n)) \<subseteq> named s"
proof -
  have drop: "named (release_file r s') \<subseteq> named s'" for r s'
    by (auto simp: release_file_def file_drop_def named_def file0_def Let_def)
  have pipe: "named (release_pipe r s') = named s'" for r s' by (simp add: release_pipe_def Let_def)
  have port: "named (fst (release_port r s' n')) = named s'" for r s' n' by (simp add: release_port_def Let_def)
  show ?thesis using drop [of "g_fds s fd" "release_pipe (g_fds s fd) (put_fd fd fd0 s)"]
    by (simp add: fd_clear_def Let_def port pipe)
qed

lemma sys_close_keeps: "keeps k (sys_close fd m k)"
proof (cases "fd_valid fd (k_sys k)")
  case True
  then have "sys_close fd m k = (0, m, set_net (fst (fd_clear fd (k_sys k) (k_net k))) (snd (fd_clear fd (k_sys k) (k_net k))) k)"
    by (simp add: sys_close_def split_beta)
  then show ?thesis using fd_clear_inv [OF _ True] named_clear by (simp add: keepsI)
qed (simp add: sys_close_def)

lemma sys_close_atomic: "atomic m k (sys_close fd m k)"
  by (auto simp: sys_close_def split: prod.splits)

lemma sys_dup2_keeps: "keeps k (sys_dup2 oldfd newfd m k)"
proof (cases "\<not> fd_valid oldfd (k_sys k) \<or> newfd \<ge> QOS_FD_MAX \<or> oldfd = newfd")
  case False
  let ?s = "k_sys k"
  define c where "c = (if fd_valid newfd ?s then fd_clear newfd ?s (k_net k) else (?s, k_net k))"
  let ?s1 = "fst c"
  let ?r = "(g_fds ?s1 oldfd)\<lparr>f_used := True\<rparr>"
  have eq: "sys_dup2 oldfd newfd m k = (int newfd, m, set_net (put_fd newfd ?r ?s1) (snd c) k)"
    using False by (simp add: sys_dup2_def c_def split_beta Let_def)
  have named: "named ?s1 \<subseteq> named ?s" "sys_rest ?s1 = sys_rest ?s" using named_clear by (auto simp: c_def)
  have "fd_inv (put_fd newfd ?r ?s1) (snd c)" if inv: "fd_inv ?s (k_net k)"
  proof -
    have c: "fd_inv ?s1 (snd c)" "g_fds ?s1 newfd = fd0" "g_fds ?s1 oldfd = g_fds ?s oldfd"
      using fd_clear_inv [OF inv, of newfd] inv fd_unused [OF inv, of newfd] False by (auto simp: c_def fd_valid_def)
    have old: "fd_valid oldfd ?s1" using False c(3) by (simp add: fd_valid_def)
    note d = fdD [OF c(1) old]
    have r: "?r = g_fds ?s1 oldfd" using d(2) by simp
    show ?thesis
      unfolding r by (rule fd_inv_share [OF c(1), where i = oldfd]) (use False c(2) d in simp_all)
  qed
  then show ?thesis unfolding eq using named by (intro keepsI) simp_all
qed (auto simp: sys_dup2_def)

lemma sys_dup2_atomic: "atomic m k (sys_dup2 oldfd newfd m k)"
  by (auto simp: sys_dup2_def Let_def split_beta)

section \<open>Reading and writing\<close>

lemma read_proc_keeps: "fd_valid fd (k_sys k) \<Longrightarrow> keeps k (read_proc stk fd out len m k)"
  unfolding read_proc_def Let_def split_beta by (intro keeps_if keeps_same keeps_sys fd_inv_offset) simp_all

lemma read_vfs_keeps: "fd_valid fd (k_sys k) \<Longrightarrow> keeps k (read_vfs fd out len m k)"
  unfolding read_vfs_def Let_def by (intro keeps_if keeps_same keeps_sys fd_inv_offset) simp_all

lemma read_pipe_keeps: "keeps k (read_pipe fd out len m k)"
proof -
  let ?s = "k_sys k"
  let ?j = "unat (f_pipe_id (g_fds ?s fd))"
  let ?p = "g_pipes ?s ?j"
  define c where "c = (if ucast (pi_len ?p) > len then unat len else unat (pi_len ?p))"
  let ?q = "?p\<lparr>pi_buf := (if c < unat (pi_len ?p) then memcpy_to (pi_buf ?p) (drop c (pi_buf ?p)) (unat (pi_len ?p) - c) else pi_buf ?p),
    pi_len := word_of_nat (unat (pi_len ?p) - c)\<rparr>"
  show ?thesis
  proof (cases "?j < QOS_PIPE_MAX \<and> pi_used ?p \<and> pi_len ?p \<noteq> 0 \<and> c \<noteq> 0")
    case True
    then have eq: "read_pipe fd out len m k = (int c, mem_store out (take c (pi_buf ?p)) m, k\<lparr>k_sys := put_pipe ?j ?q ?s\<rparr>)"
      by (simp add: read_pipe_def c_def Let_def)
    have "fd_inv (put_pipe ?j ?q ?s) (k_net k)" if inv: "fd_inv ?s (k_net k)"
    proof -
      have b: "length (pi_buf ?p) = 1024" "unat (pi_len ?p) \<le> 1024" using pipeD [OF inv] True by auto
      have "unat (word_of_nat (unat (pi_len ?p) - c) :: u16) = unat (pi_len ?p) - c" using b by (intro unat_u16_of_nat) simp
      then show ?thesis
        using b True by (intro fd_inv_pipe [OF inv]) (auto simp: memcpy_to_def)
    qed
    then show ?thesis unfolding eq by (intro keeps_sys) simp_all
  next
    case False
    then have "\<exists>r. read_pipe fd out len m k = (r, m, k)" by (auto simp: read_pipe_def c_def Let_def)
    then show ?thesis by auto
  qed
qed

lemma sys_read_keeps: "keeps k (sys_read stk fd out len m k)"
  unfolding sys_read_def Let_def
  by (auto intro!: read_proc_keeps read_vfs_keeps read_pipe_keeps read_socket_keeps simp: is_socket_def)

lemma write_zero_tail:
  assumes "drop l xs = replicate (length xs - l) (0 :: u8)" "a + length bs \<le> length xs"
  shows "drop (max l (a + length bs)) (take a xs @ bs @ drop (a + length bs) xs) =
    replicate (length xs - max l (a + length bs)) 0"
proof -
  have "drop (max l (a + length bs)) (take a xs @ bs @ drop (a + length bs) xs) = drop (max l (a + length bs)) xs"
    using assms(2) by (auto simp: max_def)
  also have "\<dots> = drop (max l (a + length bs) - l) (drop l xs)" by (simp add: max_def)
  also have "\<dots> = replicate (length xs - max l (a + length bs)) 0" unfolding assms(1) by (simp add: max_def)
  finally show ?thesis .
qed

lemma write_vfs_keeps:
  assumes "fd_valid fd (k_sys k)"
  shows "keeps k (write_vfs fd src len m k)"
proof -
  let ?s = "k_sys k"
  let ?r = "g_fds ?s fd"
  let ?j = "unat (f_file_id ?r)"
  let ?f = "g_files ?s ?j"
  define a where "a = unat (ucast (f_offset ?r) :: u32)"
  define w where "w = (if unat len > 1024 - a then 1024 - a else unat len)"
  let ?f1 = "?f\<lparr>fl_data := take a (fl_data ?f) @ mem_bytes m src w @ drop (a + w) (fl_data ?f),
    fl_len := (if a + w > unat (fl_len ?f) then word_of_nat (a + w) else fl_len ?f)\<rparr>"
  let ?s1 = "put_fd fd (?r\<lparr>f_offset := word_of_nat (a + w)\<rparr>) ?s"
  show ?thesis
  proof (cases "?j < QOS_FILE_MAX \<and> fl_used ?f \<and> a < 1024 \<and> w \<noteq> 0")
    case True
    then have eq: "write_vfs fd src len m k = (int w, m, k\<lparr>k_sys := put_file ?j ?f1 ?s1\<rparr>)"
      unfolding write_vfs_def Let_def a_def [symmetric] w_def [symmetric] by simp
    have "fd_inv (put_file ?j ?f1 ?s1) (k_net k)" if inv: "fd_inv ?s (k_net k)"
    proof (rule fd_inv_file)
      have d: "length (fl_data ?f) = 1024" "unat (fl_len ?f) \<le> 1024"
        "drop (unat (fl_len ?f)) (fl_data ?f) = replicate (1024 - unat (fl_len ?f)) 0" using fileD [OF inv] True by auto
      have w: "a + w \<le> 1024" using True by (auto simp: w_def)
      have u: "unat (word_of_nat (a + w) :: u16) = a + w" by (rule unat_u16_of_nat) (use w in simp)
      have l: "unat (fl_len ?f1) = max (unat (fl_len ?f)) (a + w)" using u by (simp add: max_def del: of_nat_add)
      show "fd_inv ?s1 (k_net k)" by (rule fd_inv_offset [OF inv assms])
      show "length (fl_data ?f1) = 1024" using d(1) w by simp
      show "unat (fl_len ?f1) \<le> 1024" unfolding l using d(2) w by simp
      show "drop (unat (fl_len ?f1)) (fl_data ?f1) = replicate (1024 - unat (fl_len ?f1)) 0"
        unfolding l using write_zero_tail [of "unat (fl_len ?f)" "fl_data ?f" a "mem_bytes m src w"] d w by simp
    qed (use True in simp_all)
    moreover have "named (put_file ?j ?f1 ?s1) \<subseteq> named ?s" using True by (auto simp: named_def split: if_splits)
    ultimately show ?thesis unfolding eq by (intro keeps_sys) simp_all
  next
    case False
    then have "\<exists>r. write_vfs fd src len m k = (r, m, k)"
      unfolding write_vfs_def Let_def a_def [symmetric] w_def [symmetric] by auto
    then show ?thesis by auto
  qed
qed

lemma write_pipe_keeps: "keeps k (write_pipe fd src len m k)"
proof -
  let ?s = "k_sys k"
  let ?j = "unat (f_pipe_id (g_fds ?s fd))"
  let ?p = "g_pipes ?s ?j"
  let ?l = "unat (pi_len ?p)"
  let ?q = "?p\<lparr>pi_buf := take ?l (pi_buf ?p) @ mem_bytes m src (unat len) @ drop (?l + unat len) (pi_buf ?p), pi_len := word_of_nat (?l + unat len)\<rparr>"
  show ?thesis
  proof (cases "?j < QOS_PIPE_MAX \<and> pi_used ?p \<and> \<not> len > word_of_nat QOS_PIPE_CAP - ucast (pi_len ?p)")
    case True
    then have eq: "write_pipe fd src len m k = (int (unat len), m, k\<lparr>k_sys := put_pipe ?j ?q ?s\<rparr>)"
      by (simp add: write_pipe_def Let_def)
    have "fd_inv (put_pipe ?j ?q ?s) (k_net k)" if inv: "fd_inv ?s (k_net k)"
    proof -
      have b: "length (pi_buf ?p) = 1024" "?l \<le> 1024" using pipeD [OF inv] True by auto
      have "unat (ucast (pi_len ?p) :: u32) = ?l" by (rule unat_u16_u32)
      then have "unat (1024 - ucast (pi_len ?p) :: u32) = 1024 - ?l" using b(2) by (subst unat_sub) (simp_all add: word_le_nat_alt)
      then have w: "?l + unat len \<le> 1024" using True b(2) by (auto simp: word_less_nat_alt)
      then have u: "unat (word_of_nat (?l + unat len) :: u16) = ?l + unat len" by (intro unat_u16_of_nat) simp
      show ?thesis
      proof (rule fd_inv_pipe [OF inv])
        show "length (pi_buf ?q) = 1024" using b w by simp
        show "unat (pi_len ?q) \<le> 1024" using u w by (simp del: of_nat_add)
      qed (use True in simp_all)
    qed
    then show ?thesis unfolding eq by (intro keeps_sys) simp_all
  next
    case False
    then have "write_pipe fd src len m k = (-1, m, k)" by (auto simp: write_pipe_def Let_def)
    then show ?thesis by simp
  qed
qed

lemma sys_write_keeps: "keeps k (sys_write fd src len m k)"
  unfolding sys_write_def Let_def
  by (auto intro!: write_vfs_keeps write_pipe_keeps write_socket_keeps simp: is_socket_def)

lemma sys_lseek_keeps: "keeps k (sys_lseek fd a1 whence m k)"
  unfolding sys_lseek_def Let_def
  by (cases "seek_base fd whence k") (auto intro!: keeps_sys fd_inv_offset)

lemma sys_read_atomic: "atomic m k (sys_read stk fd out len m k)"
proof -
  have "atomic m k (read_proc stk fd out len m k)" by (auto simp: read_proc_def Let_def split_beta)
  moreover have "atomic m k (read_vfs fd out len m k)" by (auto simp: read_vfs_def Let_def)
  moreover have "atomic m k (read_pipe fd out len m k)" by (auto simp: read_pipe_def Let_def)
  ultimately show ?thesis unfolding sys_read_def Let_def using read_socket_atomic by auto
qed

lemma sys_write_atomic: "atomic m k (sys_write fd src len m k)"
proof -
  have "atomic m k (write_vfs fd src len m k)" by (auto simp: write_vfs_def Let_def)
  moreover have "atomic m k (write_pipe fd src len m k)" by (auto simp: write_pipe_def Let_def)
  ultimately show ?thesis unfolding sys_write_def Let_def using write_socket_atomic by auto
qed

lemma sys_lseek_atomic: "atomic m k (sys_lseek fd a1 whence m k)"
  unfolding sys_lseek_def Let_def by (auto split: option.splits)

section \<open>New pipes\<close>

text \<open>Taking back a descriptor that was just allocated changes nothing.\<close>

lemma fd_clear_fresh:
  assumes inv: "fd_inv s n" and fd: "fd < QOS_FD_MAX" "\<not> f_used (g_fds s fd)" and kind: "kind \<noteq> QOS_FD_KIND_SOCKET"
    and j: "j < QOS_PIPE_MAX" "\<not> pi_used (g_pipes s j)" and q: "q = pipe0 \<or> q = pipe0\<lparr>pi_used := True\<rparr>"
  shows "\<exists>q'. fd_clear fd (put_fd fd (fd0\<lparr>f_used := True, f_kind := kind\<rparr>) (put_pipe j q s)) n = (put_pipe j q' s, n) \<and> q'\<lparr>pi_used := False\<rparr> = pipe0"
proof -
  let ?r = "fd0\<lparr>f_used := True, f_kind := kind\<rparr>" and ?s = "put_pipe j q s"
  have r: "f_pipe_id ?r = 0" "unat (f_file_id ?r) = 65535" "f_kind ?r \<noteq> QOS_FD_KIND_SOCKET" using kind by (simp_all add: fd0_def)
  have s: "put_fd fd fd0 ?s = ?s" using fd_unused [OF inv fd] by (intro put_fd_id) simp
  have q0: "q\<lparr>pi_used := False\<rparr> = pipe0" using q by (auto simp: pipe0_def)
  have "\<exists>q'. release_pipe ?r ?s = put_pipe j q' s \<and> q'\<lparr>pi_used := False\<rparr> = pipe0"
  proof (cases "pipe_in_use 0 ?s")
    case False
    have "pi_used (g_pipes s 0) \<longleftrightarrow> 0 \<in> held holds_pipe (g_fds s)" using pipe_held [OF inv, of 0] by simp
    then have "g_pipes s 0 = pipe0" using False pipe_unused [OF inv, of 0] by (simp add: pipe_in_use_held)
    then have "release_pipe ?r ?s = put_pipe j (if j = 0 then pipe0 else q) s"
      using False r by (auto simp: release_pipe_def Let_def put_pipe_def fun_upd_twist fun_upd_idem)
    then show ?thesis using q0 by (auto simp: pipe0_def)
  qed (use q0 r in \<open>auto simp: release_pipe_def Let_def\<close>)
  then obtain q' where "release_pipe ?r ?s = put_pipe j q' s" "q'\<lparr>pi_used := False\<rparr> = pipe0" by blast
  moreover have "fd_valid fd (put_fd fd ?r ?s)" using fd by (simp add: fd_valid_def)
  ultimately show ?thesis
    using r s by (auto simp: fd_clear_def Let_def release_file_def release_listener_def release_port_def)
qed

lemma pipe0_sel: "pi_buf pipe0 = replicate QOS_PIPE_CAP 0" "pi_len pipe0 = 0"
  by (simp_all add: pipe0_def)

lemma fd_inv_new_pipe:
  assumes inv: "fd_inv s n" and j: "j < QOS_PIPE_MAX" "\<not> pi_used (g_pipes s j)"
    and fd: "fd < QOS_FD_MAX" "\<not> f_used (g_fds s fd)"
    and r: "r = fd0\<lparr>f_used := True, f_kind := QOS_FD_KIND_PIPE_R, f_pipe_id := word_of_nat j\<rparr>"
  shows "fd_inv (put_fd fd r (put_pipe j (pipe0\<lparr>pi_used := True\<rparr>) s)) n"
proof -
  let ?s = "put_fd fd r (put_pipe j (pipe0\<lparr>pi_used := True\<rparr>) s)"
  have parts: "fds_inv s" "files_inv s" "pipes_inv s" "ports_inv s n" "net_inv n" using inv by (auto simp: fd_inv_def)
  have u: "unat (word_of_nat j :: u16) = j" using j by (intro unat_u16_of_nat) simp
  have h: "holds_file r = {}" "holds_pipe r = {j}" "holds_port r = {}" "holds_listener r = {}"
    using u by (simp_all add: r holds_file_def holds_pipe_def holds_port_def holds_listener_def)
  have g: "holds_file (g_fds s fd) = {}" "holds_pipe (g_fds s fd) = {}" "holds_port (g_fds s fd) = {}" "holds_listener (g_fds s fd) = {}"
    using fd(2) by (simp_all add: holds_file_def holds_pipe_def holds_port_def holds_listener_def)
  have held: "held holds_file (g_fds ?s) = held holds_file (g_fds s)" "held holds_port (g_fds ?s) = held holds_port (g_fds s)"
    "held holds_listener (g_fds ?s) = held holds_listener (g_fds s)" "held holds_pipe (g_fds ?s) = insert j (held holds_pipe (g_fds s))"
    using fd(1) g h held_grow [of fd holds_pipe "g_fds s" r] by (simp_all add: held_same)
  have "fds_inv ?s"
    using parts(1) j h r by (auto simp: fds_inv_def fd_ok_def)
  moreover have "files_inv ?s" using parts(2) unfolding files_inv_def held unfolding put_sel .
  moreover have "pipes_inv ?s" using parts(3) j unfolding pipes_inv_def held by (auto simp: Let_def pipe0_sel)
  moreover have "ports_inv ?s n" using parts(4) unfolding ports_inv_def held by simp
  ultimately show ?thesis using parts(5) by (simp add: fd_inv_def)
qed

lemma sys_pipe_cases:
  fixes k :: "'w kernel"
  assumes inv: "fd_inv (k_sys k) (k_net k)"
  obtains (fail) "sys_pipe a0 m k = (-1, m, k)"
  | (pipe) s1 m' where "fd_inv s1 (k_net k)" "named s1 = named (k_sys k)" "sys_rest s1 = sys_rest (k_sys k)" "sys_pipe a0 m k = (0, m', k\<lparr>k_sys := s1\<rparr>)"
proof -
  let ?s = "k_sys k" and ?used = "pipe0\<lparr>pi_used := True\<rparr>"
  let ?fresh = "\<lambda>kind. fd0\<lparr>f_used := True, f_kind := kind\<rparr>"
  show thesis
  proof (cases "a0 = 0 \<or> find_free QOS_PIPE_MAX pi_used (g_pipes ?s) = None")
    case True
    then show thesis by (intro fail) (auto simp: sys_pipe_def pipe_alloc_def)
  next
    case False
    then obtain j where f: "find_free QOS_PIPE_MAX pi_used (g_pipes ?s) = Some j" by auto
    then have alloc: "pipe_alloc ?s = (Some j, put_pipe j ?used ?s)" and j: "j < 32" "\<not> pi_used (g_pipes ?s j)"
      using find_free_Some [OF f] by (simp_all add: pipe_alloc_def)
    have jp: "g_pipes ?s j = pipe0" by (rule pipe_unused [OF inv j])
    let ?s1 = "put_pipe j ?used ?s"
    show thesis
    proof (cases rule: fd_alloc_cases [of QOS_FD_KIND_PIPE_R ?s1])
      case 1
      have "sys_pipe a0 m k = (-1, m, k\<lparr>k_sys := put_pipe j pipe0 ?s\<rparr>)"
        using False alloc 1 by (simp add: sys_pipe_def Let_def pipe0_def)
      then show thesis using put_pipe_id [OF jp] fail by simp
    next
      case (2 rfd)
      let ?s2 = "put_fd rfd (?fresh QOS_FD_KIND_PIPE_R) ?s1"
      show thesis
      proof (cases rule: fd_alloc_cases [of QOS_FD_KIND_PIPE_W ?s2])
        case 1
        obtain q' where q': "fd_clear rfd ?s2 (k_net k) = (put_pipe j q' ?s, k_net k)" "q'\<lparr>pi_used := False\<rparr> = pipe0"
          using fd_clear_fresh [OF inv 2(1) _ _ j, of QOS_FD_KIND_PIPE_R ?used] 2(2) by auto
        have "sys_pipe a0 m k = (-1, m, k)"
          using False alloc 2(3) 1 q' put_pipe_id [OF jp] by (simp add: sys_pipe_def Let_def set_net_def)
        then show thesis by (rule fail)
      next
        case w: (2 wfd)
        let ?r = "?fresh QOS_FD_KIND_PIPE_R\<lparr>f_pipe_id := word_of_nat j\<rparr>" and ?w = "?fresh QOS_FD_KIND_PIPE_W\<lparr>f_pipe_id := word_of_nat j\<rparr>"
        let ?s3 = "put_fd rfd ?r ?s1"
        have ne: "wfd \<noteq> rfd" using w(2) by auto
        have i3: "fd_inv ?s3 (k_net k)" by (rule fd_inv_new_pipe [OF inv j]) (use 2 in simp_all)
        have h: "holds_pipe ?w = holds_pipe ?r" "holds_file ?w = {}" "holds_port ?w = {}" "holds_listener ?w = {}"
          by (simp_all add: holds_file_def holds_pipe_def holds_port_def holds_listener_def)
        have "holds_pipe ?w = {j}" using j by (simp add: holds_pipe_def unat_u16_of_nat)
        then have "fd_inv (put_fd wfd ?w ?s3) (k_net k)"
          using h w ne j 2(1) by (intro fd_inv_share [OF i3, where i = rfd]) (auto simp: fd_ok_def)
        moreover have "sys_pipe a0 m k = (0, mem_store a0 (le32 (word_of_nat rfd) @ le32 (word_of_nat wfd)) m, k\<lparr>k_sys := put_fd wfd ?w ?s3\<rparr>)"
          using False alloc 2(3) w(3) ne by (simp add: sys_pipe_def Let_def put_fd_commute [of rfd wfd])
        ultimately show thesis by (intro pipe) simp_all
      qed
    qed
  qed
qed

lemma sys_pipe_keeps: "keeps k (sys_pipe a0 m k)"
proof (rule keeps_assume)
  assume inv: "fd_inv (k_sys k) (k_net k)"
  show ?thesis
  proof (cases rule: sys_pipe_cases [OF inv, of a0 m])
    case (2 s1 m')
    then show ?thesis by (simp add: keeps_sys)
  qed simp
qed

lemma sys_pipe_atomic: "fd_inv (k_sys k) (k_net k) \<Longrightarrow> atomic m k (sys_pipe a0 m k)"
  by (cases rule: sys_pipe_cases [of k a0 m]) (auto simp: atomic_def)

section \<open>Opening\<close>

lemma fd_clear_fresh_id:
  assumes inv: "fd_inv s n" and fd: "fd < QOS_FD_MAX" "\<not> f_used (g_fds s fd)" and kind: "kind \<noteq> QOS_FD_KIND_SOCKET"
  shows "fd_clear fd (put_fd fd (fd0\<lparr>f_used := True, f_kind := kind\<rparr>) s) n = (s, n)"
proof -
  let ?r = "fd0\<lparr>f_used := True, f_kind := kind\<rparr>"
  have r: "f_pipe_id ?r = 0" "unat (f_file_id ?r) = 65535" "f_kind ?r \<noteq> QOS_FD_KIND_SOCKET" using kind by (simp_all add: fd0_def)
  have s: "put_fd fd fd0 s = s" using fd_unused [OF inv fd] by (intro put_fd_id) simp
  have "release_pipe ?r s = s"
  proof (cases "pipe_in_use 0 s")
    case False
    have "g_pipes s 0 = pipe0" using False pipe_held [OF inv, of 0] pipe_unused [OF inv, of 0] by (simp add: pipe_in_use_held)
    then show ?thesis using r(1) put_pipe_id [of s 0 pipe0] by (simp add: release_pipe_def Let_def)
  qed (use r in \<open>simp add: release_pipe_def Let_def\<close>)
  moreover have "fd_valid fd (put_fd fd ?r s)" using fd by (simp add: fd_valid_def)
  ultimately show ?thesis
    using r s by (simp add: fd_clear_def Let_def release_file_def release_listener_def release_port_def)
qed

lemma fd_inv_fresh_file:
  assumes inv: "fd_inv s n" and fd: "fd < QOS_FD_MAX" "\<not> f_used (g_fds s fd)" and j: "j < QOS_FILE_MAX" "fl_used (g_files s j)"
    and r: "f_used r" "f_kind r = QOS_FD_KIND_VFS" "holds_file r = {j}"
  shows "fd_inv (put_fd fd r s) n"
proof -
  have h: "holds_pipe r = {}" "holds_port r = {}" "holds_listener r = {}"
    using r(2) by (simp_all add: holds_pipe_def holds_port_def holds_listener_def)
  show ?thesis
  proof (rule fd_inv_grow [OF inv fd(1) _ _ _ r(1)])
    show "fd_ok (g_files s) (g_pipes s) r" using r j h by (simp add: fd_ok_def)
    show "net_inv n" using inv by (simp add: fd_inv_def)
  qed (use fd(2) h in \<open>simp_all add: holds_file_def holds_pipe_def holds_port_def holds_listener_def\<close>)
qed

lemma file_ensure_fd:
  "file_ensure path (put_fd fd r s) = (case file_ensure path s of (j, s') \<Rightarrow> (j, put_fd fd r s'))"
  by (simp add: file_ensure_def file_find_def file_alloc_def put_fd_def put_file_def split: option.splits)

lemma file_find_Some: "file_find path s = Some j \<Longrightarrow> j < QOS_FILE_MAX \<and> fl_used (g_files s j) \<and> fl_path (g_files s j) = path"
  unfolding file_find_def by (drule find_key_Some) auto

lemma file_find_None: "file_find path s = None \<Longrightarrow> j < QOS_FILE_MAX \<Longrightarrow> fl_used (g_files s j) \<Longrightarrow> fl_path (g_files s j) \<noteq> path"
  unfolding file_find_def find_key_None by (auto simp: keys_def)

lemma fd_inv_new_file:
  assumes inv: "fd_inv s n" and path: "path \<noteq> []" "length path < QOS_FILE_PATH_MAX" and new: "file_find path s = None"
    and j: "j < QOS_FILE_MAX" "\<not> fl_used (g_files s j)"
    and f: "f = \<lparr>fl_used = True, fl_path = path, fl_len = 0, fl_data = replicate QOS_PIPE_CAP 0\<rparr>"
  shows "fd_inv (put_file j f s) n"
  using file_find_None [OF new] path f j fd_file_used [OF inv, of j] by (intro fd_inv_put_file [OF inv j(1)]) auto

lemma fd_inv_unlink:
  assumes inv: "fd_inv s n" and path: "path \<noteq> []"
  shows "fd_inv (file_unlink_path path s) n \<and> named (file_unlink_path path s) \<subseteq> named s - {path}"
proof (cases "file_find path s")
  case None
  then show ?thesis using inv file_find_None [OF None] by (auto simp: file_unlink_path_def named_def)
next
  case (Some j)
  note j = file_find_Some [OF Some]
  have f: "files_inv s" using inv by (simp add: fd_inv_def)
  have other: "fl_path (g_files s i) \<noteq> path" if "i < 128" "i \<noteq> j" "fl_used (g_files s i)" for i
    using f j path that unfolding files_inv_def by metis
  let ?s1 = "put_file j ((g_files s j)\<lparr>fl_path := []\<rparr>) s"
  have refs: "file_has_refs j ?s1 \<longleftrightarrow> j \<in> held holds_file (g_fds s)" by (simp add: file_has_refs_held)
  have "named (put_file j f' s) \<subseteq> named s - {path}" if "fl_path f' = []" for f'
    using other that by (auto simp: named_def split: if_splits)
  moreover have "fd_inv ?s1 n" if "j \<in> held holds_file (g_fds s)"
    using f j that by (intro fd_inv_put_file [OF inv]) (auto simp: files_inv_def Let_def)
  moreover have "fd_inv (put_file j file0 s) n" if "j \<notin> held holds_file (g_fds s)"
    using that j by (intro fd_inv_put_file [OF inv]) (auto simp: file0_def)
  moreover have "file_drop j ?s1 = put_file j file0 s" using j by (simp add: file_drop_def put_file_def)
  ultimately show ?thesis using j Some refs by (auto simp: file_unlink_path_def file0_def Let_def)
qed

lemma file_ensure_cases:
  assumes inv: "fd_inv s n" and path: "path \<noteq> []" "length path < QOS_FILE_PATH_MAX"
  obtains (full) "file_ensure path s = (None, s)"
  | (entry) j s1 where "file_ensure path s = (Some j, s1)" "fd_inv s1 n" "j < QOS_FILE_MAX" "fl_used (g_files s1 j)"
      "named s1 \<subseteq> insert path (named s)" "g_fds s1 = g_fds s" "sys_rest s1 = sys_rest s"
proof (cases "file_find path s")
  case (Some j)
  then show thesis using file_find_Some [OF Some] inv by (intro entry [of j s]) (auto simp: file_ensure_def)
next
  case None
  show thesis
  proof (cases "find_free QOS_FILE_MAX fl_used (g_files s)")
    case free: (Some j)
    note j = find_free_Some [OF free]
    let ?f = "\<lparr>fl_used = True, fl_path = path, fl_len = 0, fl_data = replicate 1024 0\<rparr>"
    have "fd_inv (put_file j ?f s) n" using j by (intro fd_inv_new_file [OF inv path None]) simp_all
    moreover have "named (put_file j ?f s) \<subseteq> insert path (named s)" by (auto simp: named_def split: if_splits)
    ultimately show thesis
      using j None free path(2) by (intro entry [of j "put_file j ?f s"]) (simp_all add: file_ensure_def file_alloc_def)
  qed (use None full in \<open>simp add: file_ensure_def file_alloc_def\<close>)
qed

lemma vfs_exists_path: "qos_vfs_exists (Some path) v \<noteq> 0 \<Longrightarrow> path \<noteq> [] \<and> length path < QOS_FILE_PATH_MAX"
  by (auto simp: qos_vfs_exists_def path_valid_def split: if_splits)

lemma sys_open_cases:
  fixes k :: "'w kernel"
  assumes inv: "fd_inv (k_sys k) (k_net k)"
  obtains (fail) "sys_open a0 m k = (-1, m, k)"
  | (proc) fd s1 where "fd_inv s1 (k_net k)" "named s1 = named (k_sys k)" "sys_rest s1 = sys_rest (k_sys k)" "sys_open a0 m k = (int fd, m, k\<lparr>k_sys := s1\<rparr>)"
  | (entry) path fd s1 where "fd_inv s1 (k_net k)" "qos_vfs_exists (Some path) (k_vfs k) \<noteq> 0" "named s1 \<subseteq> insert path (named (k_sys k))"
      "sys_rest s1 = sys_rest (k_sys k)" "sys_open a0 m k = (int fd, m, k\<lparr>k_sys := s1\<rparr>)"
proof (cases "str_at m a0")
  case None
  then show thesis by (intro fail) (simp add: sys_open_def)
next
  case (Some path)
  let ?s = "k_sys k"
  show thesis
  proof (cases "qos_vfs_exists (Some path) (k_vfs k) = 0")
    case no: True
    show thesis
    proof (cases "proc_path_kind (Some path)")
      case None
      then show thesis using Some no by (intro fail) (simp add: sys_open_def)
    next
      case kind: (Some a)
      obtain pk pid where a: "a = (pk, pid)" by (cases a)
      show thesis
      proof (cases rule: fd_alloc_cases [of QOS_FD_KIND_PROC ?s])
        case 1
        then show thesis using Some no kind a by (intro fail) (simp add: sys_open_def)
      next
        case (2 fd)
        let ?r = "fd0\<lparr>f_used := True, f_kind := QOS_FD_KIND_PROC, f_proc_kind := pk, f_proc_pid := pid\<rparr>"
        have "fd_inv (put_fd fd ?r ?s) (k_net k)"
          using 2 by (intro fd_inv_fresh [OF inv]) (auto simp: fd_ok_def holds_file_def holds_pipe_def holds_port_def holds_listener_def)
        moreover have "sys_open a0 m k = (if pk = QOS_PROC_FD_STATUS \<and> \<not> qos_proc_alive pid (k_proc k) then (-1, m, k)
            else (int fd, m, k\<lparr>k_sys := put_fd fd ?r ?s\<rparr>))"
          using Some no kind a 2(3) by (simp add: sys_open_def)
        ultimately show thesis
          by (cases "pk = QOS_PROC_FD_STATUS \<and> \<not> qos_proc_alive pid (k_proc k)") (use fail proc in \<open>simp_all\<close>)
      qed
    qed
  next
    case yes: False
    note path = vfs_exists_path [OF yes]
    show thesis
    proof (cases rule: fd_alloc_cases [of QOS_FD_KIND_VFS ?s])
      case 1
      then show thesis using Some yes by (intro fail) (simp add: sys_open_def)
    next
      case (2 fd)
      let ?fresh = "fd0\<lparr>f_used := True, f_kind := QOS_FD_KIND_VFS\<rparr>"
      show thesis
      proof (cases rule: file_ensure_cases [OF inv conjunct1 [OF path] conjunct2 [OF path]])
        case full: 1
        have "fd_clear fd (put_fd fd ?fresh ?s) (k_net k) = (?s, k_net k)"
          using fd_clear_fresh_id [OF inv 2(1,2), of QOS_FD_KIND_VFS] by simp
        then show thesis
          using Some yes 2(3) full by (intro fail) (simp add: sys_open_def file_ensure_fd)
      next
        case entry: (2 j s1)
        let ?r = "?fresh\<lparr>f_file_id := word_of_nat j\<rparr>"
        have "holds_file ?r = {j}" using entry(3) by (simp add: holds_file_def unat_u16_of_nat)
        then have "fd_inv (put_fd fd ?r s1) (k_net k)"
          using 2(1,2) entry(3,4,6) fd_inv_fresh_file [OF entry(2)] by simp
        moreover have "sys_open a0 m k = (int fd, m, k\<lparr>k_sys := put_fd fd ?r s1\<rparr>)"
          using Some yes 2(3) entry(1) by (simp add: sys_open_def file_ensure_fd)
        ultimately show thesis using yes entry(5,7) that(3) [of "put_fd fd ?r s1" path fd] by simp
      qed
    qed
  qed
qed

end
