(* ===== verification/Libinv.thy ===== *)
theory Libinv
  imports Fileinv Shlib
begin

text \<open>
  Loaded libraries and modules: the tables stay well formed, every number handed out is not 0, and the calls
  on them change these tables and nothing else.
\<close>

section \<open>Specification\<close>

definition shlib_ok :: "shlib_slot \<Rightarrow> bool" where
  "shlib_ok l \<longleftrightarrow>
     (if sl_used l then sl_path l \<noteq> [] \<and> hd (sl_path l) = CHR ''/'' \<and> length (sl_path l) < QOS_FILE_PATH_MAX \<and>
        sl_handle l \<noteq> 0 \<and> unat (sl_file_id l) < QOS_FILE_MAX
      else l = shlib0)"

definition module_ok :: "module_slot \<Rightarrow> bool" where
  "module_ok l \<longleftrightarrow>
     (if mo_used l then mo_path l \<noteq> [] \<and> hd (mo_path l) = CHR ''/'' \<and> length (mo_path l) < QOS_FILE_PATH_MAX \<and>
        mo_id l \<noteq> 0 \<and> mo_generation l \<noteq> 0 \<and> mo_shlib_handle l \<noteq> 0
      else l = module0)"

definition libs_inv :: "syscall \<Rightarrow> bool" where
  "libs_inv s \<longleftrightarrow> (\<forall>i < QOS_SHLIB_MAX. shlib_ok (g_shlibs s i)) \<and> (\<forall>i < QOS_MODULE_MAX. module_ok (g_modules s i))"

text \<open>A call on libraries or modules changes those tables only, and keeps them well formed.\<close>

definition lib_step :: "syscall \<Rightarrow> syscall \<Rightarrow> bool" where
  "lib_step s s' \<longleftrightarrow> (libs_inv s \<longrightarrow> libs_inv s') \<and>
     g_calls s' = g_calls s \<and> g_call_count s' = g_call_count s \<and> g_fds s' = g_fds s \<and> g_files s' = g_files s \<and>
     g_pipes s' = g_pipes s \<and> g_sock_ports_stream s' = g_sock_ports_stream s \<and> g_sock_ports_dgram s' = g_sock_ports_dgram s"

section \<open>Libraries and modules\<close>

lemma next_number_nonzero: "next_number c = (h, c') \<Longrightarrow> h \<noteq> 0"
  by (auto simp: next_number_def Let_def split: if_splits)

lemma libs_put:
  "libs_inv s \<Longrightarrow> shlib_ok l \<Longrightarrow> libs_inv (put_shlib i l s)" "libs_inv s \<Longrightarrow> module_ok l' \<Longrightarrow> libs_inv (put_module i l' s)"
  by (auto simp: libs_inv_def put_shlib_def put_module_def)

lemma slot0_ok: "shlib_ok shlib0" "module_ok module0"
  by (simp_all add: shlib_ok_def module_ok_def shlib0_def module0_def)

lemma libs_cong: "g_shlibs s' = g_shlibs s \<Longrightarrow> g_modules s' = g_modules s \<Longrightarrow> libs_inv s' = libs_inv s"
  by (simp add: libs_inv_def)

lemma shlib_slotD:
  "libs_inv s \<Longrightarrow> shlib_find_slot_by_path p s = Some i \<Longrightarrow> i < QOS_SHLIB_MAX \<and> sl_used (g_shlibs s i) \<and> shlib_ok (g_shlibs s i)"
  "libs_inv s \<Longrightarrow> shlib_find_slot_by_handle h s = Some i \<Longrightarrow> i < QOS_SHLIB_MAX \<and> sl_used (g_shlibs s i) \<and> shlib_ok (g_shlibs s i)"
  by (auto simp: shlib_find_slot_by_path_def shlib_find_slot_by_handle_def libs_inv_def find_key_def scan_Some_iff
      split: option.splits if_splits)

lemma lib_step_refl [simp]: "lib_step s s"
  by (simp add: lib_step_def)

lemma lib_step_trans: "lib_step s s' \<Longrightarrow> lib_step s' s'' \<Longrightarrow> lib_step s s''"
  by (simp add: lib_step_def)

lemma lib_step_shlib: "(libs_inv s \<Longrightarrow> shlib_ok l) \<Longrightarrow> lib_step s (put_shlib i l s)"
  by (simp add: lib_step_def libs_put) (simp add: put_shlib_def)

lemma lib_step_module: "(libs_inv s \<Longrightarrow> module_ok l) \<Longrightarrow> lib_step s (put_module i l s)"
  by (simp add: lib_step_def libs_put) (simp add: put_module_def)

lemma lib_step_numbers: "lib_step s (s\<lparr>g_shlib_next_handle := c\<rparr>)" "lib_step s (s\<lparr>g_module_next_id := c\<rparr>)"
  by (simp_all add: lib_step_def libs_inv_def)

lemma file_id_small: "file_find p s = Some j \<Longrightarrow> unat (word_of_nat j :: u16) < QOS_FILE_MAX"
  by (drule file_find_Some) (simp add: unat_u16_of_nat)

lemma stored_path: "p \<noteq> [] \<Longrightarrow> hd p = CHR ''/'' \<Longrightarrow>
    take 127 p \<noteq> [] \<and> hd (take 127 p) = CHR ''/'' \<and> length (take 127 p) < QOS_FILE_PATH_MAX"
  by (cases p) auto

text \<open>A handle that is not negative is the handle of a library.\<close>

lemma shlib_load_step:
  assumes "shlib_load_path path force s = (h, s')"
  shows "lib_step s s' \<and> (libs_inv s \<longrightarrow> 0 \<le> h \<longrightarrow> word_of_int h \<noteq> (0 :: u32))"
proof (cases path)
  case (Some p)
  show ?thesis
  proof (cases "p = [] \<or> hd p \<noteq> CHR ''/''")
    case False
    show ?thesis
    proof (cases "if force then None else shlib_find_slot_by_path path s")
      case slot: (Some i)
      then have found: "shlib_find_slot_by_path path s = Some i" by (simp split: if_splits)
      let ?r = "g_shlibs s i"
      have r: "h = sint (sl_handle ?r)" "s' = put_shlib i (?r\<lparr>sl_refcount := sl_refcount ?r + 1\<rparr>) s"
        using assms Some False slot by (auto simp: shlib_load_path_def Let_def)
      have "shlib_ok (?r\<lparr>sl_refcount := sl_refcount ?r + 1\<rparr>) \<and> sl_handle ?r \<noteq> 0" if "libs_inv s"
        using shlib_slotD(1) [OF that found] by (auto simp: shlib_ok_def split: if_splits)
      then show ?thesis using r lib_step_shlib [of s] by simp
    next
      case None
      show ?thesis
      proof (cases "\<exists>j slot im. file_find p s = Some j \<and> fl_used (g_files s j) \<and> fl_len (g_files s j) \<noteq> 0 \<and>
          parse_shared_elf_image (Some (fl_data (g_files s j))) (ucast (fl_len (g_files s j))) = Some (Some im) \<and> shlib_free_slot s = Some slot")
        case True
        then obtain j slot im where j: "file_find p s = Some j" and f: "fl_used (g_files s j)" "fl_len (g_files s j) \<noteq> 0"
          "parse_shared_elf_image (Some (fl_data (g_files s j))) (ucast (fl_len (g_files s j))) = Some (Some im)" "shlib_free_slot s = Some slot"
          by blast
        obtain h' c where n: "next_number (g_shlib_next_handle s) = (h', c)" by fastforce
        note sp = stored_path [of p]
        have "shlib_load_path path force s = (sint h', put_shlib slot \<lparr>sl_used = True, sl_handle = h', sl_refcount = 1,
            sl_file_id = word_of_nat j, sl_path = take 127 p\<rparr> (s\<lparr>g_shlib_next_handle := c\<rparr>))"
          using False n by (simp add: shlib_load_path_def shlib_next_handle_def Some j f None [unfolded Some])
        then have r: "h = sint h'" "s' = put_shlib slot \<lparr>sl_used = True, sl_handle = h', sl_refcount = 1,
            sl_file_id = word_of_nat j, sl_path = take 127 p\<rparr> (s\<lparr>g_shlib_next_handle := c\<rparr>)"
          using assms by simp_all
        have "lib_step (s\<lparr>g_shlib_next_handle := c\<rparr>) s'"
          unfolding r using next_number_nonzero [OF n] file_id_small [OF j] sp False
          by (intro lib_step_shlib) (simp add: shlib_ok_def)
        then have "lib_step s s'" using lib_step_trans lib_step_numbers(1) by blast
        then show ?thesis using r next_number_nonzero [OF n] by simp
      next
        case no: False
        note none = None [unfolded Some]
        have "shlib_load_path path force s = (-1, s)"
        proof (cases "file_find p s")
          case j: (Some j)
          let ?f = "g_files s j"
          have "(if \<not> fl_used ?f \<or> fl_len ?f = 0 then (-1, s)
             else case parse_shared_elf_image (Some (fl_data ?f)) (ucast (fl_len ?f)) of
                 Some (Some _) \<Rightarrow> (case shlib_free_slot s of None \<Rightarrow> (-1, s) | Some slot \<Rightarrow> g slot)
               | _ \<Rightarrow> (-1, s)) = (-1 :: int, s)" for g
            using no j by (auto split: option.splits)
          then show ?thesis using False by (simp add: shlib_load_path_def Some none j Let_def)
        qed (use False in \<open>simp add: shlib_load_path_def Some none\<close>)
        then show ?thesis using assms by simp
      qed
    qed
  qed (use assms Some in \<open>auto simp: shlib_load_path_def\<close>)
qed (use assms in \<open>auto simp: shlib_load_path_def\<close>)

lemma shlib_release_step: "lib_step s (snd (shlib_release_handle h s))"
proof (cases "shlib_find_slot_by_handle h s")
  case (Some i)
  have "shlib_ok ((g_shlibs s i)\<lparr>sl_refcount := c\<rparr>)" if "libs_inv s" for c
    using shlib_slotD(2) [OF that Some] by (auto simp: shlib_ok_def split: if_splits)
  then show ?thesis using Some slot0_ok by (auto simp: shlib_release_handle_def Let_def intro!: lib_step_shlib)
qed (simp add: shlib_release_handle_def)

lemma lib_step_then_module: "lib_step s s1 \<Longrightarrow> (libs_inv s \<Longrightarrow> module_ok l) \<Longrightarrow> lib_step s (put_module i l s1)"
  by (auto simp: lib_step_def intro: libs_put) (simp_all add: put_module_def)

lemma lib_step_then_release: "lib_step s s1 \<Longrightarrow> lib_step s (snd (shlib_release_handle h s1))"
  using lib_step_trans shlib_release_step by blast

lemma module_slotD:
  "libs_inv s \<Longrightarrow> module_find_slot_by_id m s = Some i \<Longrightarrow> i < QOS_MODULE_MAX \<and> mo_used (g_modules s i) \<and> module_ok (g_modules s i)"
  by (auto simp: module_find_slot_by_id_def libs_inv_def find_key_def scan_Some_iff split: if_splits)

lemma shlib_load_modules: "g_modules (snd (shlib_load_path path force s)) = g_modules s"
  by (auto simp: shlib_load_path_def shlib_next_handle_def put_shlib_def Let_def split: option.splits prod.splits)

lemma module_load_step: "lib_step s (snd (module_load_path path s))"
proof (cases "\<exists>p. path = Some p \<and> p \<noteq> [] \<and> hd p = CHR ''/'' \<and> module_find_slot_by_path path s = None")
  case True
  then obtain p where p: "path = Some p" "p \<noteq> []" "hd p = CHR ''/''" "module_find_slot_by_path path s = None" by blast
  obtain h s1 where load: "shlib_load_path path False s = (h, s1)" by fastforce
  note step = shlib_load_step [OF load]
  obtain n s2 where num: "module_next_id s1 = (n, s2)" by fastforce
  then have n: "n \<noteq> 0" "lib_step s1 s2"
    using lib_step_numbers next_number_nonzero by (fastforce simp: module_next_id_def split: prod.splits)+
  have s2: "lib_step s s2" using step n(2) lib_step_trans by blast
  note stored = stored_path [OF p(2,3)]
  have new: "lib_step s (put_module slot \<lparr>mo_used = True, mo_id = n, mo_generation = 1, mo_shlib_handle = word_of_int h,
      mo_path = take 127 p\<rparr> s2)" if "0 \<le> h" for slot
    using step that n(1) stored by (intro lib_step_then_module [OF s2]) (simp add: module_ok_def)
  show ?thesis
  proof (cases "h < 0")
    case False
    then show ?thesis
      using new step lib_step_then_release p(2)
      by (simp add: module_load_path_def p(1,2,3) p(4) [unfolded p(1)] load [unfolded p(1)] num split: option.split)
  qed (use step p load in \<open>simp add: module_load_path_def\<close>)
qed (auto simp: module_load_path_def split: option.splits)

lemma module_unload_step: "lib_step s (snd (module_unload_id mid s))"
  using lib_step_module [OF slot0_ok(2)] lib_step_then_release
  by (simp add: module_unload_id_def Let_def split: option.split)

lemma module_reload_step: "lib_step s (snd (module_reload_id mid s))"
proof (cases "module_find_slot_by_id mid s")
  case (Some i)
  obtain h s1 where load: "shlib_load_path (Some (mo_path (g_modules s i))) True s = (h, s1)" by fastforce
  note step = shlib_load_step [OF load]
  have same: "g_modules s1 = g_modules s" using shlib_load_modules by (metis load snd_conv)
  let ?r = "g_modules s i"
  have "lib_step s (put_module i (?r\<lparr>mo_shlib_handle := word_of_int h, mo_generation := g\<rparr>) s1)" if "0 \<le> h" "g \<noteq> 0" for g
  proof (intro lib_step_then_module)
    assume "libs_inv s"
    then show "module_ok (?r\<lparr>mo_shlib_handle := word_of_int h, mo_generation := g\<rparr>)"
      using module_slotD [OF _ Some] step that by (auto simp: module_ok_def)
  qed (use step in simp)
  then show ?thesis
    using lib_step_then_release step Some by (simp add: module_reload_id_def load same Let_def)
qed (simp add: module_reload_id_def)

end
