(* ===== verification/Syscall.thy ===== *)
theory Syscall
  imports Filecall
begin

text \<open>
  The remaining calls of \<^verbatim>\<open>src/c-os/kernel/syscall/syscall.c\<close> (processes, signals, shared libraries, modules,
  queries), the table of registered calls, and \<open>qos_syscall_dispatch\<close> over them all.
\<close>

section \<open>Model\<close>

subsection \<open>Processes and signals\<close>

abbreviation (input) "u32_of x \<equiv> (ucast (x :: u64) :: u32)"
abbreviation (input) "i32_of x \<equiv> sint (ucast (x :: u64) :: u32)"

text \<open>A call whose status 0 is success and any other status failure.\<close>

definition status_ret :: "umem \<Rightarrow> 'w kernel \<Rightarrow> int \<times> proc_state \<Rightarrow> 'w sysret" where
  "status_ret m k rp = (if fst rp = 0 then 0 else -1, m, k\<lparr>k_proc := snd rp\<rparr>)"

definition sys_yield :: "umem \<Rightarrow> 'w kernel \<Rightarrow> 'w sysret" where
  "sys_yield m k = (case qos_sched_next (k_sched k) of (pid, sch) \<Rightarrow> (int (unat pid), m, k\<lparr>k_sched := sch\<rparr>))"

definition sys_kill :: "u32 \<Rightarrow> u32 \<Rightarrow> umem \<Rightarrow> 'w kernel \<Rightarrow> 'w sysret" where
  "sys_kill pid signum m k = status_ret m k (qos_proc_signal_send pid signum (k_proc k))"

definition sys_sigpending :: "u32 \<Rightarrow> umem \<Rightarrow> 'w kernel \<Rightarrow> 'w sysret" where
  "sys_sigpending pid m k =
     (case qos_proc_signal_pending pid True (k_proc k) of
        (r, pending) \<Rightarrow> (if r = 0 then int (unat (the pending)) else -1, m, k))"

definition sys_sigaction :: "u32 \<Rightarrow> u32 \<Rightarrow> u64 \<Rightarrow> umem \<Rightarrow> 'w kernel \<Rightarrow> 'w sysret" where
  "sys_sigaction pid signum handler m k =
     (case qos_proc_signal_get_handler pid signum True (k_proc k) of
        (r, old_handler) \<Rightarrow>
          if r \<noteq> 0 then (-1, m, k)
          else if handler \<noteq> UINT64_MAX then
            (case qos_proc_signal_set_handler pid signum handler (k_proc k) of
               (r1, p) \<Rightarrow> (if r1 \<noteq> 0 then -1 else sint (the old_handler), m, k\<lparr>k_proc := p\<rparr>))
          else (sint (the old_handler), m, k))"

abbreviation (input) SIG_BLOCK :: u32 where "SIG_BLOCK \<equiv> 0"
abbreviation (input) SIG_UNBLOCK :: u32 where "SIG_UNBLOCK \<equiv> 1"
abbreviation (input) SIG_SETMASK :: u32 where "SIG_SETMASK \<equiv> 2"

definition sys_sigprocmask :: "u32 \<Rightarrow> u32 \<Rightarrow> u32 \<Rightarrow> umem \<Rightarrow> 'w kernel \<Rightarrow> 'w sysret" where
  "sys_sigprocmask pid how bits m k =
     (case qos_proc_signal_mask pid True (k_proc k) of
        (r, old) \<Rightarrow>
          if r \<noteq> 0 then (-1, m, k)
          else let old_mask = the old;
                   new_mask = (if how = SIG_BLOCK then Some (old_mask OR bits)
                     else if how = SIG_UNBLOCK then Some (old_mask AND NOT bits)
                     else if how = SIG_SETMASK then Some bits else None) in
            case new_mask of
              None \<Rightarrow> (-1, m, k)
            | Some new \<Rightarrow>
                (case qos_proc_signal_set_mask pid new (k_proc k) of
                   (r1, p) \<Rightarrow> (if r1 \<noteq> 0 then -1 else int (unat old_mask), m, k\<lparr>k_proc := p\<rparr>)))"

definition sys_sigaltstack :: "u32 \<Rightarrow> u64 \<Rightarrow> u64 \<Rightarrow> u32 \<Rightarrow> umem \<Rightarrow> 'w kernel \<Rightarrow> 'w sysret" where
  "sys_sigaltstack pid sp sz flags m k =
     (case qos_proc_signal_altstack_get pid True (k_proc k) of
        (r, old) \<Rightarrow>
          if r \<noteq> 0 then (-1, m, k)
          else if sp \<noteq> UINT64_MAX then
            (case qos_proc_signal_altstack_set pid sp sz flags (k_proc k) of
               (r1, p) \<Rightarrow> (if r1 \<noteq> 0 then -1 else int (unat (ss_flags (the old))), m, k\<lparr>k_proc := p\<rparr>))
          else (int (unat (ss_flags (the old))), m, k))"

definition sys_sigsuspend :: "u32 \<Rightarrow> u32 \<Rightarrow> umem \<Rightarrow> 'w kernel \<Rightarrow> 'w sysret" where
  "sys_sigsuspend pid bits m k =
     (case qos_proc_signal_mask pid True (k_proc k) of
        (r, old) \<Rightarrow>
          if r \<noteq> 0 then (-1, m, k)
          else case qos_proc_signal_set_mask pid bits (k_proc k) of
            (r1, p1) \<Rightarrow>
              if r1 \<noteq> 0 then (-1, m, k\<lparr>k_proc := p1\<rparr>)
              else case qos_proc_signal_next pid p1 of
                (delivered, p2) \<Rightarrow>
                  (case qos_proc_signal_set_mask pid (the old) p2 of
                     (r3, p3) \<Rightarrow> (if r3 \<noteq> 0 \<or> delivered < 0 then -1 else delivered, m, k\<lparr>k_proc := p3\<rparr>)))"

definition sys_fork :: "u32 \<Rightarrow> u32 \<Rightarrow> umem \<Rightarrow> 'w kernel \<Rightarrow> 'w sysret" where
  "sys_fork parent child m k =
     (case qos_proc_fork parent child (k_proc k) of
        (r, p) \<Rightarrow> (if r \<noteq> 0 then -1 else int (unat child), m, k\<lparr>k_proc := p\<rparr>))"

definition sys_exec :: "u32 \<Rightarrow> u64 \<Rightarrow> umem \<Rightarrow> 'w kernel \<Rightarrow> 'w sysret" where
  "sys_exec pid a1 m k =
     (case str_at m a1 of
        None \<Rightarrow> status_ret m k (qos_proc_exec_signal_reset pid (k_proc k))
      | Some path \<Rightarrow>
          (case file_find path (k_sys k) of
             None \<Rightarrow> (-1, m, k)
           | Some file_id \<Rightarrow>
               let f = g_files (k_sys k) file_id in
               if \<not> fl_used f \<or> fl_len f = 0 then (-1, m, k)
               else case parse_exec_elf_image (Some (fl_data f)) (ucast (fl_len f)) True of
                 Some (Some img) \<Rightarrow>
                   (case qos_proc_exec_signal_reset pid (k_proc k) of
                      (r, p) \<Rightarrow>
                        if r \<noteq> 0 then (-1, m, k\<lparr>k_proc := p\<rparr>)
                        else status_ret m k (qos_proc_exec_image_set pid (Some img) p))
               | _ \<Rightarrow> (-1, m, k)))"

definition sys_exit :: "u32 \<Rightarrow> int \<Rightarrow> umem \<Rightarrow> 'w kernel \<Rightarrow> 'w sysret" where
  "sys_exit pid code m k = status_ret m k (qos_proc_exit pid code (k_proc k))"

definition sys_getpid :: "u32 \<Rightarrow> umem \<Rightarrow> 'w kernel \<Rightarrow> 'w sysret" where
  "sys_getpid pid m k = (if \<not> qos_proc_alive pid (k_proc k) then -1 else int (unat pid), m, k)"

definition sys_waitpid :: "u32 \<Rightarrow> int \<Rightarrow> u64 \<Rightarrow> u32 \<Rightarrow> umem \<Rightarrow> 'w kernel \<Rightarrow> 'w sysret" where
  "sys_waitpid parent pid statusp options m k =
     (case qos_proc_wait parent pid options (k_proc k) of
        (r, status, p) \<Rightarrow>
          (r, (case status of Some c \<Rightarrow> if statusp = 0 then m else mem_store statusp (le32 (word_of_int c)) m | None \<Rightarrow> m),
           k\<lparr>k_proc := p\<rparr>))"

text \<open>A \<open>qos_sigframe_t\<close> in the caller's memory.\<close>

definition frame_at :: "umem \<Rightarrow> u64 \<Rightarrow> sigframe" where
  "frame_at m p = \<lparr>sf_pretcode = le_word (mem_bytes m p 8), sf_signum = sint (le_word (mem_bytes m (p + 8) 4) :: u32),
     sf_saved_mask = le_word (mem_bytes m (p + 12) 4), sf_saved_handler = le_word (mem_bytes m (p + 16) 8)\<rparr>"

definition sys_sigreturn :: "u32 \<Rightarrow> u64 \<Rightarrow> u32 \<Rightarrow> umem \<Rightarrow> 'w kernel \<Rightarrow> 'w sysret" where
  "sys_sigreturn pid a1 how m k =
     (if how = 1 then
        if a1 = 0 then (-1, m, k)
        else status_ret m k (qos_proc_signal_sigreturn pid (Some (frame_at m a1)) (k_proc k))
      else status_ret m k (qos_proc_signal_set_mask pid (u32_of a1) (k_proc k)))"

subsection \<open>Shared libraries and modules\<close>

definition sys_dlopen :: "u64 \<Rightarrow> umem \<Rightarrow> 'w kernel \<Rightarrow> 'w sysret" where
  "sys_dlopen a0 m k =
     (case shlib_load_path (str_at m a0) False (k_sys k) of
        (handle, s) \<Rightarrow> (if handle < 0 then -1 else handle, m, k\<lparr>k_sys := s\<rparr>))"

definition sys_dlclose :: "u32 \<Rightarrow> umem \<Rightarrow> 'w kernel \<Rightarrow> 'w sysret" where
  "sys_dlclose handle m k =
     (case shlib_release_handle handle (k_sys k) of (r, s) \<Rightarrow> (if r = 0 then 0 else -1, m, k\<lparr>k_sys := s\<rparr>))"

definition sys_dlsym :: "u32 \<Rightarrow> u64 \<Rightarrow> umem \<Rightarrow> 'w kernel \<Rightarrow> 'w sysret" where
  "sys_dlsym handle a1 m k =
     (let name = str_at m a1 in
      if shlib_find_slot_by_handle handle (k_sys k) = None \<or> name = None \<or> name = Some [] then (-1, m, k)
      else let hash = symbol_hash32 name in
        if hash = 0 then (-1, m, k)
        else (sint (0x7000000000000000 OR push_bit 24 (ucast handle) OR ucast (hash AND 0x00FFFFFF) :: u64), m, k))"

definition sys_modload :: "u64 \<Rightarrow> umem \<Rightarrow> 'w kernel \<Rightarrow> 'w sysret" where
  "sys_modload a0 m k =
     (case module_load_path (str_at m a0) (k_sys k) of
        (module_id, s) \<Rightarrow> (if module_id < 0 then -1 else module_id, m, k\<lparr>k_sys := s\<rparr>))"

definition sys_modunload :: "u32 \<Rightarrow> umem \<Rightarrow> 'w kernel \<Rightarrow> 'w sysret" where
  "sys_modunload module_id m k =
     (case module_unload_id module_id (k_sys k) of (r, s) \<Rightarrow> (if r = 0 then 0 else -1, m, k\<lparr>k_sys := s\<rparr>))"

definition sys_modreload :: "u32 \<Rightarrow> umem \<Rightarrow> 'w kernel \<Rightarrow> 'w sysret" where
  "sys_modreload module_id m k =
     (case module_reload_id module_id (k_sys k) of
        (generation, s) \<Rightarrow> (if generation < 0 then -1 else generation, m, k\<lparr>k_sys := s\<rparr>))"

subsection \<open>The table of calls\<close>

abbreviation (input) QOS_SYSCALL_MAX :: nat where "QOS_SYSCALL_MAX \<equiv> 128"

abbreviation (input) SYSCALL_OP_CONST :: "'a :: len word" where "SYSCALL_OP_CONST \<equiv> 1"
abbreviation (input) SYSCALL_OP_ADD :: "'a :: len word" where "SYSCALL_OP_ADD \<equiv> 2"
abbreviation (input) SYSCALL_OP_QUERY :: "'a :: len word" where "SYSCALL_OP_QUERY \<equiv> 3"
abbreviation (input) SYSCALL_OP_KILL :: "'a :: len word" where "SYSCALL_OP_KILL \<equiv> 4"
abbreviation (input) SYSCALL_OP_SIGPENDING :: "'a :: len word" where "SYSCALL_OP_SIGPENDING \<equiv> 5"
abbreviation (input) SYSCALL_OP_SIGACTION :: "'a :: len word" where "SYSCALL_OP_SIGACTION \<equiv> 6"
abbreviation (input) SYSCALL_OP_SIGPROCMASK :: "'a :: len word" where "SYSCALL_OP_SIGPROCMASK \<equiv> 7"
abbreviation (input) SYSCALL_OP_SIGALTSTACK :: "'a :: len word" where "SYSCALL_OP_SIGALTSTACK \<equiv> 8"
abbreviation (input) SYSCALL_OP_SIGSUSPEND :: "'a :: len word" where "SYSCALL_OP_SIGSUSPEND \<equiv> 9"
abbreviation (input) SYSCALL_OP_FORK :: "'a :: len word" where "SYSCALL_OP_FORK \<equiv> 10"
abbreviation (input) SYSCALL_OP_EXEC :: "'a :: len word" where "SYSCALL_OP_EXEC \<equiv> 11"
abbreviation (input) SYSCALL_OP_SIGRETURN :: "'a :: len word" where "SYSCALL_OP_SIGRETURN \<equiv> 12"
abbreviation (input) SYSCALL_OP_EXIT :: "'a :: len word" where "SYSCALL_OP_EXIT \<equiv> 13"
abbreviation (input) SYSCALL_OP_GETPID :: "'a :: len word" where "SYSCALL_OP_GETPID \<equiv> 14"
abbreviation (input) SYSCALL_OP_WAITPID :: "'a :: len word" where "SYSCALL_OP_WAITPID \<equiv> 15"
abbreviation (input) SYSCALL_OP_STAT :: "'a :: len word" where "SYSCALL_OP_STAT \<equiv> 16"
abbreviation (input) SYSCALL_OP_MKDIR :: "'a :: len word" where "SYSCALL_OP_MKDIR \<equiv> 17"
abbreviation (input) SYSCALL_OP_UNLINK :: "'a :: len word" where "SYSCALL_OP_UNLINK \<equiv> 18"
abbreviation (input) SYSCALL_OP_CHDIR :: "'a :: len word" where "SYSCALL_OP_CHDIR \<equiv> 19"
abbreviation (input) SYSCALL_OP_GETCWD :: "'a :: len word" where "SYSCALL_OP_GETCWD \<equiv> 20"
abbreviation (input) SYSCALL_OP_OPEN :: "'a :: len word" where "SYSCALL_OP_OPEN \<equiv> 21"
abbreviation (input) SYSCALL_OP_READ :: "'a :: len word" where "SYSCALL_OP_READ \<equiv> 22"
abbreviation (input) SYSCALL_OP_WRITE :: "'a :: len word" where "SYSCALL_OP_WRITE \<equiv> 23"
abbreviation (input) SYSCALL_OP_CLOSE :: "'a :: len word" where "SYSCALL_OP_CLOSE \<equiv> 24"
abbreviation (input) SYSCALL_OP_DUP2 :: "'a :: len word" where "SYSCALL_OP_DUP2 \<equiv> 25"
abbreviation (input) SYSCALL_OP_MMAP :: "'a :: len word" where "SYSCALL_OP_MMAP \<equiv> 26"
abbreviation (input) SYSCALL_OP_MUNMAP :: "'a :: len word" where "SYSCALL_OP_MUNMAP \<equiv> 27"
abbreviation (input) SYSCALL_OP_YIELD :: "'a :: len word" where "SYSCALL_OP_YIELD \<equiv> 28"
abbreviation (input) SYSCALL_OP_SLEEP :: "'a :: len word" where "SYSCALL_OP_SLEEP \<equiv> 29"
abbreviation (input) SYSCALL_OP_SOCKET :: "'a :: len word" where "SYSCALL_OP_SOCKET \<equiv> 30"
abbreviation (input) SYSCALL_OP_BIND :: "'a :: len word" where "SYSCALL_OP_BIND \<equiv> 31"
abbreviation (input) SYSCALL_OP_LISTEN :: "'a :: len word" where "SYSCALL_OP_LISTEN \<equiv> 32"
abbreviation (input) SYSCALL_OP_ACCEPT :: "'a :: len word" where "SYSCALL_OP_ACCEPT \<equiv> 33"
abbreviation (input) SYSCALL_OP_CONNECT :: "'a :: len word" where "SYSCALL_OP_CONNECT \<equiv> 34"
abbreviation (input) SYSCALL_OP_SEND :: "'a :: len word" where "SYSCALL_OP_SEND \<equiv> 35"
abbreviation (input) SYSCALL_OP_RECV :: "'a :: len word" where "SYSCALL_OP_RECV \<equiv> 36"
abbreviation (input) SYSCALL_OP_GETDENTS :: "'a :: len word" where "SYSCALL_OP_GETDENTS \<equiv> 37"
abbreviation (input) SYSCALL_OP_LSEEK :: "'a :: len word" where "SYSCALL_OP_LSEEK \<equiv> 38"
abbreviation (input) SYSCALL_OP_PIPE :: "'a :: len word" where "SYSCALL_OP_PIPE \<equiv> 39"
abbreviation (input) SYSCALL_OP_DLOPEN :: "'a :: len word" where "SYSCALL_OP_DLOPEN \<equiv> 40"
abbreviation (input) SYSCALL_OP_DLCLOSE :: "'a :: len word" where "SYSCALL_OP_DLCLOSE \<equiv> 41"
abbreviation (input) SYSCALL_OP_DLSYM :: "'a :: len word" where "SYSCALL_OP_DLSYM \<equiv> 42"
abbreviation (input) SYSCALL_OP_MODLOAD :: "'a :: len word" where "SYSCALL_OP_MODLOAD \<equiv> 43"
abbreviation (input) SYSCALL_OP_MODUNLOAD :: "'a :: len word" where "SYSCALL_OP_MODUNLOAD \<equiv> 44"
abbreviation (input) SYSCALL_OP_MODRELOAD :: "'a :: len word" where "SYSCALL_OP_MODRELOAD \<equiv> 45"

text \<open>The operations \<open>qos_syscall_register\<close> accepts.\<close>

definition syscall_ops :: "u32 list" where
  "syscall_ops = [SYSCALL_OP_CONST, SYSCALL_OP_ADD, SYSCALL_OP_QUERY, SYSCALL_OP_KILL, SYSCALL_OP_SIGPENDING,
     SYSCALL_OP_SIGACTION, SYSCALL_OP_SIGPROCMASK, SYSCALL_OP_SIGALTSTACK, SYSCALL_OP_SIGSUSPEND, SYSCALL_OP_FORK,
     SYSCALL_OP_EXEC, SYSCALL_OP_SIGRETURN, SYSCALL_OP_EXIT, SYSCALL_OP_GETPID, SYSCALL_OP_WAITPID, SYSCALL_OP_STAT,
     SYSCALL_OP_MKDIR, SYSCALL_OP_UNLINK, SYSCALL_OP_CHDIR, SYSCALL_OP_GETCWD, SYSCALL_OP_OPEN, SYSCALL_OP_READ,
     SYSCALL_OP_WRITE, SYSCALL_OP_CLOSE, SYSCALL_OP_DUP2, SYSCALL_OP_MMAP, SYSCALL_OP_MUNMAP, SYSCALL_OP_YIELD,
     SYSCALL_OP_SLEEP, SYSCALL_OP_SOCKET, SYSCALL_OP_BIND, SYSCALL_OP_LISTEN, SYSCALL_OP_ACCEPT, SYSCALL_OP_CONNECT,
     SYSCALL_OP_SEND, SYSCALL_OP_RECV, SYSCALL_OP_GETDENTS, SYSCALL_OP_LSEEK, SYSCALL_OP_PIPE, SYSCALL_OP_DLOPEN,
     SYSCALL_OP_DLCLOSE, SYSCALL_OP_DLSYM, SYSCALL_OP_MODLOAD, SYSCALL_OP_MODUNLOAD, SYSCALL_OP_MODRELOAD]"

definition put_call :: "nat \<Rightarrow> call_slot \<Rightarrow> syscall \<Rightarrow> syscall" where
  "put_call i c s = s\<lparr>g_calls := (g_calls s)(i := c)\<rparr>"

definition qos_syscall_register :: "u32 \<Rightarrow> u32 \<Rightarrow> int \<Rightarrow> syscall \<Rightarrow> int \<times> syscall" where
  "qos_syscall_register nr op val s =
     (if unat nr \<ge> QOS_SYSCALL_MAX then (-1, s)
      else if op \<notin> set syscall_ops then (-1, s)
      else if y_used (g_calls s (unat nr)) then (-1, s)
      else (0, (put_call (unat nr) \<lparr>y_used = True, y_op = ucast op, y_value = val\<rparr> s)\<lparr>g_call_count := g_call_count s + 1\<rparr>))"

definition qos_syscall_unregister :: "u32 \<Rightarrow> syscall \<Rightarrow> int \<times> syscall" where
  "qos_syscall_unregister nr s =
     (if unat nr \<ge> QOS_SYSCALL_MAX \<or> \<not> y_used (g_calls s (unat nr)) then (-1, s)
      else (0, (put_call (unat nr) \<lparr>y_used = False, y_op = 0, y_value = 0\<rparr> s)\<lparr>g_call_count := g_call_count s - 1\<rparr>))"

definition qos_syscall_count :: "syscall \<Rightarrow> u32" where
  "qos_syscall_count s = g_call_count s"

text \<open>The calls the kernel registers: number, operation, value.\<close>

definition default_signal_ops :: "(u32 \<times> u32 \<times> int) list" where
  "default_signal_ops = [(0, SYSCALL_OP_FORK, 0), (1, SYSCALL_OP_EXEC, 0), (2, SYSCALL_OP_EXIT, 0),
     (3, SYSCALL_OP_GETPID, 0), (4, SYSCALL_OP_WAITPID, 0), (5, SYSCALL_OP_OPEN, 0), (6, SYSCALL_OP_READ, 0),
     (7, SYSCALL_OP_WRITE, 0), (8, SYSCALL_OP_CLOSE, 0), (9, SYSCALL_OP_DUP2, 0), (10, SYSCALL_OP_MMAP, 0),
     (11, SYSCALL_OP_MUNMAP, 0), (12, SYSCALL_OP_YIELD, 0), (13, SYSCALL_OP_SLEEP, 0), (14, SYSCALL_OP_SOCKET, 0),
     (15, SYSCALL_OP_BIND, 0), (16, SYSCALL_OP_LISTEN, 0), (17, SYSCALL_OP_ACCEPT, 0), (18, SYSCALL_OP_CONNECT, 0),
     (19, SYSCALL_OP_SEND, 0), (20, SYSCALL_OP_RECV, 0), (21, SYSCALL_OP_STAT, 0), (22, SYSCALL_OP_MKDIR, 0),
     (23, SYSCALL_OP_UNLINK, 0), (24, SYSCALL_OP_GETDENTS, 0), (25, SYSCALL_OP_LSEEK, 0), (26, SYSCALL_OP_PIPE, 0),
     (27, SYSCALL_OP_CHDIR, 0), (28, SYSCALL_OP_GETCWD, 0), (29, SYSCALL_OP_KILL, 0), (30, SYSCALL_OP_SIGACTION, 0),
     (31, SYSCALL_OP_SIGPROCMASK, 0), (32, SYSCALL_OP_SIGRETURN, 0), (33, SYSCALL_OP_SIGPENDING, 0),
     (34, SYSCALL_OP_SIGSUSPEND, 0), (35, SYSCALL_OP_SIGALTSTACK, 0), (36, SYSCALL_OP_DLOPEN, 0),
     (37, SYSCALL_OP_DLCLOSE, 0), (38, SYSCALL_OP_DLSYM, 0), (39, SYSCALL_OP_MODLOAD, 0),
     (40, SYSCALL_OP_MODUNLOAD, 0), (41, SYSCALL_OP_MODRELOAD, 0)]"

text \<open>The queries; the value selects the counter.\<close>

definition default_queries :: "(u32 \<times> u32 \<times> int) list" where
  "default_queries = [(64, SYSCALL_OP_QUERY, 1), (65, SYSCALL_OP_QUERY, 2), (66, SYSCALL_OP_QUERY, 3),
     (67, SYSCALL_OP_QUERY, 4), (68, SYSCALL_OP_QUERY, 5), (69, SYSCALL_OP_QUERY, 6), (70, SYSCALL_OP_QUERY, 7),
     (71, SYSCALL_OP_QUERY, 8), (72, SYSCALL_OP_QUERY, 9)]"

definition register_all :: "(u32 \<times> u32 \<times> int) list \<Rightarrow> syscall \<Rightarrow> syscall" where
  "register_all cs s = fold (\<lambda>(nr, op, val) s. snd (qos_syscall_register nr op val s)) cs s"

definition syscall_register_default_signal_ops :: "syscall \<Rightarrow> syscall" where
  "syscall_register_default_signal_ops s = register_all default_signal_ops s"

definition syscall_register_default_queries :: "syscall \<Rightarrow> syscall" where
  "syscall_register_default_queries s = register_all default_queries s"

definition syscall_query_value :: "u32 \<Rightarrow> 'w kernel \<Rightarrow> int" where
  "syscall_query_value query k =
     (if query = 1 then int (unat (qos_kernel_init_state k))
      else if query = 2 then int (unat (qos_pmm_total_pages (k_pmm k)))
      else if query = 3 then int (unat (qos_pmm_free_pages (k_pmm k)))
      else if query = 4 then int (unat (qos_sched_count (k_sched k)))
      else if query = 5 then int (unat (qos_vfs_count (k_vfs k)))
      else if query = 6 then int (unat (qos_net_queue_len (k_net k)))
      else if query = 7 then int (unat (qos_drivers_count (k_drivers k)))
      else if query = 8 then int (unat (qos_syscall_count (k_sys k)))
      else if query = 9 then int (unat (qos_proc_count (k_proc k)))
      else -1)"

subsection \<open>Dispatch\<close>

abbreviation (input) "fd_of x \<equiv> unat (u32_of x)"

text \<open>The chain of conditions on \<open>g_ops[nr]\<close>; \<open>op\<close> is the stored byte and \<open>val\<close> the stored value.\<close>

definition syscall_op :: "stack \<Rightarrow> u8 \<Rightarrow> int \<Rightarrow> u64 \<Rightarrow> u64 \<Rightarrow> u64 \<Rightarrow> u64 \<Rightarrow> umem \<Rightarrow> 'w kernel \<Rightarrow> 'w sysret" where
  "syscall_op stk op val a0 a1 a2 a3 m k =
     (if op = SYSCALL_OP_CONST then (val, m, k)
      else if op = SYSCALL_OP_ADD then (sint (a0 + a1), m, k)
      else if op = SYSCALL_OP_QUERY then (syscall_query_value (word_of_int val) k, m, k)
      else if op = SYSCALL_OP_OPEN then sys_open a0 m k
      else if op = SYSCALL_OP_READ then sys_read stk (fd_of a0) a1 (u32_of a2) m k
      else if op = SYSCALL_OP_WRITE then sys_write (fd_of a0) a1 (u32_of a2) m k
      else if op = SYSCALL_OP_CLOSE then sys_close (fd_of a0) m k
      else if op = SYSCALL_OP_DUP2 then sys_dup2 (fd_of a0) (fd_of a1) m k
      else if op = SYSCALL_OP_MMAP then sys_mmap a0 a1 (u32_of a2) m k
      else if op = SYSCALL_OP_MUNMAP then sys_munmap a0 a1 m k
      else if op = SYSCALL_OP_YIELD then sys_yield m k
      else if op = SYSCALL_OP_SLEEP then (0, m, k)
      else if op = SYSCALL_OP_SOCKET then sys_socket a0 a1 m k
      else if op = SYSCALL_OP_BIND then sys_bind (fd_of a0) a1 (u32_of a2) m k
      else if op = SYSCALL_OP_LISTEN then sys_listen (fd_of a0) a1 m k
      else if op = SYSCALL_OP_ACCEPT then sys_accept (fd_of a0) a1 a2 m k
      else if op = SYSCALL_OP_CONNECT then sys_connect (fd_of a0) a1 (u32_of a2) m k
      else if op = SYSCALL_OP_SEND then sys_send (fd_of a0) a1 (u32_of a2) a3 m k
      else if op = SYSCALL_OP_RECV then sys_recv (fd_of a0) a1 (u32_of a2) a3 m k
      else if op = SYSCALL_OP_GETDENTS then sys_getdents (fd_of a0) a1 a2 m k
      else if op = SYSCALL_OP_LSEEK then sys_lseek (fd_of a0) a1 (u32_of a2) m k
      else if op = SYSCALL_OP_PIPE then sys_pipe a0 m k
      else if op = SYSCALL_OP_KILL then sys_kill (u32_of a0) (u32_of a1) m k
      else if op = SYSCALL_OP_SIGPENDING then sys_sigpending (u32_of a0) m k
      else if op = SYSCALL_OP_SIGACTION then sys_sigaction (u32_of a0) (u32_of a1) a2 m k
      else if op = SYSCALL_OP_SIGPROCMASK then sys_sigprocmask (u32_of a0) (u32_of a1) (u32_of a2) m k
      else if op = SYSCALL_OP_SIGALTSTACK then sys_sigaltstack (u32_of a0) a1 a2 (u32_of a3) m k
      else if op = SYSCALL_OP_SIGSUSPEND then sys_sigsuspend (u32_of a0) (u32_of a1) m k
      else if op = SYSCALL_OP_FORK then sys_fork (u32_of a0) (u32_of a1) m k
      else if op = SYSCALL_OP_EXEC then sys_exec (u32_of a0) a1 m k
      else if op = SYSCALL_OP_DLOPEN then sys_dlopen a0 m k
      else if op = SYSCALL_OP_DLCLOSE then sys_dlclose (u32_of a0) m k
      else if op = SYSCALL_OP_DLSYM then sys_dlsym (u32_of a0) a1 m k
      else if op = SYSCALL_OP_MODLOAD then sys_modload a0 m k
      else if op = SYSCALL_OP_MODUNLOAD then sys_modunload (u32_of a0) m k
      else if op = SYSCALL_OP_MODRELOAD then sys_modreload (u32_of a0) m k
      else if op = SYSCALL_OP_EXIT then sys_exit (u32_of a0) (i32_of a1) m k
      else if op = SYSCALL_OP_GETPID then sys_getpid (u32_of a0) m k
      else if op = SYSCALL_OP_WAITPID then sys_waitpid (u32_of a0) (i32_of a1) a2 (u32_of a3) m k
      else if op = SYSCALL_OP_STAT then sys_stat a0 a1 m k
      else if op = SYSCALL_OP_MKDIR then sys_mkdir a0 m k
      else if op = SYSCALL_OP_UNLINK then sys_unlink a0 m k
      else if op = SYSCALL_OP_CHDIR then sys_chdir (u32_of a0) a1 m k
      else if op = SYSCALL_OP_GETCWD then sys_getcwd (u32_of a0) a1 (u32_of a2) m k
      else if op = SYSCALL_OP_SIGRETURN then sys_sigreturn (u32_of a0) a1 (u32_of a2) m k
      else (-1, m, k))"

definition qos_syscall_dispatch :: "stack \<Rightarrow> u32 \<Rightarrow> u64 \<Rightarrow> u64 \<Rightarrow> u64 \<Rightarrow> u64 \<Rightarrow> umem \<Rightarrow> 'w kernel \<Rightarrow> 'w sysret" where
  "qos_syscall_dispatch stk nr a0 a1 a2 a3 m k =
     (let c = g_calls (k_sys k) (unat nr) in
      if unat nr \<ge> QOS_SYSCALL_MAX \<or> \<not> y_used c then (-1, m, k)
      else syscall_op stk (y_op c) (y_value c) a0 a1 a2 a3 m k)"

end
