(* ===== verification/Kernel.thy ===== *)
theory Kernel
  imports Syscall
begin

text \<open>
  Starting the kernel: \<^verbatim>\<open>src/c-os/kernel/kernel.c\<close> and the \<open>*_init\<close> functions of the components it calls.
\<close>

section \<open>Model\<close>

abbreviation (input) QOS_INIT_MM :: u32 where "QOS_INIT_MM \<equiv> 1"
abbreviation (input) QOS_INIT_DRIVERS :: u32 where "QOS_INIT_DRIVERS \<equiv> 2"
abbreviation (input) QOS_INIT_VFS :: u32 where "QOS_INIT_VFS \<equiv> 4"
abbreviation (input) QOS_INIT_NET :: u32 where "QOS_INIT_NET \<equiv> 8"
abbreviation (input) QOS_INIT_SCHED :: u32 where "QOS_INIT_SCHED \<equiv> 16"
abbreviation (input) QOS_INIT_SYSCALL :: u32 where "QOS_INIT_SYSCALL \<equiv> 32"
abbreviation (input) QOS_INIT_PROC :: u32 where "QOS_INIT_PROC \<equiv> 64"

definition QOS_INIT_ALL :: u32 where
  "QOS_INIT_ALL = QOS_INIT_MM OR QOS_INIT_DRIVERS OR QOS_INIT_VFS OR QOS_INIT_NET OR QOS_INIT_SCHED OR
     QOS_INIT_SYSCALL OR QOS_INIT_PROC"

definition mm_init :: "'w kernel \<Rightarrow> 'w kernel" where
  "mm_init k = qos_kernel_state_mark QOS_INIT_MM k"

definition drivers_init :: "'w kernel \<Rightarrow> 'w kernel" where
  "drivers_init k = qos_kernel_state_mark QOS_INIT_DRIVERS (k\<lparr>k_drivers := qos_drivers_reset\<rparr>)"

definition vfs_init :: "'w kernel \<Rightarrow> 'w kernel" where
  "vfs_init k = qos_kernel_state_mark QOS_INIT_VFS (k\<lparr>k_vfs := qos_vfs_reset\<rparr>)"

definition net_init :: "'w kernel \<Rightarrow> 'w kernel" where
  "net_init k = qos_kernel_state_mark QOS_INIT_NET (k\<lparr>k_net := qos_net_reset\<rparr>)"

definition sched_init :: "'w kernel \<Rightarrow> 'w kernel" where
  "sched_init k = qos_kernel_state_mark QOS_INIT_SCHED (k\<lparr>k_sched := qos_sched_reset\<rparr>)"

definition syscall_init :: "'w kernel \<Rightarrow> 'w kernel" where
  "syscall_init k = qos_kernel_state_mark QOS_INIT_SYSCALL
     (k\<lparr>k_sys := syscall_register_default_queries (syscall_register_default_signal_ops qos_syscall_reset)\<rparr>)"

definition proc_init :: "'w kernel \<Rightarrow> 'w kernel" where
  "proc_init k = qos_kernel_state_mark QOS_INIT_PROC (k\<lparr>k_proc := qos_proc_reset\<rparr>)"

definition qos_kernel_reset :: "'w kernel \<Rightarrow> 'w kernel" where
  "qos_kernel_reset k =
     (qos_kernel_state_reset k)\<lparr>k_vmm := qos_vmm_reset, k_sys := qos_syscall_reset, k_proc := qos_proc_reset\<rparr>"

text \<open>The counters a status snapshot copies out.\<close>

record kernel_status =
  init_state :: u32
  pmm_total_pages :: u32
  pmm_free_pages :: u32
  sched_count :: u32
  vfs_count :: u32
  net_queue_len :: u32
  drivers_count :: u32
  syscall_count :: u32
  proc_count :: u32

definition qos_kernel_status_snapshot :: "bool \<Rightarrow> 'w kernel \<Rightarrow> int \<times> kernel_status option" where
  "qos_kernel_status_snapshot out k =
     (if \<not> out then (-1, None)
      else (0, Some \<lparr>init_state = qos_kernel_init_state k, pmm_total_pages = qos_pmm_total_pages (k_pmm k),
              pmm_free_pages = qos_pmm_free_pages (k_pmm k), sched_count = qos_sched_count (k_sched k),
              vfs_count = qos_vfs_count (k_vfs k), net_queue_len = qos_net_queue_len (k_net k),
              drivers_count = qos_drivers_count (k_drivers k), syscall_count = qos_syscall_count (k_sys k),
              proc_count = qos_proc_count (k_proc k)\<rparr>))"

text \<open>\<open>ks\<close> and \<open>ke\<close> are the linker's bounds of the kernel image, as in \<open>qos_pmm_init\<close>.\<close>

definition qos_kernel_entry :: "u64 \<Rightarrow> u64 \<Rightarrow> boot_ptr \<Rightarrow> 'w kernel \<Rightarrow> int \<times> 'w kernel" where
  "qos_kernel_entry ks ke bi k =
     (let k0 = qos_kernel_reset k in
      if qos_boot_info_validate bi \<noteq> 0 then (-1, k0)
      else case qos_pmm_init ks ke bi of
        (r, pm) \<Rightarrow>
          if r \<noteq> 0 then (-1, k0\<lparr>k_pmm := pm\<rparr>)
          else let k1 = net_init (vfs_init (drivers_init (mm_init (k0\<lparr>k_pmm := pm\<rparr>))));
                   k2 = k1\<lparr>k_def := workqueue_init (kthread_init (napi_init (timer_init (softirq_init (k_def k1)))))\<rparr>;
                   k3 = proc_init (syscall_init (sched_init k2)) in
            if qos_kernel_init_state k3 \<noteq> QOS_INIT_ALL then (-1, k3) else (0, k3))"

end
