(* ===== verification/Kinv.thy ===== *)
theory Kinv
  imports Libinv Kernel
begin

text \<open>
  The invariant of the whole kernel: every component in a well-formed state, the descriptors in agreement
  with files, pipes, ports and listeners, and every named file under a path that the file system knows.
  Starting the kernel establishes it; every system call, every registration of a call, every direct call of a
  component and every step of the deferred work keeps it.
\<close>

section \<open>Specification\<close>

definition call_ok :: "call_slot \<Rightarrow> bool" where
  "call_ok c \<longleftrightarrow> (if y_used c then ucast (y_op c) \<in> set syscall_ops else c = \<lparr>y_used = False, y_op = 0, y_value = 0\<rparr>)"

definition calls_inv :: "syscall \<Rightarrow> bool" where
  "calls_inv s \<longleftrightarrow> (\<forall>i < QOS_SYSCALL_MAX. call_ok (g_calls s i)) \<and>
     unat (g_call_count s) = card (live QOS_SYSCALL_MAX y_used (g_calls s))"

definition names_inv :: "syscall \<Rightarrow> vfs \<Rightarrow> bool" where
  "names_inv s v \<longleftrightarrow> (\<forall>p \<in> named s. Some p \<in> vfs_members v)"

definition kernel_inv :: "'w kernel \<Rightarrow> bool" where
  "kernel_inv k \<longleftrightarrow> pmm_inv (k_pmm k) \<and> vmm_inv (k_vmm k) \<and> sched_inv (k_sched k) \<and> vfs_inv (k_vfs k) \<and>
     drv_inv (k_drivers k) \<and> proc_inv (k_proc k) \<and> deferred_inv (k_def k) \<and>
     fd_inv (k_sys k) (k_net k) \<and> libs_inv (k_sys k) \<and> calls_inv (k_sys k) \<and> names_inv (k_sys k) (k_vfs k)"

text \<open>
  The states the kernel reaches: it starts with the memory map that the boot loader passes, serves system calls, and
  its own code and the outside world use the components. The deferred work moves by \<open>dstep\<close>, in which callbacks, work functions, polls,
  threads and handlers may use the whole interface of the deferred-work components. Four functions of the network stack
  (binding and unbinding a UDP port, listening and its end) are called by the system calls only; so is the removal of a
  path that an open file bears.
\<close>

inductive kreach :: "'w kernel \<Rightarrow> bool" where
  boot: "qos_kernel_entry ks ke (Some (a, bi)) k = (0, k') \<Longrightarrow> mmap_ok (boot_entries bi) \<Longrightarrow> kreach k'"
| call: "kreach k \<Longrightarrow> kreach (snd (snd (qos_syscall_dispatch stk nr a0 a1 a2 a3 m k)))"
| enlist: "kreach k \<Longrightarrow> kreach (k\<lparr>k_sys := snd (qos_syscall_register nr op val (k_sys k))\<rparr>)"
| delist: "kreach k \<Longrightarrow> kreach (k\<lparr>k_sys := snd (qos_syscall_unregister nr (k_sys k))\<rparr>)"
| pages: "kreach k \<Longrightarrow> kreach (k\<lparr>k_pmm := snd (pmm_step x1 (k_pmm k))\<rparr>)"
| mappings: "kreach k \<Longrightarrow> kreach (k\<lparr>k_vmm := snd (vmm_step x2 (k_vmm k))\<rparr>)"
| tasks: "kreach k \<Longrightarrow> kreach (k\<lparr>k_sched := snd (sched_step x3 (k_sched k))\<rparr>)"
| create: "kreach k \<Longrightarrow> kreach (k\<lparr>k_vfs := snd (qos_vfs_create path (k_vfs k))\<rparr>)"
| remove: "kreach k \<Longrightarrow> path \<notin> Some ` named (k_sys k) \<Longrightarrow> kreach (k\<lparr>k_vfs := snd (qos_vfs_remove path (k_vfs k))\<rparr>)"
| packet_in: "kreach k \<Longrightarrow> unat len \<le> length d \<Longrightarrow> kreach (k\<lparr>k_net := snd (qos_net_enqueue_packet (Some d) len (k_net k))\<rparr>)"
| packet_out: "kreach k \<Longrightarrow> kreach (k\<lparr>k_net := snd (snd (qos_net_dequeue_packet True cap (k_net k)))\<rparr>)"
| addresses: "kreach k \<Longrightarrow> kreach (k\<lparr>k_net := snd (arp_step x6 (k_net k))\<rparr>)"
| udp_send: "kreach k \<Longrightarrow> length d = unat len \<Longrightarrow> kreach (k\<lparr>k_net := snd (qos_net_udp_send sp ip dp (Some d) len (k_net k))\<rparr>)"
| udp_recv: "kreach k \<Longrightarrow> kreach (k\<lparr>k_net := snd (qos_net_udp_recv port True cap (k_net k))\<rparr>)"
| tcp_connect: "kreach k \<Longrightarrow> kreach (k\<lparr>k_net := snd (qos_net_tcp_connect lp ip rp (k_net k))\<rparr>)"
| tcp_event: "kreach k \<Longrightarrow> kreach (k\<lparr>k_net := snd (qos_net_tcp_step c e (k_net k))\<rparr>)"
| devices: "kreach k \<Longrightarrow> kreach (k\<lparr>k_drivers := snd (drv_step x4 (k_drivers k))\<rparr>)"
| processes: "kreach k \<Longrightarrow> kreach (k\<lparr>k_proc := snd (proc_step x5 (k_proc k))\<rparr>)"
| deferred: "kreach k \<Longrightarrow> dstep (k_def k) d \<Longrightarrow> kreach (k\<lparr>k_def := d\<rparr>)"

text \<open>The state that a successful start leaves behind: every component reset and marked, the default calls registered.\<close>

definition booted :: "pmm \<Rightarrow> 'w deferred \<Rightarrow> 'w kernel" where
  "booted pm d =
     \<lparr>k_init = QOS_INIT_ALL, k_pmm = pm, k_vmm = qos_vmm_reset, k_sched = qos_sched_reset, k_vfs = qos_vfs_reset,
      k_net = qos_net_reset, k_drivers = qos_drivers_reset, k_proc = qos_proc_reset, k_def = deferred_init d,
      k_sys = syscall_register_default_queries (syscall_register_default_signal_ops qos_syscall_reset)\<rparr>"

text \<open>A call that keeps the invariant.\<close>

definition safe :: "'w kernel \<Rightarrow> 'w sysret \<Rightarrow> bool" where
  "safe k r \<longleftrightarrow> (kernel_inv k \<longrightarrow> kernel_inv (snd (snd r)))"

text \<open>A change of the table of calls, and of nothing else.\<close>

definition calls_step :: "syscall \<Rightarrow> syscall \<Rightarrow> bool" where
  "calls_step s s' \<longleftrightarrow> (calls_inv s \<longrightarrow> calls_inv s') \<and>
     g_fds s' = g_fds s \<and> g_files s' = g_files s \<and> g_pipes s' = g_pipes s \<and> g_sock_ports_stream s' = g_sock_ports_stream s \<and>
     g_sock_ports_dgram s' = g_sock_ports_dgram s \<and> g_shlibs s' = g_shlibs s \<and> g_modules s' = g_modules s"

text \<open>An entry of the table, from a triple of \<open>default_signal_ops\<close> or \<open>default_queries\<close>.\<close>

definition call_entry :: "u32 \<times> u32 \<times> int \<Rightarrow> nat \<times> call_slot" where
  "call_entry c = (case c of (nr, op, val) \<Rightarrow> (unat nr, \<lparr>y_used = True, y_op = ucast op, y_value = val\<rparr>))"

section \<open>Frame lemmas\<close>

lemma safe_same [simp]: "safe k (r, m', k)"
  by (simp add: safe_def)

lemma safe_if [intro]: "(b \<Longrightarrow> safe k x) \<Longrightarrow> (\<not> b \<Longrightarrow> safe k y) \<Longrightarrow> safe k (if b then x else y)"
  by simp

lemma calls_cong: "g_calls s' = g_calls s \<Longrightarrow> g_call_count s' = g_call_count s \<Longrightarrow> calls_inv s \<Longrightarrow> calls_inv s'"
  by (simp add: calls_inv_def)

lemma rest_inv: "sys_rest s' = sys_rest s \<Longrightarrow> libs_inv s \<Longrightarrow> calls_inv s \<Longrightarrow> libs_inv s' \<and> calls_inv s'"
  by (simp add: sys_rest_def libs_inv_def calls_inv_def)

lemma safe_keeps:
  fixes k :: "'w kernel"
  shows "keeps k r \<Longrightarrow> safe k r"
proof -
  have "kernel_inv k'" if "k' = set_net (k_sys k') (k_net k') k" "fd_inv (k_sys k') (k_net k')"
      "named (k_sys k') \<subseteq> named (k_sys k)" "sys_rest (k_sys k') = sys_rest (k_sys k)" "kernel_inv k" for k' :: "'w kernel"
  proof -
    have "libs_inv (k_sys k') \<and> calls_inv (k_sys k')" using that(4,5) rest_inv by (auto simp: kernel_inv_def)
    moreover have "names_inv (k_sys k') (k_vfs k)" using that(3,5) by (auto simp: kernel_inv_def names_inv_def)
    moreover have "kernel_inv (set_net s n k) \<longleftrightarrow> kernel_inv k \<and> fd_inv s n"
      if "libs_inv s" "calls_inv s" "names_inv s (k_vfs k)" "kernel_inv k" for s n
      using that by (auto simp: kernel_inv_def set_net_def)
    ultimately show ?thesis using that(1,2,5) by metis
  qed
  then show "keeps k r \<Longrightarrow> safe k r" by (auto simp: safe_def keeps_def kernel_inv_def Let_def)
qed

lemma fd_inv_cong:
  assumes "g_fds s' = g_fds s" "g_files s' = g_files s" "g_pipes s' = g_pipes s"
    "g_sock_ports_stream s' = g_sock_ports_stream s" "g_sock_ports_dgram s' = g_sock_ports_dgram s"
  shows "fd_inv s' n = fd_inv s n"
proof -
  have "marked t p s' = marked t p s" for t p using assms by (simp add: marked_def socket_port_bitmap_def)
  then show ?thesis
    using assms by (simp add: fd_inv_def fds_inv_def files_inv_def pipes_inv_def ports_inv_def)
qed

lemma safe_lib:
  assumes "lib_step (k_sys k) s"
  shows "safe k (r, m', k\<lparr>k_sys := s\<rparr>)"
proof -
  have "fd_inv s (k_net k)" if "fd_inv (k_sys k) (k_net k)"
    using assms that fd_inv_cong [of s "k_sys k"] by (simp add: lib_step_def)
  then show ?thesis
    using assms calls_cong [of s "k_sys k"] named_cong [of s "k_sys k"]
    by (auto simp: safe_def kernel_inv_def lib_step_def names_inv_def)
qed

lemma safe_proc: "(proc_inv (k_proc k) \<Longrightarrow> proc_inv p) \<Longrightarrow> safe k (r, m', k\<lparr>k_proc := p\<rparr>)"
  by (simp add: safe_def kernel_inv_def)

lemma safe_vmm: "(vmm_inv (k_vmm k) \<Longrightarrow> vmm_inv v) \<Longrightarrow> safe k (r, m', k\<lparr>k_vmm := v\<rparr>)"
  by (simp add: safe_def kernel_inv_def)

section \<open>Each call keeps the invariant\<close>

subsection \<open>Processes and signals\<close>

lemma proc_inv_step: "proc_inv s \<Longrightarrow> proc_inv (snd (proc_step x s))"
  using proc_step_refines [of s x] by auto

lemmas proc_inv_ops =
  proc_inv_step [where x = "PFork parent child" for parent child, simplified]
  proc_inv_step [where x = "PRemove pid" for pid, simplified]
  proc_inv_step [where x = "PExit pid code" for pid code, simplified]
  proc_inv_step [where x = "PCwd pid path" for pid path, simplified]
  proc_inv_step [where x = "PExecReset pid" for pid, simplified]
  proc_inv_step [where x = "PImage pid im" for pid im, simplified]
  proc_inv_step [where x = "PHandler pid signum h" for pid signum h, simplified]
  proc_inv_step [where x = "PMask pid m" for pid m, simplified]
  proc_inv_step [where x = "PSend pid signum" for pid signum, simplified]
  proc_inv_step [where x = "PNext pid" for pid, simplified]
  proc_inv_step [where x = "PSigreturn pid f" for pid f, simplified]
  proc_inv_step [where x = "PAltstack pid sp sz fl" for pid sp sz fl, simplified]

lemma safe_status: "(proc_inv (k_proc k) \<Longrightarrow> proc_inv (snd rp)) \<Longrightarrow> safe k (status_ret m k rp)"
  by (simp add: status_ret_def safe_proc)

text \<open>A result that is a pair of an answer and a process table.\<close>

lemma safe_proc_case: "(proc_inv (k_proc k) \<Longrightarrow> proc_inv (snd rp)) \<Longrightarrow> safe k (case rp of (r, p) \<Rightarrow> (f r, m', k\<lparr>k_proc := p\<rparr>))"
  by (simp add: case_prod_beta safe_proc)

lemma sys_kill_safe: "safe k (sys_kill pid signum m k)"
  unfolding sys_kill_def by (intro safe_status proc_inv_ops)

lemma sys_exit_safe: "safe k (sys_exit pid code m k)"
  unfolding sys_exit_def by (intro safe_status proc_inv_ops)

lemma sys_fork_safe: "safe k (sys_fork parent child m k)"
  unfolding sys_fork_def by (intro safe_proc_case proc_inv_ops)

lemma sys_sigreturn_safe: "safe k (sys_sigreturn pid a1 how m k)"
  unfolding sys_sigreturn_def by (intro safe_if safe_same safe_status proc_inv_ops)

lemma sys_sigaction_safe: "safe k (sys_sigaction pid signum h m k)"
  unfolding sys_sigaction_def case_prod_beta by (intro safe_if safe_same safe_proc proc_inv_ops)

lemma sys_sigaltstack_safe: "safe k (sys_sigaltstack pid sp sz fl m k)"
  unfolding sys_sigaltstack_def case_prod_beta by (intro safe_if safe_same safe_proc proc_inv_ops)

lemma safe_option: "(x = None \<Longrightarrow> safe k r) \<Longrightarrow> (\<And>y. x = Some y \<Longrightarrow> safe k (f y)) \<Longrightarrow> safe k (case x of None \<Rightarrow> r | Some y \<Rightarrow> f y)"
  by (cases x) simp_all

lemma sys_sigprocmask_safe: "safe k (sys_sigprocmask pid how bits m k)"
  unfolding sys_sigprocmask_def case_prod_beta Let_def by (intro safe_if safe_option safe_same safe_proc proc_inv_ops)

lemma sys_sigsuspend_safe: "safe k (sys_sigsuspend pid bits m k)"
  unfolding sys_sigsuspend_def case_prod_beta by (intro safe_if safe_same safe_proc proc_inv_ops)

lemma sys_sigpending_safe: "safe k (sys_sigpending pid m k)"
  by (simp add: sys_sigpending_def case_prod_beta)

lemma sys_getpid_safe: "safe k (sys_getpid pid m k)"
  by (simp add: sys_getpid_def)

lemma sys_exec_safe: "safe k (sys_exec pid a1 m k)"
  unfolding sys_exec_def case_prod_beta Let_def
  by (intro safe_option safe_if safe_same safe_status safe_proc proc_inv_ops)

lemma sys_waitpid_safe: "safe k (sys_waitpid parent pid statusp options m k)"
proof -
  have "proc_inv (snd (snd (qos_proc_wait parent pid options s)))" if "proc_inv s" for s
    using that proc_inv_ops(2) by (auto simp: qos_proc_wait_def Let_def split: option.splits sum.splits)
  then show ?thesis unfolding sys_waitpid_def case_prod_beta by (intro safe_proc)
qed

lemma sys_chdir_safe: "safe k (sys_chdir pid a1 m k)"
  unfolding sys_chdir_def case_prod_beta Let_def by (intro safe_if safe_same safe_proc proc_inv_ops)

subsection \<open>Tasks and mappings\<close>

lemma sched_inv_next: "sched_inv s \<Longrightarrow> sched_inv (snd (qos_sched_next s))"
proof (cases "g_total_count s = 0")
  case False
  assume inv: "sched_inv s"
  then have "lv_total (sched_q s) \<noteq> 0" using False by (auto simp: sched_inv_def unat_eq_zero [symmetric])
  then show ?thesis using sched_top_exists sched_next_top(5) [OF inv] by blast
next
  case True
  assume inv: "sched_inv s"
  have "sched_q (s\<lparr>g_current_pid := 0\<rparr>) = sched_q s" by (simp add: sched_q_def fun_eq_iff)
  then show ?thesis using True inv by (simp add: qos_sched_next_def sched_inv_def cursors_ok_def)
qed

lemma sys_yield_safe: "safe k (sys_yield m k)"
  using sched_inv_next by (simp add: sys_yield_def case_prod_beta safe_def kernel_inv_def)

lemma vmm_inv_step: "vmm_inv v \<Longrightarrow> vmm_inv (snd (vmm_step x v))"
  using vmm_sim.sim_step [of v x] by auto

lemma vmm_inv_map: "vmm_inv v \<Longrightarrow> vmm_inv (snd (qos_vmm_map va pa fl v))"
  using vmm_inv_step [of v "MapAs (g_vmm_asid v) va pa fl"] by (simp add: qos_vmm_map_def)

lemma vmm_inv_unmap: "vmm_inv v \<Longrightarrow> vmm_inv (snd (qos_vmm_unmap va v))"
  using vmm_inv_step [of v "UnmapAs (g_vmm_asid v) va"] by (simp add: qos_vmm_unmap_def)

lemma vmm_inv_unmap_back: "vmm_inv v \<Longrightarrow> vmm_inv (unmap_back va i v)"
  by (induction va i v rule: unmap_back.induct) (simp_all add: vmm_inv_unmap)

lemma vmm_inv_mmap_loop: "vmm_inv v \<Longrightarrow> vmm_inv (snd (mmap_loop va fl i n v))"
  by (induction n arbitrary: i v)
    (simp_all add: Let_def case_prod_beta vmm_inv_map vmm_inv_unmap_back)

lemma vmm_inv_munmap_loop: "vmm_inv v \<Longrightarrow> vmm_inv (snd (munmap_loop va i n v))"
  by (induction n arbitrary: i v) (simp_all add: Let_def case_prod_beta vmm_inv_unmap)

lemma sys_mmap_safe: "safe k (sys_mmap va len fl m k)"
  unfolding sys_mmap_def case_prod_beta Let_def by (intro safe_if safe_same safe_vmm vmm_inv_mmap_loop)

lemma sys_munmap_safe: "safe k (sys_munmap va len m k)"
  unfolding sys_munmap_def case_prod_beta Let_def by (intro safe_if safe_same safe_vmm vmm_inv_munmap_loop)

subsection \<open>Files, libraries and modules\<close>

lemma vfs_exists_member: "qos_vfs_exists (Some path) v \<noteq> 0 \<Longrightarrow> Some path \<in> vfs_members v"
  using find_path_None [of path v] by (auto simp: qos_vfs_exists_def split: if_splits)

lemma names_open: "named s' \<subseteq> insert path (named s) \<Longrightarrow> Some path \<in> vfs_members v \<Longrightarrow> names_inv s v \<Longrightarrow> names_inv s' v"
  by (auto simp: names_inv_def)

lemma kernel_inv_sys:
  "kernel_inv k \<Longrightarrow> fd_inv s (k_net k) \<Longrightarrow> sys_rest s = sys_rest (k_sys k) \<Longrightarrow> names_inv s (k_vfs k) \<Longrightarrow> kernel_inv (k\<lparr>k_sys := s\<rparr>)"
  using rest_inv [of s "k_sys k"] by (auto simp: kernel_inv_def)

lemma sys_open_safe: "safe k (sys_open a0 m k)"
  unfolding safe_def
proof
  assume inv: "kernel_inv k"
  then have fd: "fd_inv (k_sys k) (k_net k)" and names: "names_inv (k_sys k) (k_vfs k)" by (simp_all add: kernel_inv_def)
  show "kernel_inv (snd (snd (sys_open a0 m k)))"
  proof (cases rule: sys_open_cases [OF fd, of a0 m])
    case (2 fd s1)
    then show ?thesis using inv names by (simp add: kernel_inv_sys names_inv_def)
  next
    case (3 path fd s1)
    then show ?thesis using inv names names_open vfs_exists_member by (simp add: kernel_inv_sys)
  qed (use inv in simp)
qed

lemma vfs_create_cases:
  assumes "vfs_inv v"
  obtains "qos_vfs_create path v = (-1, v)"
  | v' where "qos_vfs_create path v = (0, v')" "vfs_inv v'" "vfs_members v' = insert path (vfs_members v)"
  using vfs_reg.create_accept [OF assms, of path] vfs_reg.create_reject [OF assms, of path] by blast

lemma vfs_remove_cases:
  assumes "vfs_inv v"
  obtains "qos_vfs_remove path v = (-1, v)"
  | p v' where "path = Some p" "p \<noteq> []" "qos_vfs_remove path v = (0, v')" "vfs_inv v'" "vfs_members v' = vfs_members v - {path}"
proof (cases "path \<in> vfs_members v")
  case True
  have valid: "path_valid path" using vfs_members_valid [OF assms True] .
  obtain p where p: "path = Some p" using path_valid_Some [OF valid] by blast
  have "p \<noteq> []" using valid by (auto simp: p path_valid_def)
  moreover obtain v' where "qos_vfs_remove path v = (0, v')" "vfs_inv v'" "vfs_members v' = vfs_members v - {path}"
    using vfs_reg.remove_accept [OF assms True] by blast
  ultimately show thesis using that(2) [OF p] by simp
next
  case False
  then show thesis using that(1) vfs_remove_reject by simp
qed

lemma kernel_inv_create: "kernel_inv k \<Longrightarrow> kernel_inv (k\<lparr>k_vfs := snd (qos_vfs_create path (k_vfs k))\<rparr>)"
  by (rule vfs_create_cases [of "k_vfs k" path]) (auto simp: kernel_inv_def names_inv_def)

lemma sys_mkdir_safe: "safe k (sys_mkdir a0 m k)"
  by (simp add: sys_mkdir_def Let_def case_prod_beta safe_def kernel_inv_create)

lemma sys_unlink_safe: "safe k (sys_unlink a0 m k)"
  unfolding safe_def
proof
  assume inv: "kernel_inv k"
  then have parts: "vfs_inv (k_vfs k)" "fd_inv (k_sys k) (k_net k)" "names_inv (k_sys k) (k_vfs k)"
    "libs_inv (k_sys k)" "calls_inv (k_sys k)" by (simp_all add: kernel_inv_def)
  show "kernel_inv (snd (snd (sys_unlink a0 m k)))"
  proof (cases rule: vfs_remove_cases [OF parts(1), of "str_at m a0"])
    case (2 p v)
    let ?s = "file_unlink_path p (k_sys k)"
    have "fd_inv ?s (k_net k)" "names_inv ?s v"
      using fd_inv_unlink [OF parts(2) 2(2)] parts(3) 2(1,5) by (auto simp: names_inv_def)
    moreover have "libs_inv ?s \<and> calls_inv ?s" using parts(4,5) by (intro rest_inv) simp_all
    ultimately have "kernel_inv (k\<lparr>k_vfs := v, k_sys := ?s\<rparr>)" using inv 2(4) by (simp add: kernel_inv_def)
    then show ?thesis using inv 2(1,3) by (simp add: sys_unlink_def Let_def)
  qed (use inv in \<open>simp add: sys_unlink_def Let_def\<close>)
qed

lemma sys_getdents_safe: "safe k (sys_getdents fd a1 a2 m k)"
  by (simp add: sys_getdents_def Let_def)

lemma sys_getcwd_safe: "safe k (sys_getcwd pid a1 len m k)"
  by (simp add: sys_getcwd_def case_prod_beta)

lemma sys_stat_safe: "safe k (sys_stat a0 a1 m k)"
  unfolding sys_stat_def Let_def case_prod_beta by (intro safe_option safe_if safe_same)

lemma sys_dlopen_safe: "safe k (sys_dlopen a0 m k)"
  unfolding sys_dlopen_def case_prod_beta using shlib_load_step [OF surjective_pairing] by (intro safe_lib) blast

lemma sys_dlclose_safe: "safe k (sys_dlclose h m k)"
  unfolding sys_dlclose_def case_prod_beta by (intro safe_lib shlib_release_step)

lemma sys_dlsym_safe: "safe k (sys_dlsym h a1 m k)"
  by (simp add: sys_dlsym_def Let_def)

lemma sys_modload_safe: "safe k (sys_modload a0 m k)"
  unfolding sys_modload_def case_prod_beta by (intro safe_lib module_load_step)

lemma sys_modunload_safe: "safe k (sys_modunload mid m k)"
  unfolding sys_modunload_def case_prod_beta by (intro safe_lib module_unload_step)

lemma sys_modreload_safe: "safe k (sys_modreload mid m k)"
  unfolding sys_modreload_def case_prod_beta by (intro safe_lib module_reload_step)

lemmas descriptor_calls_safe = sys_read_keeps [THEN safe_keeps] sys_write_keeps [THEN safe_keeps] sys_close_keeps [THEN safe_keeps]
  sys_dup2_keeps [THEN safe_keeps] sys_socket_keeps [THEN safe_keeps] sys_bind_keeps [THEN safe_keeps]
  sys_listen_keeps [THEN safe_keeps] sys_accept_keeps [THEN safe_keeps] sys_connect_keeps [THEN safe_keeps]
  sys_send_keeps [THEN safe_keeps] sys_recv_keeps [THEN safe_keeps] sys_lseek_keeps [THEN safe_keeps] sys_pipe_keeps [THEN safe_keeps]

lemmas call_safe = descriptor_calls_safe sys_kill_safe sys_exit_safe sys_fork_safe sys_sigreturn_safe sys_sigaction_safe sys_sigaltstack_safe
  sys_sigprocmask_safe sys_sigsuspend_safe sys_sigpending_safe sys_getpid_safe sys_exec_safe sys_waitpid_safe sys_chdir_safe
  sys_yield_safe sys_mmap_safe sys_munmap_safe sys_open_safe sys_mkdir_safe sys_unlink_safe sys_getdents_safe sys_getcwd_safe
  sys_stat_safe sys_dlopen_safe sys_dlclose_safe sys_dlsym_safe sys_modload_safe sys_modunload_safe sys_modreload_safe

lemma syscall_op_safe: "safe k (syscall_op stk op val a0 a1 a2 a3 m k)"
  unfolding syscall_op_def by (intro safe_if safe_same call_safe)

lemma dispatch_safe: "safe k (qos_syscall_dispatch stk nr a0 a1 a2 a3 m k)"
  by (simp add: qos_syscall_dispatch_def Let_def syscall_op_safe)

section \<open>The table of calls\<close>

lemma calls_inv_register: "calls_inv s \<Longrightarrow> calls_inv (snd (qos_syscall_register nr op val s))"
proof (cases "unat nr < QOS_SYSCALL_MAX \<and> op \<in> set syscall_ops \<and> \<not> y_used (g_calls s (unat nr))")
  case True
  assume inv: "calls_inv s"
  let ?c = "\<lparr>y_used = True, y_op = ucast op, y_value = val\<rparr>"
  have "ucast (ucast op :: u8) = op" using True by (auto simp: syscall_ops_def)
  then have "call_ok ?c" using True by (simp add: call_ok_def)
  moreover have "card (live QOS_SYSCALL_MAX y_used ((g_calls s)(unat nr := ?c))) = Suc (card (live QOS_SYSCALL_MAX y_used (g_calls s)))"
    using True by (intro card_live_insert) simp_all
  moreover have "unat (g_call_count s + 1) = Suc (unat (g_call_count s))"
    using inv card_live_le [of 128 y_used "g_calls s"] by (intro unat_Suc_count [OF refl, where n = 129]) (simp_all add: calls_inv_def)
  ultimately show ?thesis
    using True inv by (auto simp: qos_syscall_register_def calls_inv_def put_call_def)
qed (auto simp: qos_syscall_register_def)

lemma calls_inv_unregister: "calls_inv s \<Longrightarrow> calls_inv (snd (qos_syscall_unregister nr s))"
proof (cases "unat nr < QOS_SYSCALL_MAX \<and> y_used (g_calls s (unat nr))")
  case True
  assume inv: "calls_inv s"
  let ?c = "\<lparr>y_used = False, y_op = 0, y_value = 0\<rparr>"
  have "Suc (card (live QOS_SYSCALL_MAX y_used ((g_calls s)(unat nr := ?c)))) = card (live QOS_SYSCALL_MAX y_used (g_calls s))"
    using True by (intro card_live_remove) simp_all
  moreover then have "unat (g_call_count s - 1) = unat (g_call_count s) - 1"
    using inv by (intro unat_pred_count) (auto simp: calls_inv_def)
  ultimately show ?thesis
    using True inv by (auto simp: qos_syscall_unregister_def calls_inv_def put_call_def call_ok_def)
qed (auto simp: qos_syscall_unregister_def)

lemma calls_step_register: "calls_step s (snd (qos_syscall_register nr op val s))"
  using calls_inv_register by (simp add: calls_step_def) (simp add: qos_syscall_register_def put_call_def)

lemma calls_step_unregister: "calls_step s (snd (qos_syscall_unregister nr s))"
  using calls_inv_unregister by (simp add: calls_step_def) (simp add: qos_syscall_unregister_def put_call_def)

lemma kernel_inv_calls: "kernel_inv k \<Longrightarrow> calls_step (k_sys k) s \<Longrightarrow> kernel_inv (k\<lparr>k_sys := s\<rparr>)"
  using fd_inv_cong [of s "k_sys k"] named_cong [of s "k_sys k"]
  by (simp add: kernel_inv_def calls_step_def libs_inv_def names_inv_def)

lemma register_all_Cons: "register_all ((nr, op, val) # cs) s = register_all cs (snd (qos_syscall_register nr op val s))"
  by (simp add: register_all_def)

lemma fst_call_entry [simp]: "fst (call_entry c) = unat (fst c)"
  by (simp add: call_entry_def split: prod.split)

lemma register_all_calls:
  assumes "distinct (map (\<lambda>c. fst (call_entry c)) cs)"
    "\<forall>(nr, op, val) \<in> set cs. unat nr < QOS_SYSCALL_MAX \<and> op \<in> set syscall_ops \<and> \<not> y_used (g_calls s (unat nr))"
  shows "g_calls (register_all cs s) i = (case map_of (map call_entry cs) i of Some c \<Rightarrow> c | None \<Rightarrow> g_calls s i) \<and>
    g_call_count (register_all cs s) = g_call_count s + word_of_nat (length cs)"
  using assms
proof (induction cs arbitrary: s)
  case (Cons x cs)
  obtain nr op val where x: "x = (nr, op, val)" by (cases x)
  define c where "c = \<lparr>y_used = True, y_op = ucast op, y_value = val\<rparr>"
  define s1 where "s1 = (put_call (unat nr) c s)\<lparr>g_call_count := g_call_count s + 1\<rparr>"
  have g: "g_calls s1 j = (if j = unat nr then c else g_calls s j)" "g_call_count s1 = g_call_count s + 1" for j
    by (simp_all add: s1_def put_call_def)
  have r: "register_all (x # cs) s = register_all cs s1"
    using Cons.prems(2) unfolding x by (simp add: register_all_Cons qos_syscall_register_def s1_def c_def)
  have new: "(nr', op', val') \<in> set cs \<Longrightarrow> unat nr' \<noteq> unat nr" for nr' op' val' using Cons.prems(1) by (force simp: x)
  have "\<forall>(nr, op, val) \<in> set cs. unat nr < QOS_SYSCALL_MAX \<and> op \<in> set syscall_ops \<and> \<not> y_used (g_calls s1 (unat nr))"
    using Cons.prems(2) new by (auto simp: g)
  moreover have "distinct (map (\<lambda>c. fst (call_entry c)) cs)" using Cons.prems(1) by simp
  ultimately have IH: "g_calls (register_all cs s1) i = (case map_of (map call_entry cs) i of Some c \<Rightarrow> c | None \<Rightarrow> g_calls s1 i) \<and>
      g_call_count (register_all cs s1) = g_call_count s1 + word_of_nat (length cs)"
    by (intro Cons.IH)
  have none: "map_of (map call_entry cs) (unat nr) = None" using new by (auto simp: map_of_eq_None_iff) blast
  have x': "map_of (map call_entry (x # cs)) i = (if i = unat nr then Some c else map_of (map call_entry cs) i)"
    by (simp add: x call_entry_def c_def)
  show ?case unfolding r x' using IH none by (simp add: g split: option.split)
qed (simp add: register_all_def)

section \<open>Starting the kernel\<close>

lemma register_all_step: "calls_step s (register_all cs s)"
proof (induction cs arbitrary: s)
  case (Cons x cs)
  obtain nr op val where x: "x = (nr, op, val)" by (cases x)
  let ?s = "snd (qos_syscall_register nr op val s)"
  have "register_all (x # cs) s = register_all cs ?s" by (simp add: register_all_def x)
  then show ?case using Cons.IH [of ?s] calls_step_register [of s nr op val] by (simp add: calls_step_def)
qed (simp add: register_all_def calls_step_def)

lemma pmm_inv_entry:
  assumes "qos_boot_info_validate (Some (a, bi)) = 0" "mmap_ok (boot_entries bi)" "qos_pmm_init ks ke (Some (a, bi)) = (0, pm)"
  shows "pmm_inv pm"
proof -
  have bi: "bi_magic bi = QOS_BOOT_MAGIC" "bi_mmap_entry_count bi \<noteq> 0" "unat (bi_mmap_entry_count bi) \<le> QOS_MMAP_MAX_ENTRIES"
    using assms(1) by (auto simp: qos_boot_info_validate_def split: if_splits)
  show ?thesis using pmm_init_pool_aux(2) [OF bi assms(2,3)] by simp
qed

lemma entry_booted:
  "qos_kernel_entry ks ke bi k =
     (if qos_boot_info_validate bi \<noteq> 0 then (-1, qos_kernel_reset k)
      else case qos_pmm_init ks ke bi of
        (r, pm) \<Rightarrow> if r \<noteq> 0 then (-1, (qos_kernel_reset k)\<lparr>k_pmm := pm\<rparr>) else (0, booted pm (k_def k)))"
proof -
  have "booted pm (k_def k) = proc_init (syscall_init (sched_init ((net_init (vfs_init (drivers_init (mm_init
      ((qos_kernel_reset k)\<lparr>k_pmm := pm\<rparr>)))))\<lparr>k_def := deferred_init (k_def k)\<rparr>)))" for pm
    by (simp add: booted_def proc_init_def syscall_init_def sched_init_def net_init_def vfs_init_def drivers_init_def mm_init_def
        qos_kernel_reset_def qos_kernel_state_reset_def qos_kernel_state_mark_def QOS_INIT_ALL_def)
  moreover have "k_def (net_init (vfs_init (drivers_init (mm_init ((qos_kernel_reset k)\<lparr>k_pmm := pm\<rparr>))))) = k_def k" for pm
    by (simp add: net_init_def vfs_init_def drivers_init_def mm_init_def qos_kernel_reset_def qos_kernel_state_reset_def qos_kernel_state_mark_def)
  moreover have "qos_kernel_init_state (booted pm (k_def k)) = QOS_INIT_ALL" for pm
    by (simp add: booted_def qos_kernel_init_state_def qos_kernel_state_get_def)
  ultimately show ?thesis
    by (simp add: qos_kernel_entry_def Let_def deferred_init_def [symmetric] split: prod.split)
qed

lemma booted_inv: "pmm_inv pm \<Longrightarrow> kernel_inv (booted pm d)"
proof -
  let ?s = "register_all default_queries (register_all default_signal_ops qos_syscall_reset)"
  have "calls_inv qos_syscall_reset" by (simp add: calls_inv_def call_ok_def live_def qos_syscall_reset_def)
  moreover have "libs_inv qos_syscall_reset" using slot0_ok by (simp add: libs_inv_def qos_syscall_reset_def)
  moreover have "named qos_syscall_reset = {}" by (simp add: named_def qos_syscall_reset_def file0_def)
  moreover have "calls_step qos_syscall_reset ?s"
    using register_all_step [of qos_syscall_reset default_signal_ops] register_all_step [of _ default_queries]
    by (auto simp: calls_step_def)
  ultimately have "libs_inv ?s" "calls_inv ?s" "named ?s = {}" "fd_inv ?s qos_net_reset"
    using fd_inv_reset fd_inv_cong [of ?s qos_syscall_reset] by (simp_all add: calls_step_def libs_inv_def named_def)
  then show "pmm_inv pm \<Longrightarrow> kernel_inv (booted pm d)"
    using vmm_inv_reset(1) sched_inv_reset(1) vfs_inv_reset(1) drv_inv_reset(1) proc_inv_reset(1) deferred_inv_init
    by (simp add: kernel_inv_def booted_def names_inv_def syscall_register_default_signal_ops_def syscall_register_default_queries_def)
qed

lemma entry_inv:
  assumes "qos_kernel_entry ks ke (Some (a, bi)) k = (0, k')" "mmap_ok (boot_entries bi)"
  shows "kernel_inv k'"
proof -
  obtain r pm where pm: "qos_pmm_init ks ke (Some (a, bi)) = (r, pm)" by fastforce
  have v: "qos_boot_info_validate (Some (a, bi)) = 0" "r = 0" "k' = booted pm (k_def k)"
    using assms(1) pm by (auto simp: entry_booted split: if_splits)
  show ?thesis using pmm_inv_entry [OF v(1) assms(2)] pm unfolding v by (intro booted_inv)
qed

section \<open>Every state the kernel reaches\<close>

lemma kernel_inv_net: "kernel_inv k \<Longrightarrow> fd_inv (k_sys k) n \<Longrightarrow> kernel_inv (k\<lparr>k_net := n\<rparr>)"
  by (simp add: kernel_inv_def)

lemma kernel_inv_fd: "kernel_inv k \<Longrightarrow> fd_inv (k_sys k) (k_net k)"
  by (simp add: kernel_inv_def)

lemma arp_frame: "\<exists>a. snd (arp_step x n) = n\<lparr>g_arp := a\<rparr>"
proof (cases x)
  case (ArpTick e)
  then show ?thesis by (auto simp: qos_net_arp_tick_def intro: exI [of _ "g_arp n"])
qed (auto simp: qos_net_arp_put_def intro: exI [of _ "g_arp n"] split: option.splits)

lemma fd_inv_arp: "fd_inv s n \<Longrightarrow> fd_inv s (snd (arp_step x n))"
proof -
  assume inv: "fd_inv s n"
  then have "arp_inv (snd (arp_step x n))" using arp_sim.sim_step [of n x] by (auto simp: fd_inv_def net_inv_def)
  moreover obtain a where "snd (arp_step x n) = n\<lparr>g_arp := a\<rparr>" using arp_frame by blast
  ultimately show ?thesis
    using inv by (intro fd_inv_net [OF inv])
      (auto simp: fd_inv_def net_inv_def packets_inv_def udp_inv_def tcp_inv_def listeners_inv_def dg_list_def udp_port_is_bound_def tcp_listener_exists_def)
qed

lemma component_steps:
  "kernel_inv k \<Longrightarrow> kernel_inv (k\<lparr>k_pmm := snd (pmm_step x1 (k_pmm k))\<rparr>)"
  "kernel_inv k \<Longrightarrow> kernel_inv (k\<lparr>k_vmm := snd (vmm_step x2 (k_vmm k))\<rparr>)"
  "kernel_inv k \<Longrightarrow> kernel_inv (k\<lparr>k_sched := snd (sched_step x3 (k_sched k))\<rparr>)"
  "kernel_inv k \<Longrightarrow> kernel_inv (k\<lparr>k_drivers := snd (drv_step x4 (k_drivers k))\<rparr>)"
  "kernel_inv k \<Longrightarrow> kernel_inv (k\<lparr>k_proc := snd (proc_step x5 (k_proc k))\<rparr>)"
  using pmm_sim.sim_step [of "k_pmm k" x1] vmm_sim.sim_step [of "k_vmm k" x2] sched_sim.sim_step [of "k_sched k" x3]
    drv_sim.sim_step [of "k_drivers k" x4] proc_sim.sim_step [of "k_proc k" x5]
  by (auto simp: kernel_inv_def)

lemma kernel_inv_remove:
  assumes "kernel_inv k" "path \<notin> Some ` named (k_sys k)"
  shows "kernel_inv (k\<lparr>k_vfs := snd (qos_vfs_remove path (k_vfs k))\<rparr>)"
proof -
  have "vfs_inv (k_vfs k)" using assms(1) by (simp add: kernel_inv_def)
  then show ?thesis
    by (rule vfs_remove_cases [of "k_vfs k" path]) (use assms in \<open>auto simp: kernel_inv_def names_inv_def\<close>)
qed

lemmas net_steps = fd_inv_enqueue fd_inv_dequeue fd_inv_arp fd_inv_udp_send fd_inv_udp_recv fd_inv_tcp_connect fd_inv_tcp_event

lemma kreach_inv: "kreach k \<Longrightarrow> kernel_inv k"
proof (induction rule: kreach.induct)
  case (boot ks ke a bi k k')
  then show ?case by (rule entry_inv)
next
  case (call k stk nr a0 a1 a2 a3 m)
  then show ?case using dispatch_safe [of k] by (simp add: safe_def)
next
  case (deferred k d)
  then show ?case using dstep_inv [of "k_def k" d] by (simp add: kernel_inv_def)
qed (auto intro: kernel_inv_calls calls_step_register calls_step_unregister component_steps kernel_inv_create kernel_inv_remove
    kernel_inv_net net_steps kernel_inv_fd)

section \<open>Properties\<close>

lemma default_calls_ok:
  "distinct (map (\<lambda>c. fst (call_entry c)) (default_signal_ops @ default_queries))"
  "\<forall>(nr, op, val) \<in> set (default_signal_ops @ default_queries). unat nr < QOS_SYSCALL_MAX \<and> op \<in> set syscall_ops"
  by code_simp+

lemma booted_calls:
  "g_calls (k_sys (booted pm d)) i = (case map_of (map call_entry (default_signal_ops @ default_queries)) i of
     Some c \<Rightarrow> c | None \<Rightarrow> \<lparr>y_used = False, y_op = 0, y_value = 0\<rparr>)" (is ?calls)
  "qos_syscall_count (k_sys (booted pm d)) = 51" (is ?count)
proof -
  let ?cs = "default_signal_ops @ default_queries"
  have s: "k_sys (booted pm d) = register_all ?cs qos_syscall_reset"
    by (simp add: booted_def syscall_register_default_signal_ops_def syscall_register_default_queries_def register_all_def)
  have g: "g_calls qos_syscall_reset n = \<lparr>y_used = False, y_op = 0, y_value = 0\<rparr>" "g_call_count qos_syscall_reset = 0" for n
    by (simp_all add: qos_syscall_reset_def)
  have "\<forall>(nr, op, val) \<in> set ?cs. unat nr < QOS_SYSCALL_MAX \<and> op \<in> set syscall_ops \<and> \<not> y_used (g_calls qos_syscall_reset (unat nr))"
    using default_calls_ok(2) by (auto simp: g)
  note r = register_all_calls [OF default_calls_ok(1) this, of i, unfolded g]
  have "length ?cs = 51" by code_simp
  then show ?calls ?count using r unfolding qos_syscall_count_def s by simp_all
qed

lemma default_pipe_call: "g_calls (k_sys (booted pm d)) 26 = \<lparr>y_used = True, y_op = SYSCALL_OP_PIPE, y_value = 0\<rparr>"
proof -
  have "map_of (map call_entry (default_signal_ops @ default_queries)) 26 = Some \<lparr>y_used = True, y_op = SYSCALL_OP_PIPE, y_value = 0\<rparr>"
    by code_simp
  then show ?thesis unfolding booted_calls by simp
qed

lemma refused: "k_sys k = qos_syscall_reset \<Longrightarrow> qos_syscall_dispatch stk nr a0 a1 a2 a3 m k = (-1, m, k)"
  by (simp add: qos_syscall_dispatch_def qos_syscall_reset_def)

lemma demo_start: "\<exists>pm. qos_kernel_entry 0 0 (Some (0x202000, demo_boot)) k = (0, booted pm (k_def k))"
proof -
  obtain pm where "qos_pmm_init 0 0 (Some (0x202000, demo_boot)) = (0, pm)" using demo_boot_init by blast
  moreover have "qos_boot_info_validate (Some (0x202000, demo_boot)) = 0" by code_simp
  ultimately show ?thesis by (intro exI [of _ pm]) (simp add: entry_booted)
qed

lemma booted_tables: "g_fds (k_sys (booted pm d)) = (\<lambda>_. fd0)" "g_pipes (k_sys (booted pm d)) = (\<lambda>_. pipe0)"
proof -
  let ?s = "register_all default_queries (register_all default_signal_ops qos_syscall_reset)"
  have "calls_step qos_syscall_reset ?s"
    using register_all_step [of qos_syscall_reset default_signal_ops] register_all_step [of _ default_queries]
    by (auto simp: calls_step_def)
  then show "g_fds (k_sys (booted pm d)) = (\<lambda>_. fd0)" "g_pipes (k_sys (booted pm d)) = (\<lambda>_. pipe0)"
    by (simp_all add: booted_def calls_step_def syscall_register_default_signal_ops_def syscall_register_default_queries_def)
      (simp_all add: qos_syscall_reset_def)
qed

lemma find_free_first: "\<not> U (g 0) \<Longrightarrow> 0 < n \<Longrightarrow> find_free n U g = Some 0"
  by (simp add: find_free_def scan_Some_iff)

lemma find_free_second: "U (g 0) \<Longrightarrow> \<not> U (g 1) \<Longrightarrow> 1 < n \<Longrightarrow> find_free n U g = Some 1"
  by (simp add: find_free_def scan_Some_iff)

text \<open>The first pipe after the start.\<close>

lemma first_pipe: "fst (qos_syscall_dispatch stk 26 0x5000 0 0 0 m (booted pm d)) = 0"
proof -
  let ?s = "k_sys (booted pm d)"
  have p: "pipe_alloc ?s = (Some 0, put_pipe 0 (pipe0\<lparr>pi_used := True\<rparr>) ?s)"
    by (simp add: pipe_alloc_def booted_tables find_free_first pipe0_def)
  have r: "fd_alloc kind (put_pipe 0 q ?s) = (Some 0, put_fd 0 (fd0\<lparr>f_used := True, f_kind := kind\<rparr>) (put_pipe 0 q ?s))" for kind q
    by (simp add: fd_alloc_def booted_tables find_free_first fd0_def)
  have w: "fst (fd_alloc kind (put_fd 0 (fd0\<lparr>f_used := True, f_kind := kind'\<rparr>) (put_pipe 0 q ?s))) = Some 1" for kind kind' q
    by (simp add: fd_alloc_def booted_tables find_free_second fd0_def)
  have "fst (sys_pipe 0x5000 m (booted pm d)) = 0"
    using w [of QOS_FD_KIND_PIPE_W QOS_FD_KIND_PIPE_R "pipe0\<lparr>pi_used := True\<rparr>"]
    by (auto simp: sys_pipe_def p r Let_def split: prod.split option.split)
  then show ?thesis by (simp add: qos_syscall_dispatch_def default_pipe_call syscall_op_def)
qed

text \<open>
  C1. The invariant of the kernel. Take any state that the kernel reaches from a successful start with a memory map whose
  entries neither wrap around nor overlap (\<open>mmap_ok\<close>), through system calls with any numbers, arguments and caller
  memory, registrations of calls, direct calls of the components' functions on pages, mappings, tasks, paths, packets, addresses,
  datagrams, connections, devices and processes, and steps of the deferred work. In the latter, callbacks, work functions,
  polls, thread entries and other handlers may use the whole interface of the deferred-work components, so
  they may queue work, arm timers and schedule receivers without end; they do not tick the clock, run the software interrupts, reset
  the components or take over the kernel's three vectors, and the clock does not wrap around. Direct calls leave out binding and
  listening, and removing a path that an open file bears: the code makes these through the system calls only. In
  every such state all components are well formed and agree: each descriptor names an entry of its kind that exists, a pipe
  is in use exactly when a descriptor holds an end of it, an unlinked file exactly as long as a descriptor holds
  it, a port is marked and bound in the network stack exactly when a socket holds it, a TCP listener exists
  exactly when a listening socket holds its port, every named file has a path that the file system knows, the
  libraries, modules and calls in use are well formed, the counters are the numbers of entries in use, and whatever
  waits for a software interrupt has that interrupt pending.
\<close>

theorem kernel_invariant:
  assumes "kreach k"
  shows "kernel_inv k"
  using kreach_inv [OF assms] .

text \<open>A start, then the first pipe or a piece of queued work.\<close>

theorem kernel_invariant_witness:
  "\<exists>k :: nat kernel. kreach k \<and> fst (qos_syscall_dispatch (\<lambda>_. 0) 26 0x5000 0 0 0 (\<lambda>_. 0) k) = 0 \<and> kernel_inv k \<and>
     kernel_inv (snd (snd (qos_syscall_dispatch (\<lambda>_. 0) 26 0x5000 0 0 0 (\<lambda>_. 0) k))) \<and>
     kernel_inv (k\<lparr>k_def := snd (snd (qos_workqueue_enqueue 300 0 (k_def k)))\<rparr>)"
proof -
  obtain pm where "qos_kernel_entry 0 0 (Some (0x202000, demo_boot)) (booted qos_pmm_reset (deferred_zero (0 :: nat))) =
      (0, booted pm (k_def (booted qos_pmm_reset (deferred_zero (0 :: nat)))))"
    using demo_start by blast
  then have r: "kreach (booted pm (k_def (booted qos_pmm_reset (deferred_zero (0 :: nat)))))" (is "kreach ?k")
    using demo_boot_pages(1) by (rule kreach.boot)
  have "dstep (k_def ?k) (snd (snd (qos_workqueue_enqueue 300 0 (k_def ?k))))" by (intro dstep.outside iface.intros)
  note w = kreach.deferred [OF r this]
  show ?thesis
    using r kernel_invariant [OF r] kernel_invariant [OF kreach.call [OF r]] kernel_invariant [OF w] first_pipe by blast
qed

text \<open>
  C6. Starting the kernel. For a memory map whose entries do not wrap or overlap, \<open>qos_kernel_entry\<close> succeeds exactly
  when the boot information is valid and the map has a usable page. It then leaves a well-formed kernel with every
  component marked, the page pool that the map and the reserved ranges describe, and the 51 default calls under their
  numbers and nothing else in the table. A start that fails returns -1 and leaves a kernel that refuses every call.
\<close>

theorem kernel_entry_boots:
  assumes mm: "mmap_ok (boot_entries bi)"
  shows "case qos_kernel_entry ks ke (Some (a, bi)) k of (r, k') \<Rightarrow>
    (r = 0 \<longleftrightarrow> qos_boot_info_validate (Some (a, bi)) = 0 \<and> mmap_pages (boot_entries bi) \<noteq> []) \<and>
    (if r = 0 then kernel_inv k' \<and> qos_kernel_init_state k' = QOS_INIT_ALL \<and>
       pmm_pool (k_pmm k') = (take QOS_PMM_MAX_PAGES (mmap_pages (boot_entries bi)),
         {f \<in> set (take QOS_PMM_MAX_PAGES (mmap_pages (boot_entries bi))). \<not> boot_reserved ks ke a bi f}) \<and>
       (\<forall>i. g_calls (k_sys k') i = (case map_of (map call_entry (default_signal_ops @ default_queries)) i of
          Some c \<Rightarrow> c | None \<Rightarrow> \<lparr>y_used = False, y_op = 0, y_value = 0\<rparr>)) \<and>
       qos_syscall_count (k_sys k') = 51
     else r = -1 \<and> (\<forall>stk nr a0 a1 a2 a3 m. qos_syscall_dispatch stk nr a0 a1 a2 a3 m k' = (-1, m, k')))"
proof (cases "qos_boot_info_validate (Some (a, bi)) = 0")
  case valid: True
  then have bi: "bi_magic bi = QOS_BOOT_MAGIC" "bi_mmap_entry_count bi \<noteq> 0" "unat (bi_mmap_entry_count bi) \<le> QOS_MMAP_MAX_ENTRIES"
    by (auto simp: qos_boot_info_validate_def split: if_splits)
  obtain r pm where pm: "qos_pmm_init ks ke (Some (a, bi)) = (r, pm)" by fastforce
  note pool = pmm_init_pool_aux [OF bi mm pm]
  show ?thesis
  proof (cases "r = 0")
    case True
    have init: "qos_kernel_init_state (booted pm (k_def k)) = QOS_INIT_ALL" "k_pmm (booted pm (k_def k)) = pm"
      by (simp_all add: qos_kernel_init_state_def qos_kernel_state_get_def booted_def)
    show ?thesis
      using True pool booted_inv [of pm "k_def k"] booted_calls [of pm "k_def k"] valid pm unfolding entry_booted
      by (simp add: init split: if_splits)
  next
    case False
    then show ?thesis
      using pool valid pm unfolding entry_booted by (simp add: qos_kernel_reset_def refused split: if_splits)
  qed
next
  case False
  then show ?thesis unfolding entry_booted by (simp add: qos_kernel_reset_def refused)
qed

theorem kernel_entry_boots_witness:
  "mmap_ok (boot_entries demo_boot) \<and>
   (case qos_kernel_entry 0 0 (Some (0x202000, demo_boot)) (booted qos_pmm_reset (deferred_zero (0 :: nat))) of (r, k') \<Rightarrow>
      r = 0 \<and> kernel_inv k' \<and> qos_syscall_count (k_sys k') = 51)"
proof -
  have "qos_boot_info_validate (Some (0x202000, demo_boot)) = 0" by code_simp
  then show ?thesis
    using kernel_entry_boots [OF demo_boot_pages(1), where ks = 0 and ke = 0 and a = "0x202000" and
        k = "booted qos_pmm_reset (deferred_zero (0 :: nat))"] demo_boot_pages
    by (auto split: prod.splits)
qed

end
