(* ===== verification/Failure.thy ===== *)
theory Failure
  imports Kinv
begin

text \<open>
  What a system call that returns -1 leaves behind: nothing, for every call but the eight that the last section
  names.
\<close>

section \<open>Process tables\<close>

lemma proc_fail:
  "fst (qos_proc_signal_send pid signum s) \<noteq> 0 \<Longrightarrow> snd (qos_proc_signal_send pid signum s) = s"
  "fst (qos_proc_signal_set_mask pid bits s) \<noteq> 0 \<Longrightarrow> snd (qos_proc_signal_set_mask pid bits s) = s"
  "fst (qos_proc_signal_altstack_set pid sp sz fl s) \<noteq> 0 \<Longrightarrow> snd (qos_proc_signal_altstack_set pid sp sz fl s) = s"
  "fst (qos_proc_signal_sigreturn pid frame s) \<noteq> 0 \<Longrightarrow> snd (qos_proc_signal_sigreturn pid frame s) = s"
  "fst (qos_proc_exec_signal_reset pid s) \<noteq> 0 \<Longrightarrow> snd (qos_proc_exec_signal_reset pid s) = s"
  "fst (qos_proc_fork parent child s) \<noteq> 0 \<Longrightarrow> snd (qos_proc_fork parent child s) = s"
  "fst (qos_proc_exit pid code s) \<noteq> 0 \<Longrightarrow> snd (qos_proc_exit pid code s) = s"
  "fst (qos_proc_cwd_set pid path s) \<noteq> 0 \<Longrightarrow> snd (qos_proc_cwd_set pid path s) = s"
  by (auto simp: qos_proc_signal_send_def qos_proc_signal_set_mask_def qos_proc_signal_altstack_set_def qos_proc_signal_sigreturn_def
      qos_proc_exec_signal_reset_def qos_proc_fork_def qos_proc_exit_def qos_proc_cwd_set_def cwd_set_idx_def Let_def
      split: option.splits if_splits)

lemma kernel_proc_id: "k\<lparr>k_proc := k_proc k\<rparr> = k"
  by simp

lemma atomic_status: "(fst rp \<noteq> 0 \<Longrightarrow> snd rp = k_proc k) \<Longrightarrow> atomic m k (status_ret m k rp)"
  by (auto simp: atomic_def status_ret_def)

text \<open>An answer that is not negative, or a failure that leaves the table as it was.\<close>

lemma atomic_proc: "(r \<noteq> 0 \<Longrightarrow> p = k_proc k) \<Longrightarrow> 0 \<le> v \<Longrightarrow> atomic m k (if r \<noteq> 0 then -1 else v, m, k\<lparr>k_proc := p\<rparr>)"
  by (auto simp: atomic_def)

lemma atomic_option: "(x = None \<Longrightarrow> atomic m k r) \<Longrightarrow> (\<And>y. x = Some y \<Longrightarrow> atomic m k (f y)) \<Longrightarrow> atomic m k (case x of None \<Rightarrow> r | Some y \<Rightarrow> f y)"
  by (cases x) simp_all

section \<open>Processes and signals\<close>

lemma sys_kill_atomic: "atomic m k (sys_kill pid signum m k)"
  unfolding sys_kill_def by (intro atomic_status proc_fail)

lemma sys_exit_atomic: "atomic m k (sys_exit pid code m k)"
  unfolding sys_exit_def by (intro atomic_status proc_fail)

lemma sys_fork_atomic: "atomic m k (sys_fork parent child m k)"
  unfolding sys_fork_def case_prod_beta by (intro atomic_proc proc_fail) simp_all

lemma sys_sigreturn_atomic: "atomic m k (sys_sigreturn pid a1 how m k)"
  unfolding sys_sigreturn_def by (intro atomic_if atomic_same atomic_status proc_fail)

lemma sys_sigaltstack_atomic: "atomic m k (sys_sigaltstack pid sp sz fl m k)"
  unfolding sys_sigaltstack_def case_prod_beta by (intro atomic_if atomic_same atomic_proc proc_fail) simp_all

lemma sys_sigprocmask_atomic: "atomic m k (sys_sigprocmask pid how bits m k)"
  unfolding sys_sigprocmask_def case_prod_beta Let_def by (intro atomic_if atomic_option atomic_same atomic_proc proc_fail) simp_all

lemma sys_sigpending_atomic: "atomic m k (sys_sigpending pid m k)"
  by (simp add: sys_sigpending_def case_prod_beta)

lemma sys_getpid_atomic: "atomic m k (sys_getpid pid m k)"
  by (simp add: sys_getpid_def)

lemma sys_chdir_atomic: "atomic m k (sys_chdir pid a1 m k)"
proof -
  have "atomic m k (if r = 0 then 0 else -1, m, k\<lparr>k_proc := p\<rparr>)" if "r \<noteq> 0 \<Longrightarrow> p = k_proc k" for r :: int and p
    using that by (auto simp: atomic_def)
  then show ?thesis
    unfolding sys_chdir_def case_prod_beta Let_def by (intro atomic_if atomic_same) (use proc_fail(8) in blast)+
qed

lemma sys_yield_atomic: "atomic m k (sys_yield m k)"
  by (simp add: sys_yield_def case_prod_beta)

text \<open>Setting the image after a successful reset of the signals finds the same process.\<close>

lemma exec_image_found: "fst (qos_proc_exec_signal_reset pid s) = 0 \<Longrightarrow> proc_inv s \<Longrightarrow>
    fst (qos_proc_exec_image_set pid (Some im) (snd (qos_proc_exec_signal_reset pid s))) = 0"
  using proc_step_refines [of s "PExecReset pid"] proc_step_refines [of "snd (qos_proc_exec_signal_reset pid s)" "PImage pid (Some im)"]
  by (auto simp: proc_upd_def split: option.splits)

lemma sys_exec_atomic:
  assumes "proc_inv (k_proc k)"
  shows "atomic m k (sys_exec pid a1 m k)"
proof -
  have "atomic m k (status_ret m k (qos_proc_exec_image_set pid (Some im) (snd (qos_proc_exec_signal_reset pid (k_proc k)))))"
    if "fst (qos_proc_exec_signal_reset pid (k_proc k)) = 0" for im
    using exec_image_found [OF that assms] by (simp add: status_ret_def)
  then have "atomic m k (if fst (qos_proc_exec_signal_reset pid (k_proc k)) \<noteq> 0
      then (-1, m, k\<lparr>k_proc := snd (qos_proc_exec_signal_reset pid (k_proc k))\<rparr>)
      else status_ret m k (qos_proc_exec_image_set pid (Some im) (snd (qos_proc_exec_signal_reset pid (k_proc k)))))" for im
    using proc_fail(5) [of pid "k_proc k"] by (auto simp: atomic_def)
  then show ?thesis
    unfolding sys_exec_def case_prod_beta Let_def
    by (auto intro!: atomic_option atomic_if atomic_status proc_fail split: option.split simp del: if_split)
qed

lemma find_pid_procs: "proc_inv s \<Longrightarrow> find_pid pid s = None \<longleftrightarrow> procs s pid = None"
  using procs_find by (metis option.distinct(1) not_None_eq)

lemma signal_next_found:
  assumes "proc_inv s" "find_pid pid s \<noteq> None"
  shows "0 \<le> fst (qos_proc_signal_next pid s)" "find_pid pid (snd (qos_proc_signal_next pid s)) \<noteq> None"
proof -
  obtain i where i: "find_pid pid s = Some i" using assms(2) by blast
  have "0 \<le> fst (signal_loop pid j d n s')" for j d n s'
    by (induction pid j d n s' rule: signal_loop.induct) (subst signal_loop.simps, simp add: Let_def)
  then show "0 \<le> fst (qos_proc_signal_next pid s)" by (simp add: qos_proc_signal_next_def i Let_def)
  obtain s' where s': "qos_proc_signal_next pid s = (fst (proc_spec (PNext pid) (procs s)), s')" "proc_inv s'"
    "procs s' = snd (proc_spec (PNext pid) (procs s))"
    using proc_step_refines [OF assms(1), of "PNext pid"] by auto
  moreover have "procs s pid \<noteq> None" using assms(2) find_pid_procs [OF assms(1), of pid] by simp
  ultimately show "find_pid pid (snd (qos_proc_signal_next pid s)) \<noteq> None"
    using find_pid_procs [OF s'(2)] by (auto simp: proc_upd_def split: prod.splits option.splits)
qed

lemma set_mask_found: "find_pid pid s \<noteq> None \<Longrightarrow> fst (qos_proc_signal_set_mask pid bits s) = 0"
  by (auto simp: qos_proc_signal_set_mask_def)

lemma sys_sigsuspend_atomic:
  assumes inv: "proc_inv (k_proc k)"
  shows "atomic m k (sys_sigsuspend pid bits m k)"
proof (cases "find_pid pid (k_proc k)")
  case None
  then show ?thesis by (simp add: sys_sigsuspend_def qos_proc_signal_mask_def)
next
  case (Some i)
  let ?p1 = "snd (qos_proc_signal_set_mask pid bits (k_proc k))"
  have r1: "fst (qos_proc_signal_set_mask pid bits (k_proc k)) = 0" using Some set_mask_found by simp
  have p1: "proc_inv ?p1" using inv by (intro proc_inv_ops)
  have "procs ?p1 pid \<noteq> None"
    using proc_step_refines [OF inv, of "PMask pid bits"] Some find_pid_procs [OF inv, of pid] by (auto simp: proc_upd_def split: option.splits)
  then have "find_pid pid ?p1 \<noteq> None" using find_pid_procs [OF p1, of pid] by simp
  note next_ok = signal_next_found [OF p1 this]
  show ?thesis
    using Some r1 next_ok set_mask_found [OF next_ok(2)]
    by (simp add: sys_sigsuspend_def qos_proc_signal_mask_def case_prod_beta)
qed

section \<open>Files and libraries\<close>

lemma sys_open_atomic: "fd_inv (k_sys k) (k_net k) \<Longrightarrow> atomic m k (sys_open a0 m k)"
  by (rule sys_open_cases [of k a0 m]) simp_all

lemma sys_mkdir_atomic: "vfs_inv (k_vfs k) \<Longrightarrow> atomic m k (sys_mkdir a0 m k)"
  by (rule vfs_create_cases [of "k_vfs k" "str_at m a0"]) (simp_all add: sys_mkdir_def Let_def)

lemma sys_unlink_atomic: "vfs_inv (k_vfs k) \<Longrightarrow> atomic m k (sys_unlink a0 m k)"
  by (rule vfs_remove_cases [of "k_vfs k" "str_at m a0"]) (simp_all add: sys_unlink_def Let_def)

lemma sys_getdents_atomic: "atomic m k (sys_getdents fd a1 a2 m k)"
  by (simp add: sys_getdents_def Let_def)

lemma sys_stat_atomic: "atomic m k (sys_stat a0 a1 m k)"
  unfolding sys_stat_def Let_def case_prod_beta by (intro atomic_option atomic_if) simp_all

lemma sys_getcwd_atomic: "atomic m k (sys_getcwd pid a1 len m k)"
  by (auto simp: sys_getcwd_def qos_proc_cwd_get_def Let_def split: option.split)

lemma sys_dlclose_atomic: "atomic m k (sys_dlclose h m k)"
  by (auto simp: sys_dlclose_def shlib_release_handle_def Let_def atomic_def split: option.split)

lemma sys_dlsym_atomic: "atomic m k (sys_dlsym h a1 m k)"
  by (simp add: sys_dlsym_def Let_def)

lemma sys_modunload_atomic: "atomic m k (sys_modunload mid m k)"
  by (auto simp: sys_modunload_def module_unload_id_def Let_def atomic_def split: option.split)

section \<open>Properties\<close>

lemmas call_atomic = sys_read_atomic sys_write_atomic sys_close_atomic sys_dup2_atomic sys_socket_atomic sys_bind_atomic
  sys_listen_atomic sys_accept_atomic sys_connect_atomic sys_recv_atomic sys_lseek_atomic sys_pipe_atomic
  sys_kill_atomic sys_exit_atomic sys_fork_atomic sys_sigreturn_atomic sys_sigaltstack_atomic sys_sigprocmask_atomic
  sys_sigsuspend_atomic sys_sigpending_atomic sys_getpid_atomic sys_exec_atomic sys_chdir_atomic sys_yield_atomic
  sys_open_atomic sys_mkdir_atomic sys_unlink_atomic sys_getdents_atomic sys_stat_atomic sys_getcwd_atomic
  sys_dlclose_atomic sys_dlsym_atomic sys_modunload_atomic

lemma syscall_op_atomic:
  assumes "fd_inv (k_sys k) (k_net k)" "proc_inv (k_proc k)" "vfs_inv (k_vfs k)"
    "op \<noteq> SYSCALL_OP_SEND" "op \<noteq> SYSCALL_OP_MMAP" "op \<noteq> SYSCALL_OP_MUNMAP" "op \<noteq> SYSCALL_OP_SIGACTION" "op \<noteq> SYSCALL_OP_WAITPID"
    "op \<noteq> SYSCALL_OP_DLOPEN" "op \<noteq> SYSCALL_OP_MODLOAD" "op \<noteq> SYSCALL_OP_MODRELOAD"
  shows "atomic m k (syscall_op stk op val a0 a1 a2 a3 m k)"
  unfolding syscall_op_def using assms by (intro atomic_if atomic_same call_atomic) simp_all

text \<open>
  C2. A system call that fails has no effect. When a call in a well-formed kernel returns -1, the kernel and the
  caller's memory are as before: whatever the call had already taken (a descriptor, a pipe, a file, a port mark, a
  listener, a connection) it has given back. The claim covers every registered call but eight: SEND, which may
  leave its socket bound to a fresh port, MMAP and MUNMAP, which may have removed mappings, and SIGACTION, WAITPID,
  DLOPEN, MODLOAD and MODRELOAD, where -1 may also be the bit pattern of an old handler, an identifier or a handle.
\<close>

theorem failed_call_no_effect:
  assumes inv: "kernel_inv k" and fail: "qos_syscall_dispatch stk nr a0 a1 a2 a3 m k = (-1, m', k')"
    and op: "y_op (g_calls (k_sys k) (unat nr)) \<notin>
      {SYSCALL_OP_SEND, SYSCALL_OP_MMAP, SYSCALL_OP_MUNMAP, SYSCALL_OP_SIGACTION, SYSCALL_OP_WAITPID, SYSCALL_OP_DLOPEN,
       SYSCALL_OP_MODLOAD, SYSCALL_OP_MODRELOAD}"
  shows "m' = m \<and> k' = k"
proof -
  let ?c = "g_calls (k_sys k) (unat nr)"
  have "atomic m k (syscall_op stk (y_op ?c) (y_value ?c) a0 a1 a2 a3 m k)"
    using inv op by (intro syscall_op_atomic) (simp_all add: kernel_inv_def)
  then have "atomic m k (qos_syscall_dispatch stk nr a0 a1 a2 a3 m k)" by (simp add: qos_syscall_dispatch_def Let_def)
  then show ?thesis using fail by (simp add: atomic_def)
qed

theorem failed_call_no_effect_witness:
  "\<exists>k :: nat kernel. kernel_inv k \<and> y_op (g_calls (k_sys k) 26) = SYSCALL_OP_PIPE \<and>
     qos_syscall_dispatch (\<lambda>_. 0) 26 0 0 0 0 (\<lambda>_. 0) k = (-1, \<lambda>_. 0, k)"
proof -
  obtain pm where "pmm_inv pm" using demo_boot_init by blast
  then have inv: "kernel_inv (booted pm (deferred_zero (0 :: nat)))" by (rule booted_inv)
  define k where "k = booted pm (deferred_zero (0 :: nat))"
  have c: "g_calls (k_sys k) 26 = \<lparr>y_used = True, y_op = SYSCALL_OP_PIPE, y_value = 0\<rparr>" by (simp add: k_def default_pipe_call)
  obtain m' k' where r: "qos_syscall_dispatch (\<lambda>_. 0) 26 0 0 0 0 (\<lambda>_. 0) k = (-1, m', k')"
    using c by (simp add: qos_syscall_dispatch_def syscall_op_def sys_pipe_def)
  show ?thesis
    using failed_call_no_effect [OF inv [folded k_def] r] c r inv by (intro exI [of _ k]) (simp add: k_def)
qed

end
