(* ===== verification/Fileio.thy ===== *)
theory Fileio
  imports Fileinv
begin

text \<open>
  What reading, writing and seeking mean to a program: the two ends of a pipe share a bounded queue of bytes, and the
  descriptors of a file share a bounded sequence of bytes, each with a position of its own. Both contracts are
  instances of the simulation of the prelude.
\<close>

section \<open>Specification\<close>

subsection \<open>Pipes\<close>

datatype pipe_op = PWrite umem u64 u32 | PRead umem u64 u32

text \<open>The calls on the two ends of a pipe: the answer and the caller's memory, and the kernel.\<close>

fun pipe_step :: "stack \<Rightarrow> nat \<Rightarrow> nat \<Rightarrow> pipe_op \<Rightarrow> 'w kernel \<Rightarrow> (int \<times> umem) \<times> 'w kernel" where
  "pipe_step stk rfd wfd (PWrite m src len) k = (case sys_write wfd src len m k of (r, m', k') \<Rightarrow> ((r, m'), k'))"
| "pipe_step stk rfd wfd (PRead m out len) k = (case sys_read stk rfd out len m k of (r, m', k') \<Rightarrow> ((r, m'), k'))"

text \<open>The queue: a write is taken as a whole or refused, a read takes what there is from the front.\<close>

fun queue_step :: "pipe_op \<Rightarrow> bytes \<Rightarrow> (int \<times> umem) \<times> bytes" where
  "queue_step (PWrite m src len) q =
     (if src = 0 \<or> length q + unat len > QOS_PIPE_CAP then ((-1, m), q)
      else ((int (unat len), m), q @ mem_bytes m src (unat len)))"
| "queue_step (PRead m out len) q =
     (if out = 0 \<or> q = [] then ((-1, m), q)
      else let c = min (unat len) (length q) in ((int c, mem_store out (take c q) m), drop c q))"

definition pipe_bytes :: "nat \<Rightarrow> 'w kernel \<Rightarrow> bytes" where
  "pipe_bytes j k = (let p = g_pipes (k_sys k) j in take (unat (pi_len p)) (pi_buf p))"

definition pipe_ends :: "nat \<Rightarrow> nat \<Rightarrow> nat \<Rightarrow> 'w kernel \<Rightarrow> bool" where
  "pipe_ends j rfd wfd k \<longleftrightarrow> (let s = k_sys k in fd_inv s (k_net k) \<and> fd_valid rfd s \<and> fd_valid wfd s \<and>
     f_kind (g_fds s rfd) = QOS_FD_KIND_PIPE_R \<and> f_kind (g_fds s wfd) = QOS_FD_KIND_PIPE_W \<and>
     unat (f_pipe_id (g_fds s rfd)) = j \<and> unat (f_pipe_id (g_fds s wfd)) = j)"

subsection \<open>Files\<close>

datatype file_op = FWrite umem u64 u32 | FRead umem u64 u32 | FSeek umem u64 u32

text \<open>The calls on the descriptors \<open>F\<close> of a file; the first component of an operation is the descriptor.\<close>

fun file_call :: "stack \<Rightarrow> nat \<Rightarrow> file_op \<Rightarrow> 'w kernel \<Rightarrow> 'w sysret" where
  "file_call stk fd (FWrite m src len) k = sys_write fd src len m k"
| "file_call stk fd (FRead m out len) k = sys_read stk fd out len m k"
| "file_call stk fd (FSeek m a1 whence) k = sys_lseek fd a1 whence m k"

definition file_step :: "stack \<Rightarrow> nat list \<Rightarrow> nat \<times> file_op \<Rightarrow> 'w kernel \<Rightarrow> (int \<times> umem) \<times> 'w kernel" where
  "file_step stk F x k =
     (if fst x \<in> set F then case file_call stk (fst x) (snd x) k of (r, m', k') \<Rightarrow> ((r, m'), k') else ((-1, \<lambda>_. 0), k))"

text \<open>Bytes laid over a sequence from a position on; a gap behind its end is filled with zeros.\<close>

definition overlay :: "nat \<Rightarrow> bytes \<Rightarrow> bytes \<Rightarrow> bytes" where
  "overlay i bs c = take i (c @ replicate (i - length c) 0) @ bs @ drop (i + length bs) c"

text \<open>
  One call against the bytes \<open>c\<close> of the file and the position \<open>p\<close> of the descriptor. The code keeps positions in 64
  bits and uses the low 32 of them.
\<close>

fun bytes_call :: "file_op \<Rightarrow> bytes \<Rightarrow> nat \<Rightarrow> (int \<times> umem) \<times> bytes \<times> nat" where
  "bytes_call (FWrite m src len) c p =
     (let i = p mod 2 ^ 32; n = min (unat len) (QOS_PIPE_CAP - i) in
      if src = 0 \<or> i \<ge> QOS_PIPE_CAP then ((-1, m), c, p)
      else if n = 0 then ((0, m), c, p)
      else ((int n, m), overlay i (mem_bytes m src n) c, i + n))"
| "bytes_call (FRead m out len) c p =
     (let i = p mod 2 ^ 32; n = min (unat len) (length c - i) in
      if out = 0 then ((-1, m), c, p)
      else if n = 0 then ((0, m), c, p)
      else ((int n, mem_store out (take n (drop i c)) m), c, i + n))"
| "bytes_call (FSeek m a1 whence) c p =
     (let i = (if whence = 0 then 0 else if whence = 1 then int p else int (length c)) + sint a1 in
      if unat whence > 2 \<or> i < 0 \<or> i \<ge> 2 ^ 63 then ((-1, m), c, p) else ((i, m), c, nat i))"

definition bytes_step :: "nat list \<Rightarrow> nat \<times> file_op \<Rightarrow> bytes \<times> (nat \<Rightarrow> nat) \<Rightarrow> (int \<times> umem) \<times> bytes \<times> (nat \<Rightarrow> nat)" where
  "bytes_step F x cp =
     (if fst x \<in> set F then
        case bytes_call (snd x) (fst cp) (snd cp (fst x)) of (a, c, p) \<Rightarrow> (a, c, (snd cp)(fst x := p))
      else ((-1, \<lambda>_. 0), cp))"

definition file_bytes :: "nat \<Rightarrow> 'w kernel \<Rightarrow> bytes" where
  "file_bytes j k = (let f = g_files (k_sys k) j in take (unat (fl_len f)) (fl_data f))"

definition file_view :: "nat list \<Rightarrow> nat \<Rightarrow> 'w kernel \<Rightarrow> bytes \<times> (nat \<Rightarrow> nat)" where
  "file_view F j k = (file_bytes j k, \<lambda>fd. if fd \<in> set F then unat (f_offset (g_fds (k_sys k) fd)) else 0)"

definition file_fd :: "nat \<Rightarrow> 'w kernel \<Rightarrow> nat \<Rightarrow> bool" where
  "file_fd j k fd \<longleftrightarrow> (let s = k_sys k in fd_valid fd s \<and> f_kind (g_fds s fd) = QOS_FD_KIND_VFS \<and>
     unat (f_file_id (g_fds s fd)) = j \<and> unat (f_offset (g_fds s fd)) < 2 ^ 63)"

definition file_open :: "nat list \<Rightarrow> nat \<Rightarrow> 'w kernel \<Rightarrow> bool" where
  "file_open F j k \<longleftrightarrow> fd_inv (k_sys k) (k_net k) \<and> j < QOS_FILE_MAX \<and> fl_used (g_files (k_sys k) j) \<and> (\<forall>fd \<in> set F. file_fd j k fd)"

text \<open>The result of a call is the one that the bytes and the position give.\<close>

definition refines_bytes :: "nat list \<Rightarrow> nat \<Rightarrow> nat \<Rightarrow> file_op \<Rightarrow> 'w sysret \<Rightarrow> 'w kernel \<Rightarrow> bool" where
  "refines_bytes F j fd op r k \<longleftrightarrow>
     (case bytes_call op (file_bytes j k) (unat (f_offset (g_fds (k_sys k) fd))) of (a, c, p) \<Rightarrow>
        \<exists>k'. r = (fst a, snd a, k') \<and> file_open F j k' \<and> file_view F j k' = (c, (snd (file_view F j k))(fd := p)))"

text \<open>
  Concrete kernels for the witnesses: one after its first pipe call (descriptors 0 and 1), one with an empty file
  open as descriptor 0.
\<close>

definition pipe_kernel :: "nat kernel" where
  "pipe_kernel = snd (snd (sys_pipe 0x5000 (\<lambda>_. 0) idle_kernel))"

definition file_kernel :: "nat kernel" where
  "file_kernel = idle_kernel\<lparr>k_sys := put_fd 0 (fd0\<lparr>f_used := True, f_kind := QOS_FD_KIND_VFS, f_file_id := word_of_nat 0\<rparr>)
     (put_file 0 \<lparr>fl_used = True, fl_path = ''/a'', fl_len = 0, fl_data = replicate QOS_PIPE_CAP 0\<rparr> qos_syscall_reset)\<rparr>"

section \<open>Pipes\<close>

lemma pipe_endsD:
  assumes "pipe_ends j rfd wfd k"
  shows "j < QOS_PIPE_MAX" "pi_used (g_pipes (k_sys k) j)"
    "length (pi_buf (g_pipes (k_sys k) j)) = QOS_PIPE_CAP" "unat (pi_len (g_pipes (k_sys k) j)) \<le> QOS_PIPE_CAP"
proof -
  have inv: "fd_inv (k_sys k) (k_net k)" and v: "fd_valid rfd (k_sys k)"
    and r: "f_kind (g_fds (k_sys k) rfd) = QOS_FD_KIND_PIPE_R" "unat (f_pipe_id (g_fds (k_sys k) rfd)) = j"
    using assms by (simp_all add: pipe_ends_def Let_def)
  have "j \<in> holds_pipe (g_fds (k_sys k) rfd)" using fdD(2) [OF inv v] r by (simp add: holds_pipe_def)
  then show j: "j < QOS_PIPE_MAX" "pi_used (g_pipes (k_sys k) j)" using fdD(3) [OF inv v] by (auto simp: fd_ok_def)
  then show "length (pi_buf (g_pipes (k_sys k) j)) = QOS_PIPE_CAP" "unat (pi_len (g_pipes (k_sys k) j)) \<le> QOS_PIPE_CAP"
    using pipeD [OF inv] by auto
qed

lemma pipe_ends_put:
  "pipe_ends j rfd wfd k \<Longrightarrow> fd_inv (put_pipe j q (k_sys k)) (k_net k) \<Longrightarrow> pipe_ends j rfd wfd (k\<lparr>k_sys := put_pipe j q (k_sys k)\<rparr>)"
  by (simp add: pipe_ends_def fd_valid_def Let_def)

lemma length_pipe_bytes: "pipe_ends j rfd wfd k \<Longrightarrow> length (pipe_bytes j k) = unat (pi_len (g_pipes (k_sys k) j))"
  using pipe_endsD [of j rfd wfd k] by (simp add: pipe_bytes_def Let_def)

lemma pipe_fits:
  assumes "unat (l :: u16) \<le> 1024"
  shows "len > word_of_nat 1024 - ucast l \<longleftrightarrow> unat l + unat (len :: u32) > 1024"
proof -
  have "unat (ucast l :: u32) = unat l" by (rule unat_u16_u32)
  then have "unat (1024 - ucast l :: u32) = 1024 - unat l" using assms by (subst unat_sub) (simp_all add: word_le_nat_alt)
  then show ?thesis using assms by (auto simp: word_less_nat_alt)
qed

lemma pipe_write_refines:
  assumes "pipe_ends j rfd wfd k"
  shows "\<exists>k'. pipe_step stk rfd wfd (PWrite m src len) k = (fst (queue_step (PWrite m src len) (pipe_bytes j k)), k') \<and>
    pipe_ends j rfd wfd k' \<and> pipe_bytes j k' = snd (queue_step (PWrite m src len) (pipe_bytes j k))"
proof -
  let ?p = "g_pipes (k_sys k) j" and ?s = "k_sys k"
  let ?l = "unat (pi_len ?p)"
  note d = pipe_endsD [OF assms]
  have w: "fd_valid wfd ?s" "f_kind (g_fds ?s wfd) = QOS_FD_KIND_PIPE_W" "unat (f_pipe_id (g_fds ?s wfd)) = j" "fd_inv ?s (k_net k)"
    using assms by (simp_all add: pipe_ends_def Let_def)
  show ?thesis
  proof (cases "src = 0 \<or> ?l + unat len > 1024")
    case True
    then have "sys_write wfd src len m k = (-1, m, k)"
      using w d pipe_fits [OF d(4), of len] by (auto simp: sys_write_def write_pipe_def Let_def)
    then show ?thesis using True assms by (auto simp: length_pipe_bytes)
  next
    case False
    define q where "q = ?p\<lparr>pi_buf := take ?l (pi_buf ?p) @ mem_bytes m src (unat len) @ drop (?l + unat len) (pi_buf ?p),
      pi_len := word_of_nat (?l + unat len)\<rparr>"
    have eq: "sys_write wfd src len m k = (int (unat len), m, k\<lparr>k_sys := put_pipe j q ?s\<rparr>)"
      using False w d pipe_fits [OF d(4), of len] by (simp add: sys_write_def write_pipe_def q_def Let_def)
    have "fd_inv (put_pipe j q ?s) (k_net k)"
      using sys_write_keeps [of k wfd src len m] w(4) by (simp add: keeps_def eq)
    moreover have "unat (word_of_nat (?l + unat len) :: u16) = ?l + unat len" using False by (intro unat_u16_of_nat) simp
    then have "pipe_bytes j (k\<lparr>k_sys := put_pipe j q ?s\<rparr>) = pipe_bytes j k @ mem_bytes m src (unat len)"
      using d False by (simp add: pipe_bytes_def q_def Let_def del: of_nat_add)
    ultimately show ?thesis
      using eq False assms pipe_ends_put [OF assms] by (simp add: length_pipe_bytes)
  qed
qed

lemma memcpy_front: "n \<le> length xs - c \<Longrightarrow> length xs = 1024 \<Longrightarrow> take n (memcpy_to xs (drop c xs) n) = take n (drop c xs)"
  by (simp add: memcpy_to_def)

lemma pipe_read_refines:
  assumes "pipe_ends j rfd wfd k"
  shows "\<exists>k'. pipe_step stk rfd wfd (PRead m out len) k = (fst (queue_step (PRead m out len) (pipe_bytes j k)), k') \<and>
    pipe_ends j rfd wfd k' \<and> pipe_bytes j k' = snd (queue_step (PRead m out len) (pipe_bytes j k))"
proof -
  let ?p = "g_pipes (k_sys k) j" and ?s = "k_sys k"
  let ?l = "unat (pi_len ?p)"
  define c where "c = min (unat len) ?l"
  note d = pipe_endsD [OF assms] and n = length_pipe_bytes [OF assms]
  have r: "fd_valid rfd ?s" "f_kind (g_fds ?s rfd) = QOS_FD_KIND_PIPE_R" "unat (f_pipe_id (g_fds ?s rfd)) = j" "fd_inv ?s (k_net k)"
    using assms by (simp_all add: pipe_ends_def Let_def)
  have empty: "pipe_bytes j k = [] \<longleftrightarrow> pi_len ?p = 0" using n by (metis length_0_conv unat_eq_zero)
  have if_c: "(if ucast (pi_len ?p) > len then unat len else ?l) = c"
    by (simp add: word_less_nat_alt unat_u16_u32 min_def c_def)
  show ?thesis
  proof (cases "out = 0 \<or> pi_len ?p = 0 \<or> c = 0")
    case True
    then have "sys_read stk rfd out len m k = (if out = 0 \<or> pi_len ?p = 0 then -1 else 0, m, k)"
      using r d if_c by (auto simp: sys_read_def read_pipe_def Let_def)
    then show ?thesis using True assms empty n by (auto simp: Let_def c_def [symmetric])
  next
    case False
    define q where "q = ?p\<lparr>pi_buf := (if c < ?l then memcpy_to (pi_buf ?p) (drop c (pi_buf ?p)) (?l - c) else pi_buf ?p),
      pi_len := word_of_nat (?l - c)\<rparr>"
    have eq: "sys_read stk rfd out len m k = (int c, mem_store out (take c (pi_buf ?p)) m, k\<lparr>k_sys := put_pipe j q ?s\<rparr>)"
      using False r d unfolding sys_read_def read_pipe_def Let_def r(3) if_c q_def by simp
    have "fd_inv (put_pipe j q ?s) (k_net k)"
      using sys_read_keeps [of k stk rfd out len m] r(4) by (simp add: keeps_def eq)
    moreover have "unat (word_of_nat (?l - c) :: u16) = ?l - c" using d(4) by (intro unat_u16_of_nat) simp
    then have "pipe_bytes j (k\<lparr>k_sys := put_pipe j q ?s\<rparr>) = drop c (pipe_bytes j k)"
      using d memcpy_front [of "?l - c" "pi_buf ?p" c] by (auto simp: pipe_bytes_def q_def Let_def drop_take)
    moreover have "take c (pi_buf ?p) = take c (pipe_bytes j k)" by (simp add: pipe_bytes_def Let_def c_def)
    ultimately show ?thesis
      using eq False assms empty n pipe_ends_put [OF assms] by (simp add: Let_def c_def [symmetric])
  qed
qed

interpretation pipe_sim: simulation "pipe_step stk rfd wfd" queue_step "pipe_bytes j" "pipe_ends j rfd wfd" for stk rfd wfd j
proof unfold_locales
  fix k :: "'w kernel" and x
  assume "pipe_ends j rfd wfd k"
  then show "\<exists>k'. pipe_step stk rfd wfd x k = (fst (queue_step x (pipe_bytes j k)), k') \<and> pipe_ends j rfd wfd k' \<and>
      pipe_bytes j k' = snd (queue_step x (pipe_bytes j k))"
    by (cases x) (use pipe_write_refines pipe_read_refines in \<open>simp_all only:\<close>)
qed

section \<open>Files\<close>

lemma file_openD:
  assumes "file_open F j k"
  shows "length (fl_data (g_files (k_sys k) j)) = QOS_PIPE_CAP" "unat (fl_len (g_files (k_sys k) j)) \<le> QOS_PIPE_CAP"
    "fl_data (g_files (k_sys k) j) = file_bytes j k @ replicate (QOS_PIPE_CAP - length (file_bytes j k)) 0"
    "length (file_bytes j k) = unat (fl_len (g_files (k_sys k) j))"
proof -
  let ?f = "g_files (k_sys k) j"
  have f: "length (fl_data ?f) = QOS_PIPE_CAP" "unat (fl_len ?f) \<le> QOS_PIPE_CAP"
    "drop (unat (fl_len ?f)) (fl_data ?f) = replicate (QOS_PIPE_CAP - unat (fl_len ?f)) 0"
    using fileD [of "k_sys k" "k_net k" j] assms by (auto simp: file_open_def)
  then show n: "length (fl_data ?f) = QOS_PIPE_CAP" "unat (fl_len ?f) \<le> QOS_PIPE_CAP" "length (file_bytes j k) = unat (fl_len ?f)"
    by (simp_all add: file_bytes_def Let_def)
  have "fl_data ?f = take (unat (fl_len ?f)) (fl_data ?f) @ drop (unat (fl_len ?f)) (fl_data ?f)" by simp
  then show "fl_data ?f = file_bytes j k @ replicate (QOS_PIPE_CAP - length (file_bytes j k)) 0"
    using f(3) n(3) by (simp add: file_bytes_def Let_def)
qed

lemma take_replicate_gap: "i \<le> N \<Longrightarrow> length c \<le> N \<Longrightarrow> take i (c @ replicate (N - length c) 0) = take i (c @ replicate (i - length c) (0 :: u8))"
  by (simp add: min_def)

text \<open>Writing into the array of a file is laying bytes over its contents.\<close>

lemma overlay_data:
  assumes "length c \<le> N" "i + length bs \<le> N"
  defines "d \<equiv> c @ replicate (N - length c) 0"
  shows "take (max (i + length bs) (length c)) (take i d @ bs @ drop (i + length bs) d) = overlay i bs c"
proof -
  have i: "take i d = take i (c @ replicate (i - length c) 0)" unfolding d_def using assms by (intro take_replicate_gap) simp_all
  have "length (take i d) = i" using assms by (simp add: d_def)
  then have "take (max (i + length bs) (length c)) (take i d @ bs @ drop (i + length bs) d) =
      take i d @ bs @ take (length c - (i + length bs)) (drop (i + length bs) d)"
    by (auto simp: max_def)
  also have "take (length c - (i + length bs)) (drop (i + length bs) d) = drop (i + length bs) c"
    unfolding d_def by simp
  finally show ?thesis unfolding overlay_def i .
qed

text \<open>Changing the position of a descriptor, and the data of the file.\<close>

lemma file_open_fd:
  assumes "file_open F j k" "fd \<in> set F" "fd_inv s' (k_net k)" "unat p < 2 ^ 63"
    "g_fds s' = (g_fds (k_sys k))(fd := (g_fds (k_sys k) fd)\<lparr>f_offset := p\<rparr>)" "fl_used (g_files s' j)"
  shows "file_open F j (k\<lparr>k_sys := s'\<rparr>)"
    "file_view F j (k\<lparr>k_sys := s'\<rparr>) = (file_bytes j (k\<lparr>k_sys := s'\<rparr>), (snd (file_view F j k))(fd := unat p))"
  using assms by (auto simp: file_open_def file_fd_def fd_valid_def file_view_def Let_def fun_eq_iff)

lemma view_same:
  "fd \<in> set F \<Longrightarrow> file_view F j k = (file_bytes j k, (snd (file_view F j k))(fd := unat (f_offset (g_fds (k_sys k) fd))))"
  by (auto simp: file_view_def)

lemma refines_same:
  assumes "file_open F j k" "fd \<in> set F"
    "bytes_call op (file_bytes j k) (unat (f_offset (g_fds (k_sys k) fd))) = ((r, m), file_bytes j k, unat (f_offset (g_fds (k_sys k) fd)))"
  shows "refines_bytes F j fd op (r, m, k) k"
  using assms view_same [OF assms(2), of j k] by (simp add: refines_bytes_def)

lemma unat_low32: "unat (ucast (p :: u64) :: u32) = unat p mod 2 ^ 32"
  by (simp add: unsigned_ucast_eq take_bit_eq_mod)

lemma unat_u32_u64: "unat (ucast (w :: u32) :: u64) = unat w"
proof -
  have "unat w < 2 ^ 64" using unsigned_less [of w, where 'a = nat] by simp
  then show ?thesis by (simp add: unsigned_ucast_eq take_bit_nat_eq_self)
qed

lemma file_fdD:
  assumes "file_open F j k" "fd \<in> set F"
  shows "fd_valid fd (k_sys k)" "f_kind (g_fds (k_sys k) fd) = QOS_FD_KIND_VFS" "unat (f_file_id (g_fds (k_sys k) fd)) = j"
    "unat (f_offset (g_fds (k_sys k) fd)) < 2 ^ 63" "j < QOS_FILE_MAX" "fl_used (g_files (k_sys k) j)" "fd_inv (k_sys k) (k_net k)"
  using assms by (auto simp: file_open_def file_fd_def Let_def)

lemma sys_read_file:
  fixes len :: u32
  assumes "file_open F j k" "fd \<in> set F"
  defines "f \<equiv> g_files (k_sys k) j" and "r \<equiv> g_fds (k_sys k) fd"
  defines "i \<equiv> unat (f_offset r) mod 2 ^ 32"
  defines "n \<equiv> min (unat len) (length (file_bytes j k) - i)"
  obtains c :: u32 where "n \<noteq> 0 \<Longrightarrow> unat (ucast (ucast (f_offset r) + c :: u32) :: u64) = i + n"
    "sys_read stk fd out len m k = (if out = 0 then (-1, m, k) else if n = 0 then (0, m, k)
      else (int n, mem_store out (take n (drop i (fl_data f))) m, k\<lparr>k_sys := put_fd fd (r\<lparr>f_offset := ucast (ucast (f_offset r) + c)\<rparr>) (k_sys k)\<rparr>))"
proof -
  note d = file_openD [OF assms(1), folded f_def] and e = file_fdD [OF assms(1,2), folded f_def r_def]
  have i: "unat (ucast (f_offset r) :: u32) = i" by (simp add: i_def unat_low32)
  have l: "unat (ucast (fl_len f) :: u32) = length (file_bytes j k)" by (simp add: unat_u16_u32 d(4))
  define c :: u32 where "c = (if len < ucast (fl_len f) - ucast (f_offset r) then len else ucast (fl_len f) - ucast (f_offset r))"
  have c: "unat c = n" if lt: "i < length (file_bytes j k)"
  proof -
    have "unat (ucast (fl_len f) - ucast (f_offset r) :: u32) = length (file_bytes j k) - i"
      using lt by (subst unat_sub) (simp_all add: word_le_nat_alt i l)
    then show ?thesis by (simp add: c_def n_def word_less_nat_alt min_def)
  qed
  have none: "\<not> i < length (file_bytes j k) \<Longrightarrow> n = 0" by (simp add: n_def)
  show thesis
  proof (rule that [of c])
    assume "n \<noteq> 0"
    then have lt: "i < length (file_bytes j k)" using none by blast
    then have "i + n \<le> 1024" using d(2,4) by (simp add: n_def)
    then show "unat (ucast (ucast (f_offset r) + c :: u32) :: u64) = i + n"
      by (simp add: unat_u32_u64 unat_word_ariths i c [OF lt])
  next
    have "ucast (f_offset r) \<ge> (ucast (fl_len f) :: u32) \<longleftrightarrow> \<not> i < length (file_bytes j k)" by (auto simp: word_le_nat_alt i l)
    moreover have "i < length (file_bytes j k) \<Longrightarrow> c = 0 \<longleftrightarrow> n = 0" using c unat_eq_zero [of c] by auto
    ultimately show "sys_read stk fd out len m k = (if out = 0 then (-1, m, k) else if n = 0 then (0, m, k)
      else (int n, mem_store out (take n (drop i (fl_data f))) m, k\<lparr>k_sys := put_fd fd (r\<lparr>f_offset := ucast (ucast (f_offset r) + c)\<rparr>) (k_sys k)\<rparr>))"
      using e c none
      by (simp add: sys_read_def read_vfs_def Let_def c_def [symmetric] i r_def [symmetric] f_def [symmetric])
  qed
qed

lemma file_read_refines:
  assumes "file_open F j k" "fd \<in> set F"
  shows "refines_bytes F j fd (FRead m out len) (sys_read stk fd out len m k) k"
proof -
  let ?s = "k_sys k" and ?f = "g_files (k_sys k) j" and ?c = "file_bytes j k"
  let ?r = "g_fds ?s fd"
  note d = file_openD [OF assms(1)] and e = file_fdD [OF assms]
  define i where "i = unat (f_offset ?r) mod 2 ^ 32"
  define n where "n = min (unat len) (length ?c - i)"
  have spec: "bytes_call (FRead m out len) ?c (unat (f_offset ?r)) =
      (if out = 0 then ((-1, m), ?c, unat (f_offset ?r)) else if n = 0 then ((0, m), ?c, unat (f_offset ?r))
       else ((int n, mem_store out (take n (drop i ?c)) m), ?c, i + n))"
    by (simp only: bytes_call.simps Let_def i_def n_def)
  obtain c :: u32 where p: "n \<noteq> 0 \<Longrightarrow> unat (ucast (ucast (f_offset ?r) + c :: u32) :: u64) = i + n" and
    eq: "sys_read stk fd out len m k = (if out = 0 then (-1, m, k) else if n = 0 then (0, m, k)
      else (int n, mem_store out (take n (drop i (fl_data ?f))) m, k\<lparr>k_sys := put_fd fd (?r\<lparr>f_offset := ucast (ucast (f_offset ?r) + c)\<rparr>) ?s\<rparr>))"
    by (rule sys_read_file [OF assms, where len = len and stk = stk and out = out and m = m, folded i_def, folded n_def]) (rule that)
  show ?thesis
  proof (cases "out = 0 \<or> n = 0")
    case True
    then have "sys_read stk fd out len m k = (if out = 0 then -1 else 0, m, k)" using eq by auto
    then show ?thesis using True spec by (auto simp del: bytes_call.simps intro!: refines_same [OF assms])
  next
    case False
    let ?s' = "put_fd fd (?r\<lparr>f_offset := ucast (ucast (f_offset ?r) + c)\<rparr>) ?s"
    have eq': "sys_read stk fd out len m k = (int n, mem_store out (take n (drop i (fl_data ?f))) m, k\<lparr>k_sys := ?s'\<rparr>)"
      using eq False by simp
    have inv: "fd_inv ?s' (k_net k)" using sys_read_keeps [of k stk fd out len m] e(7) by (simp add: keeps_def eq')
    have lt: "i < length ?c" "i + n \<le> 1024" using False d(2,4) by (auto simp: n_def)
    have "file_bytes j (k\<lparr>k_sys := ?s'\<rparr>) = ?c" by (simp add: file_bytes_def Let_def)
    moreover have "take n (drop i (fl_data ?f)) = take n (drop i ?c)" using lt(1) d(3) by (simp add: n_def)
    moreover note file_open_fd [OF assms inv, of "ucast (ucast (f_offset ?r) + c)"]
    ultimately show ?thesis
      using False eq' p lt(2) e spec by (simp add: refines_bytes_def del: bytes_call.simps)
  qed
qed

lemma sys_write_file:
  fixes len :: u32
  assumes "file_open F j k" "fd \<in> set F"
  defines "f \<equiv> g_files (k_sys k) j" and "r \<equiv> g_fds (k_sys k) fd"
  defines "i \<equiv> unat (f_offset r) mod 2 ^ 32"
  defines "n \<equiv> min (unat len) (QOS_PIPE_CAP - i)"
  shows "sys_write fd src len m k =
    (if src = 0 \<or> i \<ge> QOS_PIPE_CAP then (-1, m, k) else if n = 0 then (0, m, k)
     else (int n, m, k\<lparr>k_sys := put_file j (f\<lparr>fl_data := take i (fl_data f) @ mem_bytes m src n @ drop (i + n) (fl_data f),
        fl_len := (if i + n > unat (fl_len f) then word_of_nat (i + n) else fl_len f)\<rparr>) (put_fd fd (r\<lparr>f_offset := word_of_nat (i + n)\<rparr>) (k_sys k))\<rparr>))"
proof -
  note e = file_fdD [OF assms(1,2)]
  have e3: "unat (f_file_id r) = j" using e(3) by (simp add: r_def)
  have used: "fl_used f" using e(6) by (simp add: f_def)
  have i: "unat (ucast (f_offset r) :: u32) = i" by (simp add: i_def unat_low32)
  have n: "(if unat len > 1024 - i then 1024 - i else unat len) = n" by (simp add: n_def min_def)
  have "write_vfs fd src len m k = (if i \<ge> 1024 then (-1, m, k) else if n = 0 then (0, m, k)
     else (int n, m, k\<lparr>k_sys := put_file j (f\<lparr>fl_data := take i (fl_data f) @ mem_bytes m src n @ drop (i + n) (fl_data f),
        fl_len := (if i + n > unat (fl_len f) then word_of_nat (i + n) else fl_len f)\<rparr>) (put_fd fd (r\<lparr>f_offset := word_of_nat (i + n)\<rparr>) (k_sys k))\<rparr>))"
    unfolding write_vfs_def Let_def r_def [symmetric] e3 f_def [symmetric] i n using e(5) used by (simp only: not_le [symmetric] simp_thms if_False)
  then show ?thesis using e by (simp add: sys_write_def r_def)
qed

lemma file_write_refines:
  assumes "file_open F j k" "fd \<in> set F"
  shows "refines_bytes F j fd (FWrite m src len) (sys_write fd src len m k) k"
proof -
  let ?s = "k_sys k" and ?f = "g_files (k_sys k) j" and ?c = "file_bytes j k"
  let ?r = "g_fds ?s fd"
  note d = file_openD [OF assms(1)] and e = file_fdD [OF assms]
  define i where "i = unat (f_offset ?r) mod 2 ^ 32"
  define n where "n = min (unat len) (QOS_PIPE_CAP - i)"
  note eq = sys_write_file [OF assms, where len = len and src = src and m = m, folded i_def, folded n_def]
  have spec: "bytes_call (FWrite m src len) ?c (unat (f_offset ?r)) =
      (if src = 0 \<or> i \<ge> QOS_PIPE_CAP then ((-1, m), ?c, unat (f_offset ?r)) else if n = 0 then ((0, m), ?c, unat (f_offset ?r))
       else ((int n, m), overlay i (mem_bytes m src n) ?c, i + n))"
    by (simp only: bytes_call.simps Let_def i_def n_def)
  show ?thesis
  proof (cases "src = 0 \<or> i \<ge> 1024 \<or> n = 0")
    case True
    then have "sys_write fd src len m k = (if src = 0 \<or> i \<ge> 1024 then -1 else 0, m, k)" using eq by auto
    then show ?thesis using True spec by (auto simp del: bytes_call.simps intro!: refines_same [OF assms])
  next
    case False
    have b: "i + n \<le> 1024" using False by (auto simp: n_def)
    define f' where "f' = ?f\<lparr>fl_data := take i (fl_data ?f) @ mem_bytes m src n @ drop (i + n) (fl_data ?f),
      fl_len := (if i + n > unat (fl_len ?f) then word_of_nat (i + n) else fl_len ?f)\<rparr>"
    let ?s' = "put_file j f' (put_fd fd (?r\<lparr>f_offset := word_of_nat (i + n)\<rparr>) ?s)"
    have eq': "sys_write fd src len m k = (int n, m, k\<lparr>k_sys := ?s'\<rparr>)" using eq False by (simp add: f'_def)
    have inv: "fd_inv ?s' (k_net k)" using sys_write_keeps [of k fd src len m] e(7) by (simp add: keeps_def eq')
    have p: "unat (word_of_nat (i + n) :: u64) = i + n" using b by (intro unat_u64_of_nat) simp
    have "unat (word_of_nat (i + n) :: u16) = i + n" using b by (intro unat_u16_of_nat) simp
    then have l: "unat (fl_len f') = max (i + n) (length ?c)" using d(4) by (simp add: f'_def max_def)
    have "fl_data f' = take i (fl_data ?f) @ mem_bytes m src n @ drop (i + n) (fl_data ?f)" by (simp add: f'_def)
    then have "take (unat (fl_len f')) (fl_data f') = overlay i (mem_bytes m src n) ?c"
      using overlay_data [of ?c 1024 i "mem_bytes m src n"] d(2,4) b unfolding l d(3) by simp
    then have "file_bytes j (k\<lparr>k_sys := ?s'\<rparr>) = overlay i (mem_bytes m src n) ?c" by (simp add: file_bytes_def Let_def)
    moreover have "fl_used f'" using e by (simp add: f'_def)
    moreover note file_open_fd [OF assms inv, of "word_of_nat (i + n)"]
    ultimately show ?thesis
      using False eq' p b e spec by (simp add: refines_bytes_def del: bytes_call.simps of_nat_add)
  qed
qed

lemma sint_nonneg: "unat (w :: u64) < 2 ^ 63 \<Longrightarrow> sint w = int (unat w)"
proof -
  assume small: "unat w < 2 ^ 63"
  define n where "n = unat w"
  have "uint w = int n" "int n < 2 ^ 63" using small by (simp_all add: n_def [symmetric]) (simp add: n_def)
  then show ?thesis unfolding n_def [symmetric] by (simp add: sint_uint signed_take_bit_int_eq_self)
qed

lemma seek_base_file:
  assumes "file_open F j k" "fd \<in> set F"
  shows "seek_base fd whence k = (if unat whence > 2 then None else
    Some (if whence = 0 then 0 else if whence = 1 then int (unat (f_offset (g_fds (k_sys k) fd))) else int (length (file_bytes j k))))"
proof -
  note d = file_openD [OF assms(1)] and e = file_fdD [OF assms]
  have "unat whence > 2 \<longleftrightarrow> whence \<noteq> 0 \<and> whence \<noteq> 1 \<and> whence \<noteq> 2"
    by (auto simp: word_unat_eq_iff)
  then show ?thesis using e d(4) sint_nonneg [OF e(4)] by (auto simp: seek_base_def Let_def)
qed

lemma file_seek_refines:
  assumes "file_open F j k" "fd \<in> set F"
  shows "refines_bytes F j fd (FSeek m a1 whence) (sys_lseek fd a1 whence m k) k"
proof -
  let ?s = "k_sys k" and ?c = "file_bytes j k"
  let ?r = "g_fds ?s fd"
  note d = file_openD [OF assms(1)] and e = file_fdD [OF assms] and base = seek_base_file [OF assms, of whence]
  define b where "b = (if whence = 0 then 0 else if whence = 1 then int (unat (f_offset ?r)) else int (length ?c))"
  define i where "i = b + sint a1"
  have spec: "bytes_call (FSeek m a1 whence) ?c (unat (f_offset ?r)) =
      (if unat whence > 2 \<or> i < 0 \<or> i \<ge> 2 ^ 63 then ((-1, m), ?c, unat (f_offset ?r)) else ((i, m), ?c, nat i))"
    by (simp only: bytes_call.simps Let_def i_def b_def)
  define p where "p = (if whence = 0 then 0 else if whence = 1 then unat (f_offset ?r) else length ?c)"
  have "b = int p" "p < 2 ^ 63" using e(4) d(2,4) by (simp_all add: b_def p_def)
  then have b: "0 \<le> b" "b < 2 ^ 63" by simp_all
  have a: "- (2 ^ 63) \<le> sint a1" using sint_greater_eq [of a1] by simp
  have guard: "(sint a1 > 0 \<and> b > INT64_MAX - sint a1) \<or> (sint a1 < 0 \<and> b < INT64_MIN - sint a1) \<or> b + sint a1 < 0 \<longleftrightarrow> i < 0 \<or> i \<ge> 2 ^ 63"
    using a b by (auto simp: i_def)
  let ?s' = "put_fd fd (?r\<lparr>f_offset := word_of_int i\<rparr>) ?s"
  have eq: "sys_lseek fd a1 whence m k = (if unat whence > 2 \<or> i < 0 \<or> i \<ge> 2 ^ 63 then (-1, m, k) else (i, m, k\<lparr>k_sys := ?s'\<rparr>))"
    using e base guard unfolding b_def [symmetric] i_def [symmetric] by (auto simp: sys_lseek_def Let_def i_def [symmetric])
  show ?thesis
  proof (cases "unat whence > 2 \<or> i < 0 \<or> i \<ge> 2 ^ 63")
    case True
    then show ?thesis unfolding eq using spec by (auto simp del: bytes_call.simps intro!: refines_same [OF assms])
  next
    case False
    then have eq': "sys_lseek fd a1 whence m k = (i, m, k\<lparr>k_sys := ?s'\<rparr>)" using eq by simp
    have inv: "fd_inv ?s' (k_net k)" using sys_lseek_keeps [of k fd a1 whence m] e(7) by (simp add: keeps_def eq')
    have p: "unat (word_of_int i :: u64) = nat i" "nat i < 2 ^ 63" using False by (simp_all add: unsigned_of_int take_bit_int_eq_self nat_less_iff)
    have "file_bytes j (k\<lparr>k_sys := ?s'\<rparr>) = ?c" by (simp add: file_bytes_def Let_def)
    moreover note file_open_fd [OF assms inv, of "word_of_int i"]
    ultimately show ?thesis using False eq' p e spec by (simp add: refines_bytes_def del: bytes_call.simps)
  qed
qed

interpretation file_sim: simulation "file_step stk F" "bytes_step F" "file_view F j" "file_open F j" for stk F j
proof unfold_locales
  fix k :: "'w kernel" and x
  assume k: "file_open F j k"
  show "\<exists>k'. file_step stk F x k = (fst (bytes_step F x (file_view F j k)), k') \<and> file_open F j k' \<and>
      file_view F j k' = snd (bytes_step F x (file_view F j k))"
  proof (cases "fst x \<in> set F")
    case True
    have "refines_bytes F j (fst x) (snd x) (file_call stk (fst x) (snd x) k) k"
      using file_read_refines [OF k True] file_write_refines [OF k True] file_seek_refines [OF k True] by (cases "snd x") simp_all
    moreover have "fst (file_view F j k) = file_bytes j k" "snd (file_view F j k) (fst x) = unat (f_offset (g_fds (k_sys k) (fst x)))"
      using True by (simp_all add: file_view_def)
    ultimately show ?thesis using True by (auto simp: refines_bytes_def file_step_def bytes_step_def split: prod.splits)
  qed (use k in \<open>simp add: file_step_def bytes_step_def\<close>)
qed

section \<open>Properties\<close>

lemma pipe_kernel_ends: "pipe_ends 0 0 1 pipe_kernel" "pipe_bytes 0 pipe_kernel = []"
proof -
  have "fd_inv (k_sys pipe_kernel) (k_net pipe_kernel)"
    using idle_fd_inv sys_pipe_keeps [of idle_kernel "0x5000" "\<lambda>_. 0"] by (simp add: keeps_def pipe_kernel_def Let_def)
  moreover have "fd_valid 0 (k_sys pipe_kernel)" "fd_valid 1 (k_sys pipe_kernel)"
    "f_kind (g_fds (k_sys pipe_kernel) 0) = 3" "f_kind (g_fds (k_sys pipe_kernel) 1) = 4"
    "unat (f_pipe_id (g_fds (k_sys pipe_kernel) 0)) = 0" "unat (f_pipe_id (g_fds (k_sys pipe_kernel) 1)) = 0"
    "pi_len (g_pipes (k_sys pipe_kernel) 0) = 0"
    unfolding pipe_kernel_def by code_simp+
  ultimately show "pipe_ends 0 0 1 pipe_kernel" "pipe_bytes 0 pipe_kernel = []" by (simp_all add: pipe_ends_def pipe_bytes_def Let_def)
qed

lemma file_kernel_open: "file_open [0] 0 file_kernel" "file_view [0] 0 file_kernel = ([], \<lambda>_. 0)"
proof -
  let ?f = "\<lparr>fl_used = True, fl_path = ''/a'', fl_len = 0, fl_data = replicate QOS_PIPE_CAP 0\<rparr>"
  let ?r = "fd0\<lparr>f_used := True, f_kind := QOS_FD_KIND_VFS, f_file_id := word_of_nat 0\<rparr>"
  have none: "g_fds qos_syscall_reset i = fd0" "g_files qos_syscall_reset i = file0" for i by (simp_all add: qos_syscall_reset_def)
  then have "file_find ''/a'' qos_syscall_reset = None" by (simp add: file_find_def find_key_None keys_def live_def file0_def)
  then have "fd_inv (put_file 0 ?f qos_syscall_reset) qos_net_reset"
    by (intro fd_inv_new_file [OF fd_inv_reset]) (simp_all add: none file0_def)
  then have "fd_inv (put_fd 0 ?r (put_file 0 ?f qos_syscall_reset)) qos_net_reset"
    by (rule fd_inv_fresh_file [of _ _ 0 0]) (simp_all add: none fd0_def holds_file_def)
  then show "file_open [0] 0 file_kernel"
    by (simp add: file_open_def file_fd_def file_kernel_def idle_kernel_def fd_valid_def fd0_def Let_def)
  show "file_view [0] 0 file_kernel = ([], \<lambda>_. 0)"
    by (simp add: file_view_def file_bytes_def file_kernel_def idle_kernel_def fd0_def Let_def fun_eq_iff)
qed

text \<open>
  C5. A pipe is a bounded queue of bytes. From any state with well-formed descriptors, a run of any writes into one
  end and reads from the other returns exactly the answers, and delivers exactly the bytes, of a queue of at most 1024
  bytes: a write is taken as a whole or refused with -1, a read takes what is there from the front and returns -1
  when the queue is empty. The run ends with the bytes of that queue in the pipe and the descriptors well formed.
\<close>

theorem pipe_refines_queue:
  assumes "pipe_ends j rfd wfd k"
  shows "\<exists>k'. run_ops (pipe_step stk rfd wfd) xs k = (fst (run_ops queue_step xs (pipe_bytes j k)), k') \<and>
    pipe_ends j rfd wfd k' \<and> pipe_bytes j k' = snd (run_ops queue_step xs (pipe_bytes j k))"
  using pipe_sim.sim_run [OF assms] .

theorem pipe_refines_queue_witness:
  "pipe_ends 0 0 1 pipe_kernel \<and>
   map fst (fst (run_ops (pipe_step (\<lambda>_. 0) 0 1)
     [PWrite (\<lambda>a. ucast a) 0x1000 3, PRead (\<lambda>_. 0) 0x2000 2, PRead (\<lambda>_. 0) 0x2000 2, PRead (\<lambda>_. 0) 0x2000 2] pipe_kernel)) = [3, 2, 1, -1]"
  using pipe_refines_queue [OF pipe_kernel_ends(1), where stk = "\<lambda>_. 0" and
      xs = "[PWrite (\<lambda>a. ucast a) 0x1000 3, PRead (\<lambda>_. 0) 0x2000 2, PRead (\<lambda>_. 0) 0x2000 2, PRead (\<lambda>_. 0) 0x2000 2]"]
    pipe_kernel_ends
  by (auto simp: mem_bytes_def Let_def)

text \<open>
  C4. A file is a bounded sequence of bytes with a position for each descriptor. A run of any reads, writes and seeks
  on descriptors of the same file (linked or not) returns exactly the answers and delivers exactly the bytes of a
  sequence of at most 1024 bytes: a write lays its bytes over the sequence from the position on, cut off at 1024,
  filling a gap with zeros; a read delivers the bytes from the position on; a seek sets a position that is not
  negative and fits in 63 bits. What one descriptor writes, all read.
\<close>

theorem file_refines_bytes:
  assumes "file_open F j k"
  shows "\<exists>k'. run_ops (file_step stk F) xs k = (fst (run_ops (bytes_step F) xs (file_view F j k)), k') \<and>
    file_open F j k' \<and> file_view F j k' = snd (run_ops (bytes_step F) xs (file_view F j k))"
  using file_sim.sim_run [OF assms] .

theorem file_refines_bytes_witness:
  "file_open [0] 0 file_kernel \<and>
   (\<exists>k'. run_ops (file_step (\<lambda>_. 0) [0]) [(0, FWrite (\<lambda>_. 7) 0x1001 3), (0, FSeek (\<lambda>_. 0) 1 0), (0, FRead (\<lambda>_. 0) 0x2000 8)] file_kernel =
      ([(3, \<lambda>_. 7), (1, \<lambda>_. 0), (2, mem_store 0x2000 [7, 7] (\<lambda>_. 0))], k'))"
  using file_refines_bytes [OF file_kernel_open(1), where stk = "\<lambda>_. 0" and
      xs = "[(0, FWrite (\<lambda>_. 7) 0x1001 3), (0, FSeek (\<lambda>_. 0) 1 0), (0, FRead (\<lambda>_. 0) 0x2000 8)]"]
    file_kernel_open
  by (auto simp: bytes_step_def overlay_def mem_bytes_def Let_def upt_rec)

end
