(* ===== verification/Mapcall.thy ===== *)
theory Mapcall
  imports Kinv
begin

text \<open>
  \<open>MMAP\<close> as a change of the page map of the current address space: when it succeeds it maps every page of the
  range to itself, and when it fails it has unmapped the pages it had got to.
\<close>

section \<open>Specification\<close>

definition page_at :: "u64 \<Rightarrow> nat \<Rightarrow> u64" where
  "page_at va i = va + word_of_nat i * QOS_PAGE_SIZE"

definition pages :: "u64 \<Rightarrow> nat \<Rightarrow> nat \<Rightarrow> u64 set" where
  "pages va i n = page_at va ` {i..<i + n}"

definition cur_map :: "vmm \<Rightarrow> page_map" where
  "cur_map v = vmm_maps v (g_vmm_asid v)"

text \<open>A change of the current page map, and of nothing else.\<close>

definition remaps :: "page_map \<Rightarrow> vmm \<Rightarrow> vmm \<Rightarrow> bool" where
  "remaps N v v' \<longleftrightarrow> vmm_inv v' \<and> g_vmm_asid v' = g_vmm_asid v \<and> cur_map v' = N \<and>
     (\<forall>b. b \<noteq> g_vmm_asid v \<longrightarrow> vmm_maps v' b = vmm_maps v b)"

definition mapped :: "u32 \<Rightarrow> u64 set \<Rightarrow> page_map \<Rightarrow> page_map" where
  "mapped fl P M = (\<lambda>p. if p \<in> P then Some (p, fl) else M p)"

definition unmapped :: "u64 set \<Rightarrow> page_map \<Rightarrow> page_map" where
  "unmapped P M = (\<lambda>p. if p \<in> P then None else M p)"

section \<open>Lemmas\<close>

lemma pages_Suc: "pages va i (Suc n) = insert (page_at va i) (pages va (Suc i) n)"
proof -
  have "{i..<i + Suc n} = insert i {Suc i..<Suc i + n}" by auto
  then show ?thesis by (simp add: pages_def)
qed

lemma pages_snoc: "pages va 0 (Suc n) = insert (page_at va n) (pages va 0 n)"
  by (simp add: pages_def atLeastLessThanSuc)

lemma pages_0 [simp]: "pages va i 0 = {}"
  by (simp add: pages_def)

lemma page_aligned: "va AND 4095 = 0 \<Longrightarrow> page_at va i AND 4095 = 0"
proof -
  have low: "w AND 4095 = 0 \<longleftrightarrow> unat w mod 4096 = 0" for w :: u64
  proof -
    have "w AND 4095 = take_bit 12 w" by (simp add: take_bit_eq_mask mask_eq_exp_minus_1)
    moreover have "unat (take_bit 12 w) = unat w mod 4096" unfolding unsigned_take_bit_eq by (simp add: take_bit_eq_mod)
    ultimately show ?thesis by (metis unat_eq_zero)
  qed
  have "unat (page_at va i) mod 4096 = unat va mod 4096"
    by (simp add: page_at_def unat_word_ariths mod_mod_cancel mod_simps)
  then show "va AND 4095 = 0 \<Longrightarrow> page_at va i AND 4095 = 0" by (simp add: low)
qed

lemma remaps_refl: "vmm_inv v \<Longrightarrow> remaps (cur_map v) v v"
  by (simp add: remaps_def)

lemma remaps_trans: "remaps N v v1 \<Longrightarrow> remaps N' v1 v2 \<Longrightarrow> remaps N' v v2"
  by (simp add: remaps_def)

lemma finite_cur_map: "vmm_inv v \<Longrightarrow> finite (dom (cur_map v))"
  by (simp add: cur_map_def vmm_inv_def vmm_dom finite_keys)

lemma vmm_asid [simp]:
  "g_vmm_asid (snd (qos_vmm_map p q fl v)) = g_vmm_asid v" "g_vmm_asid (snd (qos_vmm_unmap p v)) = g_vmm_asid v"
  by (auto simp: qos_vmm_map_def qos_vmm_map_as_def qos_vmm_unmap_def qos_vmm_unmap_as_def vmm_put_def Let_def split: option.splits)

lemma map_page:
  assumes inv: "vmm_inv v" and p: "p AND 4095 = 0" "fl \<noteq> 0"
  defines "ok \<equiv> p \<in> dom (cur_map v) \<or> card (dom (cur_map v)) < QOS_VMM_MAX_MAPPINGS"
  shows "\<exists>v'. qos_vmm_map p p fl v = (if ok then 0 else -1, v') \<and> remaps (if ok then mapped fl {p} (cur_map v) else cur_map v) v v'"
proof -
  let ?a = "g_vmm_asid v"
  obtain v' where v': "qos_vmm_map p p fl v = (fst (as_step (MapAs ?a p p fl) (vmm_maps v)), v')" "vmm_inv v'"
    "vmm_maps v' = snd (as_step (MapAs ?a p p fl) (vmm_maps v))"
    using vmm_sim.sim_step [OF inv, of "MapAs ?a p p fl"] by (auto simp: qos_vmm_map_def)
  have "g_vmm_asid v' = ?a" using vmm_asid(1) [of p p fl v] v'(1) by simp
  moreover have "unat ?a < 64" using inv by (simp add: vmm_inv_def asid_valid_def)
  ultimately show ?thesis
    using v' p by (auto simp: ok_def remaps_def cur_map_def mapped_def fun_eq_iff)
qed

lemma unmap_page:
  assumes inv: "vmm_inv v"
  shows "remaps (unmapped {p} (cur_map v)) v (snd (qos_vmm_unmap p v))"
proof -
  let ?a = "g_vmm_asid v"
  obtain v' where v': "qos_vmm_unmap p v = (fst (as_step (UnmapAs ?a p) (vmm_maps v)), v')" "vmm_inv v'"
    "vmm_maps v' = snd (as_step (UnmapAs ?a p) (vmm_maps v))"
    using vmm_sim.sim_step [OF inv, of "UnmapAs ?a p"] by (auto simp: qos_vmm_unmap_def)
  have "g_vmm_asid v' = ?a" using vmm_asid(2) [of p v] v'(1) by simp
  moreover have "unat ?a < 64" using inv by (simp add: vmm_inv_def asid_valid_def)
  ultimately show ?thesis
    using v' by (auto simp: remaps_def cur_map_def unmapped_def fun_eq_iff)
qed

lemma unmap_back_pages: "vmm_inv v \<Longrightarrow> remaps (unmapped (pages va 0 i) (cur_map v)) v (unmap_back va i v)"
proof (induction i arbitrary: v)
  case 0
  then show ?case by (simp add: remaps_def unmapped_def)
next
  case (Suc i)
  let ?v1 = "snd (qos_vmm_unmap (page_at va i) v)"
  have v1: "remaps (unmapped {page_at va i} (cur_map v)) v ?v1" by (rule unmap_page [OF Suc.prems])
  then have "remaps (unmapped (pages va 0 i) (cur_map ?v1)) ?v1 (unmap_back va i ?v1)" by (intro Suc.IH) (simp add: remaps_def)
  moreover have "unmapped (pages va 0 i) (cur_map ?v1) = unmapped (pages va 0 (Suc i)) (cur_map v)"
    using v1 by (auto simp: remaps_def unmapped_def pages_snoc fun_eq_iff)
  ultimately show ?case using remaps_trans [OF v1] by (simp add: page_at_def)
qed

lemma page_count_pos: "len \<noteq> 0 \<Longrightarrow> 0 < page_count len"
proof -
  assume "len \<noteq> 0"
  then have "0 < unat len" by (simp add: unat_gt_0)
  then show ?thesis by (simp add: page_count_def div_greater_zero_iff)
qed

lemma cur_map_bound: "vmm_inv v \<Longrightarrow> card (dom (cur_map v)) \<le> QOS_VMM_MAX_MAPPINGS"
  using vmm_card_dom [of v "g_vmm_asid v"] card_live_le by (simp add: cur_map_def vmm_inv_def)

lemma mmap_loop_pages:
  fixes i n :: nat
  assumes "vmm_inv v" "va AND 4095 = 0" "fl \<noteq> 0"
  defines "room \<equiv> card (dom (cur_map v) \<union> pages va i n) \<le> QOS_VMM_MAX_MAPPINGS"
  shows "\<exists>v'. mmap_loop va fl i n v = (room, v') \<and>
    (if room then remaps (mapped fl (pages va i n) (cur_map v)) v v'
     else \<exists>c < n. remaps (unmapped (pages va 0 (i + c)) (cur_map v)) v v')"
  using assms(1) unfolding room_def
proof (induction n arbitrary: i v)
  case 0
  then show ?case using cur_map_bound [OF 0] by (auto simp: mapped_def remaps_def)
next
  case (Suc n)
  let ?p = "page_at va i" and ?M = "cur_map v"
  define ok where "ok \<longleftrightarrow> ?p \<in> dom ?M \<or> card (dom ?M) < 2048"
  obtain v1 where v1: "qos_vmm_map ?p ?p fl v = (if ok then 0 else -1, v1)" "remaps (if ok then mapped fl {?p} ?M else ?M) v v1"
    using map_page [OF Suc.prems page_aligned [OF assms(2)] assms(3), of i] unfolding ok_def by blast
  have inv1: "vmm_inv v1" using v1(2) by (simp add: remaps_def)
  show ?case
  proof (cases ok)
    case True
    have m1: "cur_map v1 = mapped fl {?p} ?M" using v1(2) True by (simp add: remaps_def)
    then have d: "dom (cur_map v1) \<union> pages va (Suc i) n = dom ?M \<union> pages va i (Suc n)" by (auto simp: mapped_def pages_Suc split: if_splits)
    have both: "mapped fl (pages va (Suc i) n) (cur_map v1) = mapped fl (pages va i (Suc n)) ?M"
      by (auto simp: m1 mapped_def pages_Suc fun_eq_iff)
    have gone: "unmapped (pages va 0 (Suc i + c)) (cur_map v1) = unmapped (pages va 0 (i + Suc c)) ?M" for c
    proof -
      have "?p \<in> pages va 0 (i + Suc c)" by (auto simp: pages_def)
      then show ?thesis by (auto simp: m1 mapped_def unmapped_def fun_eq_iff)
    qed
    have loop: "mmap_loop va fl i (Suc n) v = mmap_loop va fl (Suc i) n v1" using v1(1) True by (simp add: page_at_def)
    show ?thesis
      using Suc.IH [OF inv1, of "Suc i"] remaps_trans [OF v1(2)] unfolding loop d both gone by (auto split: if_splits) (metis Suc_mono add_Suc_right)
  next
    case False
    have fin: "finite (dom ?M)" by (rule finite_cur_map [OF Suc.prems])
    have "2048 < card (insert ?p (dom ?M))" using False fin by (simp add: ok_def)
    also have "\<dots> \<le> card (dom ?M \<union> pages va i (Suc n))"
      using fin by (intro card_mono) (auto simp: pages_def)
    finally have "\<not> card (dom ?M \<union> pages va i (Suc n)) \<le> 2048" by simp
    moreover have "mmap_loop va fl i (Suc n) v = (False, unmap_back va i v1)" using v1(1) False by (simp add: page_at_def)
    moreover have "cur_map v1 = ?M" using v1(2) False by (simp add: remaps_def)
    then have "remaps (unmapped (pages va 0 i) ?M) v (unmap_back va i v1)"
      using remaps_trans [OF v1(2) unmap_back_pages [OF inv1, of va i]] by simp
    ultimately show ?thesis by auto
  qed
qed

section \<open>Properties\<close>

text \<open>
  C12. \<open>MMAP\<close>, exactly. It succeeds if and only if the address is not 0 and at a page boundary, the length is not 0,
  and the pages of the range together with the pages mapped so far are at most 2048. It then returns the address and
  maps every page of the range to itself with the given flags (1 for 0), over an older mapping too. When it fails
  it returns -1, and the pages it had reached are unmapped, those that were mapped before the call included. In both
  cases no other page, no other address space and nothing else in the kernel changes.
\<close>

theorem mmap_exact:
  assumes inv: "vmm_inv (k_vmm k)"
  shows "let M = cur_map (k_vmm k); P = pages va 0 (page_count len);
      ok = (va \<noteq> 0 \<and> len \<noteq> 0 \<and> va AND 4095 = 0 \<and> card (dom M \<union> P) \<le> QOS_VMM_MAX_MAPPINGS) in
    \<exists>v'. sys_mmap va len fl m k = (if ok then sint va else -1, m, k\<lparr>k_vmm := v'\<rparr>) \<and>
      (if ok then remaps (mapped (if fl = 0 then 1 else fl) P M) (k_vmm k) v'
       else \<exists>c \<le> page_count len. remaps (unmapped (pages va 0 c) M) (k_vmm k) v')"
proof -
  let ?v = "k_vmm k" and ?fl = "if fl = 0 then 1 else fl" and ?n = "page_count len"
  have same: "remaps (unmapped (pages va 0 0) (cur_map ?v)) ?v ?v" using remaps_refl [OF inv] by (simp add: unmapped_def)
  consider (null) "va = 0 \<or> len = 0" | (odd) "va \<noteq> 0" "len \<noteq> 0" "va AND 4095 \<noteq> 0" | (page) "va \<noteq> 0" "len \<noteq> 0" "va AND 4095 = 0"
    by blast
  then show ?thesis
  proof cases
    case null
    then show ?thesis using same by (auto simp: sys_mmap_def Let_def intro!: exI [of _ ?v])
  next
    case odd
    then obtain n where n: "?n = Suc n" by (metis page_count_pos gr0_implies_Suc)
    have "mmap_loop va ?fl 0 (Suc n) ?v = (False, ?v)"
      using odd inv by (simp add: qos_vmm_map_def qos_vmm_map_as_def vmm_inv_def)
    then show ?thesis using odd n same by (auto simp: sys_mmap_def Let_def intro!: exI [of _ ?v])
  next
    case page
    have "?fl \<noteq> 0" by simp
    then obtain v' where v': "mmap_loop va ?fl 0 ?n ?v = (card (dom (cur_map ?v) \<union> pages va 0 ?n) \<le> 2048, v')"
      "if card (dom (cur_map ?v) \<union> pages va 0 ?n) \<le> 2048 then remaps (mapped ?fl (pages va 0 ?n) (cur_map ?v)) ?v v'
       else \<exists>c < ?n. remaps (unmapped (pages va 0 c) (cur_map ?v)) ?v v'"
      using mmap_loop_pages [OF inv page(3), of ?fl 0 ?n, unfolded add_0] by blast
    have "sys_mmap va len fl m k = (if card (dom (cur_map ?v) \<union> pages va 0 ?n) \<le> 2048 then sint va else -1, m, k\<lparr>k_vmm := v'\<rparr>)"
      using page v'(1) by (simp add: sys_mmap_def Let_def)
    then show ?thesis using page v'(2) by (auto simp: Let_def intro!: exI [of _ v'] split: if_splits intro: less_imp_le)
  qed
qed

theorem mmap_exact_witness:
  "vmm_inv (k_vmm idle_kernel) \<and>
   (\<exists>v'. sys_mmap 0x1000 0x2000 0 (\<lambda>_. 0) idle_kernel = (0x1000, \<lambda>_. 0, idle_kernel\<lparr>k_vmm := v'\<rparr>) \<and>
      cur_map v' 0x2000 = Some (0x2000, 1))"
proof -
  have inv: "vmm_inv (k_vmm idle_kernel)" "cur_map (k_vmm idle_kernel) = Map.empty"
    using vmm_inv_reset by (simp_all add: idle_kernel_def cur_map_def)
  have P: "pages 0x1000 0 (page_count 0x2000) = {0x1000, 0x2000}"
  proof -
    have "page_count 0x2000 = 2" "{0..<0 + 2 :: nat} = {0, 1}" by (auto simp: page_count_def)
    then show ?thesis unfolding pages_def by (simp only:) (simp add: page_at_def)
  qed
  show ?thesis
    using mmap_exact [OF inv(1), of "0x1000" "0x2000" 0 "\<lambda>_. 0"] inv by (auto simp: P remaps_def mapped_def Let_def)
qed

end
