(* ===== verification/Pending.thy ===== *)
theory Pending
  imports Sockinv
begin

text \<open>
  The connections that wait at a listening socket. The ring of three arrays with its head, tail and count is a
  bounded queue, so that connections are accepted in the order in which they were made.
\<close>

section \<open>Specification\<close>

type_synonym peer = "u16 \<times> u32 \<times> int"

definition pending_entry :: "sock \<Rightarrow> nat \<Rightarrow> peer" where
  "pending_entry q i = (s_q_rport q i, s_q_rip q i, s_q_conn_id q i)"

definition pending_list :: "nat \<Rightarrow> syscall \<Rightarrow> peer list" where
  "pending_list fd s = (let q = f_sock (g_fds s fd) in
     ring_list QOS_SOCK_PENDING_MAX (pending_entry q) (unat (s_pending_head q)) (unat (s_pending q)))"

definition listener :: "nat \<Rightarrow> syscall \<Rightarrow> bool" where
  "listener fd s \<longleftrightarrow> fd < QOS_FD_MAX \<and> sock_ok (f_sock (g_fds s fd))"

definition push_peer :: "nat \<Rightarrow> peer \<Rightarrow> syscall \<Rightarrow> int \<times> syscall" where
  "push_peer fd x s = (case x of (port, ip, conn) \<Rightarrow> socket_pending_push fd port ip conn s)"

text \<open>For the witness: a kernel whose descriptor 0 listens on port 8080, with two connections waiting.\<close>

definition waiting_sock :: sock where
  "waiting_sock = sock0\<lparr>s_bound := True, s_listening := True, s_type := QOS_SOCK_STREAM, s_lport := 8080, s_backlog := 4,
     s_pending := 2, s_pending_tail := 2, s_q_rport := (\<lambda>i. if i = 0 then 5000 else 6000), s_q_rip := (\<lambda>_. 7), s_q_conn_id := int\<rparr>"

definition waiting_kernel :: "nat kernel" where
  "waiting_kernel = idle_kernel\<lparr>k_sys := put_fd 0 (fd0\<lparr>f_used := True, f_kind := QOS_FD_KIND_SOCKET, f_sock := waiting_sock\<rparr>) qos_syscall_reset\<rparr>"

section \<open>Lemmas\<close>

lemma sock_put_sock [simp]: "f_sock (g_fds (put_sock fd q s) fd) = q"
  by (simp add: put_sock_def)

lemma put_sock_inject: "put_sock fd q s = put_sock fd q' s \<Longrightarrow> q = q'"
  by (metis sock_put_sock)

lemma listenerD:
  assumes "listener fd s"
  defines "q \<equiv> f_sock (g_fds s fd)"
  shows "fd < QOS_FD_MAX" "sock_ok q" "unat (s_pending_head q) < 16" "unat (s_pending q) \<le> 16"
    "unat (s_pending_tail q) = (unat (s_pending_head q) + unat (s_pending q)) mod 16"
  using assms by (auto simp: listener_def sock_ok_def pending_ok_def)

lemma length_pending: "length (pending_list fd s) = unat (s_pending (f_sock (g_fds s fd)))"
  by (simp add: pending_list_def Let_def)

lemma pending_push_entry:
  "pending_entry (q\<lparr>s_q_rport := (s_q_rport q)(t := pp), s_q_rip := (s_q_rip q)(t := ip), s_q_conn_id := (s_q_conn_id q)(t := c),
     s_pending_tail := x, s_pending := y\<rparr>) = (pending_entry q)(t := (pp, ip, c))"
  by (auto simp: pending_entry_def fun_eq_iff)

lemma pending_push_accept:
  assumes "listener fd s" "length (pending_list fd s) < 16"
  shows "\<exists>s'. push_peer fd x s = (0, s') \<and> listener fd s' \<and> pending_list fd s' = pending_list fd s @ [x]"
proof -
  obtain pp ip c where x: "x = (pp, ip, c)" by (cases x)
  let ?q = "f_sock (g_fds s fd)"
  note d = listenerD [OF assms(1)]
  have room: "unat (s_pending ?q) < 16" using assms(2) by (simp add: length_pending)
  let ?t = "unat (s_pending_tail ?q)"
  obtain q where q: "socket_pending_push fd pp ip c s = (0, put_sock fd q s)" "sock_ok ?q \<Longrightarrow> sock_ok q"
    by (rule pending_push_cases [OF d(1) room, where pp = pp and ip = ip and c = c]) (rule that)
  have "put_sock fd q s = put_sock fd (?q\<lparr>s_q_rport := (s_q_rport ?q)(?t := pp), s_q_rip := (s_q_rip ?q)(?t := ip),
      s_q_conn_id := (s_q_conn_id ?q)(?t := c), s_pending_tail := word_of_nat ((?t + 1) mod 16), s_pending := s_pending ?q + 1\<rparr>) s"
    using q(1) room d(1) by (simp add: socket_pending_push_def put_sock_def Let_def)
  then have q': "q = ?q\<lparr>s_q_rport := (s_q_rport ?q)(?t := pp), s_q_rip := (s_q_rip ?q)(?t := ip),
      s_q_conn_id := (s_q_conn_id ?q)(?t := c), s_pending_tail := word_of_nat ((?t + 1) mod 16), s_pending := s_pending ?q + 1\<rparr>"
    by (rule put_sock_inject)
  have n: "unat (s_pending ?q + 1) = Suc (unat (s_pending ?q))" using room by (simp add: unat_word_ariths)
  have "pending_list fd (put_sock fd q s) =
      ring_list 16 ((pending_entry ?q)(?t := x)) (unat (s_pending_head ?q)) (Suc (unat (s_pending ?q)))"
    unfolding pending_list_def sock_put_sock Let_def unfolding q' pending_push_entry x by (simp add: n)
  also have "\<dots> = pending_list fd s @ [x]"
    unfolding pending_list_def Let_def using room d(5) by (intro ring_list_push)
  finally show ?thesis using q d by (intro exI [of _ "put_sock fd q s"]) (simp add: push_peer_def x listener_def)
qed

lemma pending_pop_accept:
  assumes "listener fd s" "pending_list fd s = x # xs"
  shows "\<exists>s'. socket_pending_pop fd s = (Some x, s') \<and> listener fd s' \<and> pending_list fd s' = xs"
proof -
  let ?q = "f_sock (g_fds s fd)"
  let ?h = "unat (s_pending_head ?q)" and ?e = "pending_entry (f_sock (g_fds s fd))"
  note d = listenerD [OF assms(1)]
  have n: "unat (s_pending ?q) = Suc (length xs)" using arg_cong [OF assms(2), of length] by (simp add: length_pending)
  then have "s_pending ?q \<noteq> 0" by auto
  then obtain y q where q: "socket_pending_pop fd s = (Some y, put_sock fd q s)" "sock_ok ?q \<Longrightarrow> sock_ok q"
    by (rule pending_pop_cases [OF d(1)]) (rule that)
  have r: "x # xs = ?e ?h # ring_list 16 ?e ((?h + 1) mod 16) (length xs)"
    using assms(2) ring_list_pop [of 16 ?h ?e "length xs"] d(3) by (simp add: pending_list_def n Let_def)
  define k1 where "k1 = ?q\<lparr>s_q_rport := (s_q_rport ?q)(?h := 0), s_q_rip := (s_q_rip ?q)(?h := 0), s_q_conn_id := (s_q_conn_id ?q)(?h := -1),
    s_pending_head := word_of_nat ((?h + 1) mod 16), s_pending := s_pending ?q - 1\<rparr>"
  have "socket_pending_pop fd s = (Some (?e ?h), put_sock fd (if s_pending k1 = 0 then k1\<lparr>s_pending_head := 0, s_pending_tail := 0\<rparr> else k1) s)"
    using \<open>s_pending ?q \<noteq> 0\<close> d(1) by (simp add: socket_pending_pop_def put_sock_def pending_entry_def k1_def Let_def)
  then have y: "y = ?e ?h" and same: "put_sock fd q s = put_sock fd (if s_pending k1 = 0 then k1\<lparr>s_pending_head := 0, s_pending_tail := 0\<rparr> else k1) s"
    using q(1) by simp_all
  have q': "q = (if s_pending k1 = 0 then k1\<lparr>s_pending_head := 0, s_pending_tail := 0\<rparr> else k1)" using same by (rule put_sock_inject)
  have c: "unat (s_pending k1) = length xs" using n by (subst k1_def, simp, subst unat_sub) (simp_all add: word_le_nat_alt)
  have h: "unat (s_pending_head k1) = (?h + 1) mod 16"
    unfolding k1_def by (simp, rule unat_u8_of_nat) (rule order.strict_trans [of _ 16], simp_all)
  have "((?h + 1) mod 16 + j) mod 16 \<noteq> ?h" if "j < length xs" for j
    using mod_shift_other [of ?h 16 "Suc j"] that d(3,4) n by (simp add: mod_simps)
  then have "ring_list 16 (pending_entry k1) ((?h + 1) mod 16) (length xs) = ring_list 16 ?e ((?h + 1) mod 16) (length xs)"
    by (intro ring_list_cong) (simp add: k1_def pending_entry_def)
  then have "pending_list fd (put_sock fd q s) = xs"
    using r c h q' by (auto simp: pending_list_def Let_def unat_eq_zero)
  then show ?thesis using q d r y by (intro exI [of _ "put_sock fd q s"]) (simp add: listener_def)
qed

interpretation pend_fifo: bounded_fifo QOS_SOCK_PENDING_MAX "\<lambda>_. True" "push_peer fd" "socket_pending_pop fd" "pending_list fd" "listener fd" for fd
proof (unfold_locales, goal_cases)
  case 1
  then show ?case by (intro pending_push_accept)
next
  case (2 s x)
  then show ?case by (cases x) (simp add: push_peer_def socket_pending_push_def length_pending)
next
  case 3
  then show ?case by (rule pending_pop_accept)
next
  case (4 s)
  then have "s_pending (f_sock (g_fds s fd)) = 0" using length_pending [of fd s] by (simp add: unat_eq_0)
  then show ?case by (simp add: socket_pending_pop_def)
next
  case (5 s)
  then show ?case using listenerD(4) [OF 5] by (simp add: length_pending)
qed

section \<open>Properties\<close>

lemma pending_list_cong: "f_sock (g_fds s' fd) = f_sock (g_fds s fd) \<Longrightarrow> pending_list fd s' = pending_list fd s"
  by (simp add: pending_list_def)

lemma pending_list_put:
  "pending_list fd (put_sock fd ((f_sock (g_fds s fd))\<lparr>s_pending_rport := a, s_pending_rip := b, s_pending_conn_id := c\<rparr>) s) = pending_list fd s"
  by (simp add: pending_list_def pending_entry_def [abs_def] Let_def)

text \<open>
  C13. Connections are accepted in the order in which they were made. The connections that wait at a listening socket
  form a queue of at most 16, which the ring of the socket implements. When one waits and a descriptor is free, \<open>ACCEPT\<close> takes
  the oldest: it returns the lowest free descriptor, now a connected stream socket on the listener's port whose
  remote address and connection are those of the oldest one; the others keep waiting in their order.
\<close>

theorem accept_takes_oldest:
  assumes fd: "is_socket fd (k_sys k)" "s_listening (f_sock (g_fds (k_sys k) fd))" "sock_ok (f_sock (g_fds (k_sys k) fd))"
    and wait: "pending_list fd (k_sys k) = x # xs" and free: "find_free QOS_FD_MAX f_used (g_fds (k_sys k)) = Some new"
  shows "\<exists>m' k'. sys_accept fd a1 a2 m k = (int new, m', k') \<and> pending_list fd (k_sys k') = xs \<and>
    (let q = f_sock (g_fds (k_sys k') new) in s_connected q \<and> s_type q = QOS_SOCK_STREAM \<and>
       s_lport q = s_lport (f_sock (g_fds (k_sys k) fd)) \<and> (s_rport q, s_rip q, s_conn_id q) = x)"
proof -
  let ?s = "k_sys k" and ?q = "f_sock (g_fds (k_sys k) fd)"
  obtain pp ip c where x: "x = (pp, ip, c)" by (cases x)
  have ok: "fd < QOS_FD_MAX" "f_used (g_fds ?s fd)" "sock_ok ?q" using fd by (simp_all add: is_socket_def fd_valid_def)
  have type: "s_type ?q = QOS_SOCK_STREAM" using ok(3) fd(2) by (simp add: sock_ok_def)
  have new: "new < QOS_FD_MAX" "new \<noteq> fd" using find_free_Some [OF free] ok(2) by auto
  define s1 where "s1 = put_fd new (fd0\<lparr>f_used := True, f_kind := QOS_FD_KIND_SOCKET\<rparr>) ?s"
  have s1: "g_fds s1 fd = g_fds ?s fd" "fd_alloc QOS_FD_KIND_SOCKET ?s = (Some new, s1)"
    using new free by (simp_all add: s1_def fd_alloc_def)
  have "listener fd s1" using ok by (simp add: listener_def s1)
  moreover have "pending_list fd s1 = x # xs" using wait pending_list_cong [of s1 fd ?s] s1 by simp
  ultimately obtain s2 where s2: "socket_pending_pop fd s1 = (Some x, s2)" "pending_list fd s2 = xs"
    using pend_fifo.pop_accept [of fd s1 x xs] by blast
  have "s_pending ?q \<noteq> 0" using wait length_pending [of fd ?s] by auto
  obtain q1 where q1: "s2 = put_sock fd q1 s1" "same_binding ?q q1"
    using pending_pop_cases [OF ok(1), of s1] s2(1) s1(1) \<open>s_pending ?q \<noteq> 0\<close> by (metis prod.inject)
  let ?q2 = "(f_sock (g_fds s2 new))\<lparr>s_bound := True, s_connected := True, s_type := QOS_SOCK_STREAM,
    s_lport := s_lport (f_sock (g_fds s2 fd)), s_rport := pp, s_rip := ip, s_conn_id := c\<rparr>"
  define s3 where "s3 = put_sock new ?q2 s2"
  define s4 where "s4 = put_sock fd ((f_sock (g_fds s3 fd))\<lparr>s_pending_rport := pp, s_pending_rip := ip, s_pending_conn_id := c\<rparr>) s3"
  have eq: "sys_accept fd a1 a2 m k = (int new, accept_addr a1 a2 pp ip m, k\<lparr>k_sys := s4\<rparr>)"
    using fd type \<open>s_pending ?q \<noteq> 0\<close> s1(2) s2(1) by (simp add: sys_accept_def x s4_def s3_def Let_def)
  have "f_sock (g_fds s4 new) = ?q2" using new(2) by (simp add: s4_def s3_def put_sock_def)
  moreover have "pending_list fd s4 = xs"
    unfolding s4_def pending_list_put using new(2) s2(2) pending_list_cong [of s3 fd s2] by (simp add: s3_def put_sock_def)
  moreover have "s_lport (f_sock (g_fds s2 fd)) = s_lport ?q" using q1 by (simp add: same_binding_def)
  ultimately show ?thesis using eq by (simp add: x Let_def)
qed

theorem accept_takes_oldest_witness:
  "pending_list 0 (k_sys waiting_kernel) = [(5000, 7, 0), (6000, 7, 1)] \<and>
   (\<exists>m' k'. sys_accept 0 0 0 (\<lambda>_. 0) waiting_kernel = (1, m', k') \<and> pending_list 0 (k_sys k') = [(6000, 7, 1)] \<and>
      s_rport (f_sock (g_fds (k_sys k') 1)) = 5000)"
proof -
  let ?s = "k_sys waiting_kernel"
  have g: "g_fds ?s = (\<lambda>i. if i = 0 then fd0\<lparr>f_used := True, f_kind := QOS_FD_KIND_SOCKET, f_sock := waiting_sock\<rparr> else fd0)"
    by (auto simp: waiting_kernel_def qos_syscall_reset_def fun_eq_iff)
  have l: "pending_list 0 ?s = [(5000, 7, 0), (6000, 7, 1)]"
    by (simp add: pending_list_def pending_entry_def ring_list_def g waiting_sock_def sock0_def upt_rec)
  have "is_socket 0 ?s" "s_listening (f_sock (g_fds ?s 0))" by (simp_all add: is_socket_def fd_valid_def g waiting_sock_def)
  moreover have "sock_ok (f_sock (g_fds ?s 0))" by (simp add: g sock_ok_def pending_ok_def waiting_sock_def sock0_def)
  moreover have "find_free QOS_FD_MAX f_used (g_fds ?s) = Some 1" by (simp add: g find_free_def scan_Some_iff fd0_def)
  ultimately show ?thesis
    using accept_takes_oldest [OF _ _ _ l, of 1 0 0 "\<lambda>_. 0"] l by (auto simp: Let_def)
qed

end
