(* ===== verification/Sync.thy ===== *)
theory Sync
  imports Prelude
begin

text \<open>
  Spin locks, mutexes and semaphores of \<^verbatim>\<open>src/c-os/kernel/sync/sync.c\<close>. A pointer argument is \<open>None\<close>
  for the null pointer; the operations return the code and the object afterwards.

  \<open>__sync_lock_test_and_set\<close> and \<open>__sync_lock_release\<close> are the compiler's atomic exchange and atomic
  store of 0. \<open>qos_spin_lock\<close> may wait for ever; the argument \<open>env\<close> of its model gives what the other
  processors do to the lock before each attempt.

  The interface \<open>lock_contract\<close> states what a lock promises, its lemma is mutual exclusion of the
  holders in every interleaving of whole calls (\<open>lock_reach\<close>). The atomic exchange makes the calls
  on a spin lock whole. A mutex is read and written by plain accesses: \<open>mutex_access\<close> is one access
  of a running call and \<open>mutex_reach\<close> interleaves the accesses of several threads.
\<close>

section \<open>Model\<close>

record spinlock =
  sl_locked :: u32

record mutex =
  mx_locked :: u32
  mx_waiters :: u32

record semaphore =
  sem_val :: "32 word"
  sem_wait_n :: u32

subsection \<open>Spin locks\<close>

definition qos_spin_init :: "spinlock option \<Rightarrow> int \<times> spinlock option" where
  "qos_spin_init lock =
     (case lock of None \<Rightarrow> (-1, None) | Some l \<Rightarrow> (0, Some (l\<lparr>sl_locked := 0\<rparr>)))"

definition qos_spin_trylock :: "spinlock option \<Rightarrow> int \<times> spinlock option" where
  "qos_spin_trylock lock =
     (case lock of
        None \<Rightarrow> (-1, None)
      | Some l \<Rightarrow> (if sl_locked l = 0 then 0 else -1, Some (l\<lparr>sl_locked := 1\<rparr>)))"

text \<open>The loop of \<open>qos_spin_lock\<close>, attempt \<open>n\<close> onwards.\<close>

partial_function (option) spin_lock_loop ::
  "(nat \<Rightarrow> spinlock \<Rightarrow> spinlock) \<Rightarrow> nat \<Rightarrow> spinlock \<Rightarrow> (int \<times> spinlock) option" where
  "spin_lock_loop env n l =
     (let (r, l') = qos_spin_trylock (Some (env n l)) in
      if r = 0 then Some (0, the l') else spin_lock_loop env (Suc n) (the l'))"

declare spin_lock_loop.simps [code]

definition qos_spin_lock :: "(nat \<Rightarrow> spinlock \<Rightarrow> spinlock) \<Rightarrow> spinlock option \<Rightarrow> (int \<times> spinlock option) option" where
  "qos_spin_lock env lock =
     (case lock of
        None \<Rightarrow> Some (-1, None)
      | Some l \<Rightarrow> map_option (\<lambda>(r, l'). (r, Some l')) (spin_lock_loop env 0 l))"

definition qos_spin_unlock :: "spinlock option \<Rightarrow> int \<times> spinlock option" where
  "qos_spin_unlock lock =
     (case lock of
        None \<Rightarrow> (-1, None)
      | Some l \<Rightarrow> if sl_locked l = 0 then (-1, Some l) else (0, Some (l\<lparr>sl_locked := 0\<rparr>)))"

definition qos_spin_is_locked :: "spinlock option \<Rightarrow> int" where
  "qos_spin_is_locked lock =
     (case lock of None \<Rightarrow> -1 | Some l \<Rightarrow> if sl_locked l \<noteq> 0 then 1 else 0)"

subsection \<open>Mutexes\<close>

definition qos_mutex_init :: "mutex option \<Rightarrow> int \<times> mutex option" where
  "qos_mutex_init mutex =
     (case mutex of None \<Rightarrow> (-1, None) | Some m \<Rightarrow> (0, Some (m\<lparr>mx_locked := 0, mx_waiters := 0\<rparr>)))"

definition qos_mutex_lock :: "mutex option \<Rightarrow> int \<times> mutex option" where
  "qos_mutex_lock mutex =
     (case mutex of
        None \<Rightarrow> (-1, None)
      | Some m \<Rightarrow> if mx_locked m = 0 then (0, Some (m\<lparr>mx_locked := 1\<rparr>))
          else (-1, Some (m\<lparr>mx_waiters := mx_waiters m + 1\<rparr>)))"

definition qos_mutex_trylock :: "mutex option \<Rightarrow> int \<times> mutex option" where
  "qos_mutex_trylock mutex =
     (case mutex of
        None \<Rightarrow> (-1, None)
      | Some m \<Rightarrow> if mx_locked m = 0 then (0, Some (m\<lparr>mx_locked := 1\<rparr>)) else (-1, Some m))"

definition qos_mutex_unlock :: "mutex option \<Rightarrow> int \<times> mutex option" where
  "qos_mutex_unlock mutex =
     (case mutex of
        None \<Rightarrow> (-1, None)
      | Some m \<Rightarrow> if mx_locked m = 0 then (-1, Some m)
          else let m1 = (if mx_waiters m > 0 then m\<lparr>mx_waiters := mx_waiters m - 1\<rparr> else m) in
            (0, Some (m1\<lparr>mx_locked := 0\<rparr>)))"

text \<open>
  The three calls as sequences of accesses to the memory of the mutex. A value of \<open>mutex_pc\<close> says which
  access a thread makes next and which value it carries; \<open>Done r\<close> is a finished call that returned \<open>r\<close>.
\<close>

datatype mutex_pc =
    LockTest | LockSet | LockWait | LockCount u32
  | TryTest | TrySet
  | UnlockTest | UnlockWait | UnlockLoad | UnlockCount u32 | UnlockClear
  | Done int

fun mutex_access :: "mutex_pc \<Rightarrow> mutex \<Rightarrow> mutex_pc \<times> mutex" where
  "mutex_access LockTest m = (if mx_locked m = 0 then LockSet else LockWait, m)"
| "mutex_access LockSet m = (Done 0, m\<lparr>mx_locked := 1\<rparr>)"
| "mutex_access LockWait m = (LockCount (mx_waiters m), m)"
| "mutex_access (LockCount w) m = (Done (-1), m\<lparr>mx_waiters := w + 1\<rparr>)"
| "mutex_access TryTest m = (if mx_locked m = 0 then TrySet else Done (-1), m)"
| "mutex_access TrySet m = (Done 0, m\<lparr>mx_locked := 1\<rparr>)"
| "mutex_access UnlockTest m = (if mx_locked m = 0 then Done (-1) else UnlockWait, m)"
| "mutex_access UnlockWait m = (if mx_waiters m > 0 then UnlockLoad else UnlockClear, m)"
| "mutex_access UnlockLoad m = (UnlockCount (mx_waiters m), m)"
| "mutex_access (UnlockCount w) m = (UnlockClear, m\<lparr>mx_waiters := w - 1\<rparr>)"
| "mutex_access UnlockClear m = (Done 0, m\<lparr>mx_locked := 0\<rparr>)"
| "mutex_access (Done r) m = (Done r, m)"

text \<open>The accesses of a call with no other thread in between.\<close>

fun mutex_accesses :: "nat \<Rightarrow> mutex_pc \<Rightarrow> mutex \<Rightarrow> mutex_pc \<times> mutex" where
  "mutex_accesses 0 pc m = (pc, m)"
| "mutex_accesses (Suc n) pc m = (let (pc', m') = mutex_access pc m in mutex_accesses n pc' m')"

definition qos_mutex_waiters :: "mutex option \<Rightarrow> u32" where
  "qos_mutex_waiters mutex = (case mutex of None \<Rightarrow> 0 | Some m \<Rightarrow> mx_waiters m)"

definition qos_mutex_is_locked :: "mutex option \<Rightarrow> int" where
  "qos_mutex_is_locked mutex =
     (case mutex of None \<Rightarrow> -1 | Some m \<Rightarrow> if mx_locked m \<noteq> 0 then 1 else 0)"

subsection \<open>Semaphores\<close>

text \<open>The value is an \<open>int32_t\<close>: the comparisons are signed.\<close>

definition qos_sem_init :: "semaphore option \<Rightarrow> 32 word \<Rightarrow> int \<times> semaphore option" where
  "qos_sem_init sem initial =
     (case sem of
        None \<Rightarrow> (-1, None)
      | Some s \<Rightarrow> if sint initial < 0 then (-1, Some s)
          else (0, Some (s\<lparr>sem_val := initial, sem_wait_n := 0\<rparr>)))"

definition qos_sem_wait :: "semaphore option \<Rightarrow> int \<times> semaphore option" where
  "qos_sem_wait sem =
     (case sem of
        None \<Rightarrow> (-1, None)
      | Some s \<Rightarrow> if sint (sem_val s) > 0 then (0, Some (s\<lparr>sem_val := sem_val s - 1\<rparr>))
          else (-1, Some (s\<lparr>sem_wait_n := sem_wait_n s + 1\<rparr>)))"

definition qos_sem_post :: "semaphore option \<Rightarrow> int \<times> semaphore option" where
  "qos_sem_post sem =
     (case sem of
        None \<Rightarrow> (-1, None)
      | Some s \<Rightarrow> if sem_wait_n s > 0 then (1, Some (s\<lparr>sem_wait_n := sem_wait_n s - 1\<rparr>))
          else (0, Some (s\<lparr>sem_val := sem_val s + 1\<rparr>)))"

definition qos_sem_value :: "semaphore option \<Rightarrow> int" where
  "qos_sem_value sem = (case sem of None \<Rightarrow> -1 | Some s \<Rightarrow> sint (sem_val s))"

definition qos_sem_waiters :: "semaphore option \<Rightarrow> u32" where
  "qos_sem_waiters sem = (case sem of None \<Rightarrow> 0 | Some s \<Rightarrow> sem_wait_n s)"

section \<open>Specification\<close>

text \<open>
  The reachable states of a lock with the set of threads that hold it: a thread that does not hold
  it may try one of the acquiring operations \<open>tries\<close> and holds it when the code is 0; a holder may
  release it.
\<close>

inductive lock_reach :: "('l \<Rightarrow> int \<times> 'l) set \<Rightarrow> ('l \<Rightarrow> int \<times> 'l) \<Rightarrow> 'l \<Rightarrow> 'l \<Rightarrow> nat set \<Rightarrow> bool"
  for tries release l0 where
  start: "lock_reach tries release l0 l0 {}"
| acquire: "lock_reach tries release l0 l H \<Longrightarrow> t \<notin> H \<Longrightarrow> acq \<in> tries \<Longrightarrow> acq l = (r, l') \<Longrightarrow>
    lock_reach tries release l0 l' (if r = 0 then insert t H else H)"
| release: "lock_reach tries release l0 l H \<Longrightarrow> t \<in> H \<Longrightarrow> release l = (r, l') \<Longrightarrow>
    lock_reach tries release l0 l' (H - {t})"

text \<open>Between the test that found the mutex free and the store that takes it.\<close>

definition taking :: "mutex_pc \<Rightarrow> bool" where
  "taking pc \<longleftrightarrow> pc = LockSet \<or> pc = TrySet"

text \<open>The threads that hold the mutex after thread \<open>t\<close> made the access \<open>pc\<close>.\<close>

definition holders :: "mutex_pc \<Rightarrow> nat \<Rightarrow> nat set \<Rightarrow> nat set" where
  "holders pc t H = (if taking pc then insert t H else if pc = UnlockClear then H - {t} else H)"

text \<open>
  Threads call \<open>qos_mutex_lock\<close>, \<open>qos_mutex_trylock\<close> and, while they hold the mutex, \<open>qos_mutex_unlock\<close>; their
  accesses interleave. With \<open>whole\<close>, no thread makes an access while another one is between its test
  and its store.
\<close>

inductive mutex_reach :: "bool \<Rightarrow> mutex \<Rightarrow> mutex \<Rightarrow> (nat \<Rightarrow> mutex_pc) \<Rightarrow> nat set \<Rightarrow> bool" for whole m0 where
  start: "mutex_reach whole m0 m0 (\<lambda>_. Done 0) {}"
| call: "mutex_reach whole m0 m pc H \<Longrightarrow> pc t = Done r \<Longrightarrow> p = LockTest \<or> p = TryTest \<or> p = UnlockTest \<and> t \<in> H \<Longrightarrow>
    mutex_reach whole m0 m (pc(t := p)) H"
| access: "mutex_reach whole m0 m pc H \<Longrightarrow> (whole \<Longrightarrow> \<forall>u. u \<noteq> t \<longrightarrow> \<not> taking (pc u)) \<Longrightarrow>
    mutex_access (pc t) m = (p, m') \<Longrightarrow> mutex_reach whole m0 m' (pc(t := p)) (holders (pc t) t H)"

text \<open>What every such interleaving with \<open>whole\<close> keeps.\<close>

definition releasing :: "mutex_pc \<Rightarrow> bool" where
  "releasing pc \<longleftrightarrow> pc = UnlockTest \<or> pc = UnlockWait \<or> pc = UnlockLoad \<or> (\<exists>w. pc = UnlockCount w) \<or> pc = UnlockClear"

definition mutex_excl :: "mutex \<Rightarrow> (nat \<Rightarrow> mutex_pc) \<Rightarrow> nat set \<Rightarrow> bool" where
  "mutex_excl m pc H \<longleftrightarrow> (mx_locked m \<noteq> 0 \<and> (\<exists>t. H = {t}) \<or> mx_locked m = 0 \<and> H = {}) \<and>
     (\<forall>t. taking (pc t) \<longrightarrow> H = {} \<and> (\<forall>u. taking (pc u) \<longrightarrow> u = t)) \<and> (\<forall>t. releasing (pc t) \<longrightarrow> t \<in> H)"

text \<open>The operations on an object that is there.\<close>

definition on_some :: "('l option \<Rightarrow> int \<times> 'l option) \<Rightarrow> 'l \<Rightarrow> int \<times> 'l" where
  "on_some f l = map_prod id the (f (Some l))"

text \<open>The lock as attempt \<open>n\<close> of \<open>qos_spin_lock\<close> finds it when the attempts before failed.\<close>

fun spin_view :: "(nat \<Rightarrow> spinlock \<Rightarrow> spinlock) \<Rightarrow> nat \<Rightarrow> nat \<Rightarrow> spinlock \<Rightarrow> spinlock" where
  "spin_view env k 0 l = env k l"
| "spin_view env k (Suc n) l = spin_view env (Suc k) n ((env k l)\<lparr>sl_locked := 1\<rparr>)"

datatype sem_op = SemWait | SemPost

fun sem_step :: "sem_op \<Rightarrow> semaphore \<Rightarrow> int \<times> semaphore" where
  "sem_step SemWait s = on_some qos_sem_wait s"
| "sem_step SemPost s = on_some qos_sem_post s"

text \<open>A semaphore promises one signed balance: units available, or threads waiting if negative.\<close>

fun balance_step :: "sem_op \<Rightarrow> int \<Rightarrow> int \<times> int" where
  "balance_step SemWait b = (if b > 0 then 0 else -1, b - 1)"
| "balance_step SemPost b = (if b < 0 then 1 else 0, b + 1)"

definition sem_balance :: "semaphore \<Rightarrow> int" where
  "sem_balance s = sint (sem_val s) - uint (sem_wait_n s)"

text \<open>Never units and waiters at once, and room for \<open>k\<close> more operations in both counters.\<close>

definition sem_ok :: "nat \<Rightarrow> semaphore \<Rightarrow> bool" where
  "sem_ok k s \<longleftrightarrow> 0 \<le> sint (sem_val s) \<and> (sem_val s = 0 \<or> sem_wait_n s = 0) \<and>
     sint (sem_val s) + int k < 2 ^ 31 \<and> uint (sem_wait_n s) + int k < 2 ^ 31"

section \<open>Locks\<close>

locale lock_contract =
  fixes tries :: "('l \<Rightarrow> int \<times> 'l) set"
    and release :: "'l \<Rightarrow> int \<times> 'l"
    and held :: "'l \<Rightarrow> bool"
  assumes try_free: "acq \<in> tries \<Longrightarrow> \<not> held l \<Longrightarrow> fst (acq l) = 0 \<and> held (snd (acq l))"
    and try_held: "acq \<in> tries \<Longrightarrow> held l \<Longrightarrow> fst (acq l) \<noteq> 0 \<and> held (snd (acq l))"
    and release_held: "held l \<Longrightarrow> fst (release l) = 0 \<and> \<not> held (snd (release l))"
begin

lemma mutual_exclusion:
  assumes "lock_reach tries release l0 l H" "\<not> held l0"
  shows "(held l \<and> (\<exists>t. H = {t})) \<or> (\<not> held l \<and> H = {})"
  using assms
proof (induction rule: lock_reach.induct)
  case start
  then show ?case by simp
next
  case (acquire l H t acq r l')
  then show ?case using try_free [of acq l] try_held [of acq l] by (cases "held l") auto
next
  case (release l H t r l')
  then show ?case using release_held [of l] by auto
qed

end

interpretation spin: lock_contract "{on_some qos_spin_trylock}" "on_some qos_spin_unlock" "\<lambda>l. sl_locked l \<noteq> 0"
  by unfold_locales (auto simp: on_some_def qos_spin_trylock_def qos_spin_unlock_def)

lemmas mutex_pc_defs = taking_def releasing_def holders_def

text \<open>An access that neither takes nor clears the mutex leaves its word and goes on from what it found.\<close>

lemma mutex_access_other:
  assumes "\<not> taking pc" "pc \<noteq> UnlockClear" "mutex_access pc m = (p, m')"
  shows "mx_locked m' = mx_locked m" "holders pc t H = H" "taking p \<Longrightarrow> mx_locked m = 0" "releasing p \<Longrightarrow> releasing pc"
  using assms by (cases pc; auto simp: mutex_pc_defs split: if_splits)+

lemma mutex_excl_access:
  assumes inv: "mutex_excl m pc H" and alone: "\<And>u. u \<noteq> t \<Longrightarrow> \<not> taking (pc u)" and step: "mutex_access (pc t) m = (p, m')"
  shows "mutex_excl m' (pc(t := p)) (holders (pc t) t H)"
proof -
  have held: "releasing (pc u) \<Longrightarrow> u \<in> H" for u using inv by (simp add: mutex_excl_def)
  consider "taking (pc t)" | "pc t = UnlockClear" | "\<not> taking (pc t)" "pc t \<noteq> UnlockClear" by blast
  then show ?thesis
  proof cases
    case 1
    then have "H = {}" using inv by (simp add: mutex_excl_def)
    moreover have "p = Done 0" "mx_locked m' = 1" "holders (pc t) t H = insert t H"
      using 1 step by (auto simp: taking_def holders_def)
    ultimately show ?thesis
      using alone held by (auto simp: mutex_excl_def taking_def [of "Done 0"] releasing_def [of "Done 0"])
  next
    case 2
    then have "t \<in> H" by (intro held) (simp add: releasing_def)
    then have "H = {t}" using inv by (auto simp: mutex_excl_def)
    moreover have "p = Done 0" "mx_locked m' = 0" "holders (pc t) t H = H - {t}"
      using 2 step by (auto simp: holders_def taking_def)
    ultimately show ?thesis
      using alone held by (fastforce simp: mutex_excl_def taking_def [of "Done 0"] releasing_def [of "Done 0"])
  next
    case 3
    note o = mutex_access_other [OF 3 step]
    have "H = {} \<longleftrightarrow> mx_locked m = 0" using inv by (auto simp: mutex_excl_def)
    then show ?thesis using inv alone held o unfolding mutex_excl_def o(1,2) by (metis fun_upd_apply)
  qed
qed

lemma mutex_excl_reach:
  assumes "mutex_reach True m0 m pc H" "mx_locked m0 = 0"
  shows "mutex_excl m pc H"
  using assms
proof (induction rule: mutex_reach.induct)
  case start
  then show ?case by (simp add: mutex_excl_def mutex_pc_defs)
next
  case (call m pc H t r p)
  then show ?case by (auto simp: mutex_excl_def mutex_pc_defs)
next
  case (access m pc H t p m')
  then show ?case using mutex_excl_access [of m pc H t p m'] by blast
qed

text \<open>Two threads test the mutex before either stores.\<close>

lemma mutex_race:
  assumes "mx_locked m0 = 0"
  shows "\<exists>m pc. mutex_reach False m0 m pc {1, 2} \<and> pc 1 = Done 0 \<and> pc 2 = Done 0"
proof -
  let ?R = "mutex_reach False m0" and ?pc = "(\<lambda>_. Done 0)(1 := LockTest, 2 := LockTest) :: nat \<Rightarrow> mutex_pc"
  have step: "?R m' (pc(t := p)) (holders (pc t) t H)" if "?R m pc H" "mutex_access (pc t) m = (p, m')" for m pc H t p m'
    using that by (intro mutex_reach.access) auto
  have "?R m0 ?pc {}" by (intro mutex_reach.call [where r = 0] mutex_reach.start) auto
  from step [OF this, of 1 LockSet m0] have "?R m0 (?pc(1 := LockSet)) {}" using assms by (simp add: mutex_pc_defs)
  from step [OF this, of 2 LockSet m0] have "?R m0 (?pc(1 := LockSet, 2 := LockSet)) {}" using assms by (simp add: mutex_pc_defs)
  from step [OF this, of 1 "Done 0" "m0\<lparr>mx_locked := 1\<rparr>"]
  have "?R (m0\<lparr>mx_locked := 1\<rparr>) (?pc(1 := LockSet, 2 := LockSet, 1 := Done 0)) {1}" by (simp add: mutex_pc_defs)
  from step [OF this, of 2 "Done 0" "m0\<lparr>mx_locked := 1\<rparr>"]
  have "?R (m0\<lparr>mx_locked := 1\<rparr>) (?pc(1 := Done 0, 2 := Done 0)) {1, 2}" by (simp add: mutex_pc_defs insert_commute)
  then show ?thesis by (intro exI [of _ "m0\<lparr>mx_locked := 1\<rparr>"] exI [of _ "?pc(1 := Done 0, 2 := Done 0)"]) simp
qed

text \<open>A call that no other thread interrupts is the function of the model.\<close>

lemma mutex_accesses_alone:
  "mutex_accesses 3 LockTest m = map_prod Done id (on_some qos_mutex_lock m)"
  "mutex_accesses 2 TryTest m = map_prod Done id (on_some qos_mutex_trylock m)"
  "mutex_accesses 5 UnlockTest m = map_prod Done id (on_some qos_mutex_unlock m)"
  by (simp_all add: numeral_eq_Suc on_some_def qos_mutex_lock_def qos_mutex_trylock_def qos_mutex_unlock_def Let_def)

lemma spin_lock_loop_step:
  "spin_lock_loop env n l =
     (if sl_locked (env n l) = 0 then Some (0, (env n l)\<lparr>sl_locked := 1\<rparr>)
      else spin_lock_loop env (Suc n) ((env n l)\<lparr>sl_locked := 1\<rparr>))"
  by (subst spin_lock_loop.simps) (simp add: qos_spin_trylock_def)

lemma spin_lock_loop_returns:
  "sl_locked (spin_view env k n l) = 0 \<Longrightarrow> \<exists>l'. spin_lock_loop env k l = Some (0, l') \<and> sl_locked l' = 1"
proof (induction n arbitrary: k l)
  case 0
  then show ?case by (subst spin_lock_loop_step) simp
next
  case (Suc n)
  then show ?case by (cases "sl_locked (env k l) = 0") (subst spin_lock_loop_step, simp)+
qed

lemma spin_lock_loop_view:
  assumes "spin_lock_loop env k l = Some y"
  shows "\<exists>n. sl_locked (spin_view env k n l) = 0"
proof (rule spin_lock_loop.raw_induct [where P = "\<lambda>env k l _. \<exists>n. sl_locked (spin_view env k n l) = 0",
      OF _ assms])
  fix loop env k l y
  assume IH: "\<And>env k l y. loop env k l = Some y \<Longrightarrow> \<exists>n. sl_locked (spin_view env k n l) = 0"
    and eq: "(let (r, l') = qos_spin_trylock (Some (env k l)) in
      if r = 0 then Some (0, the l') else loop env (Suc k) (the l')) = Some y"
  show "\<exists>n. sl_locked (spin_view env k n l) = 0"
  proof (cases "sl_locked (env k l) = 0")
    case True
    then show ?thesis by (intro exI [of _ 0]) simp
  next
    case False
    then have "loop env (Suc k) ((env k l)\<lparr>sl_locked := 1\<rparr>) = Some y"
      using eq by (simp add: qos_spin_trylock_def)
    from IH [OF this] obtain n where "sl_locked (spin_view env (Suc k) n ((env k l)\<lparr>sl_locked := 1\<rparr>)) = 0" ..
    then show ?thesis by (intro exI [of _ "Suc n"]) simp
  qed
qed

section \<open>Semaphores\<close>

lemma sint_pred: "0 < sint (v :: 32 word) \<Longrightarrow> sint (v - 1) = sint v - 1"
  using sint_lt [of v] by (simp add: sint_word_ariths signed_take_bit_int_eq_self)

lemma sint_succ: "0 \<le> sint (v :: 32 word) \<Longrightarrow> sint v + 1 < 2 ^ 31 \<Longrightarrow> sint (v + 1) = sint v + 1"
  by (simp add: sint_word_ariths signed_take_bit_int_eq_self)

lemma uint_succ32: "uint (v :: u32) + 1 < 2 ^ 31 \<Longrightarrow> uint (v + 1) = uint v + 1"
  by (simp add: uint_word_ariths)

lemma uint_pred32: "(v :: u32) \<noteq> 0 \<Longrightarrow> uint (v - 1) = uint v - 1"
  using uint_lt2p [of v] uint_minus_simple_alt [of 1 v] by (simp add: word_le_def word_neq_0_conv word_less_def)

lemma sem_wait_ok:
  assumes ok: "sem_ok (Suc k) s"
  shows "sem_step SemWait s = (fst (balance_step SemWait (sem_balance s)), snd (sem_step SemWait s)) \<and>
    sem_balance (snd (sem_step SemWait s)) = sem_balance s - 1 \<and> sem_ok k (snd (sem_step SemWait s))"
proof (cases "0 < sint (sem_val s)")
  case True
  then have "sem_wait_n s = 0" using ok by (auto simp: sem_ok_def)
  with True ok sint_pred [OF True] show ?thesis
    by (simp add: sem_ok_def sem_balance_def on_some_def qos_sem_wait_def)
next
  case False
  then have v: "sint (sem_val s) = 0" using ok by (simp add: sem_ok_def)
  then have "sem_val s = 0" by (simp add: signed_eq_0_iff)
  with False ok uint_succ32 [of "sem_wait_n s"] show ?thesis
    by (simp add: sem_ok_def sem_balance_def on_some_def qos_sem_wait_def)
qed

lemma sem_post_ok:
  assumes ok: "sem_ok (Suc k) s"
  shows "sem_step SemPost s = (fst (balance_step SemPost (sem_balance s)), snd (sem_step SemPost s)) \<and>
    sem_balance (snd (sem_step SemPost s)) = sem_balance s + 1 \<and> sem_ok k (snd (sem_step SemPost s))"
proof (cases "sem_wait_n s = 0")
  case True
  with ok sint_succ [of "sem_val s"] show ?thesis
    by (simp add: sem_ok_def sem_balance_def on_some_def qos_sem_post_def)
next
  case False
  then have "0 < sem_wait_n s" by (simp add: word_gt_0)
  then have "sem_val s = 0" "0 < uint (sem_wait_n s)" using ok False by (auto simp: sem_ok_def word_less_def)
  with False ok uint_pred32 [OF False] show ?thesis
    by (simp add: sem_ok_def sem_balance_def on_some_def qos_sem_post_def word_gt_0)
qed

lemma sem_step_ok:
  assumes "sem_ok (Suc k) s"
  shows "fst (sem_step x s) = fst (balance_step x (sem_balance s))"
    "sem_balance (snd (sem_step x s)) = snd (balance_step x (sem_balance s))"
    "sem_ok k (snd (sem_step x s))"
proof -
  show "fst (sem_step x s) = fst (balance_step x (sem_balance s))"
    using sem_wait_ok [OF assms] sem_post_ok [OF assms] by (cases x) (metis fst_conv)+
  show "sem_balance (snd (sem_step x s)) = snd (balance_step x (sem_balance s))" "sem_ok k (snd (sem_step x s))"
    using sem_wait_ok [OF assms] sem_post_ok [OF assms] by (cases x; simp)+
qed

lemma sem_run_ok:
  "sem_ok (length xs + k) s \<Longrightarrow> fst (run_ops sem_step xs s) = fst (run_ops balance_step xs (sem_balance s)) \<and>
    sem_balance (snd (run_ops sem_step xs s)) = snd (run_ops balance_step xs (sem_balance s)) \<and>
    sem_ok k (snd (run_ops sem_step xs s))"
proof (induction xs arbitrary: s)
  case (Cons x xs)
  then show ?case
    using sem_step_ok [of "length xs + k" s x] Cons.IH [of "snd (sem_step x s)"]
    by (simp add: split_beta Let_def)
qed simp

section \<open>Properties\<close>

text \<open>
  C22. Spin locks exclude each other. In every interleaving of \<open>qos_spin_trylock\<close> and, by holders,
  \<open>qos_spin_unlock\<close> calls on an initialised lock, at most one thread holds the lock, and the lock
  word is non-zero exactly when some thread holds it.
\<close>

theorem spin_mutual_exclusion:
  assumes "qos_spin_init (Some l0') = (0, Some l0)"
    and "lock_reach {on_some qos_spin_trylock} (on_some qos_spin_unlock) l0 l H"
  shows "(qos_spin_is_locked (Some l) = 1 \<and> (\<exists>t. H = {t})) \<or> (qos_spin_is_locked (Some l) = 0 \<and> H = {})"
proof -
  have "\<not> sl_locked l0 \<noteq> 0" using assms(1) by (auto simp: qos_spin_init_def)
  from spin.mutual_exclusion [OF assms(2) this] show ?thesis by (auto simp: qos_spin_is_locked_def)
qed

theorem spin_mutual_exclusion_witness:
  "lock_reach {on_some qos_spin_trylock} (on_some qos_spin_unlock) \<lparr>sl_locked = 0\<rparr> \<lparr>sl_locked = 1\<rparr> {7} \<and>
   qos_spin_is_locked (Some \<lparr>sl_locked = 1\<rparr>) = 1"
proof -
  let ?R = "lock_reach {on_some qos_spin_trylock} (on_some qos_spin_unlock) \<lparr>sl_locked = 0\<rparr>"
  have "?R \<lparr>sl_locked = 1\<rparr> (if 0 = (0 :: int) then insert 7 {} else {})"
    by (rule lock_reach.acquire [OF lock_reach.start, where acq = "on_some qos_spin_trylock"])
      (simp_all add: on_some_def qos_spin_trylock_def)
  then have "?R \<lparr>sl_locked = 1\<rparr> (if (-1) = (0 :: int) then insert 8 {7} else {7})"
    by (intro lock_reach.acquire [where acq = "on_some qos_spin_trylock" and l = "\<lparr>sl_locked = 1\<rparr>"])
      (simp_all add: on_some_def qos_spin_trylock_def)
  then have r: "?R \<lparr>sl_locked = 1\<rparr> {7}" by simp
  have "qos_spin_init (Some \<lparr>sl_locked = 5\<rparr>) = (0, Some \<lparr>sl_locked = 0\<rparr>)" by (simp add: qos_spin_init_def)
  from spin_mutual_exclusion [OF this r] r show ?thesis by simp
qed

text \<open>
  C23. \<open>qos_spin_lock\<close> waits exactly as long as it must. Whatever the other processors do to the lock
  between the attempts, the call returns if and only if some attempt finds the lock free, and then
  it returns 0 with the lock taken.
\<close>

theorem spin_lock_returns:
  "((\<exists>y. qos_spin_lock env (Some l) = Some y) \<longleftrightarrow> (\<exists>n. sl_locked (spin_view env 0 n l) = 0)) \<and>
   (\<forall>r l'. qos_spin_lock env (Some l) = Some (r, l') \<longrightarrow> r = 0 \<and> qos_spin_is_locked l' = 1)"
proof -
  have "\<exists>l'. spin_lock_loop env 0 l = Some (0, l') \<and> sl_locked l' = 1" if "spin_lock_loop env 0 l = Some y" for y
    using spin_lock_loop_view [OF that] spin_lock_loop_returns by blast
  then show ?thesis
    using spin_lock_loop_returns [of env 0 _ l] spin_lock_loop_view [of env 0 l]
    by (fastforce simp: qos_spin_lock_def qos_spin_is_locked_def)
qed

theorem spin_lock_returns_witness:
  "\<exists>y. qos_spin_lock (\<lambda>n l. if n = 2 then l\<lparr>sl_locked := 0\<rparr> else l) (Some \<lparr>sl_locked = 1\<rparr>) = Some y"
proof -
  have "sl_locked (spin_view (\<lambda>n l. if n = 2 then l\<lparr>sl_locked := 0\<rparr> else l) 0 2 \<lparr>sl_locked = 1\<rparr>) = 0"
    by (simp add: numeral_2_eq_2)
  then show ?thesis using spin_lock_returns by blast
qed

text \<open>
  C24. What a mutex excludes. The accesses of a call that no other thread interrupts are the functions
  \<open>qos_mutex_lock\<close>, \<open>qos_mutex_trylock\<close> and \<open>qos_mutex_unlock\<close>. In every interleaving of the single accesses
  of such calls by any number of threads, with an unlock by holders only and no access of another
  thread between a test that finds the mutex free and the store that takes it, at most one thread
  holds an initialised mutex, and the word is non-zero exactly when one does. Without that condition the
  exclusion fails: test and store are separate accesses in the code, and two threads that both test
  before either stores both return 0 and both hold the mutex.
\<close>

theorem mutex_exclusion:
  assumes "qos_mutex_init (Some m0') = (0, Some m0)"
  shows "(\<forall>m. mutex_accesses 3 LockTest m = map_prod Done id (on_some qos_mutex_lock m) \<and>
      mutex_accesses 2 TryTest m = map_prod Done id (on_some qos_mutex_trylock m) \<and>
      mutex_accesses 5 UnlockTest m = map_prod Done id (on_some qos_mutex_unlock m)) \<and>
    (\<forall>m pc H. mutex_reach True m0 m pc H \<longrightarrow>
      (qos_mutex_is_locked (Some m) = 1 \<and> (\<exists>t. H = {t})) \<or> (qos_mutex_is_locked (Some m) = 0 \<and> H = {})) \<and>
    (\<exists>m pc. mutex_reach False m0 m pc {1, 2} \<and> pc 1 = Done 0 \<and> pc 2 = Done 0)"
proof -
  have z: "mx_locked m0 = 0" using assms by (auto simp: qos_mutex_init_def)
  have "(qos_mutex_is_locked (Some m) = 1 \<and> (\<exists>t. H = {t})) \<or> (qos_mutex_is_locked (Some m) = 0 \<and> H = {})"
    if "mutex_reach True m0 m pc H" for m pc H
    using mutex_excl_reach [OF that z] by (auto simp: mutex_excl_def qos_mutex_is_locked_def)
  then show ?thesis using mutex_race [OF z] mutex_accesses_alone by blast
qed

text \<open>Thread 7 takes the mutex with all its accesses; thread 8 is refused.\<close>

theorem mutex_exclusion_witness:
  "\<exists>m pc. mutex_reach True \<lparr>mx_locked = 0, mx_waiters = 0\<rparr> m pc {7} \<and> pc 8 = Done (-1) \<and> qos_mutex_is_locked (Some m) = 1"
proof -
  let ?init = "\<lparr>mx_locked = 0, mx_waiters = 0\<rparr>" and ?held = "\<lparr>mx_locked = 1, mx_waiters = 0\<rparr>"
  let ?R = "mutex_reach True ?init" and ?pc = "(\<lambda>_. Done 0)(7 := LockTest, 8 := TryTest) :: nat \<Rightarrow> mutex_pc"
  have step: "?R m' (pc(t := p)) (holders (pc t) t H)"
    if "?R m pc H" "mutex_access (pc t) m = (p, m')" "\<And>u. u \<noteq> t \<Longrightarrow> \<not> taking (pc u)" for m pc H t p m'
    using that by (intro mutex_reach.access) auto
  have "?R ?init ?pc {}" by (intro mutex_reach.call [where r = 0] mutex_reach.start) auto
  from step [OF this, of 7 LockSet ?init] have "?R ?init (?pc(7 := LockSet)) {}" by (simp add: mutex_pc_defs)
  from step [OF this, of 7 "Done 0" ?held] have "?R ?held (?pc(7 := Done 0)) {7}" by (simp add: mutex_pc_defs)
  from step [OF this, of 8 "Done (-1)" ?held]
  have r: "?R ?held (?pc(7 := Done 0, 8 := Done (-1))) {7}" by (simp add: mutex_pc_defs)
  have i: "qos_mutex_init (Some \<lparr>mx_locked = 3, mx_waiters = 5\<rparr>) = (0, Some ?init)" by (simp add: qos_mutex_init_def)
  have "(qos_mutex_is_locked (Some ?held) = 1 \<and> (\<exists>t. {7 :: nat} = {t})) \<or> (qos_mutex_is_locked (Some ?held) = 0 \<and> {7 :: nat} = {})"
    using mutex_exclusion [OF i] r by blast
  then show ?thesis using r by (intro exI [of _ ?held] exI [of _ "?pc(7 := Done 0, 8 := Done (-1))"]) simp
qed

text \<open>
  C25. Semaphores conserve units. From an initialised semaphore, any sequence of waits and posts
  short enough not to overflow the counters returns the codes of a single signed balance that a
  wait lowers and a post raises: a wait succeeds exactly when the balance is positive, a post wakes a
  waiter exactly when it is negative, value minus waiters is the balance, and one of the two is 0.
\<close>

theorem sem_conservation:
  assumes "qos_sem_init (Some s0) n = (0, Some s)" "sint n + int (length xs) < 2 ^ 31"
  shows "fst (run_ops sem_step xs s) = fst (run_ops balance_step xs (sint n)) \<and>
    (let s' = snd (run_ops sem_step xs s) in
     qos_sem_value (Some s') - uint (qos_sem_waiters (Some s')) = snd (run_ops balance_step xs (sint n)) \<and>
     0 \<le> qos_sem_value (Some s') \<and> (qos_sem_value (Some s') = 0 \<or> qos_sem_waiters (Some s') = 0))"
proof -
  have s: "sem_val s = n" "sem_wait_n s = 0" "0 \<le> sint n"
    using assms(1) by (auto simp: qos_sem_init_def split: if_splits)
  then have "sem_ok (length xs + 0) s" "sem_balance s = sint n"
    using assms(2) by (simp_all add: sem_ok_def sem_balance_def)
  with sem_run_ok [of xs 0 s] show ?thesis
    by (auto simp: Let_def qos_sem_value_def qos_sem_waiters_def sem_balance_def sem_ok_def)
qed

theorem sem_conservation_witness:
  "\<exists>s. qos_sem_init (Some \<lparr>sem_val = 0, sem_wait_n = 0\<rparr>) 1 = (0, Some s) \<and>
     fst (run_ops sem_step [SemWait, SemWait, SemPost, SemPost, SemWait] s) = [0, -1, 1, 0, 0]"
proof -
  have i: "qos_sem_init (Some \<lparr>sem_val = 0, sem_wait_n = 0\<rparr>) 1 = (0, Some \<lparr>sem_val = 1, sem_wait_n = 0\<rparr>)"
    by (simp add: qos_sem_init_def)
  from sem_conservation [OF i, of "[SemWait, SemWait, SemPost, SemPost, SemWait]"] i show ?thesis
    by simp
qed

end
