(* ===== verification/Spec2Isabelle.thy ===== *)
theory Spec2Isabelle
  imports Failure Fileio Mapcall Pending Sync
begin

text \<open>
  Verification of the qos kernel (the C system under \<^verbatim>\<open>src/c-os/kernel\<close>).

  \<^bold>\<open>The program.\<close> \<open>qos_kernel_entry\<close> (\<^verbatim>\<open>kernel.c\<close>) validates the boot information, builds the pool of
  physical pages and initialises the components in turn. After that user programs act through
  \<open>qos_syscall_dispatch\<close> (\<^verbatim>\<open>syscall/syscall.c\<close>), which looks up the number of the call in a table of
  registered operations and runs one branch per operation over the tables of descriptors, files, pipes,
  sockets, libraries and modules and over the components: paths (\<^verbatim>\<open>fs/vfs.c\<close>), processes and signals
  (\<^verbatim>\<open>proc/proc.c\<close>), the scheduler (\<^verbatim>\<open>sched/sched.c\<close>), memory (\<^verbatim>\<open>mm/mm.c\<close>), the network stack (\<^verbatim>\<open>net/net.c\<close>) and
  drivers (\<^verbatim>\<open>drivers/drivers.c\<close>). Work outside system calls is deferred: timers (\<^verbatim>\<open>timer/timer.c\<close>), a work
  queue (\<^verbatim>\<open>workqueue/workqueue.c\<close>), polled receivers (\<^verbatim>\<open>net/napi.c\<close>) and kernel threads
  (\<^verbatim>\<open>kthread/kthread.c\<close>), served by the software interrupts of \<^verbatim>\<open>irq/softirq.c\<close>. Locks are in \<^verbatim>\<open>sync/sync.c\<close>.

  \<^bold>\<open>Conventions.\<close> A C array is a function from indices (\<open>'a arr\<close>) and every access is guarded by the
  bound the code checks; machine integers are words of their width, so arithmetic wraps where the code's does;
  parallel arrays of the source with one index are one array of records. An operation takes the state of its
  component and returns its result and the new state; -1 is failure as in the code. A pointer argument is
  \<open>None\<close> for null; a function pointer is an address, and the code behind it is an argument of the definitions
  that call it. User memory is a function from addresses to bytes; a system call returns its code,
  the memory and the kernel (\<open>'w sysret\<close>). \<open>'w\<close> is the state of the world outside the kernel.

  \<^bold>\<open>Theories.\<close>
  \<^item> \<open>Prelude\<close>: words, slots, rings, searches through tables, runs of operations, and the interfaces
    \<open>simulation\<close> (a state machine implements another), \<open>bounded_fifo\<close> and \<open>bounded_registry\<close>; the components
    below interpret them on their own operations.
  \<^item> \<open>Boot\<close>, \<open>Pmm\<close>, \<open>Vmm\<close> (\<^verbatim>\<open>boot/boot_info.h\<close>, \<^verbatim>\<open>mm/mm.c\<close>): validation of the boot information; the page pool, which
    refines a set of free frames and is described exactly after start-up; the mapping tables, which refine
    one partial map per address space.
  \<^item> \<open>Sched\<close>, \<open>Vfs\<close>, \<open>Drivers\<close>: the four-level scheduler refines queues and gives turns round robin; the path
    table refines a bounded set; the registry refines a map with ring indices inside the rings.
  \<^item> \<open>Sync\<close>: spin locks exclude each other in every interleaving and wait exactly as long as they must; the
    mutex is modelled down to its single memory accesses, with the condition under which it excludes and the
    interleaving in which it does not; semaphores conserve units.
  \<^item> \<open>Softirq\<close>, \<open>Timer\<close>, \<open>Workqueue\<close>, \<open>Napi\<close>, \<open>Kthread\<close>: one record (\<open>'w deferred\<close>) of the five components' static
    variables, the operations of each and what its handler does. \<open>Interface\<close>: what outside code can do through
    their functions (\<open>iface\<close>), and that handlers keep the invariant \<open>deferred_inv\<close> whatever such code does while
    it is called. \<open>Deferred\<close>: the reachable states (\<open>dstep\<close>, \<open>reach\<close>), when \<open>qos_softirq_run\<close> returns, and
    that no scheduled receiver is forgotten.
  \<^item> \<open>Proc\<close>, \<open>Procmap\<close>, \<open>Signals\<close> (\<^verbatim>\<open>proc/proc.c\<close>): the slot table of processes with their signal state refines
    a finite map; signal delivery, wait.
  \<^item> \<open>Net\<close>, \<open>Udp\<close>, \<open>Tcp\<close> (\<^verbatim>\<open>net/net.c\<close>): packet ring, ARP cache, routing and ICMP; ports and datagrams; connections with
    retries and timeouts. The refinements include the leaks of datagram cells and connection slots.
  \<^item> \<open>Elf\<close>: the ELF reader of \<^verbatim>\<open>syscall.c\<close>, reads outside the buffer being \<open>None\<close>, equals a description in
    unbounded arithmetic. \<open>Fdtable\<close>, \<open>Resources\<close>, \<open>Shlib\<close>, \<open>Kstate\<close>, \<open>Procfs\<close>, \<open>Sockcall\<close>, \<open>Filecall\<close>, \<open>Syscall\<close>: the tables of
    the system call layer, what a descriptor holds, libraries and modules, the record \<open>'w kernel\<close>
    of all components, the text of the files under \<open>/proc\<close>, one definition \<open>sys_\<dots>\<close> per branch of the dispatcher, and
    the dispatcher. \<open>Kernel\<close>: reset, entry and status of \<^verbatim>\<open>kernel.c\<close> and \<^verbatim>\<open>init_state.c\<close>.
  \<^item> \<open>Holding\<close>, \<open>Sockinv\<close>, \<open>Fileinv\<close>, \<open>Libinv\<close>, \<open>Kinv\<close>: the invariant of the kernel, branch by branch, the
    states the kernel reaches (\<open>kreach\<close>), the main theorem that the invariant holds in all of them, and the
    exact outcome of a start. \<open>Failure\<close>: a failed call has no effect. \<open>Fileio\<close>, \<open>Pending\<close>, \<open>Mapcall\<close>: files as
    byte sequences, pipes as byte queues, ACCEPT on the queue of waiting connections, MMAP and its rollback.

  \<^bold>\<open>Bounds and fuel.\<close> No definition has fuel. Loops over tables are structural or have a measure. Four
  loops may run for ever in the code and are partial functions whose value is \<open>None\<close> then: waiting for a spin lock, the
  catch-up of a periodic timer, the loop of the work queue and the loop of the software interrupts; for each
  it is proved when it returns. Table sizes are those of the source's constants. Time is a 64-bit count of
  ticks: statements about timers say how far it must be from wrapping around.

  \<^bold>\<open>Outside code.\<close> Callbacks of timers, work functions, polls, thread entries and handlers of other
  interrupts are parameters. The invariant needs of them that they touch the static variables of the
  deferred-work components through these components' functions, and that while they are called they do not tick
  the clock, run the software interrupts, reset the components or replace the kernel's three handlers
  (a tick during the callback of a periodic timer can leave that timer marked for ever, see
  \<open>tick_while_serving_stalls\<close>). Termination needs in addition that they do not feed themselves without end
  (\<open>drains\<close>). Each property states the conditions it has. The bytes of the kernel stack that READ on \<open>/proc\<close> can copy
  are a parameter, too.

  \<^bold>\<open>Not modelled.\<close> The C library and the user programs (\<^verbatim>\<open>src/c-os/libc\<close>, \<^verbatim>\<open>src/c-os/userspace\<close>): text processing,
  terminal and host input and output around the system calls, which are modelled on the kernel side.
  \<^verbatim>\<open>src/c-os/boot\<close> and \<^verbatim>\<open>src/c-os/kernel/arch\<close> hold no code but the header of the boot information. The Rust system
  (\<^verbatim>\<open>src/rust-os\<close>) is a second implementation. The Linux and xv6 trees, patches, tools, emulator files, tests,
  scripts and documents are not part of the kernel. Of the kernel itself, weak symbols are taken as linked (the
  tests for a missing function are not modelled), the semaphore calls are taken as whole, and the memory
  model is sequentially consistent.
\<close>

end
